(* ===== verification/Prelude.thy ===== *)
theory Prelude
  imports Main "HOL-Library.Word"
begin

text \<open>
  Shared vocabulary of the development: machine integers, the C++ exceptions the library
  throws, the state-and-exception monad every stateful operation lives in, the memory
  primitives (\<open>memcpy\<close>, slices of an array) and the generic list lemmas the component
  theories rely on.
\<close>

unbundle bit_operations_syntax

named_theorems monad_simps \<open>unfolding rules of the state-and-exception monad\<close>
named_theorems wire_simps \<open>byte layouts of the wire formats\<close>

section \<open>Machine integers\<close>

text \<open>
  The fixed-width integers of \<^verbatim>\<open><stdint.h>\<close>. Signed and unsigned integers of one width
  share a type; \<open>sint\<close> and the signed order \<open><s\<close> read a word as signed, \<open>unat\<close> and
  \<open><\<close> as unsigned. Buffer lengths and pointer offsets are natural numbers, and \<open>u32\<close> is
  the conversion to \<^verbatim>\<open>uint32_t\<close>.
\<close>

type_synonym byte = "8 word"
type_synonym int8_t = "8 word"
type_synonym int16_t = "16 word"
type_synonym int32_t = "32 word"
type_synonym int64_t = "64 word"
type_synonym uint16_t = "16 word"
type_synonym uint32_t = "32 word"
type_synonym uint64_t = "64 word"

text \<open>An IEEE double is its bit pattern: the library only ever copies it.\<close>

type_synonym double = "64 word"

definition u32 :: "nat \<Rightarrow> nat" where
  "u32 n = n mod 2 ^ 32"

lemma u32_less [simp]: "u32 n < 4294967296"
  by (simp add: u32_def)

lemma u32_id [simp]: "n < 4294967296 \<Longrightarrow> u32 n = n"
  by (simp add: u32_def)

text \<open>Subtraction of \<^verbatim>\<open>uint32_t\<close> values wraps around.\<close>

lemma u32_sub:
  assumes "b \<le> n" and "n < 2 ^ 32"
  shows "u32 (n + 2 ^ 32 - b) = n - b"
proof -
  have eq: "n + 2 ^ 32 - b = (n - b) + 2 ^ 32" using assms(1) by simp
  have "n - b < 2 ^ 32" using assms(2) by simp
  then have "u32 ((n - b) + 2 ^ 32) = n - b" by (simp add: u32_def)
  then show ?thesis by (simp only: eq)
qed

text \<open>Signed reading of \<^verbatim>\<open>int32_t\<close> lengths and limits.\<close>

lemma sint_word_of_nat: "n < 2 ^ 31 \<Longrightarrow> sint (word_of_nat n :: int32_t) = int n"
  by (simp add: sint_uint uint_nat unat_of_nat signed_take_bit_int_eq_self)

lemma sint_nonneg:
  assumes "0 \<le> sint (w :: int32_t)"
  shows "sint w = int (unat w)" and "unat w < 2 ^ 31"
proof -
  have less: "uint w < 2 ^ 31"
  proof (rule ccontr)
    assume "\<not> uint w < 2 ^ 31"
    then have "signed_take_bit 31 (uint w) \<le> uint w - 4294967296"
      using signed_take_bit_int_less_eq [of 31 "uint w"] by simp
    moreover have "uint w < 4294967296" using uint_bounded [of w] by simp
    moreover have "sint w = signed_take_bit 31 (uint w)" by (simp add: sint_uint)
    ultimately show False using assms by linarith
  qed
  then have "int (unat w) < int (2 ^ 31)" by simp
  then show "unat w < 2 ^ 31" by (simp only: of_nat_less_iff)
  then show "sint w = int (unat w)" using sint_word_of_nat [of "unat w"] by simp
qed

lemma length_not_negative: "n < 2 ^ 31 \<Longrightarrow> \<not> (word_of_nat n :: int32_t) <s 0"
  by (simp add: word_sless_alt sint_word_of_nat)

lemma length_within_limit:
  "n < 2 ^ 31 \<Longrightarrow> (limit <s (word_of_nat n :: int32_t)) = (sint limit < int n)"
  by (simp add: word_sless_alt sint_word_of_nat)

section \<open>Exceptions\<close>

datatype TTransportExceptionType =
    TT_UNKNOWN
  | NOT_OPEN
  | TIMED_OUT
  | END_OF_FILE
  | INTERRUPTED
  | BAD_ARGS
  | CORRUPTED_DATA
  | TT_INTERNAL_ERROR

datatype TProtocolExceptionType =
    TP_UNKNOWN
  | INVALID_DATA
  | NEGATIVE_SIZE
  | SIZE_LIMIT
  | BAD_VERSION
  | NOT_IMPLEMENTED

text \<open>
  What can leave an operation other than by returning. The messages of the exceptions are
  dropped. \<open>AssertionFailure\<close> is a failed \<^verbatim>\<open>assert\<close>, \<open>UndefinedBehaviour\<close> an
  out-of-range array access or a read of an empty stack, and \<open>NonTermination\<close> a loop that never
  exits (or, for the operations defined with fuel, one that has run out of it). \<open>ThrownPointer\<close> is
  a pointer to an exception thrown with \<^verbatim>\<open>throw new\<close>, which a handler for the class does not catch.
\<close>

datatype exn =
    TTransportException TTransportExceptionType
  | TProtocolException TProtocolExceptionType
  | TException
  | BadAlloc
  | AssertionFailure
  | UndefinedBehaviour
  | NonTermination
  | ThrownPointer TProtocolExceptionType

section \<open>State and exceptions\<close>

text \<open>
  An operation maps the state of its object to its outcome and the state it leaves behind.
  As in C++, an exception keeps every update made before the throw.
\<close>

type_synonym ('s, 'a) M = "'s \<Rightarrow> (exn + 'a) \<times> 's"

definition returnM :: "'a \<Rightarrow> ('s, 'a) M" where
  "returnM a = (\<lambda>s. (Inr a, s))"

definition throwM :: "exn \<Rightarrow> ('s, 'a) M" where
  "throwM e = (\<lambda>s. (Inl e, s))"

definition bindM :: "('s, 'a) M \<Rightarrow> ('a \<Rightarrow> ('s, 'b) M) \<Rightarrow> ('s, 'b) M" where
  "bindM m f = (\<lambda>s. case m s of (Inl e, s') \<Rightarrow> (Inl e, s') | (Inr a, s') \<Rightarrow> f a s')"

definition getM :: "('s \<Rightarrow> 'a) \<Rightarrow> ('s, 'a) M" where
  "getM f = (\<lambda>s. (Inr (f s), s))"

definition modifyM :: "('s \<Rightarrow> 's) \<Rightarrow> ('s, unit) M" where
  "modifyM f = (\<lambda>s. (Inr (), f s))"

definition assertM :: "('s \<Rightarrow> bool) \<Rightarrow> ('s, unit) M" where
  "assertM P = (\<lambda>s. if P s then (Inr (), s) else (Inl AssertionFailure, s))"

text \<open>Run an operation of a component object held in a field of the state.\<close>

definition liftM :: "('s \<Rightarrow> 't) \<Rightarrow> ('t \<Rightarrow> 's \<Rightarrow> 's) \<Rightarrow> ('t, 'a) M \<Rightarrow> ('s, 'a) M" where
  "liftM get put m = (\<lambda>s. case m (get s) of (r, t) \<Rightarrow> (r, put t s))"

declare returnM_def [monad_simps] throwM_def [monad_simps] bindM_def [monad_simps]
  getM_def [monad_simps] modifyM_def [monad_simps] assertM_def [monad_simps]
  liftM_def [monad_simps]

lemma bindM_return [simp]: "bindM (returnM a) f = f a"
  by (simp add: monad_simps)

lemma bindM_throw [simp]: "bindM (throwM e) f = throwM e"
  by (simp add: monad_simps)

lemma bindM_assoc: "bindM (bindM m f) g = bindM m (\<lambda>a. bindM (f a) g)"
  by (auto simp: monad_simps fun_eq_iff split: sum.splits prod.splits)

lemma bindM_Inr: "m s = (Inr a, s') \<Longrightarrow> bindM m f s = f a s'"
  by (simp add: bindM_def)

lemma bindM_Inl: "m s = (Inl e, s') \<Longrightarrow> bindM m f s = (Inl e, s')"
  by (simp add: bindM_def)

lemma bindM_eq_InrE:
  assumes "bindM m f s = (Inr b, s'')"
  obtains a s' where "m s = (Inr a, s')" and "f a s' = (Inr b, s'')"
  using assms by (auto simp: bindM_def split: sum.splits prod.splits)

section \<open>Memory\<close>

text \<open>\<open>mslice m i n\<close> is the \<open>n\<close> bytes at offset \<open>i\<close>; \<open>memcpy m i bs\<close> overwrites them.\<close>

definition mslice :: "'a list \<Rightarrow> nat \<Rightarrow> nat \<Rightarrow> 'a list" where
  "mslice m i n = take n (drop i m)"

definition memcpy :: "'a list \<Rightarrow> nat \<Rightarrow> 'a list \<Rightarrow> 'a list" where
  "memcpy m i bs = take i m @ bs @ drop (i + length bs) m"

lemma length_mslice [simp]: "i + n \<le> length m \<Longrightarrow> length (mslice m i n) = n"
  by (simp add: mslice_def)

lemma mslice_0 [simp]: "mslice m i 0 = []"
  by (simp add: mslice_def)

lemma mslice_eq_Nil [simp]: "i + n \<le> length m \<Longrightarrow> (mslice m i n = []) = (n = 0)"
  by (auto simp flip: length_0_conv)

lemma mslice_full [simp]: "n = length m \<Longrightarrow> mslice m 0 n = m"
  by (simp add: mslice_def)

lemma mslice_append: "mslice m i (n + k) = mslice m i n @ mslice m (i + n) k"
  by (simp add: mslice_def take_add) (simp add: add.commute)

lemma mslice_split: "k \<le> n \<Longrightarrow> mslice m i n = mslice m i k @ mslice m (i + k) (n - k)"
  using mslice_append [of m i k "n - k"] by simp

lemma take_mslice [simp]: "take k (mslice m i n) = mslice m i (min k n)"
  by (simp add: mslice_def)

lemma drop_mslice [simp]: "drop k (mslice m i n) = mslice m (i + k) (n - k)"
  by (simp add: mslice_def drop_take) (simp add: add.commute)

lemma length_memcpy [simp]: "i + length bs \<le> length m \<Longrightarrow> length (memcpy m i bs) = length m"
  by (simp add: memcpy_def)

lemma mslice_memcpy_before:
  "i + n \<le> j \<Longrightarrow> j \<le> length m \<Longrightarrow> mslice (memcpy m j bs) i n = mslice m i n"
proof -
  assume *: "i + n \<le> j" "j \<le> length m"
  then have "drop i (take j m @ bs @ drop (j + length bs) m)
      = take (j - i) (drop i m) @ bs @ drop (j + length bs) m"
    by (simp add: drop_take)
  with * show "mslice (memcpy m j bs) i n = mslice m i n"
    by (auto simp: mslice_def memcpy_def min_def)
qed

lemma mslice_memcpy_same: "i \<le> length m \<Longrightarrow> mslice (memcpy m i bs) i (length bs) = bs"
  by (simp add: mslice_def memcpy_def)

lemma mslice_memcpy_extend:
  assumes "i \<le> j" and "j + length bs \<le> length m"
  shows "mslice (memcpy m j bs) i (j + length bs - i) = mslice m i (j - i) @ bs"
proof -
  have "j + length bs - i = (j - i) + length bs" using assms(1) by simp
  then have "mslice (memcpy m j bs) i (j + length bs - i)
      = mslice (memcpy m j bs) i (j - i) @ mslice (memcpy m j bs) j (length bs)"
    using assms(1) by (simp only: mslice_append) simp
  then show ?thesis using assms by (simp add: mslice_memcpy_before mslice_memcpy_same)
qed

lemma mslice_append_mem: "i + n \<le> length m \<Longrightarrow> mslice (m @ m') i n = mslice m i n"
  by (simp add: mslice_def)

lemma memcpy_Nil [simp]: "memcpy m i [] = m"
  by (simp add: memcpy_def)

lemma take_memcpy [simp]: "i \<le> length m \<Longrightarrow> take i (memcpy m i bs) = take i m"
  by (simp add: memcpy_def)

lemma memcpy_0 [simp]: "length bs = length m \<Longrightarrow> memcpy m 0 bs = bs"
  by (simp add: memcpy_def)

end
