(* ===== verification/ByteOrder.thy ===== *)
theory ByteOrder
  imports Prelude
begin

text \<open>
  Byte order. The host is little endian (x86 and the Native Client ABI), so an integer in memory
  is its bytes from the least significant one (\<open>mem16\<close>, \<open>mem32\<close>, \<open>mem64\<close>), and
  \<open>htons\<close>, \<open>htonl\<close> and \<open>htonll\<close> swap bytes. The network order \<open>be16\<close>, \<open>be32\<close>,
  \<open>be64\<close> is what the wire formats are stated in.
\<close>

section \<open>Layouts\<close>

definition mem16 :: "16 word \<Rightarrow> byte list" where
  "mem16 w = [ucast w, ucast (drop_bit 8 w)]"

definition mem32 :: "32 word \<Rightarrow> byte list" where
  "mem32 w = [ucast w, ucast (drop_bit 8 w), ucast (drop_bit 16 w), ucast (drop_bit 24 w)]"

definition mem64 :: "64 word \<Rightarrow> byte list" where
  "mem64 w = [ucast w, ucast (drop_bit 8 w), ucast (drop_bit 16 w), ucast (drop_bit 24 w),
     ucast (drop_bit 32 w), ucast (drop_bit 40 w), ucast (drop_bit 48 w), ucast (drop_bit 56 w)]"

text \<open>Reading an integer back from memory (the \<^verbatim>\<open>union\<close> idiom of the readers).\<close>

definition load16 :: "byte list \<Rightarrow> 16 word" where
  "load16 bs = (ucast (bs ! 0) :: 16 word) OR push_bit 8 (ucast (bs ! 1))"

definition load32 :: "byte list \<Rightarrow> 32 word" where
  "load32 bs = (ucast (bs ! 0) :: 32 word) OR push_bit 8 (ucast (bs ! 1))
     OR push_bit 16 (ucast (bs ! 2)) OR push_bit 24 (ucast (bs ! 3))"

definition load64 :: "byte list \<Rightarrow> 64 word" where
  "load64 bs = (ucast (bs ! 0) :: 64 word) OR push_bit 8 (ucast (bs ! 1))
     OR push_bit 16 (ucast (bs ! 2)) OR push_bit 24 (ucast (bs ! 3))
     OR push_bit 32 (ucast (bs ! 4)) OR push_bit 40 (ucast (bs ! 5))
     OR push_bit 48 (ucast (bs ! 6)) OR push_bit 56 (ucast (bs ! 7))"

definition be16 :: "16 word \<Rightarrow> byte list" where
  "be16 w = rev (mem16 w)"

definition be32 :: "32 word \<Rightarrow> byte list" where
  "be32 w = rev (mem32 w)"

definition be64 :: "64 word \<Rightarrow> byte list" where
  "be64 w = rev (mem64 w)"

section \<open>Host to network order\<close>

text \<open>The C library's functions reverse the bytes of their argument.\<close>

definition htons :: "16 word \<Rightarrow> 16 word" where
  "htons n = load16 (rev (mem16 n))"

definition htonl :: "32 word \<Rightarrow> 32 word" where
  "htonl n = load32 (rev (mem32 n))"

text \<open>The byte-swapping macro of \<^verbatim>\<open>TProtocol.h\<close>, which a little-endian host uses as \<open>htonll\<close>.\<close>

definition bswap_64 :: "64 word \<Rightarrow> 64 word" where
  "bswap_64 n = drop_bit 56 (n AND 0xff00000000000000)
     OR drop_bit 40 (n AND 0x00ff000000000000)
     OR drop_bit 24 (n AND 0x0000ff0000000000)
     OR drop_bit 8 (n AND 0x000000ff00000000)
     OR push_bit 8 (n AND 0x00000000ff000000)
     OR push_bit 24 (n AND 0x0000000000ff0000)
     OR push_bit 40 (n AND 0x000000000000ff00)
     OR push_bit 56 (n AND 0x00000000000000ff)"

definition htonll :: "64 word \<Rightarrow> 64 word" where
  "htonll n = bswap_64 n"

text \<open>The fall-back of the same header for hosts with neither glibc nor MSVC.\<close>

definition htonll_portable :: "64 word \<Rightarrow> 64 word" where
  "htonll_portable n =
     push_bit 32 (ucast (htonl (ucast n)) :: 64 word) + ucast (htonl (ucast (drop_bit 32 n)))"

section \<open>Lemmas\<close>

lemma length_layouts [simp]:
  "length (mem16 a) = 2" "length (mem32 b) = 4" "length (mem64 c) = 8"
  "length (be16 a) = 2" "length (be32 b) = 4" "length (be64 c) = 8"
  by (simp_all add: mem16_def mem32_def mem64_def be16_def be32_def be64_def)

text \<open>Bit positions, byte by byte: the case split behind the layout proofs.\<close>

lemma bit_position_cases:
  assumes "n < (64::nat)"
  obtains r where "r < 8" and "n = r \<or> n = 8 + r \<or> n = 16 + r \<or> n = 24 + r
    \<or> n = 32 + r \<or> n = 40 + r \<or> n = 48 + r \<or> n = 56 + r"
proof -
  have "n mod 8 < 8" by simp
  moreover have "n div 8 \<in> {0, 1, 2, 3, 4, 5, 6, 7}" using assms by auto
  moreover have "n = 8 * (n div 8) + n mod 8" by simp
  ultimately show ?thesis using that [of "n mod 8"] by (elim insertE) auto
qed

lemma load16_mem16 [simp]: "load16 (mem16 w) = w"
  by (rule bit_word_eqI) (auto simp: load16_def mem16_def bit_simps)

lemma load32_mem32 [simp]: "load32 (mem32 w) = w"
proof (rule bit_word_eqI)
  fix n assume "n < LENGTH(32)"
  then have "n < 64" by simp
  then obtain r where "r < 8" and "n = r \<or> n = 8 + r \<or> n = 16 + r \<or> n = 24 + r
    \<or> n = 32 + r \<or> n = 40 + r \<or> n = 48 + r \<or> n = 56 + r" by (rule bit_position_cases)
  with \<open>n < LENGTH(32)\<close> show "bit (load32 (mem32 w)) n = bit w n"
    by (elim disjE) (simp_all add: load32_def mem32_def bit_simps)
qed

lemma load64_mem64 [simp]: "load64 (mem64 w) = w"
proof (rule bit_word_eqI)
  fix n assume "n < LENGTH(64)"
  then have "n < 64" by simp
  then obtain r where "r < 8" and "n = r \<or> n = 8 + r \<or> n = 16 + r \<or> n = 24 + r
    \<or> n = 32 + r \<or> n = 40 + r \<or> n = 48 + r \<or> n = 56 + r" by (rule bit_position_cases)
  then show "bit (load64 (mem64 w)) n = bit w n"
    by (elim disjE) (simp_all add: load64_def mem64_def bit_simps)
qed

lemma list_of_length_2: "length bs = 2 \<Longrightarrow> bs = [bs ! 0, bs ! 1]"
  by (cases bs; cases "tl bs") auto

lemma list_of_length_4: "length bs = 4 \<Longrightarrow> bs = [bs ! 0, bs ! 1, bs ! 2, bs ! 3]"
  by (rule nth_equalityI) (auto simp: less_Suc_eq numeral_eq_Suc)

lemma list_of_length_8:
  "length bs = 8 \<Longrightarrow> bs = [bs ! 0, bs ! 1, bs ! 2, bs ! 3, bs ! 4, bs ! 5, bs ! 6, bs ! 7]"
  by (rule nth_equalityI) (auto simp: less_Suc_eq numeral_eq_Suc)

lemma byte_eqI: "(\<And>n. n < 8 \<Longrightarrow> bit a n = bit b n) \<Longrightarrow> a = (b :: byte)"
  by (rule bit_word_eqI) simp

lemma byte_no_high_bit [simp]: "8 \<le> n \<Longrightarrow> \<not> bit (b :: byte) n"
  using bit_imp_le_length [of b n] by auto

lemma word32_no_high_bit [simp]: "32 \<le> n \<Longrightarrow> \<not> bit (w :: 32 word) n"
  using bit_imp_le_length [of w n] by auto

lemma mem16_load16 [simp]:
  assumes "length bs = 2" shows "mem16 (load16 bs) = bs"
proof -
  have "mem16 (load16 bs) = [bs ! 0, bs ! 1]"
    by (auto simp: mem16_def load16_def bit_simps intro!: byte_eqI)
  with list_of_length_2 [OF assms] show ?thesis by simp
qed

lemma mem32_load32 [simp]:
  assumes "length bs = 4" shows "mem32 (load32 bs) = bs"
proof -
  have "mem32 (load32 bs) = [bs ! 0, bs ! 1, bs ! 2, bs ! 3]"
    by (auto simp: mem32_def load32_def bit_simps intro!: byte_eqI)
  with list_of_length_4 [OF assms] show ?thesis by simp
qed

lemma mem64_load64 [simp]:
  assumes "length bs = 8" shows "mem64 (load64 bs) = bs"
proof -
  have "mem64 (load64 bs) = [bs ! 0, bs ! 1, bs ! 2, bs ! 3, bs ! 4, bs ! 5, bs ! 6, bs ! 7]"
    by (auto simp: mem64_def load64_def bit_simps intro!: byte_eqI)
  with list_of_length_8 [OF assms] show ?thesis by simp
qed

lemma mask_at:
  "(0xff :: 64 word) = mask 8"
  "(0xff00 :: 64 word) = push_bit 8 (mask 8)"
  "(0xff0000 :: 64 word) = push_bit 16 (mask 8)"
  "(0xff000000 :: 64 word) = push_bit 24 (mask 8)"
  "(0xff00000000 :: 64 word) = push_bit 32 (mask 8)"
  "(0xff0000000000 :: 64 word) = push_bit 40 (mask 8)"
  "(0xff000000000000 :: 64 word) = push_bit 48 (mask 8)"
  "(0xff00000000000000 :: 64 word) = push_bit 56 (mask 8)"
  by (simp_all add: mask_eq_exp_minus_1 push_bit_eq_mult)

text \<open>The macro is the byte reversal.\<close>

lemma bswap_64_reverses: "bswap_64 n = load64 (rev (mem64 n))"
proof (rule bit_word_eqI)
  fix i assume "i < LENGTH(64)"
  then have "i < 64" by simp
  then obtain r where "r < 8" and "i = r \<or> i = 8 + r \<or> i = 16 + r \<or> i = 24 + r
    \<or> i = 32 + r \<or> i = 40 + r \<or> i = 48 + r \<or> i = 56 + r" by (rule bit_position_cases)
  then show "bit (bswap_64 n) i = bit (load64 (rev (mem64 n))) i"
    by (elim disjE) (simp_all add: bswap_64_def mask_at load64_def mem64_def bit_simps)
qed

lemma mem_htons [simp]: "mem16 (htons n) = be16 n"
  by (simp add: htons_def be16_def)

lemma mem_htonl [simp]: "mem32 (htonl n) = be32 n"
  by (simp add: htonl_def be32_def)

lemma mem_htonll [simp]: "mem64 (htonll n) = be64 n"
  by (simp add: htonll_def bswap_64_reverses be64_def)

lemma htons_htons [simp]: "htons (htons n) = n"
  by (simp add: htons_def)

lemma htonl_htonl [simp]: "htonl (htonl n) = n"
  by (simp add: htonl_def)

lemma htonll_htonll [simp]: "htonll (htonll n) = n"
  by (simp add: htonll_def bswap_64_reverses)

lemma ntohs_load_be [simp]: "htons (load16 (be16 n)) = n"
  by (simp add: htons_def be16_def)

lemma ntohl_load_be [simp]: "htonl (load32 (be32 n)) = n"
  by (simp add: htonl_def be32_def)

lemma ntohll_load_be [simp]: "htonll (load64 (be64 n)) = n"
  by (simp add: htonll_def bswap_64_reverses be64_def)

lemma bit_htonl:
  assumes "r < 8"
  shows "bit (htonl n) r = bit n (24 + r)" "bit (htonl n) (8 + r) = bit n (16 + r)"
    "bit (htonl n) (16 + r) = bit n (8 + r)" "bit (htonl n) (24 + r) = bit n r"
  using assms by (simp_all add: htonl_def load32_def mem32_def bit_simps)

text \<open>Both definitions of \<open>htonll\<close> in the header agree.\<close>

lemma htonll_portable_bits:
  "htonll_portable n =
     push_bit 32 (ucast (htonl (ucast n)) :: 64 word) OR ucast (htonl (ucast (drop_bit 32 n)))"
proof -
  have "push_bit 32 (ucast (htonl (ucast n)) :: 64 word)
      AND ucast (htonl (ucast (drop_bit 32 n))) = 0"
    by (rule bit_word_eqI) (auto simp: bit_simps dest: bit_imp_le_length)
  then show ?thesis by (simp add: htonll_portable_def disjunctive_add_eq_or)
qed

lemma htonll_portable_eq: "htonll_portable n = htonll n"
proof (rule bit_word_eqI)
  fix i assume "i < LENGTH(64)"
  then have "i < 64" by simp
  then obtain r where "r < 8" and "i = r \<or> i = 8 + r \<or> i = 16 + r \<or> i = 24 + r
    \<or> i = 32 + r \<or> i = 40 + r \<or> i = 48 + r \<or> i = 56 + r" by (rule bit_position_cases)
  then show "bit (htonll_portable n) i = bit (htonll n) i"
    unfolding htonll_portable_bits htonll_def bswap_64_reverses
    by (elim disjE) (simp_all add: load64_def mem64_def bit_simps bit_htonl)
qed

text \<open>
  The fall-back definition of \<open>htonll\<close>, from two 32-bit swaps, computes the same value as the
  64-bit byte swap.
\<close>

theorem htonll_definitions_agree: "htonll_portable n = htonll n \<and> mem64 (htonll n) = rev (mem64 n)"
  by (simp add: htonll_portable_eq) (simp add: be64_def)

end
