(* ===== verification/Transport.thy ===== *)
theory Transport
  imports ByteOrder
begin

text \<open>
  The transport interface (\<^verbatim>\<open>TTransport.h\<close>): the virtual methods as a record of operations
  over the state of a concrete transport, the generic \<open>readAll\<close> loop, the fast paths of
  \<^verbatim>\<open>TBufferBase\<close> shared by the buffering transports, and the contracts of a transport as
  locales: a \<open>reader\<close> delivers a stream of bytes in order, a \<open>byte_source\<close> also honours
  \<open>readAll\<close>, \<open>borrow\<close> and \<open>consume\<close>, a \<open>byte_sink\<close> accepts bytes in order.
\<close>

section \<open>The virtual methods\<close>

text \<open>
  \<open>read_virt len\<close> returns the bytes it copied into the caller's buffer (its C++ result is
  their number); \<open>borrow_virt len\<close> returns the bytes available behind the pointer, or \<open>None\<close>
  for \<^verbatim>\<open>NULL\<close>.
\<close>

record 't TTransport =
  isOpen_virt :: "'t \<Rightarrow> bool"
  peek_virt :: "('t, bool) M"
  open_virt :: "('t, unit) M"
  close_virt :: "('t, unit) M"
  read_virt :: "nat \<Rightarrow> ('t, byte list) M"
  readAll_virt :: "nat \<Rightarrow> ('t, byte list) M"
  readEnd_virt :: "('t, uint32_t) M"
  write_virt :: "byte list \<Rightarrow> ('t, unit) M"
  writeEnd_virt :: "('t, uint32_t) M"
  flush_virt :: "('t, unit) M"
  borrow_virt :: "nat \<Rightarrow> ('t, byte list option) M"
  consume_virt :: "nat \<Rightarrow> ('t, unit) M"

text \<open>
  The loop of the template \<open>readAll\<close>: \<open>acc\<close> holds the bytes read so far (the C++ variable
  \<open>have\<close> is its length).
\<close>

function readAll_loop ::
  "(nat \<Rightarrow> ('t, byte list) M) \<Rightarrow> nat \<Rightarrow> byte list \<Rightarrow> ('t, byte list) M" where
  "readAll_loop read len acc s =
     (if length acc < len then
        (case read (len - length acc) s of
           (Inl e, s') \<Rightarrow> (Inl e, s')
         | (Inr got, s') \<Rightarrow>
             if got = [] then (Inl (TTransportException END_OF_FILE), s')
             else readAll_loop read len (acc @ got) s')
      else (Inr acc, s))"
  by pat_completeness auto
termination
  by (relation "measure (\<lambda>(read, len, acc, s). len - length acc)")
    (auto simp flip: length_greater_0_conv)

declare readAll_loop.simps [simp del]

definition readAll :: "(nat \<Rightarrow> ('t, byte list) M) \<Rightarrow> nat \<Rightarrow> ('t, byte list) M" where
  "readAll read len = readAll_loop read len []"

text \<open>The methods of the abstract base class itself, which concrete transports override.\<close>

definition base_isOpen :: "'t \<Rightarrow> bool" where
  "base_isOpen s = False"

definition base_open :: "('t, unit) M" where
  "base_open = throwM (TTransportException NOT_OPEN)"

definition base_close :: "('t, unit) M" where
  "base_close = throwM (TTransportException NOT_OPEN)"

definition base_read_virt :: "nat \<Rightarrow> ('t, byte list) M" where
  "base_read_virt len = throwM (TTransportException NOT_OPEN)"

definition base_readEnd :: "('t, uint32_t) M" where
  "base_readEnd = returnM 0"

definition base_write_virt :: "byte list \<Rightarrow> ('t, unit) M" where
  "base_write_virt buf = throwM (TTransportException NOT_OPEN)"

definition base_writeEnd :: "('t, uint32_t) M" where
  "base_writeEnd = returnM 0"

definition base_flush :: "('t, unit) M" where
  "base_flush = returnM ()"

definition base_borrow_virt :: "nat \<Rightarrow> ('t, byte list option) M" where
  "base_borrow_virt len = returnM None"

definition base_consume_virt :: "nat \<Rightarrow> ('t, unit) M" where
  "base_consume_virt len = throwM (TTransportException NOT_OPEN)"

section \<open>TBufferBase\<close>

text \<open>
  The four pointers of \<^verbatim>\<open>TBufferBase\<close>, as offsets into the memory the concrete transport
  owns. The fast paths take the slow path of the subclass, and how to reach its read and
  write memory, as arguments.
\<close>

record TBufferBase =
  rBase :: nat
  rBound :: nat
  wBase :: nat
  wBound :: nat

definition buffer_read ::
  "('a TBufferBase_scheme \<Rightarrow> byte list) \<Rightarrow> (nat \<Rightarrow> ('a TBufferBase_scheme, byte list) M) \<Rightarrow>
   nat \<Rightarrow> ('a TBufferBase_scheme, byte list) M" where
  "buffer_read rmem readSlow len s =
     (let new_rBase = rBase s + len in
      if new_rBase \<le> rBound s
      then (Inr (mslice (rmem s) (rBase s) len), s\<lparr>rBase := new_rBase\<rparr>)
      else readSlow len s)"

definition buffer_readAll ::
  "('a TBufferBase_scheme \<Rightarrow> byte list) \<Rightarrow> (nat \<Rightarrow> ('a TBufferBase_scheme, byte list) M) \<Rightarrow>
   nat \<Rightarrow> ('a TBufferBase_scheme, byte list) M" where
  "buffer_readAll rmem readSlow len s =
     (let new_rBase = rBase s + len in
      if new_rBase \<le> rBound s
      then (Inr (mslice (rmem s) (rBase s) len), s\<lparr>rBase := new_rBase\<rparr>)
      else readAll (buffer_read rmem readSlow) len s)"

definition buffer_write ::
  "((byte list \<Rightarrow> byte list) \<Rightarrow> 'a TBufferBase_scheme \<Rightarrow> 'a TBufferBase_scheme) \<Rightarrow>
   (byte list \<Rightarrow> ('a TBufferBase_scheme, unit) M) \<Rightarrow>
   byte list \<Rightarrow> ('a TBufferBase_scheme, unit) M" where
  "buffer_write wmem_upd writeSlow buf s =
     (let new_wBase = wBase s + length buf in
      if new_wBase \<le> wBound s
      then (Inr (), (wmem_upd (\<lambda>m. memcpy m (wBase s) buf) s)\<lparr>wBase := new_wBase\<rparr>)
      else writeSlow buf s)"

definition buffer_borrow ::
  "('a TBufferBase_scheme \<Rightarrow> byte list) \<Rightarrow>
   (nat \<Rightarrow> ('a TBufferBase_scheme, byte list option) M) \<Rightarrow>
   nat \<Rightarrow> ('a TBufferBase_scheme, byte list option) M" where
  "buffer_borrow rmem borrowSlow len s =
     (if len \<le> rBound s - rBase s
      then (Inr (Some (mslice (rmem s) (rBase s) (rBound s - rBase s))), s)
      else borrowSlow len s)"

definition buffer_consume :: "nat \<Rightarrow> ('a TBufferBase_scheme, unit) M" where
  "buffer_consume len s =
     (if len \<le> rBound s - rBase s
      then (Inr (), s\<lparr>rBase := rBase s + len\<rparr>)
      else (Inl (TTransportException BAD_ARGS), s))"

definition setReadBuffer :: "nat \<Rightarrow> nat \<Rightarrow> 'a TBufferBase_scheme \<Rightarrow> 'a TBufferBase_scheme" where
  "setReadBuffer buf len s = s\<lparr>rBase := buf, rBound := buf + len\<rparr>"

definition setWriteBuffer :: "nat \<Rightarrow> nat \<Rightarrow> 'a TBufferBase_scheme \<Rightarrow> 'a TBufferBase_scheme" where
  "setWriteBuffer buf len s = s\<lparr>wBase := buf, wBound := buf + len\<rparr>"

section \<open>The reading contract\<close>

text \<open>
  A reader delivers the bytes of a stream \<open>inp\<close> in order, never more than asked for, and
  returns nothing only at the end of the stream (or when nothing is asked for).
\<close>

locale reader =
  fixes read :: "nat \<Rightarrow> ('t, byte list) M"
    and inv :: "'t \<Rightarrow> bool"
    and inp :: "'t \<Rightarrow> byte list"
  assumes read_ok: "inv s \<Longrightarrow> \<exists>bs s'. read n s = (Inr bs, s') \<and> inv s' \<and> inp s = bs @ inp s'
    \<and> length bs \<le> n \<and> (bs = [] \<longrightarrow> n = 0 \<or> inp s = [])"
begin

lemma readAll_loop_complete:
  assumes "inv s" and "length acc \<le> n" and "n \<le> length acc + length (inp s)"
  shows "\<exists>s'. readAll_loop read n acc s = (Inr (acc @ take (n - length acc) (inp s)), s')
    \<and> inv s' \<and> inp s' = drop (n - length acc) (inp s)"
  using assms
proof (induction "n - length acc" arbitrary: acc s rule: less_induct)
  case less
  show ?case
  proof (cases "length acc < n")
    case False
    with less.prems show ?thesis by (auto simp: readAll_loop.simps [of read n acc s])
  next
    case True
    obtain bs s' where r: "read (n - length acc) s = (Inr bs, s')" "inv s'"
      "inp s = bs @ inp s'" "length bs \<le> n - length acc"
      "bs = [] \<longrightarrow> n - length acc = 0 \<or> inp s = []"
      using read_ok [OF less.prems(1), of "n - length acc"] by blast
    have "bs \<noteq> []" using r(5) True less.prems(3) by auto
    moreover have "\<exists>s''. readAll_loop read n (acc @ bs) s'
        = (Inr ((acc @ bs) @ take (n - length (acc @ bs)) (inp s')), s'')
        \<and> inv s'' \<and> inp s'' = drop (n - length (acc @ bs)) (inp s')"
    proof (rule less.hyps)
      show "n - length (acc @ bs) < n - length acc" using True \<open>bs \<noteq> []\<close>
        by (cases bs) auto
    qed (use r less.prems True in auto)
    ultimately show ?thesis using True r
      by (auto simp: readAll_loop.simps [of read n acc s])
  qed
qed

lemma readAll_loop_eof:
  assumes "inv s" and "length acc + length (inp s) < n"
  shows "\<exists>s'. readAll_loop read n acc s = (Inl (TTransportException END_OF_FILE), s')
    \<and> inv s' \<and> inp s' = []"
  using assms
proof (induction "n - length acc" arbitrary: acc s rule: less_induct)
  case less
  then have True: "length acc < n" by simp
  obtain bs s' where r: "read (n - length acc) s = (Inr bs, s')" "inv s'"
    "inp s = bs @ inp s'" "length bs \<le> n - length acc"
    "bs = [] \<longrightarrow> n - length acc = 0 \<or> inp s = []"
    using read_ok [OF less.prems(1), of "n - length acc"] by blast
  show ?case
  proof (cases "bs = []")
    case True
    with r \<open>length acc < n\<close> show ?thesis by (auto simp: readAll_loop.simps [of read n acc s])
  next
    case False
    have "\<exists>s''. readAll_loop read n (acc @ bs) s' = (Inl (TTransportException END_OF_FILE), s'')
        \<and> inv s'' \<and> inp s'' = []"
    proof (rule less.hyps)
      show "n - length (acc @ bs) < n - length acc" using True False by (cases bs) auto
    qed (use r less.prems in auto)
    with True False r show ?thesis by (auto simp: readAll_loop.simps [of read n acc s])
  qed
qed

lemma readAll_complete:
  assumes "inv s" and "n \<le> length (inp s)"
  shows "\<exists>s'. readAll read n s = (Inr (take n (inp s)), s') \<and> inv s' \<and> inp s' = drop n (inp s)"
  using readAll_loop_complete [of s "[]" n] assms by (simp add: readAll_def)

lemma readAll_eof:
  assumes "inv s" and "length (inp s) < n"
  shows "\<exists>s'. readAll read n s = (Inl (TTransportException END_OF_FILE), s') \<and> inv s' \<and> inp s' = []"
  using readAll_loop_eof [of s "[]" n] assms by (simp add: readAll_def)

end

text \<open>
  A byte source is what the protocols read from: \<open>readAll\<close> delivers exactly the requested
  bytes or reports the end of the stream, and \<open>borrow\<close> exposes a prefix of the stream that
  \<open>consume\<close> may then drop.
\<close>

text \<open>A client's successive calls of \<open>readAll\<close> and of \<open>write\<close>.\<close>

primrec read_chunks :: "'t TTransport \<Rightarrow> nat list \<Rightarrow> ('t, byte list list) M" where
  "read_chunks T [] = returnM []"
| "read_chunks T (n # ns) =
     bindM (readAll_virt T n) (\<lambda>bs. bindM (read_chunks T ns) (\<lambda>bss. returnM (bs # bss)))"

primrec write_chunks :: "'t TTransport \<Rightarrow> byte list list \<Rightarrow> ('t, unit) M" where
  "write_chunks T [] = returnM ()"
| "write_chunks T (bs # bss) = bindM (write_virt T bs) (\<lambda>_. write_chunks T bss)"

locale byte_source =
  fixes T :: "'t TTransport"
    and inv :: "'t \<Rightarrow> bool"
    and inp :: "'t \<Rightarrow> byte list"
  assumes source_readAll: "inv s \<Longrightarrow> n \<le> length (inp s) \<Longrightarrow>
      \<exists>s'. readAll_virt T n s = (Inr (take n (inp s)), s') \<and> inv s' \<and> inp s' = drop n (inp s)"
    and source_eof: "inv s \<Longrightarrow> length (inp s) < n \<Longrightarrow>
      \<exists>s'. readAll_virt T n s = (Inl (TTransportException END_OF_FILE), s') \<and> inv s'"
    and source_borrow: "inv s \<Longrightarrow>
      \<exists>r s'. borrow_virt T n s = (Inr r, s') \<and> inv s' \<and> inp s' = inp s
        \<and> (\<forall>bs. r = Some bs \<longrightarrow> n \<le> length bs \<and> bs = take (length bs) (inp s)
             \<and> (\<forall>k\<le>n. \<exists>s''. consume_virt T k s' = (Inr (), s'') \<and> inv s''
                   \<and> inp s'' = drop k (inp s)))"
begin

lemma source_readAll_append:
  assumes "inv s" and "inp s = bs @ rest" and "length bs = n"
  shows "\<exists>s'. readAll_virt T n s = (Inr bs, s') \<and> inv s' \<and> inp s' = rest"
  using source_readAll [OF assms(1), of n] assms(2,3) by auto

lemma read_chunks_ok:
  assumes "inv s" and "sum_list ns \<le> length (inp s)"
  shows "\<exists>bss s'. read_chunks T ns s = (Inr bss, s') \<and> map length bss = ns
    \<and> inp s = concat bss @ inp s' \<and> inv s'"
  using assms
proof (induction ns arbitrary: s)
  case (Cons n ns)
  obtain t where t: "readAll_virt T n s = (Inr (take n (inp s)), t)" "inv t" "inp t = drop n (inp s)"
    using source_readAll [OF Cons.prems(1), of n] Cons.prems(2) by auto
  have "sum_list ns \<le> length (inp t)" using Cons.prems(2) t(3) by simp
  from Cons.IH [OF t(2) this] obtain bss s' where "read_chunks T ns t = (Inr bss, s')"
    "map length bss = ns" "inp t = concat bss @ inp s'" "inv s'" by blast
  moreover from this(3) have "inp s = take n (inp s) @ concat bss @ inp s'"
    using append_take_drop_id [of n "inp s"] by (simp add: t(3))
  ultimately show ?case using t(1) Cons.prems(2) by (auto simp: bindM_def returnM_def)
qed (simp add: returnM_def)

lemma source_borrow_cases:
  assumes "inv s"
  obtains (none) s' where "borrow_virt T n s = (Inr None, s')" "inv s'" "inp s' = inp s"
    | (some) bs s' where "borrow_virt T n s = (Inr (Some bs), s')" "inv s'" "inp s' = inp s"
        "n \<le> length bs" "bs = take (length bs) (inp s)"
        "\<And>k. k \<le> n \<Longrightarrow> \<exists>s''. consume_virt T k s' = (Inr (), s'') \<and> inv s'' \<and> inp s'' = drop k (inp s)"
proof -
  obtain r s' where *: "borrow_virt T n s = (Inr r, s')" "inv s'" "inp s' = inp s"
    "\<forall>bs. r = Some bs \<longrightarrow> n \<le> length bs \<and> bs = take (length bs) (inp s)
       \<and> (\<forall>k\<le>n. \<exists>s''. consume_virt T k s' = (Inr (), s'') \<and> inv s'' \<and> inp s'' = drop k (inp s))"
    using source_borrow [OF assms, of n] by auto
  show thesis
  proof (cases r)
    case None
    with * none show thesis by simp
  next
    case (Some bs)
    with * some show thesis by auto
  qed
qed

end

section \<open>Fast paths over a slow path\<close>

text \<open>
  What a subclass of \<^verbatim>\<open>TBufferBase\<close> has to guarantee for the fast paths to be right: the
  read pointers delimit valid memory, moving \<open>rBase\<close> forward keeps its invariant, and its slow
  paths honour the reading contract. \<open>rest\<close> is what the slow path can still deliver after the
  buffered bytes.
\<close>

definition buffer_inp ::
  "('a TBufferBase_scheme \<Rightarrow> byte list) \<Rightarrow> ('a TBufferBase_scheme \<Rightarrow> byte list) \<Rightarrow>
   'a TBufferBase_scheme \<Rightarrow> byte list" where
  "buffer_inp rmem rest s = mslice (rmem s) (rBase s) (rBound s - rBase s) @ rest s"

locale buffer_source =
  fixes T :: "'a TBufferBase_scheme TTransport"
    and rmem :: "'a TBufferBase_scheme \<Rightarrow> byte list"
    and readSlow :: "nat \<Rightarrow> ('a TBufferBase_scheme, byte list) M"
    and borrowSlow :: "nat \<Rightarrow> ('a TBufferBase_scheme, byte list option) M"
    and inv :: "'a TBufferBase_scheme \<Rightarrow> bool"
    and rest :: "'a TBufferBase_scheme \<Rightarrow> byte list"
  assumes ops: "read_virt T = buffer_read rmem readSlow"
      "readAll_virt T = buffer_readAll rmem readSlow"
      "borrow_virt T = buffer_borrow rmem borrowSlow"
      "consume_virt T = buffer_consume"
    and pointers: "inv s \<Longrightarrow> rBase s \<le> rBound s \<and> rBound s \<le> length (rmem s)"
    and advance: "inv s \<Longrightarrow> rBase s + n \<le> rBound s \<Longrightarrow> inv (s\<lparr>rBase := rBase s + n\<rparr>)
      \<and> rmem (s\<lparr>rBase := rBase s + n\<rparr>) = rmem s \<and> rest (s\<lparr>rBase := rBase s + n\<rparr>) = rest s"
    and readSlow_ok: "inv s \<Longrightarrow> rBound s - rBase s < n \<Longrightarrow>
      \<exists>bs s'. readSlow n s = (Inr bs, s') \<and> inv s'
        \<and> buffer_inp rmem rest s = bs @ buffer_inp rmem rest s'
        \<and> length bs \<le> n \<and> (bs = [] \<longrightarrow> buffer_inp rmem rest s = [])"
    and borrowSlow_ok: "inv s \<Longrightarrow> \<exists>r s'. borrowSlow n s = (Inr r, s') \<and> inv s'
        \<and> buffer_inp rmem rest s' = buffer_inp rmem rest s
        \<and> (\<forall>bs. r = Some bs \<longrightarrow> n \<le> rBound s' - rBase s'
             \<and> bs = mslice (rmem s') (rBase s') (rBound s' - rBase s'))"
begin

lemma buffered_length:
  "inv s \<Longrightarrow> length (mslice (rmem s) (rBase s) (rBound s - rBase s)) = rBound s - rBase s"
  using pointers [of s] by simp

lemma take_buffer_inp:
  assumes "inv s" and "rBase s + n \<le> rBound s"
  shows "mslice (rmem s) (rBase s) n = take n (buffer_inp rmem rest s)
    \<and> buffer_inp rmem rest (s\<lparr>rBase := rBase s + n\<rparr>) = drop n (buffer_inp rmem rest s)"
  using assms buffered_length [OF assms(1)] advance [OF assms] by (simp add: buffer_inp_def min_def)

lemma fast_read_ok:
  assumes "inv s"
  shows "\<exists>bs s'. buffer_read rmem readSlow n s = (Inr bs, s') \<and> inv s'
    \<and> buffer_inp rmem rest s = bs @ buffer_inp rmem rest s' \<and> length bs \<le> n
    \<and> (bs = [] \<longrightarrow> n = 0 \<or> buffer_inp rmem rest s = [])"
proof (cases "rBase s + n \<le> rBound s")
  case True
  then show ?thesis using take_buffer_inp [OF assms True] advance [OF assms True]
    by (auto simp: buffer_read_def Let_def)
next
  case False
  then have "rBound s - rBase s < n" using pointers [OF assms] by auto
  with readSlow_ok [OF assms this] False show ?thesis by (auto simp: buffer_read_def Let_def)
qed

end

sublocale buffer_source \<subseteq> reader "read_virt T" inv "buffer_inp rmem rest"
  by unfold_locales (simp add: ops fast_read_ok)

context buffer_source
begin

lemma fast_readAll_ok:
  assumes "inv s" and "n \<le> length (buffer_inp rmem rest s)"
  shows "\<exists>s'. readAll_virt T n s = (Inr (take n (buffer_inp rmem rest s)), s') \<and> inv s'
    \<and> buffer_inp rmem rest s' = drop n (buffer_inp rmem rest s)"
proof (cases "rBase s + n \<le> rBound s")
  case True
  then show ?thesis using take_buffer_inp [OF assms(1) True] advance [OF assms(1) True]
    by (simp add: ops buffer_readAll_def Let_def)
next
  case False
  with readAll_complete [OF assms] show ?thesis by (simp add: ops buffer_readAll_def)
qed

lemma fast_readAll_eof:
  assumes "inv s" and "length (buffer_inp rmem rest s) < n"
  shows "\<exists>s'. readAll_virt T n s = (Inl (TTransportException END_OF_FILE), s') \<and> inv s'"
proof -
  have "\<not> rBase s + n \<le> rBound s"
    using assms pointers [OF assms(1)] by (auto simp: buffer_inp_def)
  with readAll_eof [OF assms] show ?thesis by (auto simp: ops buffer_readAll_def)
qed

lemma fast_borrow_ok:
  assumes "inv s"
  shows "\<exists>r s'. borrow_virt T n s = (Inr r, s') \<and> inv s'
    \<and> buffer_inp rmem rest s' = buffer_inp rmem rest s
    \<and> (\<forall>bs. r = Some bs \<longrightarrow> n \<le> rBound s' - rBase s'
         \<and> bs = mslice (rmem s') (rBase s') (rBound s' - rBase s'))"
proof (cases "n \<le> rBound s - rBase s")
  case True
  with assms show ?thesis by (auto simp: ops buffer_borrow_def)
next
  case False
  with borrowSlow_ok [OF assms, of n] show ?thesis by (simp add: ops buffer_borrow_def)
qed

lemma fast_consume_ok:
  assumes "inv s" and "k \<le> rBound s - rBase s"
  shows "\<exists>s'. consume_virt T k s = (Inr (), s') \<and> inv s'
    \<and> buffer_inp rmem rest s' = drop k (buffer_inp rmem rest s)"
proof -
  have "rBase s + k \<le> rBound s" using assms pointers [OF assms(1)] by auto
  with assms take_buffer_inp [OF assms(1) this] advance [OF assms(1) this] show ?thesis
    by (simp add: ops buffer_consume_def)
qed

end

sublocale buffer_source \<subseteq> byte_source T inv "buffer_inp rmem rest"
proof
  fix s n
  assume inv: "inv s"
  from fast_borrow_ok [OF inv, of n] obtain r s' where
    b: "borrow_virt T n s = (Inr r, s')" "inv s'" "buffer_inp rmem rest s' = buffer_inp rmem rest s"
      "\<And>bs. r = Some bs \<Longrightarrow> n \<le> rBound s' - rBase s'
         \<and> bs = mslice (rmem s') (rBase s') (rBound s' - rBase s')"
    by blast
  have "\<exists>s''. consume_virt T k s' = (Inr (), s'') \<and> inv s'' \<and> buffer_inp rmem rest s'' = drop k (buffer_inp rmem rest s)"
    if "r = Some bs" "k \<le> n" for bs k
    using fast_consume_ok [OF b(2), of k] b(3) b(4) [OF that(1)] that(2) by auto
  moreover have "bs = take (length bs) (buffer_inp rmem rest s)" "n \<le> length bs" if "r = Some bs" for bs
    unfolding b(3) [symmetric] using b(4) [OF that] buffered_length [OF b(2)]
    by (simp_all add: buffer_inp_def)
  ultimately show "\<exists>r s'. borrow_virt T n s = (Inr r, s') \<and> inv s'
      \<and> buffer_inp rmem rest s' = buffer_inp rmem rest s
      \<and> (\<forall>bs. r = Some bs \<longrightarrow> n \<le> length bs \<and> bs = take (length bs) (buffer_inp rmem rest s)
        \<and> (\<forall>k\<le>n. \<exists>s''. consume_virt T k s' = (Inr (), s'') \<and> inv s''
              \<and> buffer_inp rmem rest s'' = drop k (buffer_inp rmem rest s)))"
    using b(1-3) by blast
qed (rule fast_readAll_ok fast_readAll_eof; assumption)+

section \<open>The writing contract\<close>

text \<open>
  A sink appends what it is given to an output stream \<open>outp\<close>, as long as \<open>room\<close> is left
  for it (less than 4 GiB, the range of the lengths in the interface), and flushing neither
  adds nor loses anything.
\<close>

locale byte_sink =
  fixes T :: "'t TTransport"
    and inv :: "'t \<Rightarrow> bool"
    and outp :: "'t \<Rightarrow> byte list"
    and room :: "'t \<Rightarrow> nat"
  assumes sink_write: "inv s \<Longrightarrow> length bs \<le> room s \<Longrightarrow>
      \<exists>s'. write_virt T bs s = (Inr (), s') \<and> inv s' \<and> outp s' = outp s @ bs
        \<and> room s = room s' + length bs"
    and sink_room: "inv s \<Longrightarrow> room s < 2 ^ 32"
    and sink_flush: "inv s \<Longrightarrow>
      \<exists>s'. flush_virt T s = (Inr (), s') \<and> inv s' \<and> outp s' = outp s"
begin

lemma write_chunks_ok:
  assumes "inv s" and "length (concat bss) \<le> room s"
  shows "\<exists>s'. write_chunks T bss s = (Inr (), s') \<and> inv s' \<and> outp s' = outp s @ concat bss
    \<and> room s = room s' + length (concat bss)"
  using assms
proof (induction bss arbitrary: s)
  case (Cons bs bss)
  obtain t where t: "write_virt T bs s = (Inr (), t)" "inv t" "outp t = outp s @ bs"
    "room s = room t + length bs"
    using sink_write [OF Cons.prems(1), of bs] Cons.prems(2) by auto
  with Cons.IH [of t] Cons.prems show ?case by (auto simp: bindM_def)
qed (simp add: returnM_def)

end

text \<open>A sink whose flush does not use up room.\<close>

locale steady_sink = byte_sink +
  assumes steady_flush: "inv s \<Longrightarrow> flush_virt T s = (r, s') \<Longrightarrow> room s' = room s"

end
