(* ===== verification/Protocol.thy ===== *)
theory Protocol
  imports Transport
begin

text \<open>
  The protocol interface (\<^verbatim>\<open>TProtocol.h\<close>): type tags, the virtual methods as a record of
  operations, the generic \<open>skip\<close>, and the values that code generated by the compiler writes
  and reads through the interface (\<^verbatim>\<open>t_cpp_generator.cc\<close>). A concrete wire format is a record
  \<open>wire\<close> of byte layouts; the locales \<open>wire_writer\<close> and \<open>wire_reader\<close> say when a protocol
  implements it, and prove once that whole values are written, read back and skipped exactly.
\<close>

section \<open>Type tags\<close>

text \<open>
  \<^verbatim>\<open>TType\<close> and \<^verbatim>\<open>TMessageType\<close> are enumerations, but the readers cast any byte of the wire to
  them; they are therefore words, with the enumerators as constants.
\<close>

type_synonym TType = "8 word"
type_synonym TMessageType = "32 word"

definition T_UNKNOWN :: TType where "T_UNKNOWN = -1"
definition T_STOP :: TType where "T_STOP = 0"
definition T_VOID :: TType where "T_VOID = 1"
definition T_BOOL :: TType where "T_BOOL = 2"
definition T_BYTE :: TType where "T_BYTE = 3"
definition T_DOUBLE :: TType where "T_DOUBLE = 4"
definition T_I16 :: TType where "T_I16 = 6"
definition T_I32 :: TType where "T_I32 = 8"
definition T_U64 :: TType where "T_U64 = 9"
definition T_I64 :: TType where "T_I64 = 10"
definition T_STRING :: TType where "T_STRING = 11"
definition T_STRUCT :: TType where "T_STRUCT = 12"
definition T_MAP :: TType where "T_MAP = 13"
definition T_SET :: TType where "T_SET = 14"
definition T_LIST :: TType where "T_LIST = 15"
definition T_UTF8 :: TType where "T_UTF8 = 16"
definition T_UTF16 :: TType where "T_UTF16 = 17"

definition T_CALL :: TMessageType where "T_CALL = 1"
definition T_REPLY :: TMessageType where "T_REPLY = 2"
definition T_EXCEPTION :: TMessageType where "T_EXCEPTION = 3"
definition T_ONEWAY :: TMessageType where "T_ONEWAY = 4"

definition valid_message_type :: "TMessageType \<Rightarrow> bool" where
  "valid_message_type t \<longleftrightarrow> t \<in> {T_CALL, T_REPLY, T_EXCEPTION, T_ONEWAY}"

lemmas message_type_defs = valid_message_type_def T_CALL_def T_REPLY_def T_EXCEPTION_def T_ONEWAY_def

lemmas ttype_defs = T_UNKNOWN_def T_STOP_def T_VOID_def T_BOOL_def T_BYTE_def T_DOUBLE_def
  T_I16_def T_I32_def T_U64_def T_I64_def T_STRING_def T_STRUCT_def T_MAP_def T_SET_def
  T_LIST_def T_UTF8_def T_UTF16_def

section \<open>The virtual methods\<close>

text \<open>
  Every method returns the number of bytes it has moved. A reader's reference parameters are
  the first component of its result; \<open>None\<close> for a name means that the method leaves the
  caller's string as it is.
\<close>

record 'p TProtocol =
  writeMessageBegin_virt :: "byte list \<Rightarrow> TMessageType \<Rightarrow> int32_t \<Rightarrow> ('p, uint32_t) M"
  writeMessageEnd_virt :: "('p, uint32_t) M"
  writeStructBegin_virt :: "byte list \<Rightarrow> ('p, uint32_t) M"
  writeStructEnd_virt :: "('p, uint32_t) M"
  writeFieldBegin_virt :: "byte list \<Rightarrow> TType \<Rightarrow> int16_t \<Rightarrow> ('p, uint32_t) M"
  writeFieldEnd_virt :: "('p, uint32_t) M"
  writeFieldStop_virt :: "('p, uint32_t) M"
  writeMapBegin_virt :: "TType \<Rightarrow> TType \<Rightarrow> uint32_t \<Rightarrow> ('p, uint32_t) M"
  writeMapEnd_virt :: "('p, uint32_t) M"
  writeListBegin_virt :: "TType \<Rightarrow> uint32_t \<Rightarrow> ('p, uint32_t) M"
  writeListEnd_virt :: "('p, uint32_t) M"
  writeSetBegin_virt :: "TType \<Rightarrow> uint32_t \<Rightarrow> ('p, uint32_t) M"
  writeSetEnd_virt :: "('p, uint32_t) M"
  writeBool_virt :: "bool \<Rightarrow> ('p, uint32_t) M"
  writeByte_virt :: "int8_t \<Rightarrow> ('p, uint32_t) M"
  writeI16_virt :: "int16_t \<Rightarrow> ('p, uint32_t) M"
  writeI32_virt :: "int32_t \<Rightarrow> ('p, uint32_t) M"
  writeI64_virt :: "int64_t \<Rightarrow> ('p, uint32_t) M"
  writeDouble_virt :: "double \<Rightarrow> ('p, uint32_t) M"
  writeString_virt :: "byte list \<Rightarrow> ('p, uint32_t) M"
  writeBinary_virt :: "byte list \<Rightarrow> ('p, uint32_t) M"
  readMessageBegin_virt :: "('p, (byte list \<times> TMessageType \<times> int32_t) \<times> uint32_t) M"
  readMessageEnd_virt :: "('p, uint32_t) M"
  readStructBegin_virt :: "('p, byte list option \<times> uint32_t) M"
  readStructEnd_virt :: "('p, uint32_t) M"
  readFieldBegin_virt :: "('p, (byte list option \<times> TType \<times> int16_t) \<times> uint32_t) M"
  readFieldEnd_virt :: "('p, uint32_t) M"
  readMapBegin_virt :: "('p, (TType \<times> TType \<times> uint32_t) \<times> uint32_t) M"
  readMapEnd_virt :: "('p, uint32_t) M"
  readListBegin_virt :: "('p, (TType \<times> uint32_t) \<times> uint32_t) M"
  readListEnd_virt :: "('p, uint32_t) M"
  readSetBegin_virt :: "('p, (TType \<times> uint32_t) \<times> uint32_t) M"
  readSetEnd_virt :: "('p, uint32_t) M"
  readBool_virt :: "('p, bool \<times> uint32_t) M"
  readByte_virt :: "('p, int8_t \<times> uint32_t) M"
  readI16_virt :: "('p, int16_t \<times> uint32_t) M"
  readI32_virt :: "('p, int32_t \<times> uint32_t) M"
  readI64_virt :: "('p, int64_t \<times> uint32_t) M"
  readDouble_virt :: "('p, double \<times> uint32_t) M"
  readString_virt :: "('p, byte list \<times> uint32_t) M"
  readBinary_virt :: "('p, byte list \<times> uint32_t) M"

text \<open>\<^verbatim>\<open>result += m1; result += m2; \<dots>\<close>\<close>

primrec seqM :: "('p, uint32_t) M list \<Rightarrow> ('p, uint32_t) M" where
  "seqM [] = returnM 0"
| "seqM (m # ms) = bindM m (\<lambda>a. bindM (seqM ms) (\<lambda>b. returnM (a + b)))"

text \<open>Keep the value read, or only the byte count.\<close>

definition mapM :: "('a \<Rightarrow> 'b) \<Rightarrow> ('p, 'a \<times> uint32_t) M \<Rightarrow> ('p, 'b \<times> uint32_t) M" where
  "mapM f m = bindM m (\<lambda>(a, n). returnM (f a, n))"

definition sizeM :: "('p, 'a \<times> uint32_t) M \<Rightarrow> ('p, uint32_t) M" where
  "sizeM m = bindM m (\<lambda>(a, n). returnM n)"

section \<open>Skipping\<close>

text \<open>
  \<open>skip\<close> recurses on what it reads, so the model carries fuel: one unit per level of nesting
  and per field of a struct. The loop over the elements of a container runs \<open>size\<close> times.
\<close>

primrec repeatM :: "nat \<Rightarrow> ('p, uint32_t) M \<Rightarrow> ('p, uint32_t) M" where
  "repeatM 0 m = returnM 0"
| "repeatM (Suc n) m = bindM m (\<lambda>a. bindM (repeatM n m) (\<lambda>b. returnM (a + b)))"

primrec skip_fields :: "nat \<Rightarrow> 'p TProtocol \<Rightarrow> (TType \<Rightarrow> ('p, uint32_t) M) \<Rightarrow> ('p, uint32_t) M" where
  "skip_fields 0 P sk = throwM NonTermination"
| "skip_fields (Suc n) P sk =
     bindM (readFieldBegin_virt P) (\<lambda>((name, ftype, fid), k).
     if ftype = T_STOP then returnM k
     else bindM (seqM [sk ftype, readFieldEnd_virt P, skip_fields n P sk]) (\<lambda>r. returnM (k + r)))"

primrec skip :: "nat \<Rightarrow> 'p TProtocol \<Rightarrow> TType \<Rightarrow> ('p, uint32_t) M" where
  "skip 0 P = (\<lambda>type. throwM NonTermination)"
| "skip (Suc fuel) P = (\<lambda>type.
     if type = T_BOOL then sizeM (readBool_virt P)
     else if type = T_BYTE then sizeM (readByte_virt P)
     else if type = T_I16 then sizeM (readI16_virt P)
     else if type = T_I32 then sizeM (readI32_virt P)
     else if type = T_I64 then sizeM (readI64_virt P)
     else if type = T_DOUBLE then sizeM (readDouble_virt P)
     else if type = T_STRING then sizeM (readBinary_virt P)
     else if type = T_STRUCT then
       seqM [sizeM (readStructBegin_virt P), skip_fields fuel P (skip fuel P), readStructEnd_virt P]
     else if type = T_MAP then
       bindM (readMapBegin_virt P) (\<lambda>((keyType, valType, size), k).
       bindM (seqM [repeatM (unat size) (seqM [skip fuel P keyType, skip fuel P valType]),
                    readMapEnd_virt P]) (\<lambda>r. returnM (k + r)))
     else if type = T_SET then
       bindM (readSetBegin_virt P) (\<lambda>((elemType, size), k).
       bindM (seqM [repeatM (unat size) (skip fuel P elemType), readSetEnd_virt P])
         (\<lambda>r. returnM (k + r)))
     else if type = T_LIST then
       bindM (readListBegin_virt P) (\<lambda>((elemType, size), k).
       bindM (seqM [repeatM (unat size) (skip fuel P elemType), readListEnd_virt P])
         (\<lambda>r. returnM (k + r)))
     else returnM 0)"

section \<open>Values and the generated writer\<close>

text \<open>
  The values of the Thrift types. A struct holds the fields that are set, each with its name
  and id; a container carries the type tags the generated code passes to the protocol.
\<close>

datatype tval =
    VBool bool
  | VByte int8_t
  | VI16 int16_t
  | VI32 int32_t
  | VI64 int64_t
  | VDouble double
  | VString "byte list"
  | VBinary "byte list"
  | VStruct "byte list" "((byte list \<times> int16_t) \<times> tval) list"
  | VMap TType TType "(tval \<times> tval) list"
  | VSet TType "tval list"
  | VList TType "tval list"

fun ttype_of :: "tval \<Rightarrow> TType" where
  "ttype_of (VBool b) = T_BOOL"
| "ttype_of (VByte b) = T_BYTE"
| "ttype_of (VI16 i) = T_I16"
| "ttype_of (VI32 i) = T_I32"
| "ttype_of (VI64 i) = T_I64"
| "ttype_of (VDouble d) = T_DOUBLE"
| "ttype_of (VString s) = T_STRING"
| "ttype_of (VBinary s) = T_STRING"
| "ttype_of (VStruct nm fs) = T_STRUCT"
| "ttype_of (VMap k v kvs) = T_MAP"
| "ttype_of (VSet e vs) = T_SET"
| "ttype_of (VList e vs) = T_LIST"

text \<open>
  The calls the emitted \<open>write\<close> methods make: \<open>generate_struct_writer\<close>,
  \<open>generate_serialize_field\<close> and \<open>generate_serialize_container\<close>.
\<close>

fun write_base :: "'p TProtocol \<Rightarrow> tval \<Rightarrow> ('p, uint32_t) M" where
  "write_base P (VBool b) = writeBool_virt P b"
| "write_base P (VByte b) = writeByte_virt P b"
| "write_base P (VI16 i) = writeI16_virt P i"
| "write_base P (VI32 i) = writeI32_virt P i"
| "write_base P (VI64 i) = writeI64_virt P i"
| "write_base P (VDouble d) = writeDouble_virt P d"
| "write_base P (VString s) = writeString_virt P s"
| "write_base P (VBinary s) = writeBinary_virt P s"
| "write_base P v = throwM UndefinedBehaviour"

fun is_base :: "tval \<Rightarrow> bool" where
  "is_base (VStruct nm fs) = False"
| "is_base (VMap k v kvs) = False"
| "is_base (VSet e vs) = False"
| "is_base (VList e vs) = False"
| "is_base v = True"

function (sequential) write_value :: "'p TProtocol \<Rightarrow> tval \<Rightarrow> ('p, uint32_t) M"
  and write_fields :: "'p TProtocol \<Rightarrow> ((byte list \<times> int16_t) \<times> tval) list \<Rightarrow> ('p, uint32_t) M"
  and write_elems :: "'p TProtocol \<Rightarrow> tval list \<Rightarrow> ('p, uint32_t) M"
  and write_pairs :: "'p TProtocol \<Rightarrow> (tval \<times> tval) list \<Rightarrow> ('p, uint32_t) M" where
  "write_value P (VStruct nm fs) =
     seqM [writeStructBegin_virt P nm, write_fields P fs, writeFieldStop_virt P, writeStructEnd_virt P]"
| "write_value P (VMap k v kvs) =
     seqM [writeMapBegin_virt P k v (word_of_nat (length kvs)), write_pairs P kvs, writeMapEnd_virt P]"
| "write_value P (VSet e vs) =
     seqM [writeSetBegin_virt P e (word_of_nat (length vs)), write_elems P vs, writeSetEnd_virt P]"
| "write_value P (VList e vs) =
     seqM [writeListBegin_virt P e (word_of_nat (length vs)), write_elems P vs, writeListEnd_virt P]"
| "write_value P v = write_base P v"
| "write_fields P [] = returnM 0"
| "write_fields P (((nm, fid), v) # fs) =
     seqM [writeFieldBegin_virt P nm (ttype_of v) fid, write_value P v, writeFieldEnd_virt P,
           write_fields P fs]"
| "write_elems P [] = returnM 0"
| "write_elems P (v # vs) = seqM [write_value P v, write_elems P vs]"
| "write_pairs P [] = returnM 0"
| "write_pairs P ((k, v) # kvs) = seqM [write_value P k, write_value P v, write_pairs P kvs]"
  by pat_completeness auto
termination
  by (relation "measure (case_sum (case_sum (\<lambda>(P, v). size v) (\<lambda>(P, fs). size_list (size_prod (\<lambda>_. 0) size) fs))
      (case_sum (\<lambda>(P, vs). size_list size vs) (\<lambda>(P, kvs). size_list (size_prod size size) kvs)))")
    simp_all

section \<open>Wire formats\<close>

text \<open>
  A wire format: the byte layout of each part of a value. \<open>'c\<close> is the control state the
  layout depends on (for the compact protocol the stack of last field ids; the binary protocol
  has none), with its changes at the start of a struct and after a field.
\<close>

record 'c wire =
  wire_push :: "'c \<Rightarrow> 'c"
  wire_field :: "'c \<Rightarrow> int16_t \<Rightarrow> 'c"
  wire_base :: "tval \<Rightarrow> byte list"
  wire_base_field :: "'c \<Rightarrow> int16_t \<Rightarrow> tval \<Rightarrow> byte list"
  wire_header :: "'c \<Rightarrow> int16_t \<Rightarrow> TType \<Rightarrow> byte list"
  wire_stop :: "byte list"
  wire_map :: "TType \<Rightarrow> TType \<Rightarrow> nat \<Rightarrow> byte list"
  wire_set :: "TType \<Rightarrow> nat \<Rightarrow> byte list"
  wire_list :: "TType \<Rightarrow> nat \<Rightarrow> byte list"

abbreviation fields_size :: "((byte list \<times> int16_t) \<times> tval) list \<Rightarrow> nat" where
  "fields_size \<equiv> size_list (size_prod (\<lambda>_. 0) size)"

abbreviation pairs_size :: "(tval \<times> tval) list \<Rightarrow> nat" where
  "pairs_size \<equiv> size_list (size_prod size size)"

text \<open>The encoding of a whole value.\<close>

function (sequential) enc_value :: "'c wire \<Rightarrow> 'c \<Rightarrow> tval \<Rightarrow> byte list"
  and enc_fields :: "'c wire \<Rightarrow> 'c \<Rightarrow> ((byte list \<times> int16_t) \<times> tval) list \<Rightarrow> byte list"
  and enc_elems :: "'c wire \<Rightarrow> 'c \<Rightarrow> tval list \<Rightarrow> byte list"
  and enc_pairs :: "'c wire \<Rightarrow> 'c \<Rightarrow> (tval \<times> tval) list \<Rightarrow> byte list" where
  "enc_value W c (VStruct nm fs) = enc_fields W (wire_push W c) fs @ wire_stop W"
| "enc_value W c (VMap k v kvs) = wire_map W k v (length kvs) @ enc_pairs W c kvs"
| "enc_value W c (VSet e vs) = wire_set W e (length vs) @ enc_elems W c vs"
| "enc_value W c (VList e vs) = wire_list W e (length vs) @ enc_elems W c vs"
| "enc_value W c v = wire_base W v"
| "enc_fields W c [] = []"
| "enc_fields W c (((nm, fid), v) # fs) =
     (if is_base v then wire_base_field W c fid v
      else wire_header W c fid (ttype_of v) @ enc_value W (wire_field W c fid) v)
     @ enc_fields W (wire_field W c fid) fs"
| "enc_elems W c [] = []"
| "enc_elems W c (v # vs) = enc_value W c v @ enc_elems W c vs"
| "enc_pairs W c [] = []"
| "enc_pairs W c ((k, v) # kvs) = enc_value W c k @ enc_value W c v @ enc_pairs W c kvs"
  by pat_completeness auto
termination
  by (relation "measure (case_sum (case_sum (\<lambda>(W, c, v). size v) (\<lambda>(W, c, fs). fields_size fs))
      (case_sum (\<lambda>(W, c, vs). size_list size vs) (\<lambda>(W, c, kvs). pairs_size kvs)))")
    simp_all

lemma enc_value_base: "is_base v \<Longrightarrow> enc_value W c v = wire_base W v"
  by (cases v) simp_all

text \<open>The control state after a list of fields.\<close>

primrec after_fields :: "'c wire \<Rightarrow> 'c \<Rightarrow> ((byte list \<times> int16_t) \<times> tval) list \<Rightarrow> 'c" where
  "after_fields W c [] = c"
| "after_fields W c (f # fs) = after_fields W (wire_field W c (snd (fst f))) fs"

text \<open>
  Well-formed values: the elements of a container have the tag it declares, and the lengths
  of strings and containers satisfy \<open>okS\<close> and \<open>okC\<close> (the size limits of the protocol).
\<close>

definition valid_tag :: "TType \<Rightarrow> bool" where
  "valid_tag t \<longleftrightarrow> t \<in> {T_BOOL, T_BYTE, T_DOUBLE, T_I16, T_I32, T_I64, T_STRING, T_STRUCT, T_MAP,
     T_SET, T_LIST}"

lemma valid_tag_ttype_of [simp]: "valid_tag (ttype_of v)"
  by (cases v) (simp_all add: valid_tag_def)

lemma valid_tag_not_stop: "valid_tag t \<Longrightarrow> t \<noteq> T_STOP"
  by (auto simp: valid_tag_def ttype_defs)

fun wf_base :: "(nat \<Rightarrow> bool) \<Rightarrow> tval \<Rightarrow> bool" where
  "wf_base okS (VString s) = okS (length s)"
| "wf_base okS (VBinary s) = okS (length s)"
| "wf_base okS v = is_base v"

text \<open>The lengths a reader accepts under its string and container limits.\<close>

definition okString :: "int32_t \<Rightarrow> nat \<Rightarrow> bool" where
  "okString limit n \<longleftrightarrow> n < 2 ^ 31 \<and> (0 <s limit \<longrightarrow> int n \<le> sint limit)"

definition okContainer :: "int32_t \<Rightarrow> nat \<Rightarrow> bool" where
  "okContainer limit n \<longleftrightarrow> n < 2 ^ 31 \<and> (limit \<noteq> 0 \<longrightarrow> int n \<le> sint limit)"

function (sequential) wf_value :: "(nat \<Rightarrow> bool) \<Rightarrow> (nat \<Rightarrow> bool) \<Rightarrow> tval \<Rightarrow> bool"
  and wf_fields :: "(nat \<Rightarrow> bool) \<Rightarrow> (nat \<Rightarrow> bool) \<Rightarrow> ((byte list \<times> int16_t) \<times> tval) list \<Rightarrow> bool"
  and wf_elems :: "(nat \<Rightarrow> bool) \<Rightarrow> (nat \<Rightarrow> bool) \<Rightarrow> TType \<Rightarrow> tval list \<Rightarrow> bool"
  and wf_pairs :: "(nat \<Rightarrow> bool) \<Rightarrow> (nat \<Rightarrow> bool) \<Rightarrow> TType \<Rightarrow> TType \<Rightarrow> (tval \<times> tval) list \<Rightarrow> bool" where
  "wf_value okS okC (VStruct nm fs) = wf_fields okS okC fs"
| "wf_value okS okC (VMap k v kvs) =
     (okC (length kvs) \<and> valid_tag k \<and> valid_tag v \<and> wf_pairs okS okC k v kvs)"
| "wf_value okS okC (VSet e vs) = (okC (length vs) \<and> valid_tag e \<and> wf_elems okS okC e vs)"
| "wf_value okS okC (VList e vs) = (okC (length vs) \<and> valid_tag e \<and> wf_elems okS okC e vs)"
| "wf_value okS okC v = wf_base okS v"
| "wf_fields okS okC [] = True"
| "wf_fields okS okC (((nm, fid), v) # fs) = (wf_value okS okC v \<and> wf_fields okS okC fs)"
| "wf_elems okS okC e [] = True"
| "wf_elems okS okC e (v # vs) = (ttype_of v = e \<and> wf_value okS okC v \<and> wf_elems okS okC e vs)"
| "wf_pairs okS okC k v [] = True"
| "wf_pairs okS okC k v ((x, y) # kvs) = (ttype_of x = k \<and> ttype_of y = v
     \<and> wf_value okS okC x \<and> wf_value okS okC y \<and> wf_pairs okS okC k v kvs)"
  by pat_completeness auto
termination
  by (relation "measure (case_sum (case_sum (\<lambda>(a, b, v). size v) (\<lambda>(a, b, fs). fields_size fs))
      (case_sum (\<lambda>(a, b, e, vs). size_list size vs) (\<lambda>(a, b, k, v, kvs). pairs_size kvs)))")
    simp_all

lemma wf_value_base: "is_base v \<Longrightarrow> wf_value okS okC v = wf_base okS v"
  by (cases v) simp_all

section \<open>Emitting and parsing bytes\<close>

text \<open>
  How a protocol object is observed while writing and while reading: its invariant, its
  control state, the bytes written so far (and how many more fit), or the bytes still to come.
\<close>

record ('s, 'c) writing =
  w_inv :: "'s \<Rightarrow> bool"
  w_ctl :: "'s \<Rightarrow> 'c"
  w_outp :: "'s \<Rightarrow> byte list"
  w_room :: "'s \<Rightarrow> nat"

record ('s, 'c) reading =
  r_inv :: "'s \<Rightarrow> bool"
  r_ctl :: "'s \<Rightarrow> 'c"
  r_inp :: "'s \<Rightarrow> byte list"

definition emits ::
  "('s, 'c) writing \<Rightarrow> 'c \<Rightarrow> ('s, uint32_t) M \<Rightarrow> byte list \<Rightarrow> 'c \<Rightarrow> bool" where
  "emits V c m bs c' \<longleftrightarrow> (\<forall>s. w_inv V s \<and> w_ctl V s = c \<and> length bs \<le> w_room V s \<longrightarrow>
     (\<exists>s'. m s = (Inr (word_of_nat (length bs)), s') \<and> w_inv V s' \<and> w_ctl V s' = c'
        \<and> w_outp V s' = w_outp V s @ bs \<and> w_room V s = w_room V s' + length bs))"

definition parses ::
  "('s, 'c) reading \<Rightarrow> 'c \<Rightarrow> ('s, 'a \<times> uint32_t) M \<Rightarrow> byte list \<Rightarrow> 'a \<Rightarrow> 'c \<Rightarrow> bool" where
  "parses R c m bs v c' \<longleftrightarrow> (\<forall>s rest. r_inv R s \<and> r_ctl R s = c \<and> r_inp R s = bs @ rest \<longrightarrow>
     (\<exists>s'. m s = (Inr (v, word_of_nat (length bs)), s') \<and> r_inv R s' \<and> r_ctl R s' = c'
        \<and> r_inp R s' = rest))"

definition eats ::
  "('s, 'c) reading \<Rightarrow> 'c \<Rightarrow> ('s, uint32_t) M \<Rightarrow> byte list \<Rightarrow> 'c \<Rightarrow> bool" where
  "eats R c m bs c' \<longleftrightarrow> (\<forall>s rest. r_inv R s \<and> r_ctl R s = c \<and> r_inp R s = bs @ rest \<longrightarrow>
     (\<exists>s'. m s = (Inr (word_of_nat (length bs)), s') \<and> r_inv R s' \<and> r_ctl R s' = c'
        \<and> r_inp R s' = rest))"

lemma emitsD:
  assumes "emits V c m bs c'" and "w_inv V s" and "w_ctl V s = c" and "length bs \<le> w_room V s"
  obtains s' where "m s = (Inr (word_of_nat (length bs)), s')" "w_inv V s'" "w_ctl V s' = c'"
    "w_outp V s' = w_outp V s @ bs" "w_room V s = w_room V s' + length bs"
  using assms by (auto simp: emits_def)

lemma parsesD:
  assumes "parses R c m bs v c'" and "r_inv R s" and "r_ctl R s = c" and "r_inp R s = bs @ rest"
  obtains s' where "m s = (Inr (v, word_of_nat (length bs)), s')" "r_inv R s'" "r_ctl R s' = c'"
    "r_inp R s' = rest"
  using assms by (auto simp: parses_def)

lemma eatsD:
  assumes "eats R c m bs c'" and "r_inv R s" and "r_ctl R s = c" and "r_inp R s = bs @ rest"
  obtains s' where "m s = (Inr (word_of_nat (length bs)), s')" "r_inv R s'" "r_ctl R s' = c'"
    "r_inp R s' = rest"
  using assms by (auto simp: eats_def)

lemma emits_return: "emits V c (returnM 0) [] c"
  by (simp add: emits_def returnM_def)

lemma emits_bind:
  assumes a: "emits V c m a c'" and b: "emits V c' m' b c''"
    and f: "f (word_of_nat (length a)) = bindM m' (\<lambda>r. returnM (word_of_nat (length a) + r))"
  shows "emits V c (bindM m f) (a @ b) c''"
  unfolding emits_def
proof (intro allI impI, elim conjE)
  fix s assume s: "w_inv V s" "w_ctl V s = c" "length (a @ b) \<le> w_room V s"
  obtain s1 where s1: "m s = (Inr (word_of_nat (length a)), s1)" "w_inv V s1" "w_ctl V s1 = c'"
    "w_outp V s1 = w_outp V s @ a" "w_room V s = w_room V s1 + length a"
    using s by (auto elim: emitsD [OF a])
  obtain s2 where s2: "m' s1 = (Inr (word_of_nat (length b)), s2)" "w_inv V s2" "w_ctl V s2 = c''"
    "w_outp V s2 = w_outp V s1 @ b" "w_room V s1 = w_room V s2 + length b"
    using s s1 by (auto elim: emitsD [OF b])
  from s1 s2 show "\<exists>s'. bindM m f s = (Inr (word_of_nat (length (a @ b))), s') \<and> w_inv V s'
      \<and> w_ctl V s' = c'' \<and> w_outp V s' = w_outp V s @ a @ b
      \<and> w_room V s = w_room V s' + length (a @ b)"
    by (simp add: bindM_def f returnM_def)
qed

lemma emits_seq:
  "emits V c m a c' \<Longrightarrow> emits V c' (seqM ms) b c'' \<Longrightarrow> emits V c (seqM (m # ms)) (a @ b) c''"
  by (simp add: emits_bind)

lemma seqM_pair: "seqM (a # b # ms) = seqM (seqM [a, b] # ms)"
  by (simp add: bindM_assoc add.assoc)

lemma emits_last: "emits V c m a c' \<Longrightarrow> emits V c (seqM [m]) a c'"
  using emits_seq [of V c m a c' "[]" "[]" c'] emits_return [of V c'] by simp

lemma emits_get:
  assumes "\<And>s. w_inv V s \<Longrightarrow> w_ctl V s = c \<Longrightarrow> g s = x" and "emits V c (f x) bs c'"
  shows "emits V c (bindM (getM g) f) bs c'"
  using assms by (simp add: emits_def bindM_def getM_def)

lemma parses_return: "parses R c (returnM (v, 0)) [] v c"
  by (simp add: parses_def returnM_def)

lemma parses_bind:
  assumes a: "parses R c m a u c'" and b: "parses R c' m' b v c''"
    and f: "f (u, word_of_nat (length a))
      = bindM m' (\<lambda>(x, k). returnM (g x, word_of_nat (length a) + k))"
  shows "parses R c (bindM m f) (a @ b) (g v) c''"
  unfolding parses_def
proof (intro allI impI, elim conjE)
  fix s rest assume s: "r_inv R s" "r_ctl R s = c" "r_inp R s = (a @ b) @ rest"
  obtain s1 where s1: "m s = (Inr (u, word_of_nat (length a)), s1)" "r_inv R s1" "r_ctl R s1 = c'"
    "r_inp R s1 = b @ rest"
    using s by (auto elim: parsesD [OF a])
  obtain s2 where s2: "m' s1 = (Inr (v, word_of_nat (length b)), s2)" "r_inv R s2"
    "r_ctl R s2 = c''" "r_inp R s2 = rest"
    using s1 by (auto elim: parsesD [OF b])
  from s1 s2 show "\<exists>s'. bindM m f s = (Inr (g v, word_of_nat (length (a @ b))), s') \<and> r_inv R s'
      \<and> r_ctl R s' = c'' \<and> r_inp R s' = rest"
    by (simp add: bindM_def f returnM_def)
qed

lemma parses_map: "parses R c m a v c' \<Longrightarrow> parses R c (mapM f m) a (f v) c'"
  by (fastforce simp: mapM_def parses_def monad_simps)

lemma parses_get:
  assumes "\<And>s. r_inv R s \<Longrightarrow> r_ctl R s = c \<Longrightarrow> g s = x" and "parses R c (f x) bs v c'"
  shows "parses R c (bindM (getM g) f) bs v c'"
  using assms by (simp add: parses_def bindM_def getM_def)

lemma eats_return: "eats R c (returnM 0) [] c"
  by (simp add: eats_def returnM_def)

lemma eats_bind:
  assumes a: "parses R c m a u c'" and b: "eats R c' m' b c''"
    and f: "f (u, word_of_nat (length a)) = bindM m' (\<lambda>r. returnM (word_of_nat (length a) + r))"
  shows "eats R c (bindM m f) (a @ b) c''"
  unfolding eats_def
proof (intro allI impI, elim conjE)
  fix s rest assume s: "r_inv R s" "r_ctl R s = c" "r_inp R s = (a @ b) @ rest"
  obtain s1 where s1: "m s = (Inr (u, word_of_nat (length a)), s1)" "r_inv R s1" "r_ctl R s1 = c'"
    "r_inp R s1 = b @ rest"
    using s by (auto elim: parsesD [OF a])
  obtain s2 where s2: "m' s1 = (Inr (word_of_nat (length b)), s2)" "r_inv R s2"
    "r_ctl R s2 = c''" "r_inp R s2 = rest"
    using s1 by (auto elim: eatsD [OF b])
  from s1 s2 show "\<exists>s'. bindM m f s = (Inr (word_of_nat (length (a @ b))), s') \<and> r_inv R s'
      \<and> r_ctl R s' = c'' \<and> r_inp R s' = rest"
    by (simp add: bindM_def f returnM_def)
qed

lemma eats_bind_eats:
  assumes a: "eats R c m a c'" and b: "eats R c' m' b c''"
  shows "eats R c (bindM m (\<lambda>k. bindM m' (\<lambda>r. returnM (k + r)))) (a @ b) c''"
  unfolding eats_def
proof (intro allI impI, elim conjE)
  fix s rest assume s: "r_inv R s" "r_ctl R s = c" "r_inp R s = (a @ b) @ rest"
  obtain s1 where s1: "m s = (Inr (word_of_nat (length a)), s1)" "r_inv R s1" "r_ctl R s1 = c'"
    "r_inp R s1 = b @ rest"
    using s by (auto elim: eatsD [OF a])
  obtain s2 where s2: "m' s1 = (Inr (word_of_nat (length b)), s2)" "r_inv R s2"
    "r_ctl R s2 = c''" "r_inp R s2 = rest"
    using s1 by (auto elim: eatsD [OF b])
  from s1 s2 show "\<exists>s'. bindM m (\<lambda>k. bindM m' (\<lambda>r. returnM (k + r))) s
      = (Inr (word_of_nat (length (a @ b))), s') \<and> r_inv R s' \<and> r_ctl R s' = c'' \<and> r_inp R s' = rest"
    by (simp add: bindM_def returnM_def)
qed

lemma eats_seq:
  "eats R c m a c' \<Longrightarrow> eats R c' (seqM ms) b c'' \<Longrightarrow> eats R c (seqM (m # ms)) (a @ b) c''"
  by (simp add: eats_bind_eats)

lemma eats_last: "eats R c m a c' \<Longrightarrow> eats R c (seqM [m]) a c'"
  using eats_seq [of R c m a c' "[]" "[]" c'] eats_return [of R c'] by simp

lemma eats_sizeM: "parses R c m a v c' \<Longrightarrow> eats R c (sizeM m) a c'"
  by (fastforce simp: sizeM_def parses_def eats_def monad_simps)

lemma parses_after_eats:
  assumes a: "eats R c m a c'" and b: "parses R c' m' b v c''"
    and f: "f (word_of_nat (length a))
      = bindM m' (\<lambda>(x, k). returnM (g x, word_of_nat (length a) + k))"
  shows "parses R c (bindM m f) (a @ b) (g v) c''"
proof -
  have "parses R c (bindM m (\<lambda>k. returnM ((), k))) a () c'"
    using a by (fastforce simp: eats_def parses_def monad_simps)
  from parses_bind [OF this b, where f = "\<lambda>(u, k). f k" and g = g] f show ?thesis
    by (simp add: bindM_assoc)
qed

section \<open>The contract of a writer\<close>

text \<open>Induction over values and their lists of fields, elements and entries.\<close>

lemma tval_induct [case_names base struct map set list no_field field no_elem elem no_pair pair]:
  assumes "\<And>v. is_base v \<Longrightarrow> Pv v"
    and "\<And>nm fs. Pf fs \<Longrightarrow> Pv (VStruct nm fs)"
    and "\<And>k v kvs. Pp kvs \<Longrightarrow> Pv (VMap k v kvs)"
    and "\<And>e vs. Pe vs \<Longrightarrow> Pv (VSet e vs)"
    and "\<And>e vs. Pe vs \<Longrightarrow> Pv (VList e vs)"
    and "Pf []"
    and "\<And>nm fid v fs. Pv v \<Longrightarrow> Pf fs \<Longrightarrow> Pf (((nm, fid), v) # fs)"
    and "Pe []"
    and "\<And>v vs. Pv v \<Longrightarrow> Pe vs \<Longrightarrow> Pe (v # vs)"
    and "Pp []"
    and "\<And>x y kvs. Pv x \<Longrightarrow> Pv y \<Longrightarrow> Pp kvs \<Longrightarrow> Pp ((x, y) # kvs)"
  shows "Pv v" and "Pf fs" and "Pe vs" and "Pp kvs"
  using write_value_write_fields_write_elems_write_pairs.induct
    [where P = "\<lambda>_. Pv" and Q = "\<lambda>_. Pf" and R = "\<lambda>_. Pe" and S = "\<lambda>_. Pp"] assms
  by auto

lemma wf_value_mono:
  assumes "\<And>n. okS n \<Longrightarrow> okS' n" and "\<And>n. okC n \<Longrightarrow> okC' n"
  shows "wf_value okS okC v \<Longrightarrow> wf_value okS' okC' v"
    and "wf_fields okS okC fs \<Longrightarrow> wf_fields okS' okC' fs"
    and "\<And>e. wf_elems okS okC e vs \<Longrightarrow> wf_elems okS' okC' e vs"
    and "\<And>k' v'. wf_pairs okS okC k' v' kvs \<Longrightarrow> wf_pairs okS' okC' k' v' kvs"
proof (induction v and fs and vs and kvs rule: tval_induct)
  case (base v)
  then show ?case using assms(1) by (cases v) auto
qed (use assms in auto)

text \<open>Control states: \<open>idle\<close> says that no field header is pending.\<close>

locale wire_control =
  fixes W :: "'c wire"
    and idle :: "'c \<Rightarrow> bool"
  assumes idle_push [simp]: "idle c \<Longrightarrow> idle (wire_push W c)"
    and idle_field [simp]: "idle c \<Longrightarrow> idle (wire_field W c i)"
begin

lemma idle_after_fields [simp]: "idle c \<Longrightarrow> idle (after_fields W c fs)"
  by (induction fs arbitrary: c) simp_all

end

locale wire_writer = wire_control W idle for W :: "'c wire" and idle +
  fixes P :: "'p TProtocol"
    and V :: "('p, 'c) writing"
    and okS okC :: "nat \<Rightarrow> bool"
  assumes wr_base: "idle c \<Longrightarrow> is_base v \<Longrightarrow> wf_base okS v \<Longrightarrow>
      emits V c (write_base P v) (wire_base W v) c"
    and wr_base_field: "idle c \<Longrightarrow> is_base v \<Longrightarrow> wf_base okS v \<Longrightarrow>
      emits V c (seqM [writeFieldBegin_virt P nm (ttype_of v) fid, write_base P v])
        (wire_base_field W c fid v) (wire_field W c fid)"
    and wr_header: "idle c \<Longrightarrow> \<not> is_base v \<Longrightarrow>
      emits V c (writeFieldBegin_virt P nm (ttype_of v) fid) (wire_header W c fid (ttype_of v))
        (wire_field W c fid)"
    and wr_field_end: "emits V c (writeFieldEnd_virt P) [] c"
    and wr_stop: "emits V c (writeFieldStop_virt P) (wire_stop W) c"
    and wr_struct: "emits V c (writeStructBegin_virt P nm) [] (wire_push W c)"
    and wr_struct_end: "emits V (after_fields W (wire_push W c) fs) (writeStructEnd_virt P) [] c"
    and wr_map: "okC n \<Longrightarrow> valid_tag kt \<Longrightarrow> valid_tag vt \<Longrightarrow>
      emits V c (writeMapBegin_virt P kt vt (word_of_nat n)) (wire_map W kt vt n) c"
    and wr_map_end: "emits V c (writeMapEnd_virt P) [] c"
    and wr_set: "okC n \<Longrightarrow> valid_tag et \<Longrightarrow>
      emits V c (writeSetBegin_virt P et (word_of_nat n)) (wire_set W et n) c"
    and wr_set_end: "emits V c (writeSetEnd_virt P) [] c"
    and wr_list: "okC n \<Longrightarrow> valid_tag et \<Longrightarrow>
      emits V c (writeListBegin_virt P et (word_of_nat n)) (wire_list W et n) c"
    and wr_list_end: "emits V c (writeListEnd_virt P) [] c"
begin

lemma write_value_base: "is_base v \<Longrightarrow> write_value P v = write_base P v"
  by (cases v) simp_all

lemma emits_container:
  assumes "emits V c first a c" and "emits V c body b c" and "emits V c fin [] c"
  shows "emits V c (seqM [first, body, fin]) (a @ b) c"
  using emits_seq [OF assms(1) emits_seq [OF assms(2) emits_last [OF assms(3)]]] by simp

lemma emits_field:
  assumes "emits V c m a c1" and "emits V c1 rest b c2"
  shows "emits V c (seqM [m, writeFieldEnd_virt P, rest]) (a @ b) c2"
  using emits_seq [OF assms(1) emits_seq [OF wr_field_end emits_last [OF assms(2)]]] by simp

text \<open>Writing a value emits exactly its encoding and reports its length.\<close>

lemma write_value_emits:
    "\<And>c. idle c \<Longrightarrow> wf_value okS okC v \<Longrightarrow> emits V c (write_value P v) (enc_value W c v) c"
  and write_fields_emits: "\<And>c. idle c \<Longrightarrow> wf_fields okS okC fs \<Longrightarrow>
    emits V c (write_fields P fs) (enc_fields W c fs) (after_fields W c fs)"
  and write_elems_emits: "\<And>c e. idle c \<Longrightarrow> wf_elems okS okC e vs \<Longrightarrow>
    emits V c (write_elems P vs) (enc_elems W c vs) c"
  and write_pairs_emits: "\<And>c k' v'. idle c \<Longrightarrow> wf_pairs okS okC k' v' kvs \<Longrightarrow>
    emits V c (write_pairs P kvs) (enc_pairs W c kvs) c"
proof (induction v and fs and vs and kvs rule: tval_induct)
  case (base v)
  then show ?case by (simp add: write_value_base enc_value_base wf_value_base wr_base)
next
  case (struct nm fs)
  have "emits V (wire_push W c) (write_fields P fs) (enc_fields W (wire_push W c) fs)
      (after_fields W (wire_push W c) fs)"
    using struct by simp
  from emits_seq [OF wr_struct [of c nm] emits_seq [OF this emits_seq [OF wr_stop
        emits_last [OF wr_struct_end]]]]
  show ?case by (simp del: seqM.simps)
next
  case (map k v kvs)
  then show ?case by (auto intro!: emits_container wr_map wr_map_end simp del: seqM.simps)
next
  case (set e vs)
  then show ?case by (auto intro!: emits_container wr_set wr_set_end simp del: seqM.simps)
next
  case (list e vs)
  then show ?case by (auto intro!: emits_container wr_list wr_list_end simp del: seqM.simps)
next
  case (field nm fid v fs)
  have rest: "emits V (wire_field W c fid) (write_fields P fs) (enc_fields W (wire_field W c fid) fs)
      (after_fields W (wire_field W c fid) fs)"
    using field by simp
  have "emits V c (seqM [writeFieldBegin_virt P nm (ttype_of v) fid, write_value P v])
      (if is_base v then wire_base_field W c fid v
       else wire_header W c fid (ttype_of v) @ enc_value W (wire_field W c fid) v)
      (wire_field W c fid)"
  proof (cases "is_base v")
    case True
    with field wr_base_field show ?thesis
      by (simp add: write_value_base wf_value_base del: seqM.simps)
  next
    case False
    have "emits V (wire_field W c fid) (write_value P v) (enc_value W (wire_field W c fid) v)
        (wire_field W c fid)" using field by simp
    from emits_seq [OF wr_header [OF field.prems(1) False] emits_last [OF this]] False
    show ?thesis by (simp only: if_False)
  qed
  from emits_field [OF this rest] show ?case
    by (simp only: write_fields.simps enc_fields.simps after_fields.simps fst_conv snd_conv
        seqM_pair [of "writeFieldBegin_virt P nm (ttype_of v) fid" "write_value P v"
          "[writeFieldEnd_virt P, write_fields P fs]"])
next
  case (elem v vs)
  then have "emits V c (write_value P v) (enc_value W c v) c"
    and "emits V c (write_elems P vs) (enc_elems W c vs) c" by auto
  from emits_seq [OF this(1) emits_last [OF this(2)]] show ?case by (simp del: seqM.simps)
next
  case (pair x y kvs)
  then have "emits V c (write_value P x) (enc_value W c x) c"
    and "emits V c (write_value P y) (enc_value W c y) c"
    and "emits V c (write_pairs P kvs) (enc_pairs W c kvs) c" by auto
  from emits_seq [OF this(1) emits_seq [OF this(2) emits_last [OF this(3)]]] show ?case
    by (simp del: seqM.simps)
qed (simp_all add: emits_return)

end

section \<open>The contract of a reader\<close>

text \<open>
  Reading a base value of a given tag, through \<open>readBinary\<close> or \<open>readString\<close> if it is a string. The tag
  does not tell which: a reader may take what was written as a string for binary data, and conversely.
\<close>

fun read_as :: "bool \<Rightarrow> tval \<Rightarrow> tval" where
  "read_as bin (VString s) = (if bin then VBinary s else VString s)"
| "read_as bin (VBinary s) = (if bin then VBinary s else VString s)"
| "read_as bin v = v"

definition read_base :: "'p TProtocol \<Rightarrow> bool \<Rightarrow> TType \<Rightarrow> ('p, tval \<times> uint32_t) M" where
  "read_base P bin type =
     (if type = T_BOOL then mapM VBool (readBool_virt P)
      else if type = T_BYTE then mapM VByte (readByte_virt P)
      else if type = T_I16 then mapM VI16 (readI16_virt P)
      else if type = T_I32 then mapM VI32 (readI32_virt P)
      else if type = T_I64 then mapM VI64 (readI64_virt P)
      else if type = T_DOUBLE then mapM VDouble (readDouble_virt P)
      else if type = T_STRING then
        (if bin then mapM VBinary (readBinary_virt P) else mapM VString (readString_virt P))
      else throwM UndefinedBehaviour)"

lemma sizeM_mapM [simp]: "sizeM (mapM f m) = sizeM m"
  by (auto simp: sizeM_def mapM_def monad_simps fun_eq_iff split: sum.splits prod.splits)

lemma skip_base:
  assumes "is_base v"
  shows "skip (Suc fuel) P (ttype_of v) = sizeM (read_base P True (ttype_of v))"
  using assms by (cases v) (simp_all add: read_base_def ttype_defs)

locale wire_reader = wire_control W idle for W :: "'c wire" and idle +
  fixes P :: "'p TProtocol"
    and R :: "('p, 'c) reading"
    and okS okC :: "nat \<Rightarrow> bool"
  assumes okC_u32: "okC n \<Longrightarrow> n < 2 ^ 32"
    and rd_base: "idle c \<Longrightarrow> is_base v \<Longrightarrow> wf_base okS v \<Longrightarrow>
      parses R c (read_base P bin (ttype_of v)) (wire_base W v) (read_as bin v) c"
    and rd_base_field: "idle c \<Longrightarrow> is_base v \<Longrightarrow> wf_base okS v \<Longrightarrow>
      \<exists>hdr body c1. wire_base_field W c fid v = hdr @ body
        \<and> parses R c (readFieldBegin_virt P) hdr (None, ttype_of v, fid) c1
        \<and> (\<forall>bin. parses R c1 (read_base P bin (ttype_of v)) body (read_as bin v) (wire_field W c fid))"
    and rd_header: "idle c \<Longrightarrow> \<not> is_base v \<Longrightarrow>
      parses R c (readFieldBegin_virt P) (wire_header W c fid (ttype_of v)) (None, ttype_of v, fid)
        (wire_field W c fid)"
    and rd_field_end: "eats R c (readFieldEnd_virt P) [] c"
    and rd_stop: "parses R c (readFieldBegin_virt P) (wire_stop W) (None, T_STOP, 0) c"
    and rd_struct: "\<exists>nm. parses R c (readStructBegin_virt P) [] nm (wire_push W c)"
    and rd_struct_end: "eats R (after_fields W (wire_push W c) fs) (readStructEnd_virt P) [] c"
    and rd_map: "okC n \<Longrightarrow> valid_tag kt \<Longrightarrow> valid_tag vt \<Longrightarrow>
      \<exists>k' v'. parses R c (readMapBegin_virt P) (wire_map W kt vt n) (k', v', word_of_nat n) c
        \<and> (0 < n \<longrightarrow> k' = kt \<and> v' = vt)"
    and rd_map_end: "eats R c (readMapEnd_virt P) [] c"
    and rd_set: "okC n \<Longrightarrow> valid_tag et \<Longrightarrow>
      parses R c (readSetBegin_virt P) (wire_set W et n) (et, word_of_nat n) c"
    and rd_set_end: "eats R c (readSetEnd_virt P) [] c"
    and rd_list: "okC n \<Longrightarrow> valid_tag et \<Longrightarrow>
      parses R c (readListBegin_virt P) (wire_list W et n) (et, word_of_nat n) c"
    and rd_list_end: "eats R c (readListEnd_virt P) [] c"
begin

lemma unat_okC [simp]: "okC n \<Longrightarrow> unat (word_of_nat n :: uint32_t) = n"
  using okC_u32 [of n] by (simp add: unat_of_nat)

lemma eats_container:
  assumes "parses R c m a u c" and "eats R c body b c" and "eats R c fin [] c"
    and "f (u, word_of_nat (length a))
      = bindM (seqM [body, fin]) (\<lambda>r. returnM (word_of_nat (length a) + r))"
  shows "eats R c (bindM m f) (a @ b) c"
  using eats_bind [where f = f, OF assms(1) eats_seq [OF assms(2) eats_last [OF assms(3)]] assms(4)]
  by simp

text \<open>One round of the field loop.\<close>

lemma skip_one_field:
  assumes hdr: "parses R c (readFieldBegin_virt P) hdr (None, t, fid) c1" and "valid_tag t"
    and body: "eats R c1 (sk t) body c2"
    and rest: "eats R c2 (skip_fields n P sk) bs c3"
  shows "eats R c (skip_fields (Suc n) P sk) ((hdr @ body) @ bs) c3"
proof -
  have "eats R c (skip_fields (Suc n) P sk) (hdr @ body @ [] @ bs) c3"
    unfolding skip_fields.simps(2)
    by (rule eats_bind [OF hdr eats_seq [OF body eats_seq [OF rd_field_end eats_last [OF rest]]]])
      (use valid_tag_not_stop [OF assms(2)] in \<open>simp del: seqM.simps\<close>)
  then show ?thesis by simp
qed

text \<open>Skipping consumes exactly the encoding of a value and reports its length.\<close>

lemma skip_value_eats:
    "\<And>c fuel. idle c \<Longrightarrow> wf_value okS okC v \<Longrightarrow> size v + 2 \<le> fuel \<Longrightarrow>
      eats R c (skip fuel P (ttype_of v)) (enc_value W c v) c"
  and skip_fields_eats: "\<And>c fuel n. idle c \<Longrightarrow> wf_fields okS okC fs \<Longrightarrow> fields_size fs \<le> fuel \<Longrightarrow>
      length fs < n \<Longrightarrow>
      eats R c (skip_fields n P (skip fuel P)) (enc_fields W c fs @ wire_stop W) (after_fields W c fs)"
  and skip_elems_eats: "\<And>c fuel e. idle c \<Longrightarrow> wf_elems okS okC e vs \<Longrightarrow>
      size_list size vs + 1 \<le> fuel \<Longrightarrow>
      eats R c (repeatM (length vs) (skip fuel P e)) (enc_elems W c vs) c"
  and skip_pairs_eats: "\<And>c fuel k' v'. idle c \<Longrightarrow> wf_pairs okS okC k' v' kvs \<Longrightarrow>
      pairs_size kvs \<le> fuel \<Longrightarrow>
      eats R c (repeatM (length kvs) (seqM [skip fuel P k', skip fuel P v'])) (enc_pairs W c kvs) c"
proof (induction v and fs and vs and kvs rule: tval_induct)
  case (base v)
  then obtain f where "fuel = Suc f" by (cases fuel) auto
  with base show ?case
    by (simp only: skip_base enc_value_base wf_value_base rd_base [THEN eats_sizeM])
next
  case (struct nm fs)
  then obtain f where f: "fuel = Suc f" "fields_size fs + 2 \<le> f" by (cases fuel) auto
  have "length fs \<le> fields_size fs" by (induction fs) simp_all
  with struct f have fields: "eats R (wire_push W c) (skip_fields f P (skip f P))
      (enc_fields W (wire_push W c) fs @ wire_stop W) (after_fields W (wire_push W c) fs)"
    by simp
  obtain snm where "parses R c (readStructBegin_virt P) [] snm (wire_push W c)" using rd_struct by blast
  from eats_seq [OF eats_sizeM [OF this] eats_seq [OF fields eats_last [OF rd_struct_end]]]
  show ?case by (simp add: f ttype_defs del: seqM.simps)
next
  case (map k v kvs)
  then obtain f where f: "fuel = Suc f" "pairs_size kvs \<le> f" by (cases fuel) auto
  have ok: "okC (length kvs)" using map by simp
  obtain k' v' where h: "parses R c (readMapBegin_virt P) (wire_map W k v (length kvs))
      (k', v', word_of_nat (length kvs)) c" "0 < length kvs \<longrightarrow> k' = k \<and> v' = v"
    using rd_map [OF ok, of k v c] map by auto
  have "eats R c (repeatM (length kvs) (seqM [skip f P k', skip f P v'])) (enc_pairs W c kvs) c"
    using map f h(2) by (cases kvs) (simp_all add: eats_return del: seqM.simps)
  from eats_container [OF h(1) this rd_map_end] ok show ?case
    by (simp add: f ttype_defs del: seqM.simps)
next
  case (set e vs)
  then obtain f where f: "fuel = Suc f" "size_list size vs + 1 \<le> f" by (cases fuel) auto
  then have "eats R c (repeatM (length vs) (skip f P e)) (enc_elems W c vs) c" using set by simp
  from eats_container [OF rd_set this rd_set_end] set.prems show ?case
    by (simp add: f ttype_defs del: seqM.simps)
next
  case (list e vs)
  then obtain f where f: "fuel = Suc f" "size_list size vs + 1 \<le> f" by (cases fuel) auto
  then have "eats R c (repeatM (length vs) (skip f P e)) (enc_elems W c vs) c" using list by simp
  from eats_container [OF rd_list this rd_list_end] list.prems show ?case
    by (simp add: f ttype_defs del: seqM.simps)
next
  case no_field
  then obtain k where k: "n = Suc k" by (cases n) auto
  have "eats R c (skip_fields (Suc k) P (skip fuel P)) (wire_stop W @ []) c"
    unfolding skip_fields.simps(2) by (rule eats_bind [OF rd_stop eats_return]) simp
  then show ?case by (simp add: k del: skip_fields.simps)
next
  case (field nm fid v fs)
  then obtain k where k: "n = Suc k" "length fs < k" by (cases n) auto
  let ?c = "wire_field W c fid"
  have rest: "eats R ?c (skip_fields k P (skip fuel P)) (enc_fields W ?c fs @ wire_stop W)
      (after_fields W ?c fs)"
    using field k by simp
  show ?case
  proof (cases "is_base v")
    case True
    then obtain hdr body c1 where h: "wire_base_field W c fid v = hdr @ body"
      "parses R c (readFieldBegin_virt P) hdr (None, ttype_of v, fid) c1"
      "parses R c1 (read_base P True (ttype_of v)) body (read_as True v) ?c"
      using rd_base_field [of c v fid] field.prems by (auto simp: wf_value_base)
    obtain f where "fuel = Suc f" using field.prems by (cases fuel) auto
    then have "eats R c1 (skip fuel P (ttype_of v)) body ?c"
      by (simp only: skip_base [OF True] eats_sizeM [OF h(3)])
    from skip_one_field [where sk = "skip fuel P", OF h(2) _ this rest] True h(1) show ?thesis
      by (simp add: k del: skip_fields.simps)
  next
    case False
    have "eats R ?c (skip fuel P (ttype_of v)) (enc_value W ?c v) ?c" using field by simp
    from skip_one_field [where sk = "skip fuel P", OF rd_header [OF field.prems(1) False] _ this rest] False
    show ?thesis by (simp add: k del: skip_fields.simps)
  qed
next
  case (elem v vs)
  then have "eats R c (skip fuel P e) (enc_value W c v) c"
    and "eats R c (repeatM (length vs) (skip fuel P e)) (enc_elems W c vs) c" by auto
  from eats_bind_eats [OF this] show ?case by simp
next
  case (pair x y kvs)
  then have "eats R c (skip fuel P k') (enc_value W c x) c"
    and "eats R c (skip fuel P v') (enc_value W c y) c"
    and r: "eats R c (repeatM (length kvs) (seqM [skip fuel P k', skip fuel P v'])) (enc_pairs W c kvs) c"
    by auto
  from eats_bind_eats [OF eats_seq [OF this(1) eats_last [OF this(2)]] r] show ?case
    by (simp del: seqM.simps)
qed (simp_all add: eats_return)

end

end
