(* ===== verification/Generated.thy ===== *)
theory Generated
  imports Protocol
begin

text \<open>
  The \<open>read\<close> methods the compiler emits (\<^verbatim>\<open>t_cpp_generator.cc\<close>): a loop over the fields on
  the wire that stores the ones the schema knows, skips the others, and checks the required
  ones at the end. A member or a map entry that exists already is read into, so that a struct that
  occurs twice is merged. Keys and elements are compared as values, doubles by their bit patterns,
  and an entry that is found again keeps its place. The theory proves, over any reader that satisfies the contract of
  \<open>wire_reader\<close>, that reading the encoding of a value yields its projection to the schema and
  consumes exactly its bytes, and that a value that conforms to the schema is its own
  projection.
\<close>

section \<open>Schemas\<close>

datatype e_req = T_REQUIRED | T_OPTIONAL | T_OPT_IN_REQ_OUT

text \<open>
  Types as the generator sees them. A struct lists its fields with name, key and requiredness.
  The compiler requires a type to be declared before it is used, so schemas are finite trees.
\<close>

datatype t_type =
    TyBool
  | TyByte
  | TyI16
  | TyI32
  | TyI64
  | TyDouble
  | TyString
  | TyBinary
  | TyEnum
  | TyStruct "byte list" "((byte list \<times> int16_t \<times> e_req) \<times> t_type) list"
  | TyMap t_type t_type
  | TySet t_type
  | TyList t_type

type_synonym t_field = "(byte list \<times> int16_t \<times> e_req) \<times> t_type"

fun type_to_enum :: "t_type \<Rightarrow> TType" where
  "type_to_enum TyBool = T_BOOL"
| "type_to_enum TyByte = T_BYTE"
| "type_to_enum TyI16 = T_I16"
| "type_to_enum TyI32 = T_I32"
| "type_to_enum TyI64 = T_I64"
| "type_to_enum TyDouble = T_DOUBLE"
| "type_to_enum TyString = T_STRING"
| "type_to_enum TyBinary = T_STRING"
| "type_to_enum TyEnum = T_I32"
| "type_to_enum (TyStruct nm flds) = T_STRUCT"
| "type_to_enum (TyMap k v) = T_MAP"
| "type_to_enum (TySet e) = T_SET"
| "type_to_enum (TyList e) = T_LIST"

text \<open>The \<^verbatim>\<open>case\<close> label of a field id, and the assignment to the member of that field.\<close>

definition find_field :: "int16_t \<Rightarrow> t_field list \<Rightarrow> t_field option" where
  "find_field fid flds = find (\<lambda>((fname, key, req), ty). key = fid) flds"

type_synonym members = "((byte list \<times> int16_t) \<times> tval) list"

fun set_field :: "byte list \<times> int16_t \<Rightarrow> tval \<Rightarrow> ((byte list \<times> int16_t) \<times> tval) list \<Rightarrow>
    ((byte list \<times> int16_t) \<times> tval) list" where
  "set_field f v [] = [(f, v)]"
| "set_field f v ((g, w) # fs) = (if snd g = snd f then (f, v) # fs else (g, w) # set_field f v fs)"

text \<open>
  The members of an object that is read into: \<open>old\<close> were set before the call, \<open>fs\<close> have been read by
  it. A field that occurs twice is read into the member it has by then, and what a call does not read
  it leaves as it was.
\<close>

definition member :: "int16_t \<Rightarrow> members \<Rightarrow> tval option" where
  "member fid fs = map_option snd (find (\<lambda>f. snd (fst f) = fid) fs)"

definition current :: "int16_t \<Rightarrow> members \<Rightarrow> members \<Rightarrow> tval option" where
  "current fid old fs = (case member fid fs of Some v \<Rightarrow> Some v | None \<Rightarrow> member fid old)"

fun members_of :: "tval option \<Rightarrow> members" where
  "members_of (Some (VStruct nm fs)) = fs"
| "members_of cur = []"

definition overlay :: "members \<Rightarrow> members \<Rightarrow> members" where
  "overlay old fs = foldl (\<lambda>obj (f, v). set_field f v obj) old fs"

text \<open>\<open>m[key] = val\<close> and \<open>s.insert(elem)\<close>, with containers as lists without duplicates.\<close>

fun map_put :: "tval \<Rightarrow> tval \<Rightarrow> (tval \<times> tval) list \<Rightarrow> (tval \<times> tval) list" where
  "map_put k v [] = [(k, v)]"
| "map_put k v ((x, y) # kvs) = (if x = k then (x, v) # kvs else (x, y) # map_put k v kvs)"

definition set_insert :: "tval \<Rightarrow> tval list \<Rightarrow> tval list" where
  "set_insert v vs = (if v \<in> set vs then vs else vs @ [v])"

definition required_set :: "t_field list \<Rightarrow> ((byte list \<times> int16_t) \<times> tval) list \<Rightarrow> bool" where
  "required_set flds fs \<longleftrightarrow>
     list_all (\<lambda>((fname, key, req), ty). req = T_REQUIRED \<longrightarrow> key \<in> (\<lambda>f. snd (fst f)) ` set fs) flds"

section \<open>The emitted reader\<close>

text \<open>
  The element loops: \<open>step\<close> reads one element and adds it to the container. The value of a map
  entry is read into the reference \<open>m[key]\<close>, which may be the value of an earlier entry with the same key.
\<close>

primrec read_loop :: "nat \<Rightarrow> ('a \<Rightarrow> ('p, 'a \<times> uint32_t) M) \<Rightarrow> 'a \<Rightarrow> ('p, 'a \<times> uint32_t) M" where
  "read_loop 0 step acc = returnM (acc, 0)"
| "read_loop (Suc n) step acc =
     bindM (step acc) (\<lambda>(acc', a). bindM (read_loop n step acc') (\<lambda>(acc'', b). returnM (acc'', a + b)))"

definition read_element ::
  "('p, tval \<times> uint32_t) M \<Rightarrow> (tval \<Rightarrow> tval list \<Rightarrow> tval list) \<Rightarrow> tval list \<Rightarrow>
   ('p, tval list \<times> uint32_t) M" where
  "read_element rd add acc = bindM rd (\<lambda>(v, n). returnM (add v acc, n))"

definition read_entry ::
  "('p, tval \<times> uint32_t) M \<Rightarrow> (tval option \<Rightarrow> ('p, tval \<times> uint32_t) M) \<Rightarrow> (tval \<times> tval) list \<Rightarrow>
   ('p, (tval \<times> tval) list \<times> uint32_t) M" where
  "read_entry rdk rdv acc =
     bindM rdk (\<lambda>(k, a). bindM (rdv (map_of acc k)) (\<lambda>(v, b). returnM (map_put k v acc, a + b)))"

text \<open>The body of the \<^verbatim>\<open>switch\<close>; \<open>rd ty cur\<close> reads into the object \<open>cur\<close>, or into a new one.\<close>

definition read_one_field ::
  "(t_type \<Rightarrow> tval option \<Rightarrow> ('p, tval \<times> uint32_t) M) \<Rightarrow> (TType \<Rightarrow> ('p, uint32_t) M) \<Rightarrow> t_field list \<Rightarrow>
   members \<Rightarrow> TType \<Rightarrow> int16_t \<Rightarrow> members \<Rightarrow> ('p, members \<times> uint32_t) M" where
  "read_one_field rd sk flds old ftype fid fs =
     (case find_field fid flds of
        Some ((fname, key, req), ty) \<Rightarrow>
          if ftype = type_to_enum ty
          then bindM (rd ty (current fid old fs)) (\<lambda>(v, n). returnM (set_field (fname, key) v fs, n))
          else bindM (sk ftype) (\<lambda>n. returnM (fs, n))
      | None \<Rightarrow> bindM (sk ftype) (\<lambda>n. returnM (fs, n)))"

text \<open>The \<^verbatim>\<open>while (true)\<close> loop, with one unit of fuel per field on the wire.\<close>

primrec read_fields ::
  "nat \<Rightarrow> 'p TProtocol \<Rightarrow> (t_type \<Rightarrow> tval option \<Rightarrow> ('p, tval \<times> uint32_t) M) \<Rightarrow>
   (TType \<Rightarrow> ('p, uint32_t) M) \<Rightarrow> t_field list \<Rightarrow> members \<Rightarrow> members \<Rightarrow> ('p, members \<times> uint32_t) M" where
  "read_fields 0 P rd sk flds old fs = throwM NonTermination"
| "read_fields (Suc n) P rd sk flds old fs =
     bindM (readFieldBegin_virt P) (\<lambda>((fname, ftype, fid), a).
     if ftype = T_STOP then returnM (fs, a)
     else
       bindM (read_one_field rd sk flds old ftype fid fs) (\<lambda>(fs', b).
       bindM (readFieldEnd_virt P) (\<lambda>c.
       bindM (read_fields n P rd sk flds old fs') (\<lambda>(fs'', d).
       returnM (fs'', a + (b + (c + d)))))))"

text \<open>
  Reading a value of type \<open>ty\<close> into the object \<open>cur\<close>. A struct keeps the members that are not read,
  while a container is cleared first, and everything else is assigned. The required members must be
  read by this call (the emitted local flags \<^verbatim>\<open>isset_\<close>). Elements and keys are read into new variables.
  The list of a struct carries the members that have been set; the others keep their default values.
\<close>

primrec read_into :: "nat \<Rightarrow> 'p TProtocol \<Rightarrow> t_type \<Rightarrow> tval option \<Rightarrow> ('p, tval \<times> uint32_t) M" where
  "read_into 0 P = (\<lambda>ty cur. throwM NonTermination)"
| "read_into (Suc fuel) P = (\<lambda>ty cur. case ty of
     TyBool \<Rightarrow> mapM VBool (readBool_virt P)
   | TyByte \<Rightarrow> mapM VByte (readByte_virt P)
   | TyI16 \<Rightarrow> mapM VI16 (readI16_virt P)
   | TyI32 \<Rightarrow> mapM VI32 (readI32_virt P)
   | TyI64 \<Rightarrow> mapM VI64 (readI64_virt P)
   | TyDouble \<Rightarrow> mapM VDouble (readDouble_virt P)
   | TyString \<Rightarrow> mapM VString (readString_virt P)
   | TyBinary \<Rightarrow> mapM VBinary (readBinary_virt P)
   | TyEnum \<Rightarrow> mapM VI32 (readI32_virt P)
   | TyStruct nm flds \<Rightarrow>
       bindM (readStructBegin_virt P) (\<lambda>(sname, a).
       bindM (read_fields fuel P (read_into fuel P) (skip fuel P) flds (members_of cur) []) (\<lambda>(fs, b).
       bindM (readStructEnd_virt P) (\<lambda>c.
       if required_set flds fs then returnM (VStruct nm (overlay (members_of cur) fs), a + (b + c))
       else throwM (TProtocolException INVALID_DATA))))
   | TyMap k v \<Rightarrow>
       bindM (readMapBegin_virt P) (\<lambda>((ktype, vtype, sz), a).
       bindM (read_loop (unat sz) (read_entry (read_into fuel P k None) (read_into fuel P v)) []) (\<lambda>(kvs, b).
       bindM (readMapEnd_virt P) (\<lambda>c.
       returnM (VMap (type_to_enum k) (type_to_enum v) kvs, a + (b + c)))))
   | TySet e \<Rightarrow>
       bindM (readSetBegin_virt P) (\<lambda>((etype, sz), a).
       bindM (read_loop (unat sz) (read_element (read_into fuel P e None) set_insert) []) (\<lambda>(vs, b).
       bindM (readSetEnd_virt P) (\<lambda>c.
       returnM (VSet (type_to_enum e) vs, a + (b + c)))))
   | TyList e \<Rightarrow>
       bindM (readListBegin_virt P) (\<lambda>((etype, sz), a).
       bindM (read_loop (unat sz) (read_element (read_into fuel P e None) (\<lambda>v vs. vs @ [v])) []) (\<lambda>(vs, b).
       bindM (readListEnd_virt P) (\<lambda>c.
       returnM (VList (type_to_enum e) vs, a + (b + c))))))"

text \<open>Reading into a default-constructed object.\<close>

abbreviation read_type :: "nat \<Rightarrow> 'p TProtocol \<Rightarrow> t_type \<Rightarrow> ('p, tval \<times> uint32_t) M" where
  "read_type fuel P ty \<equiv> read_into fuel P ty None"

section \<open>What a reader with another schema sees\<close>

text \<open>
  \<open>project_into ty cur v\<close> is the value a reader with schema \<open>ty\<close> makes of the object \<open>cur\<close> from the
  encoding of \<open>v\<close>, and \<open>project ty v\<close> the one it builds from scratch; \<open>fits\<close> says that it can: the parts
  the schema knows have its types (fields of another type are skipped), and the required fields are
  there.
\<close>

function (sequential) project_into :: "t_type \<Rightarrow> tval option \<Rightarrow> tval \<Rightarrow> tval"
  and project_fields :: "t_field list \<Rightarrow> members \<Rightarrow> members \<Rightarrow> members \<Rightarrow> members"
  and project_elems :: "(tval \<Rightarrow> tval list \<Rightarrow> tval list) \<Rightarrow> t_type \<Rightarrow> tval list \<Rightarrow> tval list \<Rightarrow> tval list"
  and project_pairs :: "t_type \<Rightarrow> t_type \<Rightarrow> (tval \<times> tval) list \<Rightarrow> (tval \<times> tval) list \<Rightarrow> (tval \<times> tval) list" where
  "project_into (TyStruct nm flds) cur (VStruct nm' fs) =
     VStruct nm (overlay (members_of cur) (project_fields flds (members_of cur) [] fs))"
| "project_into (TyMap k v) cur (VMap kt vt kvs) = VMap (type_to_enum k) (type_to_enum v) (project_pairs k v [] kvs)"
| "project_into (TySet e) cur (VSet et vs) = VSet (type_to_enum e) (project_elems set_insert e [] vs)"
| "project_into (TyList e) cur (VList et vs) = VList (type_to_enum e) (project_elems (\<lambda>v vs. vs @ [v]) e [] vs)"
| "project_into ty cur v = read_as (ty = TyBinary) v"
| "project_fields flds old acc [] = acc"
| "project_fields flds old acc (((nm, fid), v) # fs) =
     project_fields flds old (case find_field fid flds of
         Some ((fname, key, req), ty) \<Rightarrow>
           if ttype_of v = type_to_enum ty
           then set_field (fname, key) (project_into ty (current fid old acc) v) acc else acc
       | None \<Rightarrow> acc) fs"
| "project_elems add e acc [] = acc"
| "project_elems add e acc (v # vs) = project_elems add e (add (project_into e None v) acc) vs"
| "project_pairs k v acc [] = acc"
| "project_pairs k v acc ((x, y) # kvs) =
     project_pairs k v (map_put (project_into k None x)
       (project_into v (map_of acc (project_into k None x)) y) acc) kvs"
  by pat_completeness auto
termination
  by (relation "measure (case_sum (case_sum (\<lambda>(ty, cur, v). size v) (\<lambda>(flds, old, acc, fs). fields_size fs))
      (case_sum (\<lambda>(add, e, acc, vs). size_list size vs) (\<lambda>(k, v, acc, kvs). pairs_size kvs)))")
    simp_all

abbreviation project :: "t_type \<Rightarrow> tval \<Rightarrow> tval" where
  "project ty v \<equiv> project_into ty None v"

text \<open>
  A field that occurs twice: the second occurrence is read into the member that the first has left,
  so what it does not mention stays.
\<close>

lemma repeated_field_merges:
  "project (TyStruct [] [(([112], 1, T_OPTIONAL), TyStruct [] [(([120], 1, T_OPTIONAL), TyI32), (([121], 2, T_OPTIONAL), TyI32)])])
     (VStruct [] [(([112], 1), VStruct [] [(([120], 1), VI32 3), (([121], 2), VI32 4)]), (([112], 1), VStruct [] [(([120], 1), VI32 5)])])
   = VStruct [] [(([112], 1), VStruct [] [(([120], 1), VI32 5), (([121], 2), VI32 4)])]"
  by (simp add: find_field_def current_def member_def overlay_def ttype_defs)

function (sequential) fits :: "t_type \<Rightarrow> tval \<Rightarrow> bool"
  and fits_fields :: "t_field list \<Rightarrow> ((byte list \<times> int16_t) \<times> tval) list \<Rightarrow> bool"
  and fits_elems :: "t_type \<Rightarrow> tval list \<Rightarrow> bool"
  and fits_pairs :: "t_type \<Rightarrow> t_type \<Rightarrow> (tval \<times> tval) list \<Rightarrow> bool" where
  "fits (TyStruct nm flds) (VStruct nm' fs) =
     (fits_fields flds fs \<and> required_set flds (project_fields flds [] [] fs))"
| "fits (TyMap k v) (VMap kt vt kvs) = fits_pairs k v kvs"
| "fits (TySet e) (VSet et vs) = fits_elems e vs"
| "fits (TyList e) (VList et vs) = fits_elems e vs"
| "fits ty v = (is_base v \<and> type_to_enum ty = ttype_of v)"
| "fits_fields flds [] = True"
| "fits_fields flds (((nm, fid), v) # fs) =
     ((case find_field fid flds of
         Some ((fname, key, req), ty) \<Rightarrow> ttype_of v = type_to_enum ty \<longrightarrow> fits ty v
       | None \<Rightarrow> True) \<and> fits_fields flds fs)"
| "fits_elems e [] = True"
| "fits_elems e (v # vs) = (fits e v \<and> fits_elems e vs)"
| "fits_pairs k v [] = True"
| "fits_pairs k v ((x, y) # kvs) = (fits k x \<and> fits v y \<and> fits_pairs k v kvs)"
  by pat_completeness auto
termination
  by (relation "measure (case_sum (case_sum (\<lambda>(ty, v). size v) (\<lambda>(flds, fs). fields_size fs))
      (case_sum (\<lambda>(e, vs). size_list size vs) (\<lambda>(k, v, kvs). pairs_size kvs)))")
    simp_all

text \<open>Values the schema describes completely.\<close>

fun is_binary :: "tval \<Rightarrow> bool" where
  "is_binary (VBinary s) = True"
| "is_binary v = False"

function (sequential) conforms :: "t_type \<Rightarrow> tval \<Rightarrow> bool"
  and conforms_fields :: "t_field list \<Rightarrow> ((byte list \<times> int16_t) \<times> tval) list \<Rightarrow> bool"
  and conforms_elems :: "t_type \<Rightarrow> tval list \<Rightarrow> bool"
  and conforms_pairs :: "t_type \<Rightarrow> t_type \<Rightarrow> (tval \<times> tval) list \<Rightarrow> bool" where
  "conforms (TyStruct nm flds) (VStruct nm' fs) = (nm' = nm \<and> conforms_fields flds fs
     \<and> distinct (map (\<lambda>f. snd (fst f)) fs) \<and> required_set flds fs)"
| "conforms (TyMap k v) (VMap kt vt kvs) = (kt = type_to_enum k \<and> vt = type_to_enum v
     \<and> conforms_pairs k v kvs \<and> distinct (map fst kvs))"
| "conforms (TySet e) (VSet et vs) = (et = type_to_enum e \<and> conforms_elems e vs \<and> distinct vs)"
| "conforms (TyList e) (VList et vs) = (et = type_to_enum e \<and> conforms_elems e vs)"
| "conforms ty v = (is_base v \<and> type_to_enum ty = ttype_of v \<and> (ty = TyBinary) = is_binary v)"
| "conforms_fields flds [] = True"
| "conforms_fields flds (((nm, fid), v) # fs) =
     ((case find_field fid flds of
         Some ((fname, key, req), ty) \<Rightarrow> fname = nm \<and> conforms ty v
       | None \<Rightarrow> False) \<and> conforms_fields flds fs)"
| "conforms_elems e [] = True"
| "conforms_elems e (v # vs) = (conforms e v \<and> conforms_elems e vs)"
| "conforms_pairs k v [] = True"
| "conforms_pairs k v ((x, y) # kvs) = (conforms k x \<and> conforms v y \<and> conforms_pairs k v kvs)"
  by pat_completeness auto
termination
  by (relation "measure (case_sum (case_sum (\<lambda>(ty, v). size v) (\<lambda>(flds, fs). fields_size fs))
      (case_sum (\<lambda>(e, vs). size_list size vs) (\<lambda>(k, v, kvs). pairs_size kvs)))")
    simp_all

lemma conforms_tag: "conforms ty v \<Longrightarrow> type_to_enum ty = ttype_of v"
  by (cases v; cases ty) simp_all

lemma set_field_new: "snd f \<notin> (\<lambda>f. snd (fst f)) ` set fs \<Longrightarrow> set_field f v fs = fs @ [(f, v)]"
  by (induction fs) auto

lemma map_put_new: "k \<notin> fst ` set kvs \<Longrightarrow> map_put k v kvs = kvs @ [(k, v)]"
  by (induction kvs) auto

text \<open>What a reader finds in an object it has just made.\<close>

lemma current_new: "fid \<notin> (\<lambda>f. snd (fst f)) ` set fs \<Longrightarrow> current fid [] fs = None"
proof -
  assume "fid \<notin> (\<lambda>f. snd (fst f)) ` set fs"
  then have "find (\<lambda>f. snd (fst f) = fid) fs = None" by (force simp: find_None_iff)
  then show ?thesis by (simp add: current_def member_def)
qed

lemma overlay_new: "distinct (map (\<lambda>f. snd (fst f)) fs) \<Longrightarrow> overlay [] fs = fs"
proof -
  have "distinct (map (\<lambda>f. snd (fst f)) (acc @ fs)) \<Longrightarrow> foldl (\<lambda>obj (f, v). set_field f v obj) acc fs = acc @ fs"
    for acc :: members and fs
  proof (induction fs arbitrary: acc)
    case (Cons g fs)
    then have "set_field (fst g) (snd g) acc = acc @ [g]" using set_field_new [of "fst g" acc "snd g"] by auto
    with Cons.IH [of "acc @ [g]"] Cons.prems show ?case by (simp add: case_prod_unfold)
  qed simp
  from this [of "[]" fs] show "distinct (map (\<lambda>f. snd (fst f)) fs) \<Longrightarrow> overlay [] fs = fs" by (simp add: overlay_def)
qed

lemma set_field_ids: "(\<lambda>f. snd (fst f)) ` set (set_field f v fs) = insert (snd f) ((\<lambda>f. snd (fst f)) ` set fs)"
  by (induction f v fs rule: set_field.induct) auto

lemma find_field_key: "find_field fid flds = Some ((fname, key, req), ty) \<Longrightarrow> key = fid"
  by (induction flds) (auto simp: find_field_def split: if_splits)

text \<open>A reader with the writer's schema sees the value itself.\<close>

lemma conforms_project:
    "\<And>ty. conforms ty v \<Longrightarrow> fits ty v \<and> project ty v = v"
  and conforms_project_fields: "\<And>flds acc. conforms_fields flds fs \<Longrightarrow>
      distinct (map (\<lambda>f. snd (fst f)) (acc @ fs)) \<Longrightarrow>
      fits_fields flds fs \<and> project_fields flds [] acc fs = acc @ fs"
  and conforms_project_elems: "\<And>e acc. conforms_elems e vs \<Longrightarrow> fits_elems e vs
      \<and> project_elems (\<lambda>v vs. vs @ [v]) e acc vs = acc @ vs
      \<and> (distinct (acc @ vs) \<longrightarrow> project_elems set_insert e acc vs = acc @ vs)"
  and conforms_project_pairs: "\<And>k v acc. conforms_pairs k v kvs \<Longrightarrow> distinct (map fst (acc @ kvs)) \<Longrightarrow>
      fits_pairs k v kvs \<and> project_pairs k v acc kvs = acc @ kvs"
proof (induction v and fs and vs and kvs rule: tval_induct)
  case (base v)
  then show ?case by (cases v; cases ty) auto
next
  case (struct nm fs)
  then show ?case using struct.IH [of _ "[]"] by (cases ty) (auto simp: overlay_new)
next
  case (map kt vt kvs)
  then show ?case using map.IH [of _ _ "[]"] by (cases ty) auto
next
  case (set et vs)
  then show ?case using set.IH [of _ "[]"] by (cases ty) auto
next
  case (list et vs)
  then show ?case using list.IH [of _ "[]"] by (cases ty) auto
next
  case (field nm fid v fs)
  from field.prems(1) obtain key req ty where f: "find_field fid flds = Some ((nm, key, req), ty)"
    "conforms ty v" "conforms_fields flds fs" by (auto split: option.splits prod.splits)
  have new: "set_field (nm, fid) v acc = acc @ [((nm, fid), v)]"
    using field.prems(2) by (intro set_field_new) auto
  have none: "current fid [] acc = None" using field.prems(2) by (intro current_new) auto
  have "distinct (map (\<lambda>f. snd (fst f)) ((acc @ [((nm, fid), v)]) @ fs))" using field.prems(2) by auto
  from field.IH(2) [OF f(3) this] field.IH(1) [OF f(2)] f(1) find_field_key [OF f(1)] conforms_tag [OF f(2)] new none
  show ?case by simp
next
  case (elem v vs)
  then show ?case by (auto simp: set_insert_def)
next
  case (pair x y kvs)
  then have "map_put x y acc = acc @ [(x, y)]" "map_of acc x = None"
    by (auto intro!: map_put_new simp: map_of_eq_None_iff)
  with pair show ?case by auto
qed simp_all

section \<open>Reading what was written\<close>

lemma read_type_base:
  assumes "is_base v" and "fits ty v"
  shows "project_into ty cur v = read_as (ty = TyBinary) v"
    and "read_into (Suc fuel) P ty cur = read_base P (ty = TyBinary) (ttype_of v)"
  using assms by (cases v; cases ty; simp add: read_base_def ttype_defs)+

text \<open>Which members a call reads does not depend on the object it reads into.\<close>

lemma project_fields_ids:
  "(\<lambda>f. snd (fst f)) ` set acc = (\<lambda>f. snd (fst f)) ` set acc' \<Longrightarrow>
   (\<lambda>f. snd (fst f)) ` set (project_fields flds old acc fs) = (\<lambda>f. snd (fst f)) ` set (project_fields flds old' acc' fs)"
proof (induction fs arbitrary: acc acc')
  case (Cons f fs)
  obtain nm fid v where f: "f = ((nm, fid), v)" by (metis surj_pair)
  show ?case unfolding f project_fields.simps
    by (rule Cons.IH) (use Cons.prems in \<open>auto simp: set_field_ids split: option.splits\<close>)
qed simp

lemma required_project:
  "required_set flds (project_fields flds [] [] fs) \<Longrightarrow> required_set flds (project_fields flds old [] fs)"
  using project_fields_ids [of "[]" "[]" flds "[]" fs old] by (simp add: required_set_def)

lemma fits_tag: "fits ty v \<Longrightarrow> type_to_enum ty = ttype_of v"
  by (cases v; cases ty) simp_all

context wire_reader
begin

lemma read_one_round:
  assumes hdr: "parses R c (readFieldBegin_virt P) hdr (None, t, fid) c1" and "valid_tag t"
    and body: "parses R c1 (read_one_field rd sk flds old t fid acc) body acc' c2"
    and rest: "parses R c2 (read_fields n P rd sk flds old acc') bs res c3"
  shows "parses R c (read_fields (Suc n) P rd sk flds old acc) ((hdr @ body) @ bs) res c3"
proof -
  have "parses R c2 (bindM (readFieldEnd_virt P) (\<lambda>k. bindM (read_fields n P rd sk flds old acc')
      (\<lambda>(fs, d). returnM (fs, k + d)))) ([] @ bs) res c3"
    by (rule parses_after_eats [OF rd_field_end rest, where g = "\<lambda>x. x"]) simp
  from parses_bind [OF body this, where g = "\<lambda>x. x" and f = "\<lambda>(fs', b).
       bindM (readFieldEnd_virt P) (\<lambda>c. bindM (read_fields n P rd sk flds old fs') (\<lambda>(fs'', d).
       returnM (fs'', b + (c + d))))"]
  have tail: "parses R c1 (bindM (read_one_field rd sk flds old t fid acc) (\<lambda>(fs', b).
       bindM (readFieldEnd_virt P) (\<lambda>c. bindM (read_fields n P rd sk flds old fs') (\<lambda>(fs'', d).
       returnM (fs'', b + (c + d)))))) (body @ bs) res c3"
    by (simp add: bindM_assoc split_def)
  have "parses R c (read_fields (Suc n) P rd sk flds old acc) (hdr @ (body @ bs)) res c3"
    unfolding read_fields.simps(2)
    by (rule parses_bind [OF hdr tail, where g = "\<lambda>x. x"])
      (use valid_tag_not_stop [OF assms(2)] in \<open>simp add: bindM_assoc split_def\<close>)
  then show ?thesis by simp
qed

text \<open>The three outcomes of the \<^verbatim>\<open>switch\<close>: the field is stored, or skipped.\<close>

lemma read_one_field_parses:
  assumes "\<And>ty cur. fits ty v \<Longrightarrow> parses R c1 (rd ty cur) body (project_into ty cur v) c2"
    and "eats R c1 (sk (ttype_of v)) body c2"
    and "fits_fields flds [((nm, fid), v)]"
  shows "parses R c1 (read_one_field rd sk flds old (ttype_of v) fid acc) body
    (project_fields flds old acc [((nm, fid), v)]) c2"
proof -
  have skip: "parses R c1 (bindM (sk (ttype_of v)) (\<lambda>n. returnM (acc, n))) body acc c2"
    using assms(2) by (fastforce simp: eats_def parses_def monad_simps)
  show ?thesis
  proof (cases "find_field fid flds")
    case (Some f)
    obtain fname key req ty where f: "f = ((fname, key, req), ty)" by (metis surj_pair)
    show ?thesis
    proof (cases "ttype_of v = type_to_enum ty")
      case True
      then have "fits ty v" using assms(3) Some f by simp
      from parses_map [OF assms(1) [OF this], of "\<lambda>v. set_field (fname, key) v acc"] Some f True
      show ?thesis by (simp add: read_one_field_def mapM_def)
    qed (use skip Some f in \<open>simp add: read_one_field_def\<close>)
  qed (use skip in \<open>simp add: read_one_field_def\<close>)
qed

lemma read_container:
  assumes "parses R c hdr a u c" and "parses R c (body u) b v c" and "eats R c fin [] c"
    and "f (u, word_of_nat (length a)) = bindM (body u) (\<lambda>(x, k). bindM fin (\<lambda>e.
      returnM (g x, word_of_nat (length a) + (k + e))))"
  shows "parses R c (bindM hdr f) (a @ b) (g v) c"
proof -
  have "parses R c (bindM fin (\<lambda>e. returnM ((), e))) [] () c"
    using assms(3) by (fastforce simp: eats_def parses_def monad_simps)
  from parses_bind [OF assms(2) this, where g = "\<lambda>_. g v" and f = "\<lambda>(x, k). bindM fin (\<lambda>e. returnM (g x, k + e))"]
  have "parses R c (bindM (body u) (\<lambda>(x, k). bindM fin (\<lambda>e. returnM (g x, k + e)))) (b @ []) (g v) c"
    by (simp add: bindM_assoc)
  from parses_bind [OF assms(1) this, where g = "\<lambda>x. x" and f = f] assms(4) show ?thesis
    by (simp add: bindM_assoc split_def)
qed

lemma read_struct:
  assumes fields: "parses R (wire_push W c) (read_fields fuel P (read_into fuel P) (skip fuel P) flds (members_of cur) [])
      bs fs (after_fields W (wire_push W c) gs)"
    and "required_set flds fs"
  shows "parses R c (read_into (Suc fuel) P (TyStruct nm flds) cur) bs (VStruct nm (overlay (members_of cur) fs)) c"
proof -
  obtain snm where st: "parses R c (readStructBegin_virt P) [] snm (wire_push W c)" using rd_struct by blast
  have "parses R (after_fields W (wire_push W c) gs) (bindM (readStructEnd_virt P) (\<lambda>e.
      if required_set flds fs then returnM ((), e) else throwM (TProtocolException INVALID_DATA))) [] () c"
    using rd_struct_end [of c gs] assms(2) by (fastforce simp: eats_def parses_def monad_simps)
  from parses_bind [OF fields this, where g = "\<lambda>_. VStruct nm (overlay (members_of cur) fs)" and f = "\<lambda>(fs, b).
       bindM (readStructEnd_virt P) (\<lambda>c. if required_set flds fs then returnM (VStruct nm (overlay (members_of cur) fs), b + c)
       else throwM (TProtocolException INVALID_DATA))"] assms(2)
  have "parses R (wire_push W c) (bindM (read_fields fuel P (read_into fuel P) (skip fuel P) flds (members_of cur) [])
      (\<lambda>(fs, b). bindM (readStructEnd_virt P) (\<lambda>c. if required_set flds fs
         then returnM (VStruct nm (overlay (members_of cur) fs), b + c) else throwM (TProtocolException INVALID_DATA)))) (bs @ [])
      (VStruct nm (overlay (members_of cur) fs)) c"
    by (simp add: bindM_assoc)
  from parses_bind [OF st this, where g = "\<lambda>x. x" and f = "\<lambda>(sname, a).
       bindM (read_fields fuel P (read_into fuel P) (skip fuel P) flds (members_of cur) []) (\<lambda>(fs, b).
       bindM (readStructEnd_virt P) (\<lambda>c. if required_set flds fs
         then returnM (VStruct nm (overlay (members_of cur) fs), a + (b + c)) else throwM (TProtocolException INVALID_DATA)))"]
  show ?thesis
    by (simp add: bindM_assoc split_def if_distrib [of "\<lambda>m. bindM m _"] cong: if_cong)
qed

lemma read_elem:
  assumes "parses R c rd a v c" and "parses R c (read_loop n (read_element rd add) (add v acc)) b vs c"
  shows "parses R c (read_loop (Suc n) (read_element rd add) acc) (a @ b) vs c"
proof -
  have "parses R c (read_element rd add acc) a (add v acc) c"
    using parses_map [OF assms(1), of "\<lambda>v. add v acc"] by (simp add: read_element_def mapM_def)
  from parses_bind [OF this assms(2), where g = "\<lambda>x. x"] show ?thesis by simp
qed

lemma read_pair:
  assumes "parses R c rdk a x c" and "parses R c (rdv (map_of acc x)) b y c"
    and "parses R c (read_loop n (read_entry rdk rdv) (map_put x y acc)) bs kvs c"
  shows "parses R c (read_loop (Suc n) (read_entry rdk rdv) acc) ((a @ b) @ bs) kvs c"
proof -
  have "parses R c (read_entry rdk rdv acc) (a @ b) (map_put x y acc) c"
    unfolding read_entry_def
    by (rule parses_bind [OF assms(1,2), where g = "\<lambda>y. map_put x y acc"]) simp
  from parses_bind [OF this assms(3), where g = "\<lambda>x. x"] show ?thesis by simp
qed

lemma read_type_parses:
    "\<And>c fuel ty cur. idle c \<Longrightarrow> wf_value okS okC v \<Longrightarrow> fits ty v \<Longrightarrow> size v + 2 \<le> fuel \<Longrightarrow>
      parses R c (read_into fuel P ty cur) (enc_value W c v) (project_into ty cur v) c"
  and read_fields_parses: "\<And>c fuel n flds old acc. idle c \<Longrightarrow> wf_fields okS okC fs \<Longrightarrow> fits_fields flds fs \<Longrightarrow>
      fields_size fs \<le> fuel \<Longrightarrow> length fs < n \<Longrightarrow>
      parses R c (read_fields n P (read_into fuel P) (skip fuel P) flds old acc)
        (enc_fields W c fs @ wire_stop W) (project_fields flds old acc fs) (after_fields W c fs)"
  and read_elems_parses: "\<And>c fuel ety et add acc. idle c \<Longrightarrow> wf_elems okS okC et vs \<Longrightarrow> fits_elems ety vs \<Longrightarrow>
      size_list size vs + 1 \<le> fuel \<Longrightarrow>
      parses R c (read_loop (length vs) (read_element (read_into fuel P ety None) add) acc) (enc_elems W c vs)
        (project_elems add ety acc vs) c"
  and read_pairs_parses: "\<And>c fuel kty vty kt vt acc. idle c \<Longrightarrow> wf_pairs okS okC kt vt kvs \<Longrightarrow>
      fits_pairs kty vty kvs \<Longrightarrow> pairs_size kvs \<le> fuel \<Longrightarrow>
      parses R c (read_loop (length kvs) (read_entry (read_into fuel P kty None) (read_into fuel P vty)) acc)
        (enc_pairs W c kvs) (project_pairs kty vty acc kvs) c"
proof (induction v and fs and vs and kvs rule: tval_induct)
  case (base v)
  then obtain f where f: "fuel = Suc f" by (cases fuel) auto
  have "parses R c (read_base P (ty = TyBinary) (ttype_of v)) (wire_base W v) (read_as (ty = TyBinary) v) c"
    using base by (intro rd_base) (auto simp: wf_value_base)
  then show ?case
    unfolding f read_type_base [OF base(1) base.prems(3)] enc_value_base [OF base(1)] .
next
  case (struct nm fs)
  then obtain f where f: "fuel = Suc f" "fields_size fs + 2 \<le> f" by (cases fuel) auto
  obtain nm' flds where ty: "ty = TyStruct nm' flds" using fits_tag [OF struct.prems(3)]
    by (cases ty) (auto simp: ttype_defs)
  have "length fs \<le> fields_size fs" by (induction fs) simp_all
  with struct f ty have "parses R (wire_push W c) (read_fields f P (read_into f P) (skip f P) flds (members_of cur) [])
      (enc_fields W (wire_push W c) fs @ wire_stop W) (project_fields flds (members_of cur) [] fs)
      (after_fields W (wire_push W c) fs)"
    by simp
  from read_struct [OF this] struct.prems(3) required_project show ?case by (simp add: f ty del: read_into.simps)
next
  case (map kt vt kvs)
  then obtain f where f: "fuel = Suc f" "pairs_size kvs \<le> f" by (cases fuel) auto
  obtain k v where ty: "ty = TyMap k v" using fits_tag [OF map.prems(3)]
    by (cases ty) (auto simp: ttype_defs)
  have ok: "okC (length kvs)" using map by simp
  obtain k' v' where h: "parses R c (readMapBegin_virt P) (wire_map W kt vt (length kvs))
      (k', v', word_of_nat (length kvs)) c"
    using rd_map [OF ok, of kt vt c] map by auto
  have "parses R c (read_loop (length kvs) (read_entry (read_into f P k None) (read_into f P v)) [])
      (enc_pairs W c kvs) (project_pairs k v [] kvs) c"
    using map.IH [of c kt vt k v f "[]"] map.prems f ty by simp
  from read_container [where g = "\<lambda>kvs. VMap (type_to_enum k) (type_to_enum v) kvs", OF h this rd_map_end] ok
  show ?case by (simp add: f ty split_def)
next
  case (set et vs)
  then obtain f where f: "fuel = Suc f" "size_list size vs + 1 \<le> f" by (cases fuel) auto
  obtain e where ty: "ty = TySet e" using fits_tag [OF set.prems(3)]
    by (cases ty) (auto simp: ttype_defs)
  have ok: "okC (length vs)" "valid_tag et" using set by simp_all
  have "parses R c (read_loop (length vs) (read_element (read_into f P e None) set_insert) [])
      (enc_elems W c vs) (project_elems set_insert e [] vs) c"
    using set.IH [of c et e f set_insert "[]"] set.prems f ty by simp
  from read_container [where g = "VSet (type_to_enum e)", OF rd_set [OF ok] this rd_set_end] ok
  show ?case by (simp add: f ty split_def)
next
  case (list et vs)
  then obtain f where f: "fuel = Suc f" "size_list size vs + 1 \<le> f" by (cases fuel) auto
  obtain e where ty: "ty = TyList e" using fits_tag [OF list.prems(3)]
    by (cases ty) (auto simp: ttype_defs)
  have ok: "okC (length vs)" "valid_tag et" using list by simp_all
  have "parses R c (read_loop (length vs) (read_element (read_into f P e None) (\<lambda>v vs. vs @ [v])) [])
      (enc_elems W c vs) (project_elems (\<lambda>v vs. vs @ [v]) e [] vs) c"
    using list.IH [of c et e f "\<lambda>v vs. vs @ [v]" "[]"] list.prems f ty by simp
  from read_container [where g = "VList (type_to_enum e)", OF rd_list [OF ok] this rd_list_end] ok
  show ?case by (simp add: f ty split_def)
next
  case no_field
  then obtain k where k: "n = Suc k" by (cases n) auto
  have "parses R c (read_fields (Suc k) P (read_into fuel P) (skip fuel P) flds old acc) (wire_stop W @ []) acc c"
    unfolding read_fields.simps(2)
    by (rule parses_bind [OF rd_stop parses_return [of _ _ "()"], where g = "\<lambda>_. acc"]) simp
  then show ?case by (simp add: k del: read_fields.simps)
next
  case (field nm fid v fs)
  then obtain k where k: "n = Suc k" "length fs < k" by (cases n) auto
  obtain f where fuel: "fuel = Suc f" using field.prems by (cases fuel) auto
  let ?c = "wire_field W c fid" and ?acc = "project_fields flds old acc [((nm, fid), v)]"
  have rest: "parses R ?c (read_fields k P (read_into fuel P) (skip fuel P) flds old ?acc)
      (enc_fields W ?c fs @ wire_stop W) (project_fields flds old ?acc fs) (after_fields W ?c fs)"
    using field k by simp
  have one: "fits_fields flds [((nm, fid), v)]" using field.prems(3) by simp
  have proj: "project_fields flds old ?acc fs = project_fields flds old acc (((nm, fid), v) # fs)" by simp
  show ?case
  proof (cases "is_base v")
    case True
    then obtain hdr body c1 where h: "wire_base_field W c fid v = hdr @ body"
      "parses R c (readFieldBegin_virt P) hdr (None, ttype_of v, fid) c1"
      "\<And>bin. parses R c1 (read_base P bin (ttype_of v)) body (read_as bin v) ?c"
      using rd_base_field [of c v fid] field.prems by (auto simp: wf_value_base)
    have "eats R c1 (skip fuel P (ttype_of v)) body ?c"
      by (simp only: fuel skip_base [OF True] eats_sizeM [OF h(3)])
    moreover have "parses R c1 (read_into fuel P ty cur) body (project_into ty cur v) ?c" if "fits ty v" for ty cur
      unfolding fuel read_type_base [OF True that] by (rule h(3))
    ultimately have "parses R c1 (read_one_field (read_into fuel P) (skip fuel P) flds old (ttype_of v) fid acc)
        body ?acc ?c"
      using read_one_field_parses [OF _ _ one] by blast
    from read_one_round [OF h(2) _ this rest] True h(1) show ?thesis
      unfolding proj by (simp add: k del: read_fields.simps project_fields.simps)
  next
    case False
    have "eats R ?c (skip fuel P (ttype_of v)) (enc_value W ?c v) ?c"
      using field.prems by (intro skip_value_eats) auto
    moreover have "parses R ?c (read_into fuel P ty cur) (enc_value W ?c v) (project_into ty cur v) ?c" if "fits ty v" for ty cur
      using field that by simp
    ultimately have "parses R ?c (read_one_field (read_into fuel P) (skip fuel P) flds old (ttype_of v) fid acc)
        (enc_value W ?c v) ?acc ?c"
      using read_one_field_parses [OF _ _ one] by blast
    from read_one_round [OF rd_header [OF field.prems(1) False] _ this rest] False show ?thesis
      unfolding proj by (simp add: k del: read_fields.simps project_fields.simps)
  qed
next
  case (elem v vs)
  then have "parses R c (read_type fuel P ety) (enc_value W c v) (project ety v) c"
    and "parses R c (read_loop (length vs) (read_element (read_into fuel P ety None) add) (add (project ety v) acc))
      (enc_elems W c vs) (project_elems add ety acc (v # vs)) c" by auto
  from read_elem [OF this] show ?case by simp
next
  case (pair x y kvs)
  then have "parses R c (read_type fuel P kty) (enc_value W c x) (project kty x) c"
    and "parses R c (read_into fuel P vty (map_of acc (project kty x))) (enc_value W c y)
      (project_into vty (map_of acc (project kty x)) y) c"
    and "parses R c (read_loop (length kvs) (read_entry (read_into fuel P kty None) (read_into fuel P vty))
      (map_put (project kty x) (project_into vty (map_of acc (project kty x)) y) acc)) (enc_pairs W c kvs) (project_pairs kty vty acc ((x, y) # kvs)) c"
    by auto
  from read_pair [OF this] show ?case by simp
qed (simp_all add: parses_return)

text \<open>A struct without one of the required members: it is read to its end, and refused.\<close>

lemma missing_required:
  assumes "idle c" and "wf_fields okS okC fs" and "fits_fields flds fs"
    and "\<not> required_set flds (project_fields flds [] [] fs)" and "size (VStruct nm' fs) + 2 \<le> fuel"
    and s: "r_inv R s" "r_ctl R s = c" "r_inp R s = enc_value W c (VStruct nm' fs) @ rest"
  shows "\<exists>s'. read_type fuel P (TyStruct nm flds) s = (Inl (TProtocolException INVALID_DATA), s')
    \<and> r_inv R s' \<and> r_inp R s' = rest"
proof -
  obtain f where f: "fuel = Suc f" "fields_size fs + 2 \<le> f" using assms(5) by (cases fuel) auto
  let ?c = "wire_push W c" and ?fs = "project_fields flds [] [] fs"
  obtain snm where "parses R c (readStructBegin_virt P) [] snm ?c" using rd_struct by blast
  from parsesD [OF this s(1,2), of "enc_value W c (VStruct nm' fs) @ rest"] s(3) obtain s1 where
    s1: "readStructBegin_virt P s = (Inr (snm, 0), s1)" "r_inv R s1" "r_ctl R s1 = ?c"
      "r_inp R s1 = (enc_fields W ?c fs @ wire_stop W) @ rest" by auto
  have len: "length fs \<le> fields_size fs" by (induction fs) simp_all
  have "parses R ?c (read_fields f P (read_into f P) (skip f P) flds [] [])
      (enc_fields W ?c fs @ wire_stop W) ?fs (after_fields W ?c fs)"
    by (rule read_fields_parses) (use assms(1-3) f(2) len in auto)
  from parsesD [OF this s1(2-4)] obtain k s2 where
    s2: "read_fields f P (read_into f P) (skip f P) flds [] [] s1 = (Inr (?fs, k), s2)" "r_inv R s2"
      "r_ctl R s2 = after_fields W ?c fs" "r_inp R s2 = rest" by metis
  from eatsD [OF rd_struct_end s2(2,3), of rest] s2(4) obtain s3 where
    "readStructEnd_virt P s2 = (Inr 0, s3)" "r_inv R s3" "r_inp R s3 = rest" by auto
  with s1(1) s2(1) assms(4) show ?thesis by (simp add: f(1) bindM_def throwM_def)
qed

end

text \<open>A required member is missing if no field of the input has its id and its type.\<close>

lemma project_fields_only:
  assumes "find_field key flds = Some ((fname, key, req), ty)"
    and "\<forall>nm v. ((nm, key), v) \<in> set fs \<longrightarrow> ttype_of v \<noteq> type_to_enum ty"
  shows "key \<notin> (\<lambda>f. snd (fst f)) ` set acc \<Longrightarrow> key \<notin> (\<lambda>f. snd (fst f)) ` set (project_fields flds old acc fs)"
  using assms(2)
proof (induction fs arbitrary: acc)
  case (Cons f fs)
  obtain nm fid v where f: "f = ((nm, fid), v)" by (metis surj_pair)
  have "key \<notin> (\<lambda>f. snd (fst f)) ` set (project_fields flds old acc [f])"
  proof (cases "fid = key")
    case True
    then show ?thesis using assms(1) Cons.prems f by simp
  next
    case False
    then show ?thesis using Cons.prems(1) find_field_key [of fid flds] f
      by (auto simp: set_field_ids split: option.splits)
  qed
  moreover have "project_fields flds old (project_fields flds old acc [f]) fs = project_fields flds old acc (f # fs)"
    by (simp add: f)
  ultimately show ?case using Cons.IH [of "project_fields flds old acc [f]"] Cons.prems(2) by (metis list.set_intros(2))
qed simp

lemma required_missing:
  assumes "find_field key flds = Some ((fname, key, T_REQUIRED), ty)"
    and "\<forall>nm v. ((nm, key), v) \<in> set fs \<longrightarrow> ttype_of v \<noteq> type_to_enum ty"
  shows "\<not> required_set flds (project_fields flds [] [] fs)"
proof -
  have "((fname, key, T_REQUIRED), ty) \<in> set flds"
    using assms(1) by (auto simp: find_field_def find_Some_iff) (metis nth_mem)
  moreover have "key \<notin> (\<lambda>f. snd (fst f)) ` set (project_fields flds [] [] fs)"
    by (rule project_fields_only [OF assms]) simp
  ultimately show ?thesis by (force simp: required_set_def list_all_iff)
qed

end
