(* ===== verification/MemoryBuffer.thy ===== *)
theory MemoryBuffer
  imports Transport "HOL-Library.While_Combinator"
begin

text \<open>
  \<^verbatim>\<open>TMemoryBuffer\<close> (\<^verbatim>\<open>TBufferTransports.h/.cpp\<close>): a growable byte buffer with a read
  and a write position. The theory defines its operations, its invariant and the abstraction
  to the queue of unread bytes, shows that every operation keeps the invariant and that reads
  and writes are those of a FIFO queue, and examines the growth loop of \<open>ensureCanWrite\<close>,
  whose \<^verbatim>\<open>uint32_t\<close> arithmetic can wrap around.
\<close>

section \<open>State\<close>

text \<open>
  The pointers are offsets into \<open>buffer\<close>, so the relocation of \<^verbatim>\<open>realloc\<close> leaves them
  unchanged. A \<^verbatim>\<open>NULL\<close> buffer is the empty list (its size is then 0). Memory obtained from
  \<^verbatim>\<open>malloc\<close> or \<^verbatim>\<open>realloc\<close> is filled with zero bytes, which no operation reads before
  they are written. Allocation does not fail, except that \<^verbatim>\<open>realloc\<close> to size 0 returns
  \<^verbatim>\<open>NULL\<close> and so raises \<open>BadAlloc\<close> in \<open>ensureCanWrite\<close> (the C library has then
  also freed the old buffer, which the model does not show).
\<close>

record TMemoryBuffer = TBufferBase +
  buffer :: "byte list"
  bufferSize :: nat
  owner :: bool

datatype MemoryPolicy = OBSERVE | COPY | TAKE_OWNERSHIP

definition available_read :: "TMemoryBuffer \<Rightarrow> nat" where
  "available_read s = u32 (wBase s - rBase s)"

definition available_write :: "TMemoryBuffer \<Rightarrow> nat" where
  "available_write s = u32 (wBound s - wBase s)"

section \<open>Growing\<close>

text \<open>
  The loop of \<open>ensureCanWrite\<close>, in \<^verbatim>\<open>uint32_t\<close> arithmetic: the state is
  \<open>(new_size, avail)\<close>, and \<open>None\<close> means that the loop never exits.
\<close>

definition grow_step :: "TMemoryBuffer \<Rightarrow> nat \<times> nat \<Rightarrow> nat \<times> nat" where
  "grow_step s = (\<lambda>(new_size, avail).
     let new_size' = (if new_size > 0 then u32 (new_size * 2) else 1) in
     (new_size', u32 (available_write s + u32 (new_size' + 2 ^ 32 - bufferSize s))))"

definition grow_loop :: "TMemoryBuffer \<Rightarrow> nat \<Rightarrow> (nat \<times> nat) option" where
  "grow_loop s len =
     while_option (\<lambda>(new_size, avail). len > avail) (grow_step s)
       (bufferSize s, available_write s)"

definition ensureCanWrite :: "nat \<Rightarrow> (TMemoryBuffer, unit) M" where
  "ensureCanWrite len s =
     (if len \<le> available_write s then (Inr (), s)
      else if \<not> owner s then (Inl (TTransportException TT_UNKNOWN), s)
      else (case grow_loop s len of
          None \<Rightarrow> (Inl NonTermination, s)
        | Some (new_size, avail) \<Rightarrow>
            if new_size = 0 then (Inl BadAlloc, s)
            else (Inr (), s\<lparr>buffer := take new_size (buffer s @ replicate (new_size - bufferSize s) 0),
                            bufferSize := new_size, wBound := new_size\<rparr>)))"

section \<open>Reading and writing\<close>

definition computeRead :: "nat \<Rightarrow> TMemoryBuffer \<Rightarrow> (nat \<times> nat) \<times> TMemoryBuffer" where
  "computeRead len s =
     (let s1 = s\<lparr>rBound := wBase s\<rparr>; give = min len (available_read s1) in
      ((rBase s1, give), s1\<lparr>rBase := rBase s1 + give\<rparr>))"

definition memory_readSlow :: "nat \<Rightarrow> (TMemoryBuffer, byte list) M" where
  "memory_readSlow len s =
     (case computeRead len s of ((start, give), s') \<Rightarrow> (Inr (mslice (buffer s') start give), s'))"

definition memory_writeSlow :: "byte list \<Rightarrow> (TMemoryBuffer, unit) M" where
  "memory_writeSlow buf =
     bindM (ensureCanWrite (length buf)) (\<lambda>_.
     modifyM (\<lambda>s. s\<lparr>buffer := memcpy (buffer s) (wBase s) buf, wBase := wBase s + length buf\<rparr>))"

definition memory_borrowSlow :: "nat \<Rightarrow> (TMemoryBuffer, byte list option) M" where
  "memory_borrowSlow len s =
     (let s1 = s\<lparr>rBound := wBase s\<rparr> in
      if available_read s1 \<ge> len
      then (Inr (Some (mslice (buffer s1) (rBase s1) (available_read s1))), s1)
      else (Inr None, s1))"

definition memory_read :: "nat \<Rightarrow> (TMemoryBuffer, byte list) M" where
  "memory_read = buffer_read buffer memory_readSlow"

definition memory_readAll :: "nat \<Rightarrow> (TMemoryBuffer, byte list) M" where
  "memory_readAll = buffer_readAll buffer memory_readSlow"

definition memory_write :: "byte list \<Rightarrow> (TMemoryBuffer, unit) M" where
  "memory_write = buffer_write buffer_update memory_writeSlow"

definition memory_borrow :: "nat \<Rightarrow> (TMemoryBuffer, byte list option) M" where
  "memory_borrow = buffer_borrow buffer memory_borrowSlow"

definition memory_consume :: "nat \<Rightarrow> (TMemoryBuffer, unit) M" where
  "memory_consume = buffer_consume"

text \<open>Appends to the caller's string, which the model returns.\<close>

definition readAppendToString :: "byte list \<Rightarrow> nat \<Rightarrow> (TMemoryBuffer, byte list \<times> nat) M" where
  "readAppendToString str len s =
     (if buffer s = [] then (Inr (str, 0), s)
      else case computeRead len s of
        ((start, give), s') \<Rightarrow> (Inr (str @ mslice (buffer s') start give, give), s'))"

definition readAsString :: "nat \<Rightarrow> (TMemoryBuffer, byte list) M" where
  "readAsString len = bindM (readAppendToString [] len) (\<lambda>(str, give). returnM str)"

text \<open>
  \<open>getWritePtr\<close> returns \<open>wBase\<close>; the client then stores bytes through that pointer, which is
  \<open>clientStore\<close>, and reports how many with \<open>wroteBytes\<close>.
\<close>

definition getWritePtr :: "nat \<Rightarrow> (TMemoryBuffer, nat) M" where
  "getWritePtr len = bindM (ensureCanWrite len) (\<lambda>_. getM wBase)"

definition clientStore :: "nat \<Rightarrow> byte list \<Rightarrow> (TMemoryBuffer, unit) M" where
  "clientStore ptr bs = modifyM (buffer_update (\<lambda>m. memcpy m ptr bs))"

definition wroteBytes :: "nat \<Rightarrow> (TMemoryBuffer, unit) M" where
  "wroteBytes len s =
     (let avail = available_write s in
      if len > avail then (Inl (TTransportException TT_UNKNOWN), s)
      else (Inr (), s\<lparr>wBase := wBase s + len\<rparr>))"

section \<open>Construction and reset\<close>

text \<open>\<open>initCommon\<close> with \<open>None\<close> for a \<^verbatim>\<open>NULL\<close> buffer, which is then allocated.\<close>

definition initCommon :: "byte list option \<Rightarrow> nat \<Rightarrow> bool \<Rightarrow> nat \<Rightarrow> TMemoryBuffer" where
  "initCommon buf sz own wPos =
     \<lparr>rBase = 0, rBound = wPos, wBase = wPos, wBound = sz,
      buffer = (case buf of None \<Rightarrow> replicate sz 0 | Some b \<Rightarrow> b),
      bufferSize = sz, owner = own\<rparr>"

definition newTMemoryBuffer :: "nat \<Rightarrow> TMemoryBuffer" where
  "newTMemoryBuffer sz = initCommon None sz True 0"

text \<open>The constructor from existing contents; \<open>None\<close> is a \<^verbatim>\<open>NULL\<close> pointer.\<close>

definition newTMemoryBuffer_from ::
  "byte list option \<Rightarrow> nat \<Rightarrow> MemoryPolicy \<Rightarrow> exn + TMemoryBuffer" where
  "newTMemoryBuffer_from buf sz policy =
     (if buf = None \<and> sz \<noteq> 0 then Inl (TTransportException BAD_ARGS)
      else (let data = (case buf of None \<Rightarrow> [] | Some b \<Rightarrow> b) in
        case policy of
          OBSERVE \<Rightarrow> Inr (initCommon (Some data) sz False sz)
        | TAKE_OWNERSHIP \<Rightarrow> Inr (initCommon (Some data) sz True sz)
        | COPY \<Rightarrow> (case memory_write data (initCommon None sz True 0) of
            (Inl e, s) \<Rightarrow> Inl e | (Inr _, s) \<Rightarrow> Inr s)))"

definition resetBuffer :: "(TMemoryBuffer, unit) M" where
  "resetBuffer = modifyM (\<lambda>s.
     let s1 = s\<lparr>rBase := 0, rBound := 0, wBase := 0\<rparr> in
     if \<not> owner s then s1\<lparr>wBound := wBase s1, bufferSize := 0\<rparr> else s1)"

definition resetBuffer_from ::
  "byte list option \<Rightarrow> nat \<Rightarrow> MemoryPolicy \<Rightarrow> (TMemoryBuffer, unit) M" where
  "resetBuffer_from buf sz policy s =
     (case newTMemoryBuffer_from buf sz policy of
        Inl e \<Rightarrow> (Inl e, s) | Inr new_buffer \<Rightarrow> (Inr (), new_buffer))"

definition resetBuffer_size :: "nat \<Rightarrow> (TMemoryBuffer, unit) M" where
  "resetBuffer_size sz = modifyM (\<lambda>_. newTMemoryBuffer sz)"

section \<open>Observers\<close>

definition memory_peek :: "(TMemoryBuffer, bool) M" where
  "memory_peek = getM (\<lambda>s. rBase s < wBase s)"

definition getBuffer :: "TMemoryBuffer \<Rightarrow> nat \<times> nat" where
  "getBuffer s = (rBase s, u32 (wBase s - rBase s))"

definition getBufferAsString :: "TMemoryBuffer \<Rightarrow> byte list" where
  "getBufferAsString s =
     (if buffer s = [] then [] else case getBuffer s of (buf, sz) \<Rightarrow> mslice (buffer s) buf sz)"

definition appendBufferToString :: "byte list \<Rightarrow> TMemoryBuffer \<Rightarrow> byte list" where
  "appendBufferToString str s =
     (if buffer s = [] then str
      else case getBuffer s of (buf, sz) \<Rightarrow> str @ mslice (buffer s) buf sz)"

definition memory_readEnd :: "(TMemoryBuffer, uint32_t) M" where
  "memory_readEnd =
     bindM (getM (\<lambda>s. (word_of_nat (rBase s) :: uint32_t, rBase s = wBase s))) (\<lambda>(bytes, all).
     bindM (if all then resetBuffer else returnM ()) (\<lambda>_. returnM bytes))"

definition memory_writeEnd :: "(TMemoryBuffer, uint32_t) M" where
  "memory_writeEnd = getM (\<lambda>s. word_of_nat (wBase s))"

definition memory_ops :: "TMemoryBuffer TTransport" where
  "memory_ops = \<lparr>isOpen_virt = (\<lambda>s. True), peek_virt = memory_peek,
     open_virt = returnM (), close_virt = returnM (),
     read_virt = memory_read, readAll_virt = memory_readAll, readEnd_virt = memory_readEnd,
     write_virt = memory_write, writeEnd_virt = memory_writeEnd, flush_virt = base_flush,
     borrow_virt = memory_borrow, consume_virt = memory_consume\<rparr>"

section \<open>Invariant and abstraction\<close>

definition memory_inv :: "TMemoryBuffer \<Rightarrow> bool" where
  "memory_inv s \<longleftrightarrow> rBase s \<le> rBound s \<and> rBound s \<le> wBase s \<and> wBase s \<le> wBound s
     \<and> wBound s = bufferSize s \<and> bufferSize s \<le> length (buffer s) \<and> bufferSize s < 2 ^ 32
     \<and> (owner s \<longrightarrow> length (buffer s) = bufferSize s)"

text \<open>The queue of bytes written and not yet read.\<close>

definition unread :: "TMemoryBuffer \<Rightarrow> byte list" where
  "unread s = mslice (buffer s) (rBase s) (wBase s - rBase s)"

lemma available_read_inv [simp]: "memory_inv s \<Longrightarrow> available_read s = wBase s - rBase s"
  by (auto simp: memory_inv_def available_read_def)

lemma available_write_inv [simp]: "memory_inv s \<Longrightarrow> available_write s = bufferSize s - wBase s"
  by (auto simp: memory_inv_def available_write_def)

lemma length_unread [simp]: "memory_inv s \<Longrightarrow> length (unread s) = wBase s - rBase s"
  by (simp add: memory_inv_def unread_def)

section \<open>The growth loop\<close>

lemma grow_loop_enough:
  assumes inv: "memory_inv s" and len: "wBase s + len \<le> 2 ^ 31"
  shows "\<exists>new_size avail. grow_loop s len = Some (new_size, avail) \<and> wBase s + len \<le> new_size
    \<and> bufferSize s \<le> new_size \<and> new_size < 2 ^ 32"
proof -
  let ?b = "\<lambda>(new_size :: nat, avail). len > avail"
  let ?P = "\<lambda>(ns :: nat, av). bufferSize s \<le> ns \<and> ns < 2 ^ 32 \<and> av = ns - wBase s"
  have step: "?P (grow_step s x) \<and> wBase s + len - fst (grow_step s x) < wBase s + len - fst x"
    if "?P x" "?b x" for x
  proof -
    obtain ns av where x: "x = (ns, av)" by (cases x)
    define ns' where "ns' = (if ns > 0 then ns * 2 else 1)"
    have small: "ns' < 2 ^ 32" "bufferSize s \<le> ns'" "ns < ns'" "ns < wBase s + len"
      using that len inv by (auto simp: x ns'_def memory_inv_def)
    then have "u32 (available_write s + u32 (ns' + 2 ^ 32 - bufferSize s)) = ns' - wBase s"
      using inv by (subst u32_sub) (auto simp: memory_inv_def)
    moreover have "(if ns > 0 then u32 (ns * 2) else 1) = ns'" using small by (auto simp: ns'_def)
    ultimately have "grow_step s x = (ns', ns' - wBase s)" by (simp add: x grow_step_def Let_def)
    with small show ?thesis by (simp add: x)
  qed
  have init: "?P (bufferSize s, available_write s)"
    using inv available_write_inv [OF inv] by (simp add: memory_inv_def)
  obtain y where y: "while_option ?b (grow_step s) (bufferSize s, available_write s) = Some y"
    using measure_while_option_Some [of ?P ?b "grow_step s" "\<lambda>x. wBase s + len - fst x", OF step init]
    by blast
  have "?P y" by (rule while_option_rule [where P = ?P, OF _ y init]) (rule step [THEN conjunct1])
  moreover have "\<not> ?b y" by (rule while_option_stop [OF y])
  ultimately show ?thesis using y inv by (cases y) (auto simp: grow_loop_def memory_inv_def)
qed

lemma grow_loop_diverges:
  assumes inv: "memory_inv s" and "wBase s = 0" and size: "bufferSize s = 2 ^ k" and "2 ^ 31 < len"
  shows "grow_loop s len = None"
proof (rule ccontr)
  let ?b = "\<lambda>(new_size :: nat, avail). len > avail"
  let ?P = "\<lambda>(ns :: nat, av). av = ns \<and> (ns = 0 \<or> (\<exists>j\<le>31. ns = 2 ^ j))"
  assume "\<not> ?thesis"
  then obtain y where y: "while_option ?b (grow_step s) (bufferSize s, available_write s) = Some y"
    by (auto simp: grow_loop_def)
  have "(2::nat) ^ k < 2 ^ 32" using inv size by (simp add: memory_inv_def)
  then have "k < 32" by (rule power_less_imp_less_exp [rotated]) simp
  then have "k \<le> 31" by simp
  then have init: "?P (bufferSize s, available_write s)"
    using inv assms(2) size by (auto simp: memory_inv_def available_write_def)
  have wrap: "u32 (bufferSize s + u32 (ns + 2 ^ 32 - bufferSize s)) = ns" if "ns < 2 ^ 32" for ns
    using that inv by (simp add: u32_def memory_inv_def mod_add_right_eq)
  have step: "?P (grow_step s x)" if P: "?P x" for x
  proof -
    obtain ns where x: "x = (ns, ns)" using P by (auto split: prod.splits)
    define ns' where "ns' = (if ns > 0 then u32 (ns * 2) else 1)"
    have "ns' = 0 \<or> (\<exists>j\<le>31. ns' = 2 ^ j)"
    proof (cases "ns = 0")
      case False
      then obtain j where j: "j \<le> 31" "ns = 2 ^ j" using P x by auto
      show ?thesis
      proof (cases "j = 31")
        case True
        with j False show ?thesis by (simp add: ns'_def u32_def)
      next
        case False
        with j have "2 ^ Suc j < (2::nat) ^ 32" by (intro power_strict_increasing) auto
        with j False have "ns' = 2 ^ Suc j" by (simp add: ns'_def u32_def mult.commute)
        with j False show ?thesis by (intro disjI2 exI [of _ "Suc j"]) simp
      qed
    qed (auto simp: ns'_def intro: exI [of _ 0])
    moreover have "ns' < 2 ^ 32" by (simp add: ns'_def)
    ultimately show ?thesis using inv assms(2) wrap [of ns']
      by (simp add: x grow_step_def Let_def ns'_def [symmetric])
  qed
  have "?P y" by (rule while_option_rule [where P = ?P, OF _ y init]) (rule step)
  moreover have "(2::nat) ^ j \<le> 2 ^ 31" if "j \<le> 31" for j using that by (rule power_increasing) simp
  ultimately have "?b y" using assms(4) by (cases y) (fastforce intro: le_less_trans)
  with while_option_stop [OF y] show False by blast
qed

section \<open>Reads and writes are those of a queue\<close>

lemmas memory_fast_paths = memory_read_def memory_readAll_def memory_write_def memory_borrow_def
  memory_consume_def buffer_read_def buffer_readAll_def buffer_write_def buffer_borrow_def
  buffer_consume_def

lemma memory_readSlow_eq:
  assumes "memory_inv s"
  shows "memory_readSlow n s = (Inr (take n (unread s)),
    s\<lparr>rBound := wBase s, rBase := rBase s + min n (wBase s - rBase s)\<rparr>)"
proof -
  have "available_read (s\<lparr>rBound := wBase s\<rparr>) = wBase s - rBase s"
    using assms available_read_inv [OF assms] by (simp add: available_read_def)
  then show ?thesis
    by (simp add: memory_readSlow_def computeRead_def unread_def Let_def)
qed

lemma memory_read_queue:
  assumes "memory_inv s"
  shows "\<exists>s'. memory_read n s = (Inr (take n (unread s)), s') \<and> memory_inv s'
    \<and> unread s' = drop n (unread s) \<and> owner s' = owner s \<and> wBase s' = wBase s"
proof (cases "rBase s + n \<le> rBound s")
  case True
  with assms show ?thesis
    by (auto simp: memory_fast_paths Let_def unread_def memory_inv_def min_def)
next
  case False
  with assms show ?thesis
    by (auto simp: memory_fast_paths Let_def memory_readSlow_eq memory_inv_def unread_def min_def)
qed

interpretation memory_reader: reader memory_read memory_inv unread
proof
  fix s :: TMemoryBuffer and n
  assume inv: "memory_inv s"
  then obtain s' where "memory_read n s = (Inr (take n (unread s)), s')" "memory_inv s'"
    "unread s' = drop n (unread s)"
    using memory_read_queue by blast
  then show "\<exists>bs s'. memory_read n s = (Inr bs, s') \<and> memory_inv s' \<and> unread s = bs @ unread s'
      \<and> length bs \<le> n \<and> (bs = [] \<longrightarrow> n = 0 \<or> unread s = [])"
    by auto
qed

lemma memory_readAll_queue:
  assumes "memory_inv s" and "n \<le> length (unread s)"
  shows "\<exists>s'. memory_readAll n s = (Inr (take n (unread s)), s') \<and> memory_inv s'
    \<and> unread s' = drop n (unread s)"
proof (cases "rBase s + n \<le> rBound s")
  case True
  with assms show ?thesis
    by (auto simp: memory_fast_paths Let_def unread_def memory_inv_def min_def)
next
  case False
  then have "memory_readAll n s = readAll memory_read n s"
    by (simp add: memory_readAll_def buffer_readAll_def memory_read_def)
  with memory_reader.readAll_complete [OF assms] show ?thesis by simp
qed

lemma memory_readAll_eof:
  assumes "memory_inv s" and "length (unread s) < n"
  shows "\<exists>s'. memory_readAll n s = (Inl (TTransportException END_OF_FILE), s') \<and> memory_inv s'"
proof -
  have "\<not> rBase s + n \<le> rBound s" using assms by (auto simp: memory_inv_def unread_def)
  then have "memory_readAll n s = readAll memory_read n s"
    by (simp add: memory_readAll_def buffer_readAll_def memory_read_def)
  with memory_reader.readAll_eof [OF assms] show ?thesis by auto
qed

lemma memory_borrow_cases:
  assumes "memory_inv s"
  shows "\<exists>r s'. memory_borrow n s = (Inr r, s') \<and> memory_inv s' \<and> unread s' = unread s
    \<and> (\<forall>bs. r = Some bs \<longrightarrow> n \<le> length bs \<and> length bs = rBound s' - rBase s'
         \<and> bs = take (length bs) (unread s))"
proof (cases "n \<le> rBound s - rBase s")
  case True
  with assms show ?thesis
    by (auto simp: memory_fast_paths memory_inv_def unread_def min_def)
next
  case False
  let ?s = "s\<lparr>rBound := wBase s\<rparr>"
  have "memory_inv ?s" using assms by (auto simp: memory_inv_def)
  with False assms show ?thesis
    by (auto simp: memory_fast_paths memory_borrowSlow_def Let_def unread_def memory_inv_def)
qed

lemma memory_consume_queue:
  assumes "memory_inv s" and "n \<le> rBound s - rBase s"
  shows "\<exists>s'. memory_consume n s = (Inr (), s') \<and> memory_inv s' \<and> unread s' = drop n (unread s)"
  using assms by (auto simp: memory_fast_paths memory_inv_def unread_def)

interpretation memory_source: byte_source memory_ops memory_inv unread
proof
  fix s :: TMemoryBuffer and n
  assume inv: "memory_inv s"
  obtain r s' where *: "memory_borrow n s = (Inr r, s')" "memory_inv s'" "unread s' = unread s"
    "\<forall>bs. r = Some bs \<longrightarrow> n \<le> length bs \<and> length bs = rBound s' - rBase s'
         \<and> bs = take (length bs) (unread s)"
    using memory_borrow_cases [OF inv, of n] by blast
  then show "\<exists>r s'. borrow_virt memory_ops n s = (Inr r, s') \<and> memory_inv s' \<and> unread s' = unread s
        \<and> (\<forall>bs. r = Some bs \<longrightarrow> n \<le> length bs \<and> bs = take (length bs) (unread s)
             \<and> (\<forall>k\<le>n. \<exists>s''. consume_virt memory_ops k s' = (Inr (), s'') \<and> memory_inv s''
                   \<and> unread s'' = drop k (unread s)))"
    using memory_consume_queue [OF *(2)] by (fastforce simp: memory_ops_def)
qed (use memory_readAll_queue memory_readAll_eof in \<open>auto simp: memory_ops_def\<close>)

section \<open>Writing\<close>

lemma ensureCanWrite_ok:
  assumes inv: "memory_inv s" and "owner s" and "wBase s + len \<le> 2 ^ 31"
  shows "\<exists>s'. ensureCanWrite len s = (Inr (), s') \<and> memory_inv s' \<and> owner s'
    \<and> wBase s' + len \<le> bufferSize s' \<and> unread s' = unread s
    \<and> wBase s' = wBase s \<and> rBase s' = rBase s"
proof (cases "len \<le> available_write s")
  case True
  with assms show ?thesis by (auto simp: ensureCanWrite_def memory_inv_def)
next
  case False
  obtain ns av where g: "grow_loop s len = Some (ns, av)" "wBase s + len \<le> ns"
    "bufferSize s \<le> ns" "ns < 2 ^ 32"
    using grow_loop_enough [OF inv assms(3)] by auto
  define s' where "s' = s\<lparr>buffer := take ns (buffer s @ replicate (ns - bufferSize s) 0),
    bufferSize := ns, wBound := ns\<rparr>"
  have "ns \<noteq> 0" using g(2) False by auto
  then have "ensureCanWrite len s = (Inr (), s')"
    using False assms(2) g by (simp add: ensureCanWrite_def s'_def)
  moreover have "buffer s' = buffer s @ replicate (ns - bufferSize s) 0"
    using assms(2) inv g(3) by (simp add: s'_def memory_inv_def)
  then have "memory_inv s' \<and> unread s' = unread s"
    using inv g assms(2) by (auto simp: memory_inv_def s'_def unread_def mslice_append_mem)
  ultimately show ?thesis using g assms(2) by (auto simp: s'_def)
qed

lemma buffer_update_eq: "buffer_update f s = s\<lparr>buffer := f (buffer s)\<rparr>"
  by (cases s) simp

lemma memory_write_queue:
  assumes inv: "memory_inv s" and "owner s" and "wBase s + length bs \<le> 2 ^ 31"
  shows "\<exists>s'. memory_write bs s = (Inr (), s') \<and> memory_inv s' \<and> owner s'
    \<and> unread s' = unread s @ bs \<and> wBase s' = wBase s + length bs \<and> rBase s' = rBase s"
proof -
  have copy: "memory_inv (t\<lparr>buffer := memcpy (buffer t) (wBase t) bs, wBase := wBase t + length bs\<rparr>)
      \<and> unread (t\<lparr>buffer := memcpy (buffer t) (wBase t) bs, wBase := wBase t + length bs\<rparr>)
        = unread t @ bs"
    if "memory_inv t" "wBase t + length bs \<le> bufferSize t" for t
    using that mslice_memcpy_extend [of "rBase t" "wBase t" bs "buffer t"]
    by (auto simp: memory_inv_def unread_def)
  show ?thesis
  proof (cases "wBase s + length bs \<le> wBound s")
    case True
    then have "wBase s + length bs \<le> bufferSize s" using inv by (simp add: memory_inv_def)
    with True copy [OF inv] assms(2) show ?thesis
      by (simp add: memory_fast_paths Let_def buffer_update_eq [of "\<lambda>m. memcpy m (wBase s) bs"])
  next
    case False
    obtain t where t: "ensureCanWrite (length bs) s = (Inr (), t)" "memory_inv t" "owner t"
      "wBase t + length bs \<le> bufferSize t" "unread t = unread s" "wBase t = wBase s"
      "rBase t = rBase s"
      using ensureCanWrite_ok [OF assms] by blast
    with False copy [OF t(2,4)] show ?thesis
      by (simp add: memory_fast_paths Let_def memory_writeSlow_def bindM_def modifyM_def)
  qed
qed

interpretation memory_sink: steady_sink memory_ops "\<lambda>s. memory_inv s \<and> owner s" unread
  "\<lambda>s. 2 ^ 31 - wBase s"
proof
  fix s :: TMemoryBuffer and bs :: "byte list"
  assume inv: "memory_inv s \<and> owner s" and len: "length bs \<le> 2 ^ 31 - wBase s"
  show "\<exists>s'. write_virt memory_ops bs s = (Inr (), s') \<and> (memory_inv s' \<and> owner s')
      \<and> unread s' = unread s @ bs \<and> 2 ^ 31 - wBase s = 2 ^ 31 - wBase s' + length bs"
  proof (cases "wBase s + length bs \<le> 2 ^ 31")
    case True
    then show ?thesis using memory_write_queue [of s bs] inv by (fastforce simp: memory_ops_def)
  next
    case False
    with len have "length bs = 0" "2 ^ 31 < wBase s" by arith+
    then have "bs = []" "2 ^ 31 < wBase s" by auto
    then show ?thesis using inv
      by (auto simp: memory_ops_def memory_fast_paths memory_inv_def unread_def)
  qed
qed (auto simp: memory_ops_def base_flush_def returnM_def)

section \<open>Every reachable buffer is well formed\<close>

text \<open>
  The states a client can bring a buffer into: a constructor followed by any sequence of
  operations, including those that end in an exception. Writes stay below 2 GiB, the range in
  which the growth loop is correct, and a client stores only into the space it has reserved.
\<close>

inductive memory_reachable :: "TMemoryBuffer \<Rightarrow> bool" where
  new: "sz < 2 ^ 32 \<Longrightarrow> memory_reachable (newTMemoryBuffer sz)"
| new_from: "sz < 2 ^ 31 \<Longrightarrow> length data = sz \<Longrightarrow>
     newTMemoryBuffer_from (Some data) sz policy = Inr s \<Longrightarrow> memory_reachable s"
| read: "memory_reachable s \<Longrightarrow> memory_reachable (snd (memory_read n s))"
| readAll: "memory_reachable s \<Longrightarrow> memory_reachable (snd (memory_readAll n s))"
| append: "memory_reachable s \<Longrightarrow> memory_reachable (snd (readAppendToString str n s))"
| put: "memory_reachable s \<Longrightarrow> wBase s + length bs \<le> 2 ^ 31 \<Longrightarrow>
     memory_reachable (snd (memory_write bs s))"
| borrow: "memory_reachable s \<Longrightarrow> memory_reachable (snd (memory_borrow n s))"
| consume: "memory_reachable s \<Longrightarrow> memory_reachable (snd (memory_consume n s))"
| writePtr: "memory_reachable s \<Longrightarrow> wBase s + n \<le> 2 ^ 31 \<Longrightarrow>
     memory_reachable (snd (getWritePtr n s))"
| store: "memory_reachable s \<Longrightarrow> length bs \<le> available_write s \<Longrightarrow>
     memory_reachable (snd (clientStore (wBase s) bs s))"
| wrote: "memory_reachable s \<Longrightarrow> memory_reachable (snd (wroteBytes n s))"
| readEnd: "memory_reachable s \<Longrightarrow> memory_reachable (snd (memory_readEnd s))"
| reset: "memory_reachable s \<Longrightarrow> memory_reachable (snd (resetBuffer s))"
| reset_size: "memory_reachable s \<Longrightarrow> sz < 2 ^ 32 \<Longrightarrow>
     memory_reachable (snd (resetBuffer_size sz s))"

lemma memory_inv_init:
  "wPos \<le> sz \<Longrightarrow> sz < 2 ^ 32 \<Longrightarrow> (\<And>b. buf = Some b \<Longrightarrow> length b = sz) \<Longrightarrow>
    memory_inv (initCommon buf sz own wPos)"
  by (cases buf) (auto simp: memory_inv_def initCommon_def)

lemma memory_inv_ensureCanWrite:
  assumes "memory_inv s" and "wBase s + n \<le> 2 ^ 31"
  shows "memory_inv (snd (ensureCanWrite n s))"
proof (cases "owner s")
  case True
  then show ?thesis using ensureCanWrite_ok [OF assms(1) _ assms(2)] by auto
next
  case False
  then show ?thesis using assms(1) by (simp add: ensureCanWrite_def)
qed

lemma memory_inv_write:
  assumes "memory_inv s" and "wBase s + length bs \<le> 2 ^ 31"
  shows "memory_inv (snd (memory_write bs s))"
proof (cases "owner s")
  case True
  then show ?thesis using memory_write_queue [OF assms(1) _ assms(2)] by auto
next
  case False
  then show ?thesis using assms(1)
    by (auto simp: memory_fast_paths Let_def memory_writeSlow_def ensureCanWrite_def bindM_def
        modifyM_def memory_inv_def)
qed

lemma memory_inv_computeRead:
  assumes "memory_inv s" shows "memory_inv (snd (computeRead n s))"
proof -
  have "snd (computeRead n s) = snd (memory_readSlow n s)"
    by (simp add: memory_readSlow_def split: prod.splits)
  also have "\<dots> = s\<lparr>rBound := wBase s, rBase := rBase s + min n (wBase s - rBase s)\<rparr>"
    by (simp add: memory_readSlow_eq [OF assms])
  finally show ?thesis using assms by (auto simp: memory_inv_def)
qed

lemma memory_inv_append:
  assumes "memory_inv s" shows "memory_inv (snd (readAppendToString str n s))"
  using assms memory_inv_computeRead [OF assms, of n]
  by (auto simp: readAppendToString_def split: prod.splits)

lemma memory_inv_new_from:
  assumes "newTMemoryBuffer_from (Some data) (length data) policy = Inr s" "length data < 2 ^ 31"
  shows "memory_inv s"
proof (cases policy)
  case COPY
  have "memory_inv (initCommon None (length data) True 0)"
    using assms(2) by (intro memory_inv_init) auto
  then have "memory_inv (snd (memory_write data (initCommon None (length data) True 0)))"
    using assms(2) by (intro memory_inv_write) (auto simp: initCommon_def)
  with assms(1) COPY show ?thesis
    by (auto simp: newTMemoryBuffer_from_def split: sum.splits prod.splits)
qed (use assms in \<open>auto simp: newTMemoryBuffer_from_def intro!: memory_inv_init\<close>)

lemma memory_inv_readAll:
  assumes "memory_inv s" shows "memory_inv (snd (memory_readAll n s))"
  using memory_readAll_queue [OF assms, of n] memory_readAll_eof [OF assms, of n]
  by (cases "n \<le> length (unread s)") auto

lemma memory_inv_reset: "memory_inv s \<Longrightarrow> memory_inv (snd (resetBuffer s))"
  by (auto simp: resetBuffer_def modifyM_def memory_inv_def Let_def)

lemma memory_reachable_inv: "memory_reachable s \<Longrightarrow> memory_inv s"
proof (induction rule: memory_reachable.induct)
  case (new sz)
  then show ?case by (auto simp: newTMemoryBuffer_def intro!: memory_inv_init)
next
  case (new_from sz data policy s)
  then show ?case by (auto intro: memory_inv_new_from)
next
  case (read s n)
  then show ?case using memory_read_queue [of s n] by auto
next
  case (borrow s n)
  then show ?case using memory_borrow_cases [of s n] by auto
next
  case (consume s n)
  then show ?case by (auto simp: memory_fast_paths memory_inv_def)
next
  case (writePtr s n)
  then show ?case using memory_inv_ensureCanWrite [of s n]
    by (auto simp: getWritePtr_def bindM_def getM_def split: sum.splits prod.splits)
next
  case (store s bs)
  then show ?case by (auto simp: clientStore_def modifyM_def memory_inv_def available_write_def)
next
  case (wrote s n)
  then show ?case by (auto simp: wroteBytes_def memory_inv_def available_write_def)
next
  case (readEnd s)
  then show ?case using memory_inv_reset [of s]
    by (auto simp: memory_readEnd_def bindM_def getM_def returnM_def split: sum.splits prod.splits)
next
  case (reset_size s sz)
  then show ?case
    by (auto simp: resetBuffer_size_def modifyM_def newTMemoryBuffer_def intro!: memory_inv_init)
qed (auto intro: memory_inv_readAll memory_inv_append memory_inv_write memory_inv_reset)

section \<open>Refinement of a queue\<close>

text \<open>
  A client's sequence of calls, with the bytes or the exception each one yields, on the buffer
  and on the abstract queue.
\<close>

datatype buffer_call = CallWrite "byte list" | CallRead nat | CallReadAll nat

fun memory_call :: "buffer_call \<Rightarrow> (TMemoryBuffer, byte list) M" where
  "memory_call (CallWrite bs) = bindM (memory_write bs) (\<lambda>_. returnM [])"
| "memory_call (CallRead n) = memory_read n"
| "memory_call (CallReadAll n) = memory_readAll n"

fun queue_call :: "buffer_call \<Rightarrow> (byte list, byte list) M" where
  "queue_call (CallWrite bs) q = (Inr [], q @ bs)"
| "queue_call (CallRead n) q = (Inr (take n q), drop n q)"
| "queue_call (CallReadAll n) q =
     (if n \<le> length q then (Inr (take n q), drop n q) else (Inl (TTransportException END_OF_FILE), []))"

fun trace :: "(buffer_call \<Rightarrow> ('s, byte list) M) \<Rightarrow> buffer_call list \<Rightarrow> 's \<Rightarrow> (exn + byte list) list" where
  "trace f [] s = []"
| "trace f (c # cs) s = (case f c s of (r, s') \<Rightarrow> r # trace f cs s')"

fun written :: "buffer_call list \<Rightarrow> nat" where
  "written [] = 0"
| "written (CallWrite bs # cs) = length bs + written cs"
| "written (c # cs) = written cs"

lemma memory_read_state:
  assumes "memory_inv s"
  shows "owner (snd (memory_read n s)) = owner s" "wBase (snd (memory_read n s)) = wBase s"
  using memory_read_queue [OF assms, of n] by auto

lemma readAll_loop_state:
  "memory_inv s \<Longrightarrow> owner (snd (readAll_loop memory_read n acc s)) = owner s
    \<and> wBase (snd (readAll_loop memory_read n acc s)) = wBase s"
proof (induction "n - length acc" arbitrary: acc s rule: less_induct)
  case less
  obtain t where t: "memory_read (n - length acc) s = (Inr (take (n - length acc) (unread s)), t)"
    "memory_inv t" "owner t = owner s" "wBase t = wBase s"
    using memory_read_queue [OF less.prems] by blast
  define got where "got = take (n - length acc) (unread s)"
  show ?case
  proof (cases "length acc < n \<and> got \<noteq> []")
    case True
    then have "n - length (acc @ got) < n - length acc" by (cases got) auto
    from less.hyps [OF this t(2)] True t show ?thesis
      by (simp add: readAll_loop.simps [of memory_read n acc s] flip: got_def)
  next
    case False
    with t show ?thesis by (auto simp: readAll_loop.simps [of memory_read n acc s] simp flip: got_def)
  qed
qed

lemma memory_call_refines:
  assumes "memory_inv s" and "owner s" and "wBase s + written [c] \<le> 2 ^ 31"
  shows "\<exists>s'. memory_call c s = (fst (queue_call c (unread s)), s')
    \<and> unread s' = snd (queue_call c (unread s)) \<and> memory_inv s' \<and> owner s'
    \<and> wBase s' = wBase s + written [c]"
proof (cases c)
  case (CallWrite bs)
  then show ?thesis using memory_write_queue [OF assms(1,2), of bs] assms(3)
    by (auto simp: bindM_def returnM_def)
next
  case (CallRead n)
  then show ?thesis using memory_read_queue [OF assms(1), of n] assms(2) by auto
next
  case (CallReadAll n)
  have keep: "owner (snd (memory_readAll n s)) = owner s" "wBase (snd (memory_readAll n s)) = wBase s"
    using readAll_loop_state [OF assms(1), of n "[]"]
    by (auto simp: memory_readAll_def buffer_readAll_def readAll_def memory_read_def Let_def)
  show ?thesis
  proof (cases "n \<le> length (unread s)")
    case True
    then show ?thesis using memory_readAll_queue [OF assms(1) True] keep assms(2) CallReadAll by auto
  next
    case False
    then have "\<not> rBase s + n \<le> rBound s" using assms(1) by (auto simp: memory_inv_def unread_def)
    then have "memory_readAll n s = readAll memory_read n s"
      by (simp add: memory_readAll_def buffer_readAll_def memory_read_def)
    with memory_reader.readAll_eof [OF assms(1), of n] False keep assms(2) CallReadAll show ?thesis
      by auto
  qed
qed

lemma memory_trace_refines:
  "memory_inv s \<Longrightarrow> owner s \<Longrightarrow> wBase s + written cs \<le> 2 ^ 31 \<Longrightarrow>
    trace memory_call cs s = trace queue_call cs (unread s)"
proof (induction cs arbitrary: s)
  case (Cons c cs)
  have split: "written (c # cs) = written [c] + written cs" by (cases c) simp_all
  with Cons.prems obtain s' where s': "memory_call c s = (fst (queue_call c (unread s)), s')"
    "unread s' = snd (queue_call c (unread s))" "memory_inv s'" "owner s'"
    "wBase s' = wBase s + written [c]"
    using memory_call_refines [of s c] by auto
  with Cons.IH [of s'] Cons.prems split show ?case by (simp split: prod.splits)
qed simp

section \<open>Properties\<close>

text \<open>
  C18. Whatever operations a client performs on a memory buffer, in whatever order, and whether
  they return or throw, its pointers stay ordered and inside the allocated memory. (Writes stay
  below 2 GiB.)
\<close>

theorem memory_pointers_ordered:
  assumes "memory_reachable s"
  shows "rBase s \<le> rBound s \<and> rBound s \<le> wBase s \<and> wBase s \<le> wBound s
    \<and> wBound s = bufferSize s \<and> bufferSize s \<le> length (buffer s)"
  using memory_reachable_inv [OF assms] by (simp add: memory_inv_def)

theorem memory_pointers_ordered_witness:
  "memory_reachable (snd (memory_read 1 (snd (memory_write [1, 2] (newTMemoryBuffer 4)))))
    \<and> rBase (snd (memory_read 1 (snd (memory_write [1, 2] (newTMemoryBuffer 4))))) \<le> 2"
proof -
  have r: "memory_reachable (snd (memory_read 1 (snd (memory_write [1, 2] (newTMemoryBuffer 4)))))"
    by (intro memory_reachable.intros) (simp_all add: newTMemoryBuffer_def initCommon_def)
  have "wBase (snd (memory_read 1 (snd (memory_write [1, 2] (newTMemoryBuffer 4))))) = 2"
    by (simp add: memory_fast_paths newTMemoryBuffer_def initCommon_def memory_readSlow_def
        computeRead_def available_read_def Let_def)
  with memory_pointers_ordered [OF r] r show ?thesis by simp
qed

text \<open>
  C10. Any interleaving of \<open>write\<close>, \<open>read\<close> and \<open>readAll\<close> on a memory buffer (with at most 2 GiB
  written) yields exactly the bytes and the end-of-file exceptions of a FIFO queue.
\<close>

theorem memory_is_a_queue:
  assumes "sz < 2 ^ 32" and "written cs \<le> 2 ^ 31"
  shows "trace memory_call cs (newTMemoryBuffer sz) = trace queue_call cs []"
proof -
  have "memory_inv (newTMemoryBuffer sz)" "owner (newTMemoryBuffer sz)"
    "wBase (newTMemoryBuffer sz) = 0" "unread (newTMemoryBuffer sz) = []"
    using assms(1) memory_reachable_inv [OF memory_reachable.new]
    by (auto simp: newTMemoryBuffer_def initCommon_def unread_def)
  with memory_trace_refines [of "newTMemoryBuffer sz" cs] assms(2) show ?thesis by simp
qed

theorem memory_is_a_queue_witness:
  "trace memory_call [CallWrite [1, 2, 3], CallRead 2, CallWrite [4], CallReadAll 3]
     (newTMemoryBuffer 2) = [Inr [], Inr [1, 2], Inr [], Inl (TTransportException END_OF_FILE)]"
  using memory_is_a_queue
    [of 2 "[CallWrite [1, 2, 3], CallRead 2, CallWrite [4], CallReadAll 3]"]
  by simp

text \<open>
  C33. Growing the buffer terminates and provides the room asked for, keeping the unread bytes,
  as long as the write position does not pass 2 GiB.
\<close>

theorem ensureCanWrite_provides_room:
  assumes "memory_inv s" and "owner s" and "wBase s + len \<le> 2 ^ 31"
  shows "\<exists>s'. ensureCanWrite len s = (Inr (), s') \<and> len \<le> available_write s'
    \<and> unread s' = unread s \<and> memory_inv s'"
proof -
  obtain s' where s': "ensureCanWrite len s = (Inr (), s')" "memory_inv s'"
    "wBase s' + len \<le> bufferSize s'" "unread s' = unread s"
    using ensureCanWrite_ok [OF assms] by blast
  then show ?thesis by (intro exI [of _ s']) auto
qed

theorem ensureCanWrite_provides_room_witness:
  "\<exists>s'. ensureCanWrite 100 (newTMemoryBuffer 8) = (Inr (), s') \<and> 100 \<le> available_write s'"
proof -
  have "memory_inv (newTMemoryBuffer 8)" by (rule memory_reachable_inv [OF memory_reachable.new]) simp
  moreover have "owner (newTMemoryBuffer 8)" "wBase (newTMemoryBuffer 8) + 100 \<le> 2 ^ 31"
    by (simp_all add: newTMemoryBuffer_def initCommon_def)
  ultimately show ?thesis using ensureCanWrite_provides_room [of "newTMemoryBuffer 8" 100] by blast
qed

text \<open>
  C34. Asking an empty buffer whose size is a power of two (the default is 1024) for more than
  2 GiB never returns: the doubled size wraps around to 0 and the loop starts over.
\<close>

theorem ensureCanWrite_never_returns:
  assumes "memory_inv s" and "owner s" and "wBase s = 0" and "bufferSize s = 2 ^ k"
    and "2 ^ 31 < len"
  shows "ensureCanWrite len s = (Inl NonTermination, s)"
proof -
  have "(2::nat) ^ k < 2 ^ 32" using assms(1,4) by (simp add: memory_inv_def)
  then have "k < 32" by (rule power_less_imp_less_exp [rotated]) simp
  then have "(2::nat) ^ k \<le> 2 ^ 31" by (intro power_increasing) simp_all
  then have "\<not> len \<le> available_write s"
    using assms available_write_inv [OF assms(1)] by simp
  with grow_loop_diverges [OF assms(1,3,4,5)] assms(2) show ?thesis by (simp add: ensureCanWrite_def)
qed

theorem ensureCanWrite_never_returns_witness:
  "ensureCanWrite 3000000000 (newTMemoryBuffer 1024) = (Inl NonTermination, newTMemoryBuffer 1024)"
proof (rule ensureCanWrite_never_returns [where k = 10])
  show "memory_inv (newTMemoryBuffer 1024)"
    by (rule memory_reachable_inv [OF memory_reachable.new]) simp
qed (simp_all add: newTMemoryBuffer_def initCommon_def)

end
