(* ===== verification/BufferedTransport.thy ===== *)
theory BufferedTransport
  imports MemoryBuffer
begin

text \<open>
  \<^verbatim>\<open>TBufferedTransport\<close> (\<^verbatim>\<open>TBufferTransports.h/.cpp\<close>): read-ahead and write buffering in
  front of an arbitrary transport. The wrapped transport is the argument \<open>U\<close>. Over any
  reader the buffered transport is again a byte source with the same stream, and over any sink
  it is a sink whose output is the wrapped output followed by the pending bytes; both are
  instantiated with the memory buffer.
\<close>

section \<open>State\<close>

text \<open>\<^verbatim>\<open>TFramedTransport\<close> has the same members, so its theory uses this record, too.\<close>

record 'u TBufferedTransport = TBufferBase +
  transport :: 'u
  rBufSize :: nat
  wBufSize :: nat
  rBuf :: "byte list"
  wBuf :: "byte list"

definition buffered_initPointers :: "'u TBufferedTransport \<Rightarrow> 'u TBufferedTransport" where
  "buffered_initPointers s = setWriteBuffer 0 (wBufSize s) (setReadBuffer 0 0 s)"

text \<open>The constructor with separate buffer sizes; the other two call it with equal ones.\<close>

definition newTBufferedTransport :: "'u \<Rightarrow> nat \<Rightarrow> nat \<Rightarrow> 'u TBufferedTransport" where
  "newTBufferedTransport u rsz wsz = buffered_initPointers
     \<lparr>rBase = 0, rBound = 0, wBase = 0, wBound = 0, transport = u, rBufSize = rsz,
      wBufSize = wsz, rBuf = replicate rsz 0, wBuf = replicate wsz 0\<rparr>"

section \<open>Operations\<close>

text \<open>Calls on the wrapped transport.\<close>

definition onTransport :: "('u, 'a) M \<Rightarrow> ('u TBufferedTransport, 'a) M" where
  "onTransport m = liftM transport (\<lambda>u s. s\<lparr>transport := u\<rparr>) m"

text \<open>\<open>setReadBuffer(rBuf_.get(), transport_->read(rBuf_.get(), rBufSize_))\<close>.\<close>

definition refill :: "'u TTransport \<Rightarrow> ('u TBufferedTransport, unit) M" where
  "refill U s =
     (case read_virt U (rBufSize s) (transport s) of
        (Inl e, u) \<Rightarrow> (Inl e, s\<lparr>transport := u\<rparr>)
      | (Inr got, u) \<Rightarrow>
          (Inr (), setReadBuffer 0 (length got) (s\<lparr>transport := u, rBuf := memcpy (rBuf s) 0 got\<rparr>)))"

definition buffered_readSlow :: "'u TTransport \<Rightarrow> nat \<Rightarrow> ('u TBufferedTransport, byte list) M" where
  "buffered_readSlow U len s =
     (let avail = u32 (rBound s - rBase s) in
      if \<not> avail < len then (Inl AssertionFailure, s)
      else if avail > 0 then (Inr (mslice (rBuf s) (rBase s) avail), setReadBuffer 0 0 s)
      else bindM (refill U) (\<lambda>_ s.
        let give = min len (u32 (rBound s - rBase s)) in
        (Inr (mslice (rBuf s) (rBase s) give), s\<lparr>rBase := rBase s + give\<rparr>)) s)"

definition buffered_writeSlow :: "'u TTransport \<Rightarrow> byte list \<Rightarrow> ('u TBufferedTransport, unit) M" where
  "buffered_writeSlow U buf s =
     (let have_bytes = u32 (wBase s); space = u32 (wBound s - wBase s); len = length buf in
      if \<not> wBound s - wBase s < len then (Inl AssertionFailure, s)
      else if u32 (have_bytes + len) \<ge> u32 (2 * wBufSize s) \<or> have_bytes = 0 then
        bindM (if have_bytes > 0 then onTransport (write_virt U (mslice (wBuf s) 0 have_bytes))
               else returnM ()) (\<lambda>_.
        bindM (onTransport (write_virt U buf)) (\<lambda>_.
        modifyM (\<lambda>s. s\<lparr>wBase := 0\<rparr>))) s
      else
        bindM (modifyM (\<lambda>s. s\<lparr>wBuf := memcpy (wBuf s) (wBase s) (take space buf)\<rparr>)) (\<lambda>_.
        bindM (\<lambda>s. onTransport (write_virt U (mslice (wBuf s) 0 (wBufSize s))) s) (\<lambda>_.
        bindM (assertM (\<lambda>s. len - space < wBufSize s)) (\<lambda>_.
        modifyM (\<lambda>s. s\<lparr>wBuf := memcpy (wBuf s) 0 (drop space buf), wBase := len - space\<rparr>)))) s)"

definition buffered_borrowSlow :: "nat \<Rightarrow> ('u TBufferedTransport, byte list option) M" where
  "buffered_borrowSlow len = returnM None"

definition buffered_flush :: "'u TTransport \<Rightarrow> ('u TBufferedTransport, unit) M" where
  "buffered_flush U s =
     (let have_bytes = u32 (wBase s) in
      bindM (if have_bytes > 0 then
          bindM (modifyM (\<lambda>s. s\<lparr>wBase := 0\<rparr>)) (\<lambda>_.
          onTransport (write_virt U (mslice (wBuf s) 0 have_bytes)))
        else returnM ()) (\<lambda>_.
      onTransport (flush_virt U)) s)"

definition buffered_peek :: "'u TTransport \<Rightarrow> ('u TBufferedTransport, bool) M" where
  "buffered_peek U s =
     bindM (if rBase s = rBound s then refill U else returnM ()) (\<lambda>_.
     getM (\<lambda>s. rBound s > rBase s)) s"

definition buffered_close :: "'u TTransport \<Rightarrow> ('u TBufferedTransport, unit) M" where
  "buffered_close U = bindM (buffered_flush U) (\<lambda>_. onTransport (close_virt U))"

definition buffered_ops :: "'u TTransport \<Rightarrow> 'u TBufferedTransport TTransport" where
  "buffered_ops U = \<lparr>isOpen_virt = (\<lambda>s. isOpen_virt U (transport s)),
     peek_virt = buffered_peek U, open_virt = onTransport (open_virt U),
     close_virt = buffered_close U,
     read_virt = buffer_read rBuf (buffered_readSlow U),
     readAll_virt = buffer_readAll rBuf (buffered_readSlow U),
     readEnd_virt = base_readEnd,
     write_virt = buffer_write wBuf_update (buffered_writeSlow U),
     writeEnd_virt = base_writeEnd, flush_virt = buffered_flush U,
     borrow_virt = buffer_borrow rBuf buffered_borrowSlow, consume_virt = buffer_consume\<rparr>"

section \<open>Reading through the buffer\<close>

definition buffered_rinv :: "('u \<Rightarrow> bool) \<Rightarrow> 'u TBufferedTransport \<Rightarrow> bool" where
  "buffered_rinv uinv s \<longleftrightarrow> uinv (transport s) \<and> rBase s \<le> rBound s \<and> rBound s \<le> length (rBuf s)
     \<and> length (rBuf s) = rBufSize s \<and> 0 < rBufSize s \<and> rBufSize s < 2 ^ 32"

definition buffered_inp :: "('u \<Rightarrow> byte list) \<Rightarrow> 'u TBufferedTransport \<Rightarrow> byte list" where
  "buffered_inp uinp = buffer_inp rBuf (\<lambda>s. uinp (transport s))"

lemma buffered_inp_eq:
  "buffered_inp uinp s = mslice (rBuf s) (rBase s) (rBound s - rBase s) @ uinp (transport s)"
  by (simp add: buffered_inp_def buffer_inp_def)

lemma buffered_rinv_u32 [simp]:
  "buffered_rinv uinv s \<Longrightarrow> u32 (rBound s - rBase s) = rBound s - rBase s"
  by (auto simp: buffered_rinv_def)

locale buffered_over_reader = reader "read_virt U" uinv uinp
  for U :: "'u TTransport" and uinv uinp
begin

lemma refill_ok:
  assumes "buffered_rinv uinv s" and "rBase s = rBound s"
  shows "\<exists>s'. refill U s = (Inr (), s') \<and> buffered_rinv uinv s' \<and> rBase s' = 0
    \<and> buffered_inp uinp s' = buffered_inp uinp s
    \<and> (rBound s' = 0 \<longrightarrow> buffered_inp uinp s = [])"
proof -
  obtain got u where r: "read_virt U (rBufSize s) (transport s) = (Inr got, u)" "uinv u"
    "uinp (transport s) = got @ uinp u" "length got \<le> rBufSize s"
    "got = [] \<longrightarrow> rBufSize s = 0 \<or> uinp (transport s) = []"
    using read_ok [of "transport s" "rBufSize s"] assms(1) by (auto simp: buffered_rinv_def)
  with assms have "refill U s
      = (Inr (), setReadBuffer 0 (length got) (s\<lparr>transport := u, rBuf := memcpy (rBuf s) 0 got\<rparr>))"
    by (simp add: refill_def)
  with r assms show ?thesis
    by (auto simp: setReadBuffer_def buffered_rinv_def buffered_inp_eq mslice_memcpy_same)
qed

lemma buffered_readSlow_ok:
  assumes inv: "buffered_rinv uinv s" and n: "rBound s - rBase s < n"
  shows "\<exists>bs s'. buffered_readSlow U n s = (Inr bs, s') \<and> buffered_rinv uinv s'
    \<and> buffered_inp uinp s = bs @ buffered_inp uinp s' \<and> length bs \<le> n
    \<and> (bs = [] \<longrightarrow> buffered_inp uinp s = [])"
proof (cases "rBound s - rBase s > 0")
  case True
  with inv n show ?thesis
    by (auto simp: buffered_readSlow_def Let_def setReadBuffer_def buffered_rinv_def buffered_inp_eq)
next
  case False
  then have "rBase s = rBound s" using inv by (simp add: buffered_rinv_def)
  from refill_ok [OF inv this]
  obtain t where t: "refill U s = (Inr (), t)" "buffered_rinv uinv t" "rBase t = 0"
    "buffered_inp uinp t = buffered_inp uinp s" "rBound t = 0 \<longrightarrow> buffered_inp uinp s = []"
    by (elim exE conjE) (rule that)
  define give where "give = min n (rBound t - rBase t)"
  have "u32 (rBound t) = rBound t" using t(2,3) buffered_rinv_u32 [OF t(2)] by simp
  then have "buffered_readSlow U n s
      = (Inr (mslice (rBuf t) (rBase t) give), t\<lparr>rBase := rBase t + give\<rparr>)"
    using False inv n t by (simp add: buffered_readSlow_def Let_def bindM_def give_def)
  moreover have "mslice (rBuf t) (rBase t) (rBound t - rBase t)
      = mslice (rBuf t) (rBase t) give @ mslice (rBuf t) (rBase t + give) (rBound t - rBase t - give)"
    by (rule mslice_split) (simp add: give_def)
  ultimately show ?thesis using t n
    by (auto simp: buffered_rinv_def buffered_inp_eq give_def)
qed

end

sublocale buffered_over_reader \<subseteq> buffered_source: buffer_source "buffered_ops U" rBuf
  "buffered_readSlow U" buffered_borrowSlow "buffered_rinv uinv" "\<lambda>s. uinp (transport s)"
  rewrites "buffer_inp rBuf (\<lambda>s. uinp (transport s)) = buffered_inp uinp"
proof -
  show "buffer_source (buffered_ops U) rBuf (buffered_readSlow U) buffered_borrowSlow
      (buffered_rinv uinv) (\<lambda>s. uinp (transport s))"
  proof (unfold_locales, goal_cases)
    case (7 s n)
    then show ?case using buffered_readSlow_ok [of s n] by (simp add: buffered_inp_def)
  qed (auto simp: buffered_ops_def buffered_rinv_def buffered_borrowSlow_def returnM_def)
qed (simp add: buffered_inp_def)

section \<open>Writing through the buffer\<close>

definition buffered_winv ::
  "('u \<Rightarrow> bool) \<Rightarrow> ('u \<Rightarrow> nat) \<Rightarrow> 'u TBufferedTransport \<Rightarrow> bool" where
  "buffered_winv uinv uroom s \<longleftrightarrow> uinv (transport s) \<and> wBase s \<le> wBound s
     \<and> wBound s = wBufSize s \<and> length (wBuf s) = wBufSize s \<and> wBufSize s < 2 ^ 31
     \<and> wBase s \<le> uroom (transport s)"

definition buffered_outp :: "('u \<Rightarrow> byte list) \<Rightarrow> 'u TBufferedTransport \<Rightarrow> byte list" where
  "buffered_outp uoutp s = uoutp (transport s) @ mslice (wBuf s) 0 (wBase s)"

definition buffered_room :: "('u \<Rightarrow> nat) \<Rightarrow> 'u TBufferedTransport \<Rightarrow> nat" where
  "buffered_room uroom s = uroom (transport s) - wBase s"

lemma wBuf_update_eq: "wBuf_update f s = s\<lparr>wBuf := f (wBuf s)\<rparr>"
  by (cases s) simp

locale buffered_over_sink = byte_sink U uinv uoutp uroom
  for U :: "'u TTransport" and uinv uoutp uroom
begin

lemma onTransport_write:
  assumes "uinv (transport s)" and "length bs \<le> uroom (transport s)"
  obtains u where "onTransport (write_virt U bs) s = (Inr (), s\<lparr>transport := u\<rparr>)" "uinv u"
    "uoutp u = uoutp (transport s) @ bs" "uroom (transport s) = uroom u + length bs"
  using sink_write [OF assms] by (auto simp: onTransport_def liftM_def)

lemma buffered_writeSlow_direct:
  assumes inv: "buffered_winv uinv uroom s" and len: "length bs \<le> buffered_room uroom s"
    and slow: "wBound s < wBase s + length bs"
    and big: "wBase s + length bs \<ge> 2 * wBufSize s \<or> wBase s = 0"
  shows "\<exists>s'. buffered_writeSlow U bs s = (Inr (), s') \<and> buffered_winv uinv uroom s'
    \<and> buffered_outp uoutp s' = buffered_outp uoutp s @ bs
    \<and> buffered_room uroom s = buffered_room uroom s' + length bs"
proof -
  have room: "uroom (transport s) < 2 ^ 32" "wBase s + length bs \<le> uroom (transport s)"
    using sink_room [of "transport s"] inv len by (auto simp: buffered_winv_def buffered_room_def)
  then have u: "u32 (wBase s) = wBase s" "u32 (wBase s + length bs) = wBase s + length bs"
    "u32 (2 * wBufSize s) = 2 * wBufSize s"
    using inv by (auto simp: buffered_winv_def)
  have slow': "wBound s - wBase s < length bs" using slow inv by (auto simp: buffered_winv_def)
  have pend: "length (mslice (wBuf s) 0 (wBase s)) = wBase s"
    using inv by (auto simp: buffered_winv_def)
  have "uinv (transport s)" "length (mslice (wBuf s) 0 (wBase s)) \<le> uroom (transport s)"
    using inv room pend by (auto simp: buffered_winv_def)
  then obtain u1 where u1: "(if wBase s > 0 then onTransport (write_virt U (mslice (wBuf s) 0 (wBase s)))
        else returnM ()) s = (Inr (), s\<lparr>transport := u1\<rparr>)" "uinv u1"
    "uoutp u1 = uoutp (transport s) @ mslice (wBuf s) 0 (wBase s)"
    "uroom (transport s) = uroom u1 + wBase s"
  proof (cases "wBase s > 0")
    case True
    with that onTransport_write [of s "mslice (wBuf s) 0 (wBase s)"] inv room pend show thesis
      by (auto simp: buffered_winv_def)
  next
    case False
    with that [of "transport s"] inv show thesis by (simp add: returnM_def buffered_winv_def)
  qed
  obtain u2 where u2: "onTransport (write_virt U bs) (s\<lparr>transport := u1\<rparr>)
      = (Inr (), s\<lparr>transport := u2\<rparr>)" "uinv u2" "uoutp u2 = uoutp u1 @ bs"
    "uroom u1 = uroom u2 + length bs"
    using onTransport_write [of "s\<lparr>transport := u1\<rparr>" bs] u1 room by auto
  have "buffered_writeSlow U bs s = (Inr (), s\<lparr>transport := u2, wBase := 0\<rparr>)"
    using slow' big u u1(1) u2(1) by (simp add: buffered_writeSlow_def Let_def bindM_def modifyM_def)
  with u1 u2 inv room show ?thesis
    by (auto simp: buffered_winv_def buffered_outp_def buffered_room_def)
qed

lemma buffered_writeSlow_fill:
  assumes inv: "buffered_winv uinv uroom s" and len: "length bs \<le> buffered_room uroom s"
    and slow: "wBound s < wBase s + length bs"
    and small: "wBase s + length bs < 2 * wBufSize s" "0 < wBase s"
  shows "\<exists>s'. buffered_writeSlow U bs s = (Inr (), s') \<and> buffered_winv uinv uroom s'
    \<and> buffered_outp uoutp s' = buffered_outp uoutp s @ bs
    \<and> buffered_room uroom s = buffered_room uroom s' + length bs"
proof -
  let ?sp = "wBufSize s - wBase s"
  let ?full = "memcpy (wBuf s) (wBase s) (take ?sp bs)"
  have room: "uroom (transport s) < 2 ^ 32" "wBase s + length bs \<le> uroom (transport s)"
    using sink_room [of "transport s"] inv len by (auto simp: buffered_winv_def buffered_room_def)
  have sp: "?sp \<le> length bs" "wBase s \<le> wBufSize s" "length (wBuf s) = wBufSize s"
    using slow inv by (auto simp: buffered_winv_def)
  have u: "u32 (wBase s) = wBase s" "u32 (wBase s + length bs) = wBase s + length bs"
    "u32 (2 * wBufSize s) = 2 * wBufSize s" "u32 ?sp = ?sp"
    using inv room by (auto simp: buffered_winv_def)
  have slow': "wBound s - wBase s < length bs" using slow inv by (auto simp: buffered_winv_def)
  have full: "mslice ?full 0 (wBufSize s) = mslice (wBuf s) 0 (wBase s) @ take ?sp bs"
    using mslice_memcpy_extend [of 0 "wBase s" "take ?sp bs" "wBuf s"] sp by simp
  have l: "length (mslice ?full 0 (wBufSize s)) = wBufSize s" using sp by (simp add: full)
  then obtain u1 where u1: "onTransport (write_virt U (mslice ?full 0 (wBufSize s))) (s\<lparr>wBuf := ?full\<rparr>)
      = (Inr (), s\<lparr>wBuf := ?full, transport := u1\<rparr>)" "uinv u1"
    "uoutp u1 = uoutp (transport s) @ mslice ?full 0 (wBufSize s)"
    "uroom (transport s) = uroom u1 + wBufSize s"
    using onTransport_write [of "s\<lparr>wBuf := ?full\<rparr>" "mslice ?full 0 (wBufSize s)"] inv room slow
    by (auto simp: buffered_winv_def)
  define s' where "s' = s\<lparr>wBuf := memcpy ?full 0 (drop ?sp bs), transport := u1, wBase := length bs - ?sp\<rparr>"
  have "length bs - ?sp < wBufSize s" using small sp by auto
  then have "buffered_writeSlow U bs s = (Inr (), s')"
    using slow' small u u1(1) inv
    by (simp add: buffered_writeSlow_def Let_def bindM_def modifyM_def assertM_def s'_def buffered_winv_def)
  moreover have "mslice (memcpy ?full 0 (drop ?sp bs)) 0 (length bs - ?sp) = drop ?sp bs"
    using mslice_memcpy_same [of 0 ?full "drop ?sp bs"] by simp
  then have "buffered_outp uoutp s' = buffered_outp uoutp s @ bs"
    by (simp add: s'_def buffered_outp_def u1(3) full)
  moreover have "length ?full = wBufSize s" using sp by simp
  then have "buffered_winv uinv uroom s'"
    using inv u1 small room sp \<open>length bs - ?sp < wBufSize s\<close>
    by (auto simp: s'_def buffered_winv_def)
  moreover have "buffered_room uroom s = buffered_room uroom s' + length bs"
    using u1(4) room sp by (simp add: s'_def buffered_room_def)
  ultimately show ?thesis by blast
qed

lemma buffered_write_ok:
  assumes inv: "buffered_winv uinv uroom s" and len: "length bs \<le> buffered_room uroom s"
  shows "\<exists>s'. buffer_write wBuf_update (buffered_writeSlow U) bs s = (Inr (), s')
    \<and> buffered_winv uinv uroom s' \<and> buffered_outp uoutp s' = buffered_outp uoutp s @ bs
    \<and> buffered_room uroom s = buffered_room uroom s' + length bs"
proof (cases "wBase s + length bs \<le> wBound s")
  case True
  then have "mslice (memcpy (wBuf s) (wBase s) bs) 0 (wBase s + length bs)
      = mslice (wBuf s) 0 (wBase s) @ bs"
    using mslice_memcpy_extend [of 0 "wBase s" bs "wBuf s"] inv by (simp add: buffered_winv_def)
  with True inv len show ?thesis
    by (auto simp: buffer_write_def Let_def wBuf_update_eq [of "\<lambda>m. memcpy m (wBase s) bs"]
        buffered_winv_def buffered_outp_def buffered_room_def)
next
  case False
  then have slow: "wBound s < wBase s + length bs" by simp
  have "buffer_write wBuf_update (buffered_writeSlow U) bs s = buffered_writeSlow U bs s"
    using False by (simp add: buffer_write_def)
  then show ?thesis
    using buffered_writeSlow_direct [OF inv len slow] buffered_writeSlow_fill [OF inv len slow]
    by (cases "wBase s + length bs \<ge> 2 * wBufSize s \<or> wBase s = 0") (simp_all only: not_le de_Morgan_disj, auto)
qed

lemma buffered_flush_ok:
  assumes inv: "buffered_winv uinv uroom s"
  shows "\<exists>s'. buffered_flush U s = (Inr (), s') \<and> buffered_winv uinv uroom s'
    \<and> buffered_outp uoutp s' = buffered_outp uoutp s \<and> wBase s' = 0
    \<and> uoutp (transport s') = buffered_outp uoutp s"
proof -
  have pend: "length (mslice (wBuf s) 0 (wBase s)) = wBase s" "u32 (wBase s) = wBase s"
    using inv by (auto simp: buffered_winv_def)
  obtain u1 where u1: "(if wBase s > 0 then bindM (modifyM (\<lambda>s. s\<lparr>wBase := 0\<rparr>)) (\<lambda>_.
        onTransport (write_virt U (mslice (wBuf s) 0 (wBase s)))) else returnM ()) s
      = (Inr (), s\<lparr>wBase := 0, transport := u1\<rparr>)" "uinv u1"
    "uoutp u1 = uoutp (transport s) @ mslice (wBuf s) 0 (wBase s)"
    "uroom (transport s) = uroom u1 + wBase s"
  proof (cases "wBase s > 0")
    case True
    with that onTransport_write [of "s\<lparr>wBase := 0\<rparr>" "mslice (wBuf s) 0 (wBase s)"] inv pend show thesis
      by (auto simp: buffered_winv_def bindM_def modifyM_def)
  next
    case False
    with that [of "transport s"] inv show thesis by (simp add: returnM_def buffered_winv_def)
  qed
  obtain u2 where "flush_virt U u1 = (Inr (), u2)" "uinv u2" "uoutp u2 = uoutp u1"
    using sink_flush [OF u1(2)] by blast
  with u1 have "buffered_flush U s = (Inr (), s\<lparr>wBase := 0, transport := u2\<rparr>)"
    by (simp add: buffered_flush_def Let_def pend bindM_def onTransport_def liftM_def)
  with u1 \<open>uinv u2\<close> \<open>uoutp u2 = uoutp u1\<close> inv show ?thesis
    by (auto simp: buffered_winv_def buffered_outp_def)
qed

end

sublocale buffered_over_sink \<subseteq> buffered_sink:
  byte_sink "buffered_ops U" "buffered_winv uinv uroom" "buffered_outp uoutp" "buffered_room uroom"
proof
  fix s assume "buffered_winv uinv uroom s"
  then show "buffered_room uroom s < 2 ^ 32"
    using sink_room [of "transport s"] by (simp add: buffered_winv_def buffered_room_def)
next
  fix s assume "buffered_winv uinv uroom s"
  from buffered_flush_ok [OF this] show "\<exists>s'. flush_virt (buffered_ops U) s = (Inr (), s')
      \<and> buffered_winv uinv uroom s' \<and> buffered_outp uoutp s' = buffered_outp uoutp s"
    by (auto simp: buffered_ops_def)
qed (use buffered_write_ok in \<open>auto simp: buffered_ops_def\<close>)

section \<open>Buffering in front of a memory buffer\<close>

interpretation buffered_memory: buffered_over_reader memory_ops memory_inv unread
  by unfold_locales (use memory_reader.read_ok in \<open>simp add: memory_ops_def\<close>)

interpretation buffered_memory_out: buffered_over_sink memory_ops
  "\<lambda>s. memory_inv s \<and> owner s" unread "\<lambda>s. 2 ^ 31 - wBase s"
  by unfold_locales

section \<open>Properties\<close>

lemma newTBufferedTransport_inv:
  assumes "memory_inv u" and "owner u" and "rsz < 2 ^ 32" and "wsz < 2 ^ 31"
  shows "buffered_winv (\<lambda>s. memory_inv s \<and> owner s) (\<lambda>s. 2 ^ 31 - wBase s) (newTBufferedTransport u rsz wsz)"
    and "0 < rsz \<Longrightarrow> buffered_rinv memory_inv (newTBufferedTransport u rsz wsz)"
    and "buffered_outp unread (newTBufferedTransport u rsz wsz) = unread u"
    and "buffered_inp unread (newTBufferedTransport u rsz wsz) = unread u"
    and "buffered_room (\<lambda>s. 2 ^ 31 - wBase s) (newTBufferedTransport u rsz wsz) = 2 ^ 31 - wBase u"
  using assms
  by (auto simp: newTBufferedTransport_def buffered_initPointers_def setWriteBuffer_def
      setReadBuffer_def buffered_winv_def buffered_rinv_def buffered_outp_def buffered_inp_eq
      buffered_room_def)

text \<open>
  C11. Whatever the sizes of the chunks a client writes and of the buffers, after \<open>flush\<close> the
  wrapped transport has received exactly the concatenation of the chunks.
\<close>

theorem buffered_flush_delivers:
  assumes "memory_inv u" and "owner u" and "rsz < 2 ^ 32" and "wsz < 2 ^ 31"
    and "wBase u + length (concat bss) \<le> 2 ^ 31"
  shows "\<exists>s'. bindM (write_chunks (buffered_ops memory_ops) bss)
      (\<lambda>_. buffered_flush memory_ops) (newTBufferedTransport u rsz wsz) = (Inr (), s')
    \<and> unread (transport s') = unread u @ concat bss"
proof -
  note new = newTBufferedTransport_inv [OF assms(1-4)]
  let ?s = "newTBufferedTransport u rsz wsz"
  have "length (concat bss) \<le> buffered_room (\<lambda>s. 2 ^ 31 - wBase s) ?s"
    unfolding new(5) using assms(5) by simp
  from buffered_memory_out.buffered_sink.write_chunks_ok [OF new(1) this] obtain t where
    "write_chunks (buffered_ops memory_ops) bss ?s = (Inr (), t)"
    "buffered_winv (\<lambda>s. memory_inv s \<and> owner s) (\<lambda>s. 2 ^ 31 - wBase s) t"
    "buffered_outp unread t = unread u @ concat bss"
    unfolding new(3) by blast
  with buffered_memory_out.buffered_flush_ok [of t] show ?thesis by (auto simp: bindM_def)
qed

theorem buffered_flush_delivers_witness:
  "\<exists>s'. bindM (write_chunks (buffered_ops memory_ops) [[1, 2], [3, 4, 5, 6, 7], []])
      (\<lambda>_. buffered_flush memory_ops) (newTBufferedTransport (newTMemoryBuffer 16) 4 3) = (Inr (), s')
    \<and> unread (transport s') = [1, 2, 3, 4, 5, 6, 7]"
proof -
  have "memory_inv (newTMemoryBuffer 16)" by (rule memory_reachable_inv [OF memory_reachable.new]) simp
  from buffered_flush_delivers [OF this, of 4 3 "[[1, 2], [3, 4, 5, 6, 7], []]"] show ?thesis
    by (simp add: newTMemoryBuffer_def initCommon_def unread_def)
qed

text \<open>
  C30. Successive \<open>readAll\<close> calls through the read buffer return consecutive pieces of the
  wrapped transport's stream, of exactly the lengths asked for.
\<close>

theorem buffered_reads_in_order:
  assumes "memory_inv u" and "owner u" and "0 < rsz" and "rsz < 2 ^ 32" and "wsz < 2 ^ 31"
    and "sum_list ns \<le> length (unread u)"
  shows "\<exists>bss s'. read_chunks (buffered_ops memory_ops) ns (newTBufferedTransport u rsz wsz) = (Inr bss, s')
    \<and> map length bss = ns \<and> concat bss = take (sum_list ns) (unread u)"
proof -
  note new = newTBufferedTransport_inv [OF assms(1,2,4,5)]
  from buffered_memory.buffered_source.read_chunks_ok [OF new(2) [OF assms(3)], of ns] assms(6)
  obtain bss s' where *: "read_chunks (buffered_ops memory_ops) ns (newTBufferedTransport u rsz wsz) = (Inr bss, s')"
    "map length bss = ns" "unread u = concat bss @ buffered_inp unread s'"
    unfolding new(4) by blast
  moreover have "length (concat bss) = sum_list ns" using *(2) by (simp add: length_concat)
  ultimately show ?thesis by auto
qed

theorem buffered_reads_in_order_witness:
  "\<exists>bss s'. read_chunks (buffered_ops memory_ops) [1, 3]
      (newTBufferedTransport (initCommon (Some [9, 8, 7, 6, 5]) 5 True 5) 2 2) = (Inr bss, s')
    \<and> map length bss = [1, 3] \<and> concat bss = [9, 8, 7, 6]"
proof -
  have "memory_inv (initCommon (Some [9, 8, 7, 6, 5]) 5 True 5)" by (rule memory_inv_init) auto
  from buffered_reads_in_order [OF this, of 2 2 "[1, 3]"] show ?thesis
    by (simp add: initCommon_def unread_def mslice_def)
qed

text \<open>
  C38. If the wrapped transport's \<open>write\<close> throws during \<open>flush\<close>, the exception is passed on and
  the write buffer is empty afterwards, so the same bytes are never sent twice.
\<close>

theorem buffered_flush_resets_on_error:
  assumes "0 < wBase s" and "wBase s < 2 ^ 32"
    and "write_virt U (mslice (wBuf s) 0 (wBase s)) (transport s) = (Inl e, u)"
  shows "\<exists>s'. buffered_flush U s = (Inl e, s') \<and> wBase s' = 0 \<and> transport s' = u
    \<and> buffered_outp outp s' = outp u"
  using assms
  by (simp add: buffered_flush_def Let_def bindM_def modifyM_def onTransport_def liftM_def
      buffered_outp_def)

theorem buffered_flush_resets_on_error_witness:
  "\<exists>s'. buffered_flush (memory_ops\<lparr>write_virt := \<lambda>bs. throwM (TTransportException NOT_OPEN)\<rparr>)
      ((newTBufferedTransport (newTMemoryBuffer 4) 2 2)\<lparr>wBase := 1\<rparr>)
      = (Inl (TTransportException NOT_OPEN), s') \<and> wBase s' = 0"
  using buffered_flush_resets_on_error [of "(newTBufferedTransport (newTMemoryBuffer 4) 2 2)\<lparr>wBase := 1\<rparr>"
      "memory_ops\<lparr>write_virt := \<lambda>bs. throwM (TTransportException NOT_OPEN)\<rparr>"
      "TTransportException NOT_OPEN" "newTMemoryBuffer 4" unread]
  by (simp add: throwM_def newTBufferedTransport_def buffered_initPointers_def setWriteBuffer_def
      setReadBuffer_def) blast

end
