(* ===== verification/FramedTransport.thy ===== *)
theory FramedTransport
  imports BufferedTransport
begin

text \<open>
  \<^verbatim>\<open>TFramedTransport\<close> (\<^verbatim>\<open>TBufferTransports.h/.cpp\<close>): every flush sends one frame, a 4-byte
  big-endian length followed by the payload, and reads serve the payloads of the frames that
  arrive. The wire format is stated on byte lists (\<open>frame_of\<close>, \<open>deframe\<close>); over a reliable
  transport the framed transport is a byte source and a byte sink for the payload bytes.
\<close>

section \<open>Operations\<close>

text \<open>The doubling loop of \<open>writeSlow\<close>; \<open>None\<close> if it does not end.\<close>

definition frame_grow :: "nat \<Rightarrow> nat \<Rightarrow> nat option" where
  "frame_grow new_size need =
     while_option (\<lambda>n. n < need) (\<lambda>n. if n > 0 then u32 (n * 2) else 1) new_size"

definition framed_writeSlow :: "byte list \<Rightarrow> ('u TBufferedTransport, unit) M" where
  "framed_writeSlow buf s =
     (let hv = u32 (wBase s); len = length buf in
      if u32 (len + hv) < hv \<or> u32 (len + hv) > 0x7fffffff
      then (Inl (TTransportException BAD_ARGS), s)
      else case frame_grow (wBufSize s) (u32 (len + hv)) of
          None \<Rightarrow> (Inl NonTermination, s)
        | Some new_size \<Rightarrow>
            let new_buf = memcpy (replicate new_size 0) 0 (mslice (wBuf s) 0 hv) in
            (Inr (), s\<lparr>wBuf := memcpy new_buf hv buf, wBufSize := new_size,
                       wBase := hv + len, wBound := new_size\<rparr>))"

definition framed_write :: "byte list \<Rightarrow> ('u TBufferedTransport, unit) M" where
  "framed_write = buffer_write wBuf_update framed_writeSlow"

text \<open>The constructor pads the write buffer with room for the frame size.\<close>

definition framed_initPointers :: "('u TBufferedTransport, unit) M" where
  "framed_initPointers =
     bindM (modifyM (setReadBuffer 0 0)) (\<lambda>_.
     bindM (modifyM (\<lambda>s. setWriteBuffer 0 (wBufSize s) s)) (\<lambda>_.
     framed_write (mem32 0)))"

definition newTFramedTransport :: "'u \<Rightarrow> nat \<Rightarrow> (exn + unit) \<times> 'u TBufferedTransport" where
  "newTFramedTransport u sz = framed_initPointers
     \<lparr>rBase = 0, rBound = 0, wBase = 0, wBound = 0, transport = u, rBufSize = 0,
      wBufSize = sz, rBuf = [], wBuf = replicate sz 0\<rparr>"

definition framed_flush :: "'u TTransport \<Rightarrow> ('u TBufferedTransport, unit) M" where
  "framed_flush U =
     bindM (assertM (\<lambda>s. wBufSize s > 4)) (\<lambda>_ s.
     let sz_hbo = word_of_nat (wBase s - 4) :: int32_t; sz_nbo = htonl sz_hbo in
     bindM (modifyM (\<lambda>s. s\<lparr>wBuf := memcpy (wBuf s) 0 (mem32 sz_nbo)\<rparr>)) (\<lambda>_.
     bindM (if 0 <s sz_hbo then
         bindM (modifyM (\<lambda>s. s\<lparr>wBase := 4\<rparr>)) (\<lambda>_ s.
         onTransport (write_virt U (mslice (wBuf s) 0 (4 + unat sz_hbo))) s)
       else returnM ()) (\<lambda>_.
     onTransport (flush_virt U))) s)"

text \<open>
  The loop that reads the frame size byte by byte as the transport delivers it; \<open>None\<close> is the
  end of the stream before the first byte.
\<close>

function frameSize_loop :: "(nat \<Rightarrow> ('u, byte list) M) \<Rightarrow> byte list \<Rightarrow> ('u, byte list option) M" where
  "frameSize_loop read acc u =
     (if length acc < 4 then
        (case read (4 - length acc) u of
           (Inl e, u') \<Rightarrow> (Inl e, u')
         | (Inr got, u') \<Rightarrow>
             if got = [] then
               if acc = [] then (Inr None, u') else (Inl (TTransportException END_OF_FILE), u')
             else frameSize_loop read (acc @ got) u')
      else (Inr (Some acc), u))"
  by pat_completeness auto
termination
  by (relation "measure (\<lambda>(read, acc, u). 4 - length acc)")
    (auto simp flip: length_greater_0_conv)

declare frameSize_loop.simps [simp del]

definition readFrame :: "'u TTransport \<Rightarrow> ('u TBufferedTransport, bool) M" where
  "readFrame U =
     bindM (onTransport (frameSize_loop (read_virt U) [])) (\<lambda>r.
     case r of
       None \<Rightarrow> returnM False
     | Some szb \<Rightarrow>
         (let sz = htonl (load32 szb) in
          if sz <s 0 then throwM (TTransportException TT_UNKNOWN)
          else
            bindM (modifyM (\<lambda>s. if word_of_nat (rBufSize s) <s sz
                then s\<lparr>rBuf := replicate (unat sz) 0, rBufSize := unat sz\<rparr> else s)) (\<lambda>_.
            bindM (onTransport (readAll_virt U (unat sz))) (\<lambda>payload.
            bindM (modifyM (\<lambda>s. setReadBuffer 0 (unat sz)
                (s\<lparr>rBuf := memcpy (rBuf s) 0 payload\<rparr>))) (\<lambda>_.
            returnM True)))))"

definition framed_readSlow :: "'u TTransport \<Rightarrow> nat \<Rightarrow> ('u TBufferedTransport, byte list) M" where
  "framed_readSlow U len s =
     (let hv = u32 (rBound s - rBase s) in
      if \<not> hv < len then (Inl AssertionFailure, s)
      else if hv > 0 then (Inr (mslice (rBuf s) (rBase s) hv), setReadBuffer 0 0 s)
      else bindM (readFrame U) (\<lambda>ok s.
        if \<not> ok then (Inr [], s)
        else
          (let give = min len (u32 (rBound s - rBase s)) in
           (Inr (mslice (rBuf s) (rBase s) give), s\<lparr>rBase := rBase s + give\<rparr>))) s)"

definition framed_readEnd :: "('u TBufferedTransport, uint32_t) M" where
  "framed_readEnd = getM (\<lambda>s. word_of_nat (rBound s + 4))"

definition framed_writeEnd :: "('u TBufferedTransport, uint32_t) M" where
  "framed_writeEnd = getM (\<lambda>s. word_of_nat (wBase s))"

definition framed_borrowSlow :: "nat \<Rightarrow> ('u TBufferedTransport, byte list option) M" where
  "framed_borrowSlow len = returnM None"

definition framed_peek :: "'u TTransport \<Rightarrow> ('u TBufferedTransport, bool) M" where
  "framed_peek U s = (if rBase s < rBound s then (Inr True, s) else onTransport (peek_virt U) s)"

definition framed_close :: "'u TTransport \<Rightarrow> ('u TBufferedTransport, unit) M" where
  "framed_close U = bindM (framed_flush U) (\<lambda>_. onTransport (close_virt U))"

definition framed_ops :: "'u TTransport \<Rightarrow> 'u TBufferedTransport TTransport" where
  "framed_ops U = \<lparr>isOpen_virt = (\<lambda>s. isOpen_virt U (transport s)),
     peek_virt = framed_peek U, open_virt = onTransport (open_virt U),
     close_virt = framed_close U,
     read_virt = buffer_read rBuf (framed_readSlow U),
     readAll_virt = buffer_readAll rBuf (framed_readSlow U),
     readEnd_virt = framed_readEnd, write_virt = framed_write,
     writeEnd_virt = framed_writeEnd, flush_virt = framed_flush U,
     borrow_virt = buffer_borrow rBuf framed_borrowSlow, consume_virt = buffer_consume\<rparr>"

section \<open>The wire format\<close>

definition frame_of :: "byte list \<Rightarrow> byte list" where
  "frame_of p = be32 (word_of_nat (length p)) @ p"

definition frame_size :: "byte list \<Rightarrow> nat" where
  "frame_size bs = unat (htonl (load32 (take 4 bs)))"

text \<open>A sequence of complete, non-empty frames below 2 GiB, and the payload it carries.\<close>

function well_framed :: "byte list \<Rightarrow> bool" where
  "well_framed bs \<longleftrightarrow>
     (if bs = [] then True
      else 4 \<le> length bs \<and> 0 < frame_size bs \<and> frame_size bs < 2 ^ 31
        \<and> 4 + frame_size bs \<le> length bs \<and> well_framed (drop (4 + frame_size bs) bs))"
  by pat_completeness auto
termination
  by (relation "measure length") auto

function deframe :: "byte list \<Rightarrow> byte list" where
  "deframe bs =
     (if bs = [] then []
      else take (frame_size bs) (drop 4 bs) @ deframe (drop (4 + frame_size bs) bs))"
  by pat_completeness auto
termination
  by (relation "measure length") auto

declare well_framed.simps [simp del] deframe.simps [simp del]

lemma well_framed_Nil [simp]: "well_framed []" and deframe_Nil [simp]: "deframe [] = []"
  by (simp_all add: well_framed.simps deframe.simps)

lemma frame_size_append [simp]: "4 \<le> length bs \<Longrightarrow> frame_size (bs @ cs) = frame_size bs"
  by (simp add: frame_size_def)

lemma frame_size_frame_of [simp]: "length p < 2 ^ 32 \<Longrightarrow> frame_size (frame_of p @ bs) = length p"
  by (simp add: frame_size_def frame_of_def unat_of_nat)

lemma length_frame_of [simp]: "length (frame_of p) = 4 + length p"
  by (simp add: frame_of_def)

lemma well_framed_append:
  assumes "well_framed a" and "well_framed b"
  shows "well_framed (a @ b) \<and> deframe (a @ b) = deframe a @ deframe b"
  using assms
proof (induction a rule: well_framed.induct)
  case (1 a)
  show ?case
  proof (cases "a = []")
    case False
    with "1.prems"(1) have f: "4 \<le> length a" "0 < frame_size a" "frame_size a < 2 ^ 31"
      "4 + frame_size a \<le> length a" "well_framed (drop (4 + frame_size a) a)"
      by (simp_all add: well_framed.simps [of a])
    from "1.IH" [OF False f(5) "1.prems"(2)] False f show ?thesis
      by (simp add: well_framed.simps [of "a @ b"] deframe.simps [of "a @ b"] deframe.simps [of a])
  qed (use "1.prems" in simp)
qed

lemma well_framed_frame_of:
  assumes "p \<noteq> []" and "length p < 2 ^ 31"
  shows "well_framed (frame_of p) \<and> deframe (frame_of p) = p"
proof -
  have "frame_size (frame_of p) = length p" using frame_size_frame_of [of p "[]"] assms by simp
  then show ?thesis using assms
    by (simp add: well_framed.simps [of "frame_of p"] deframe.simps [of "frame_of p"])
      (auto simp: frame_of_def)
qed

section \<open>Reading frames\<close>

definition framed_rinv ::
  "('u \<Rightarrow> bool) \<Rightarrow> ('u \<Rightarrow> byte list) \<Rightarrow> 'u TBufferedTransport \<Rightarrow> bool" where
  "framed_rinv uinv uinp s \<longleftrightarrow> uinv (transport s) \<and> well_framed (uinp (transport s))
     \<and> rBase s \<le> rBound s \<and> rBound s \<le> length (rBuf s) \<and> length (rBuf s) = rBufSize s
     \<and> rBufSize s < 2 ^ 31"

definition framed_inp :: "('u \<Rightarrow> byte list) \<Rightarrow> 'u TBufferedTransport \<Rightarrow> byte list" where
  "framed_inp uinp = buffer_inp rBuf (\<lambda>s. deframe (uinp (transport s)))"

lemma framed_inp_eq:
  "framed_inp uinp s =
     mslice (rBuf s) (rBase s) (rBound s - rBase s) @ deframe (uinp (transport s))"
  by (simp add: framed_inp_def buffer_inp_def)

lemma framed_rinv_u32 [simp]:
  "framed_rinv uinv uinp s \<Longrightarrow> u32 (rBound s - rBase s) = rBound s - rBase s"
  by (auto simp: framed_rinv_def)

text \<open>Signed comparison of sizes below 2 GiB is comparison of numbers.\<close>

lemma sless_word_of_nat:
  assumes "m < 2 ^ 31" and "n < 2 ^ 31"
  shows "(word_of_nat m :: 32 word) <s word_of_nat n \<longleftrightarrow> m < n"
  using assms by (simp add: word_sless_alt sint_word_of_nat)

lemma word32_of_unat: "w = (word_of_nat (unat w) :: 32 word)"
  by simp

locale framed_over_source = reader "read_virt U" uinv uinp + byte_source U uinv uinp
  for U :: "'u TTransport" and uinv uinp
begin

lemma frameSize_loop_ok:
  assumes "uinv u" and "length acc \<le> 4" and "4 \<le> length acc + length (uinp u)"
  shows "\<exists>u'. frameSize_loop (read_virt U) acc u = (Inr (Some (acc @ take (4 - length acc) (uinp u))), u')
    \<and> uinv u' \<and> uinp u' = drop (4 - length acc) (uinp u)"
  using assms
proof (induction "4 - length acc" arbitrary: acc u rule: less_induct)
  case less
  show ?case
  proof (cases "length acc < 4")
    case False
    with less.prems show ?thesis by (simp add: frameSize_loop.simps)
  next
    case True
    obtain bs u' where r: "read_virt U (4 - length acc) u = (Inr bs, u')" "uinv u'"
      "uinp u = bs @ uinp u'" "length bs \<le> 4 - length acc"
      "bs = [] \<longrightarrow> 4 - length acc = 0 \<or> uinp u = []"
      using read_ok [OF less.prems(1), of "4 - length acc"] by blast
    have ne: "bs \<noteq> []" using r(5) True less.prems(3) by auto
    have "\<exists>u''. frameSize_loop (read_virt U) (acc @ bs) u'
        = (Inr (Some ((acc @ bs) @ take (4 - length (acc @ bs)) (uinp u'))), u'')
        \<and> uinv u'' \<and> uinp u'' = drop (4 - length (acc @ bs)) (uinp u')"
    proof (rule less.hyps)
      show "4 - length (acc @ bs) < 4 - length acc" using True ne by (cases bs) auto
    qed (use r less.prems True in auto)
    with True r ne show ?thesis by (simp add: frameSize_loop.simps [of _ acc])
  qed
qed

lemma frameSize_loop_end:
  assumes "uinv u" and "uinp u = []"
  shows "\<exists>u'. frameSize_loop (read_virt U) [] u = (Inr None, u') \<and> uinv u' \<and> uinp u' = []"
  using read_ok [OF assms(1), of 4] assms(2) by (auto simp: frameSize_loop.simps [of _ "[]"])

lemma readFrame_end:
  assumes inv: "framed_rinv uinv uinp s" and "uinp (transport s) = []"
  shows "\<exists>s'. readFrame U s = (Inr False, s') \<and> framed_rinv uinv uinp s'
    \<and> framed_inp uinp s' = framed_inp uinp s"
proof -
  obtain u where u: "frameSize_loop (read_virt U) [] (transport s) = (Inr None, u)" "uinv u" "uinp u = []"
    using frameSize_loop_end assms by (auto simp: framed_rinv_def)
  then have "readFrame U s = (Inr False, s\<lparr>transport := u\<rparr>)"
    by (simp add: readFrame_def bindM_def onTransport_def liftM_def returnM_def)
  with u assms show ?thesis by (auto simp: framed_rinv_def framed_inp_eq)
qed

lemma readFrame_ok:
  assumes inv: "framed_rinv uinv uinp s" and ne: "uinp (transport s) \<noteq> []"
    and empty: "rBase s = rBound s"
  shows "\<exists>s'. readFrame U s = (Inr True, s') \<and> framed_rinv uinv uinp s' \<and> rBase s' = 0
    \<and> 0 < rBound s' \<and> framed_inp uinp s' = framed_inp uinp s"
proof -
  let ?in = "uinp (transport s)"
  define n where "n = frame_size ?in"
  have f: "4 \<le> length ?in" "0 < n" "n < 2 ^ 31" "4 + n \<le> length ?in" "well_framed (drop (4 + n) ?in)"
    using inv ne by (simp_all add: framed_rinv_def well_framed.simps [of ?in] n_def)
  define sz where "sz = htonl (load32 (take 4 ?in))"
  have sz: "unat sz = n" "sz = word_of_nat n" by (simp_all add: sz_def n_def frame_size_def)
  obtain u1 where u1: "frameSize_loop (read_virt U) [] (transport s) = (Inr (Some (take 4 ?in)), u1)"
    "uinv u1" "uinp u1 = drop 4 ?in"
    using frameSize_loop_ok [of "transport s" "[]"] inv f(1) by (auto simp: framed_rinv_def)
  obtain u2 where u2: "readAll_virt U n u1 = (Inr (take n (drop 4 ?in)), u2)" "uinv u2"
    "uinp u2 = drop (4 + n) ?in"
  proof -
    have "n \<le> length (uinp u1)" using u1(3) f(4) by simp
    from source_readAll [OF u1(2) this] that show thesis by (auto simp: u1(3) add.commute)
  qed
  have nn: "\<not> sz <s 0"
    using sless_word_of_nat [of n 0] f(3) by (simp add: sz(2))
  have cmp: "word_of_nat (rBufSize s) <s sz \<longleftrightarrow> rBufSize s < n"
    using inv f(3) by (simp add: sz(2) sless_word_of_nat framed_rinv_def)
  define mem where "mem = (if rBufSize s < n then replicate n 0 else rBuf s)"
  define s' where "s' = s\<lparr>transport := u2, rBufSize := max (rBufSize s) n,
    rBuf := memcpy mem 0 (take n (drop 4 ?in)), rBase := 0, rBound := n\<rparr>"
  have "readFrame U s = (Inr True, s')"
    using u1(1) u2(1) nn cmp sz(1)
    by (simp add: readFrame_def bindM_def onTransport_def liftM_def returnM_def modifyM_def
        sz_def [symmetric] setReadBuffer_def s'_def mem_def max_def)
  moreover have mem: "length mem = max (rBufSize s) n"
    using inv by (auto simp: mem_def framed_rinv_def)
  have pl: "length (take n (drop 4 ?in)) = n" using f by simp
  have "framed_rinv uinv uinp s'"
    using inv u2 f mem pl by (auto simp: framed_rinv_def s'_def)
  moreover have "mslice (memcpy mem 0 (take n (drop 4 ?in))) 0 n = take n (drop 4 ?in)"
    using mslice_memcpy_same [of 0 mem "take n (drop 4 ?in)"] pl by simp
  then have "framed_inp uinp s' = framed_inp uinp s"
    using u2(3) ne empty by (simp add: framed_inp_eq s'_def deframe.simps [of ?in] n_def)
  ultimately show ?thesis using f(2) by (auto simp: s'_def)
qed

lemma framed_readSlow_ok:
  assumes inv: "framed_rinv uinv uinp s" and n: "rBound s - rBase s < n"
  shows "\<exists>bs s'. framed_readSlow U n s = (Inr bs, s') \<and> framed_rinv uinv uinp s'
    \<and> framed_inp uinp s = bs @ framed_inp uinp s' \<and> length bs \<le> n
    \<and> (bs = [] \<longrightarrow> framed_inp uinp s = [])"
proof (cases "rBound s - rBase s > 0")
  case True
  with inv n show ?thesis
    by (auto simp: framed_readSlow_def Let_def setReadBuffer_def framed_rinv_def framed_inp_eq)
next
  case False
  then have empty: "rBase s = rBound s" using inv by (simp add: framed_rinv_def)
  show ?thesis
  proof (cases "uinp (transport s) = []")
    case True
    with readFrame_end [OF inv True] empty n show ?thesis
      by (auto simp: framed_readSlow_def Let_def bindM_def framed_inp_eq)
  next
    case ne: False
    from readFrame_ok [OF inv ne empty]
    obtain t where t: "readFrame U s = (Inr True, t)" "framed_rinv uinv uinp t" "rBase t = 0"
      "0 < rBound t" "framed_inp uinp t = framed_inp uinp s"
      by (elim exE conjE) (rule that)
    define give where "give = min n (rBound t - rBase t)"
    have "u32 (rBound t) = rBound t" using t(3) framed_rinv_u32 [OF t(2)] by simp
    then have "framed_readSlow U n s
        = (Inr (mslice (rBuf t) (rBase t) give), t\<lparr>rBase := rBase t + give\<rparr>)"
      using empty n t by (simp add: framed_readSlow_def Let_def bindM_def give_def)
    moreover have "mslice (rBuf t) (rBase t) (rBound t - rBase t)
        = mslice (rBuf t) (rBase t) give @ mslice (rBuf t) (rBase t + give) (rBound t - rBase t - give)"
      by (rule mslice_split) (simp add: give_def)
    moreover have "framed_rinv uinv uinp (t\<lparr>rBase := rBase t + give\<rparr>)" "0 < give" "give \<le> n"
      "length (mslice (rBuf t) (rBase t) give) = give"
      using t(2-4) n by (auto simp: framed_rinv_def give_def)
    ultimately show ?thesis using t(5) by (auto simp: framed_inp_eq)
  qed
qed

end

sublocale framed_over_source \<subseteq> framed_source: buffer_source "framed_ops U" rBuf
  "framed_readSlow U" framed_borrowSlow "framed_rinv uinv uinp" "\<lambda>s. deframe (uinp (transport s))"
  rewrites "buffer_inp rBuf (\<lambda>s. deframe (uinp (transport s))) = framed_inp uinp"
proof -
  show "buffer_source (framed_ops U) rBuf (framed_readSlow U) framed_borrowSlow
      (framed_rinv uinv uinp) (\<lambda>s. deframe (uinp (transport s)))"
  proof (unfold_locales, goal_cases)
    case (7 s n)
    then show ?case using framed_readSlow_ok [of s n] by (simp add: framed_inp_def)
  qed (auto simp: framed_ops_def framed_rinv_def framed_borrowSlow_def returnM_def)
qed (simp add: framed_inp_def)

section \<open>Writing frames\<close>

text \<open>
  The pending payload lies behind the four bytes kept for the frame size. What has been written
  is the payload of the frames sent so far followed by the pending one.
\<close>

definition framed_pending :: "'u TBufferedTransport \<Rightarrow> byte list" where
  "framed_pending s = mslice (wBuf s) 4 (wBase s - 4)"

definition framed_winv ::
  "('u \<Rightarrow> bool) \<Rightarrow> ('u \<Rightarrow> byte list) \<Rightarrow> ('u \<Rightarrow> nat) \<Rightarrow> 'u TBufferedTransport \<Rightarrow> bool" where
  "framed_winv uinv uoutp uroom s \<longleftrightarrow> uinv (transport s) \<and> well_framed (uoutp (transport s))
     \<and> 4 \<le> wBase s \<and> wBase s \<le> wBound s \<and> wBound s = wBufSize s
     \<and> length (wBuf s) = wBufSize s \<and> 4 < wBufSize s \<and> wBufSize s < 2 ^ 32 \<and> wBase s < 2 ^ 31
     \<and> (4 < wBase s \<longrightarrow> wBase s \<le> uroom (transport s))"

definition framed_outp :: "('u \<Rightarrow> byte list) \<Rightarrow> 'u TBufferedTransport \<Rightarrow> byte list" where
  "framed_outp uoutp s = deframe (uoutp (transport s)) @ framed_pending s"

definition framed_room :: "('u \<Rightarrow> nat) \<Rightarrow> 'u TBufferedTransport \<Rightarrow> nat" where
  "framed_room uroom s = min (2 ^ 31 - 1) (uroom (transport s)) - wBase s"

lemma frame_grow_enough:
  assumes "need < 2 ^ 31" and "new_size < 2 ^ 32"
  shows "\<exists>n. frame_grow new_size need = Some n \<and> need \<le> n \<and> new_size \<le> n \<and> n < 2 ^ 32"
proof -
  let ?b = "\<lambda>n :: nat. n < need"
  let ?c = "\<lambda>n :: nat. if n > 0 then u32 (n * 2) else 1"
  let ?P = "\<lambda>n. new_size \<le> n \<and> n < 2 ^ 32"
  have step: "?P (?c n) \<and> need - ?c n < need - n" if "?P n" "?b n" for n
  proof (cases "n > 0")
    case True
    then have "u32 (n * 2) = n * 2" using that assms by auto
    with True that assms show ?thesis by auto
  qed (use that assms in auto)
  obtain y where y: "while_option ?b ?c new_size = Some y"
    using measure_while_option_Some [of ?P ?b ?c "\<lambda>n. need - n", OF step] assms by blast
  have "?P y" by (rule while_option_rule [where P = ?P, OF _ y]) (use step assms in blast)+
  moreover have "\<not> ?b y" by (rule while_option_stop [OF y])
  ultimately show ?thesis using y by (auto simp: frame_grow_def)
qed

lemma framed_write_general:
  assumes "wBase s \<le> wBound s" "wBound s = wBufSize s" "length (wBuf s) = wBufSize s"
    "wBufSize s < 2 ^ 32" "wBase s + length bs < 2 ^ 31"
  shows "\<exists>buf n. framed_write bs s = (Inr (), s\<lparr>wBuf := buf, wBufSize := n, wBase := wBase s + length bs,
      wBound := n\<rparr>) \<and> length buf = n \<and> wBase s + length bs \<le> n \<and> wBufSize s \<le> n \<and> n < 2 ^ 32
    \<and> take (wBase s) buf = take (wBase s) (wBuf s) \<and> mslice buf (wBase s) (length bs) = bs"
proof (cases "wBase s + length bs \<le> wBound s")
  case True
  have "framed_write bs s = (Inr (), s\<lparr>wBuf := memcpy (wBuf s) (wBase s) bs, wBufSize := wBufSize s,
      wBase := wBase s + length bs, wBound := wBufSize s\<rparr>)"
    using True assms(2)
    by (simp add: framed_write_def buffer_write_def Let_def
        wBuf_update_eq [of "\<lambda>m. memcpy m (wBase s) bs"])
  with True assms show ?thesis
    by (intro exI [of _ "memcpy (wBuf s) (wBase s) bs"] exI [of _ "wBufSize s"])
      (auto simp: mslice_memcpy_same)
next
  case False
  have u: "u32 (wBase s) = wBase s" "u32 (length bs + wBase s) = wBase s + length bs"
    using assms by auto
  obtain n where n: "frame_grow (wBufSize s) (wBase s + length bs) = Some n"
    "wBase s + length bs \<le> n" "wBufSize s \<le> n" "n < 2 ^ 32"
    using frame_grow_enough assms(4,5) by blast
  define nb where "nb = memcpy (replicate n 0) 0 (mslice (wBuf s) 0 (wBase s))"
  have l: "length (mslice (wBuf s) 0 (wBase s)) = wBase s" using assms by simp
  then have "length nb = n" "take (wBase s) nb = take (wBase s) (wBuf s)"
    using n assms by (auto simp: nb_def memcpy_def mslice_def)
  moreover have "framed_write bs s = (Inr (), s\<lparr>wBuf := memcpy nb (wBase s) bs, wBufSize := n,
      wBase := wBase s + length bs, wBound := n\<rparr>)"
    using False u n(1) assms(5)
    by (simp add: framed_write_def buffer_write_def framed_writeSlow_def Let_def nb_def
        add.commute [of "length bs" "wBase s"])
  ultimately show ?thesis using n
    by (intro exI [of _ "memcpy nb (wBase s) bs"] exI [of _ n])
      (auto simp: mslice_memcpy_same)
qed

locale framed_over_sink = byte_sink U uinv uoutp uroom
  for U :: "'u TTransport" and uinv uoutp uroom
begin

lemma framed_write_ok:
  assumes inv: "framed_winv uinv uoutp uroom s" and len: "length bs \<le> framed_room uroom s"
  shows "\<exists>s'. framed_write bs s = (Inr (), s') \<and> framed_winv uinv uoutp uroom s'
    \<and> framed_outp uoutp s' = framed_outp uoutp s @ bs
    \<and> framed_room uroom s = framed_room uroom s' + length bs"
proof -
  have "wBase s + length bs < 2 ^ 31" "bs \<noteq> [] \<longrightarrow> wBase s + length bs \<le> uroom (transport s)"
    using inv len
    by (auto simp: framed_winv_def framed_room_def min_def simp flip: length_greater_0_conv split: if_splits)
  with framed_write_general [of s bs] inv obtain buf n where
    w: "framed_write bs s = (Inr (), s\<lparr>wBuf := buf, wBufSize := n, wBase := wBase s + length bs, wBound := n\<rparr>)"
    "length buf = n" "wBase s + length bs \<le> n" "wBufSize s \<le> n" "n < 2 ^ 32"
    "take (wBase s) buf = take (wBase s) (wBuf s)" "mslice buf (wBase s) (length bs) = bs"
    by (auto simp: framed_winv_def)
  have "mslice buf 4 (wBase s + length bs - 4) = mslice buf 4 (wBase s - 4) @ bs"
    using mslice_append [of buf 4 "wBase s - 4" "length bs"] inv w(7) by (simp add: framed_winv_def)
  moreover have "mslice buf 4 (wBase s - 4) = drop 4 (take (wBase s) buf)"
    by (simp add: mslice_def drop_take)
  then have "mslice buf 4 (wBase s - 4) = framed_pending s"
    by (simp add: w(6) framed_pending_def mslice_def drop_take)
  ultimately show ?thesis
    using w(1-5) inv len \<open>wBase s + length bs < 2 ^ 31\<close> \<open>bs \<noteq> [] \<longrightarrow> _\<close>
    by (auto simp: framed_winv_def framed_outp_def framed_room_def framed_pending_def)
qed

lemma framed_flush_ok:
  assumes inv: "framed_winv uinv uoutp uroom s"
  shows "\<exists>s'. framed_flush U s = (Inr (), s') \<and> framed_winv uinv uoutp uroom s'
    \<and> framed_outp uoutp s' = framed_outp uoutp s \<and> framed_pending s' = []
    \<and> uoutp (transport s') = uoutp (transport s)
        @ (if framed_pending s = [] then [] else frame_of (framed_pending s))
    \<and> (\<exists>u1. uinv u1 \<and> flush_virt U u1 = (Inr (), transport s') \<and> uroom (transport s)
        = uroom u1 + (if framed_pending s = [] then 0 else 4 + length (framed_pending s)))"
proof -
  define n where "n = wBase s - 4"
  define h where "h = memcpy (wBuf s) 0 (be32 (word_of_nat n))"
  have n: "n < 2 ^ 31" "length (framed_pending s) = n" "wBase s = 4 + n"
    using inv by (auto simp: framed_winv_def n_def framed_pending_def)
  have sz: "0 <s (word_of_nat n :: 32 word) \<longleftrightarrow> 0 < n" "unat (word_of_nat n :: 32 word) = n"
    using sless_word_of_nat [of 0 n] n by (simp_all add: unat_of_nat)
  have lh: "length h = wBufSize s" using inv by (simp add: h_def framed_winv_def)
  have "mslice h 0 (4 + n) = mslice h 0 4 @ mslice h 4 n" using mslice_append [of h 0 4 n] by simp
  moreover have "mslice h 0 4 = be32 (word_of_nat n)"
    using mslice_memcpy_same [of 0 "wBuf s" "be32 (word_of_nat n)"] by (simp add: h_def)
  moreover have "mslice h 4 n = framed_pending s"
    using inv by (simp add: h_def memcpy_def mslice_def framed_pending_def n_def framed_winv_def)
  ultimately have frame: "mslice h 0 (4 + n) = frame_of (framed_pending s)"
    by (simp add: frame_of_def n(2))
  obtain u1 where u1: "(if 0 < n then bindM (modifyM (\<lambda>s. s\<lparr>wBase := 4\<rparr>)) (\<lambda>_ s.
        onTransport (write_virt U (mslice (wBuf s) 0 (4 + n))) s) else returnM ()) (s\<lparr>wBuf := h\<rparr>)
      = (Inr (), s\<lparr>wBuf := h, wBase := 4, transport := u1\<rparr>)" "uinv u1"
    "uoutp u1 = uoutp (transport s) @ (if n = 0 then [] else frame_of (framed_pending s))"
    "n = 0 \<longrightarrow> u1 = transport s" "uroom (transport s) = uroom u1 + (if n = 0 then 0 else 4 + n)"
  proof (cases "0 < n")
    case True
    have "uinv (transport s)" "length (frame_of (framed_pending s)) \<le> uroom (transport s)"
      using inv True n by (auto simp: framed_winv_def)
    from sink_write [OF this] True that n(2) show thesis
      by (auto simp: bindM_def modifyM_def onTransport_def liftM_def frame)
  next
    case False
    with that [of "transport s"] inv n(3) show thesis by (simp add: returnM_def framed_winv_def)
  qed
  obtain u2 where u2: "flush_virt U u1 = (Inr (), u2)" "uinv u2" "uoutp u2 = uoutp u1"
    using sink_flush [OF u1(2)] by blast
  have "framed_flush U s = (Inr (), s\<lparr>wBuf := h, wBase := 4, transport := u2\<rparr>)"
    using u1(1,4) u2(1) inv sz n(3)
    by (cases "0 < n"; cases s) (auto simp: framed_flush_def monad_simps Let_def framed_winv_def
        onTransport_def h_def split: prod.splits)
  moreover have "(framed_pending s = []) = (n = 0)" using n(2) by auto
  moreover have "well_framed (uoutp u2)" "deframe (uoutp u2) = deframe (uoutp (transport s)) @ framed_pending s"
    using inv u2(3) u1(3) n well_framed_frame_of [of "framed_pending s"]
      well_framed_append [of "uoutp (transport s)" "frame_of (framed_pending s)"]
    by (auto simp: framed_winv_def)
  ultimately show ?thesis using inv u1(2,3,5) u2 lh n(2)
    by (auto simp: framed_winv_def framed_outp_def framed_pending_def)
qed

end

sublocale framed_over_sink \<subseteq> framed_sink:
  byte_sink "framed_ops U" "framed_winv uinv uoutp uroom" "framed_outp uoutp" "framed_room uroom"
proof
  fix s assume "framed_winv uinv uoutp uroom s"
  then show "framed_room uroom s < 2 ^ 32" by (simp add: framed_room_def)
next
  fix s assume "framed_winv uinv uoutp uroom s"
  from framed_flush_ok [OF this] show "\<exists>s'. flush_virt (framed_ops U) s = (Inr (), s')
      \<and> framed_winv uinv uoutp uroom s' \<and> framed_outp uoutp s' = framed_outp uoutp s"
    by (auto simp: framed_ops_def)
qed (use framed_write_ok in \<open>auto simp: framed_ops_def\<close>)

section \<open>Framing over a memory buffer\<close>

interpretation framed_memory: framed_over_source memory_ops memory_inv unread
  by unfold_locales

interpretation framed_memory_out: framed_over_sink memory_ops
  "\<lambda>s. memory_inv s \<and> owner s" unread "\<lambda>s. 2 ^ 31 - wBase s"
  by unfold_locales

section \<open>Malformed frames\<close>

context framed_over_source
begin

lemma frameSize_loop_partial:
  assumes "uinv u" and "length acc + length (uinp u) < 4" and "acc @ uinp u \<noteq> []"
  shows "\<exists>u'. frameSize_loop (read_virt U) acc u = (Inl (TTransportException END_OF_FILE), u')"
  using assms
proof (induction "4 - length acc" arbitrary: acc u rule: less_induct)
  case less
  then have True: "length acc < 4" by simp
  obtain bs u' where r: "read_virt U (4 - length acc) u = (Inr bs, u')" "uinv u'"
    "uinp u = bs @ uinp u'" "bs = [] \<longrightarrow> 4 - length acc = 0 \<or> uinp u = []"
    using read_ok [OF less.prems(1), of "4 - length acc"] by blast
  show ?case
  proof (cases "bs = []")
    case True
    with r \<open>length acc < 4\<close> less.prems show ?thesis by (auto simp: frameSize_loop.simps [of _ acc])
  next
    case False
    have "\<exists>u''. frameSize_loop (read_virt U) (acc @ bs) u' = (Inl (TTransportException END_OF_FILE), u'')"
    proof (rule less.hyps)
      show "4 - length (acc @ bs) < 4 - length acc" using True False by (cases bs) auto
    qed (use r less.prems False in auto)
    with True False r show ?thesis by (auto simp: frameSize_loop.simps [of _ acc])
  qed
qed

text \<open>A truncated header, a negative size, a truncated payload.\<close>

lemma readFrame_malformed:
  assumes inv: "uinv (transport s)" and ne: "uinp (transport s) \<noteq> []"
  shows "length (uinp (transport s)) < 4 \<Longrightarrow>
      \<exists>s'. readFrame U s = (Inl (TTransportException END_OF_FILE), s')"
    and "4 \<le> length (uinp (transport s)) \<Longrightarrow> htonl (load32 (take 4 (uinp (transport s)))) <s 0 \<Longrightarrow>
      \<exists>s'. readFrame U s = (Inl (TTransportException TT_UNKNOWN), s')"
    and "4 \<le> length (uinp (transport s)) \<Longrightarrow> \<not> htonl (load32 (take 4 (uinp (transport s)))) <s 0 \<Longrightarrow>
      length (uinp (transport s)) < 4 + frame_size (uinp (transport s)) \<Longrightarrow>
      \<exists>s'. readFrame U s = (Inl (TTransportException END_OF_FILE), s')"
proof -
  let ?in = "uinp (transport s)"
  show "\<exists>s'. readFrame U s = (Inl (TTransportException END_OF_FILE), s')" if "length ?in < 4"
    using frameSize_loop_partial [of "transport s" "[]"] that inv ne
    by (auto simp: readFrame_def bindM_def onTransport_def liftM_def)
  show "\<exists>s'. readFrame U s = (Inl (TTransportException TT_UNKNOWN), s')"
    if "4 \<le> length ?in" "htonl (load32 (take 4 ?in)) <s 0"
    using frameSize_loop_ok [of "transport s" "[]"] that inv
    by (auto simp: readFrame_def bindM_def onTransport_def liftM_def throwM_def)
  show "\<exists>s'. readFrame U s = (Inl (TTransportException END_OF_FILE), s')"
    if h: "4 \<le> length ?in" "\<not> htonl (load32 (take 4 ?in)) <s 0" "length ?in < 4 + frame_size ?in"
  proof -
    obtain u1 where u1: "frameSize_loop (read_virt U) [] (transport s) = (Inr (Some (take 4 ?in)), u1)"
      "uinv u1" "uinp u1 = drop 4 ?in"
      using frameSize_loop_ok [of "transport s" "[]"] inv h(1) by auto
    then have "length (uinp u1) < frame_size ?in" using h by simp
    from source_eof [OF u1(2) this] u1(1) h(2) show ?thesis
      by (auto simp: readFrame_def bindM_def onTransport_def liftM_def modifyM_def Let_def frame_size_def)
  qed
qed

end

section \<open>Properties\<close>

text \<open>A client that writes messages, each in chunks, and flushes after each one.\<close>

primrec send_messages :: "'t TTransport \<Rightarrow> byte list list list \<Rightarrow> ('t, unit) M" where
  "send_messages T [] = returnM ()"
| "send_messages T (m # ms) =
     bindM (write_chunks T m) (\<lambda>_. bindM (flush_virt T) (\<lambda>_. send_messages T ms))"

definition frames :: "byte list list list \<Rightarrow> byte list" where
  "frames ms = concat (map frame_of (filter (\<lambda>p. p \<noteq> []) (map concat ms)))"

lemma frames_Cons:
  "frames (m # ms) = (if concat m = [] then [] else frame_of (concat m)) @ frames ms"
  by (auto simp: frames_def)

lemma frames_well_framed:
  "length (frames ms) < 2 ^ 31 \<Longrightarrow> well_framed (frames ms) \<and> deframe (frames ms) = concat (concat ms)"
proof (induction ms)
  case (Cons m ms)
  then show ?case
    using well_framed_frame_of [of "concat m"] well_framed_append [of "frame_of (concat m)" "frames ms"]
    by (cases "concat m = []") (auto simp: frames_Cons simp del: concat_eq_Nil_conv)
qed (simp add: frames_def)

text \<open>Until a flush, writing leaves the wrapped transport alone.\<close>

lemma framed_write_transport: "transport (snd (framed_write bs s)) = transport s"
  by (auto simp: framed_write_def buffer_write_def framed_writeSlow_def Let_def
      wBuf_update_eq [of "\<lambda>m. memcpy m (wBase s) bs"] split: option.splits)

lemma framed_chunks_transport:
  "transport (snd (write_chunks (framed_ops U) m s)) = transport s"
proof (induction m arbitrary: s)
  case (Cons bs m)
  show ?case using framed_write_transport [of bs s] Cons.IH
    by (auto simp: bindM_def framed_ops_def split: prod.splits sum.splits)
qed (simp add: returnM_def)

locale framed_over_steady_sink = framed_over_sink U uinv uoutp uroom + steady_sink U uinv uoutp uroom
  for U :: "'u TTransport" and uinv uoutp uroom
begin

lemma send_messages_ok:
  assumes "framed_winv uinv uoutp uroom s" and "framed_pending s = []"
    and "length (frames ms) \<le> uroom (transport s)" and "length (frames ms) < 2 ^ 31"
  shows "\<exists>s'. send_messages (framed_ops U) ms s = (Inr (), s') \<and> framed_winv uinv uoutp uroom s'
    \<and> uoutp (transport s') = uoutp (transport s) @ frames ms"
  using assms
proof (induction ms arbitrary: s)
  case (Cons m ms)
  let ?p = "concat m"
  have w4: "wBase s = 4" using Cons.prems(1,2) by (simp add: framed_winv_def framed_pending_def)
  have "length ?p \<le> framed_room uroom s"
    using Cons.prems(3,4) w4 by (auto simp: framed_room_def frames_Cons simp del: concat_eq_Nil_conv split: if_splits)
  from framed_sink.write_chunks_ok [OF Cons.prems(1) this] obtain t where
    t: "write_chunks (framed_ops U) m s = (Inr (), t)" "framed_winv uinv uoutp uroom t"
    "framed_outp uoutp t = framed_outp uoutp s @ ?p" by blast
  have same: "transport t = transport s" using framed_chunks_transport [of U m s] t(1) by simp
  then have pend: "framed_pending t = ?p" using t(3) Cons.prems(2) by (simp add: framed_outp_def)
  from framed_flush_ok [OF t(2)] obtain t' u1 where
    t': "framed_flush U t = (Inr (), t')" "framed_winv uinv uoutp uroom t'" "framed_pending t' = []"
    "uoutp (transport t') = uoutp (transport s) @ (if ?p = [] then [] else frame_of ?p)"
    "uinv u1" "flush_virt U u1 = (Inr (), transport t')"
    "uroom (transport s) = uroom u1 + (if ?p = [] then 0 else 4 + length ?p)"
    unfolding same pend by blast
  have room: "uroom (transport t') = uroom u1" using steady_flush [OF t'(5,6)] .
  have "length (frames ms) \<le> uroom (transport t')" "length (frames ms) < 2 ^ 31"
    using Cons.prems(3,4) t'(7) room
    by (auto simp: frames_Cons simp del: concat_eq_Nil_conv split: if_splits)
  from Cons.IH [OF t'(2,3) this] t(1) t'(1,4) show ?case
    by (auto simp: bindM_def framed_ops_def frames_Cons simp del: concat_eq_Nil_conv)
qed (simp add: returnM_def frames_def)

end

interpretation framed_memory_steady: framed_over_steady_sink memory_ops
  "\<lambda>s. memory_inv s \<and> owner s" unread "\<lambda>s. 2 ^ 31 - wBase s"
  by unfold_locales

lemma newTFramedTransport_eq:
  assumes "4 < sz" and "sz < 2 ^ 32"
  shows "newTFramedTransport u sz = (Inr (), \<lparr>rBase = 0, rBound = 0, wBase = 4, wBound = sz,
    transport = u, rBufSize = 0, wBufSize = sz, rBuf = [], wBuf = memcpy (replicate sz 0) 0 (mem32 0)\<rparr>)"
  using assms
  by (simp add: newTFramedTransport_def framed_initPointers_def framed_write_def buffer_write_def
      monad_simps setReadBuffer_def setWriteBuffer_def Let_def)

lemma newTFramedTransport_winv:
  assumes "memory_inv u" and "owner u" and "unread u = []" and "4 < sz" and "sz < 2 ^ 32"
  shows "framed_winv (\<lambda>s. memory_inv s \<and> owner s) unread (\<lambda>s. 2 ^ 31 - wBase s)
      (snd (newTFramedTransport u sz))"
    and "framed_pending (snd (newTFramedTransport u sz)) = []"
  using assms by (auto simp: newTFramedTransport_eq framed_winv_def framed_pending_def)

lemma newTFramedTransport_rinv:
  assumes "memory_inv u" and "well_framed (unread u)" and "4 < sz" and "sz < 2 ^ 32"
  shows "framed_rinv memory_inv unread (snd (newTFramedTransport u sz))"
    and "framed_inp unread (snd (newTFramedTransport u sz)) = deframe (unread u)"
  using assms by (auto simp: newTFramedTransport_eq framed_rinv_def framed_inp_eq)

lemma framed_session:
  assumes "memory_inv u" and "owner u" and "unread u = []" and "4 < sz" and "sz < 2 ^ 32"
    and "wBase u + length (frames ms) < 2 ^ 31"
  obtains s where "send_messages (framed_ops memory_ops) ms (snd (newTFramedTransport u sz)) = (Inr (), s)"
    "unread (transport s) = frames ms" "memory_inv (transport s)"
proof -
  have t: "transport (snd (newTFramedTransport u sz)) = u"
    using assms(4,5) by (simp add: newTFramedTransport_eq)
  have len: "length (frames ms) \<le> 2 ^ 31 - wBase (transport (snd (newTFramedTransport u sz)))"
    "length (frames ms) < 2 ^ 31" using assms(6) by (simp_all add: t)
  from framed_memory_steady.send_messages_ok [OF newTFramedTransport_winv [OF assms(1-5)] len]
  show thesis using that assms(3) by (auto simp: framed_winv_def t)
qed

text \<open>
  C29. A framed transport sends one frame per non-empty message, a 4-byte big-endian length and
  the payload, whatever chunks the message was written in.
\<close>

theorem framed_sends_frames:
  assumes "memory_inv u" and "owner u" and "unread u = []" and "4 < sz" and "sz < 2 ^ 32"
    and "wBase u + length (frames ms) < 2 ^ 31"
  shows "\<exists>s'. send_messages (framed_ops memory_ops) ms (snd (newTFramedTransport u sz)) = (Inr (), s')
    \<and> unread (transport s') = frames ms \<and> memory_inv (transport s')"
  using framed_session [OF assms] by metis

theorem framed_sends_frames_witness:
  "\<exists>s'. send_messages (framed_ops memory_ops) [[[7], [8, 9]], [], [[1]]]
      (snd (newTFramedTransport (newTMemoryBuffer 1) 5)) = (Inr (), s')
    \<and> unread (transport s') = [0, 0, 0, 3, 7, 8, 9, 0, 0, 0, 1, 1]"
proof -
  have "memory_inv (newTMemoryBuffer 1)" by (rule memory_reachable_inv [OF memory_reachable.new]) simp
  moreover have "frames [[[7], [8, 9]], [], [[1]]] = [0, 0, 0, 3, 7, 8, 9, 0, 0, 0, 1, 1]"
    by (simp add: frames_def frame_of_def be32_def mem32_def)
  ultimately show ?thesis
    using framed_sends_frames [of "newTMemoryBuffer 1" 5 "[[[7], [8, 9]], [], [[1]]]"]
    by (auto simp: newTMemoryBuffer_def initCommon_def unread_def)
qed

text \<open>
  C5. Reading through a framed transport what another one sent yields the bytes of all
  messages in order, whatever the lengths of the reads.
\<close>

theorem framed_roundtrip:
  assumes "memory_inv u" and "owner u" and "unread u = []" and "4 < sz" and "sz < 2 ^ 32"
    and "wBase u + length (frames ms) < 2 ^ 31" and "sum_list ns \<le> length (concat (concat ms))"
    and "send_messages (framed_ops memory_ops) ms (snd (newTFramedTransport u sz)) = (Inr (), s)"
  shows "\<exists>bss s'. read_chunks (framed_ops memory_ops) ns (snd (newTFramedTransport (transport s) sz))
      = (Inr bss, s') \<and> map length bss = ns \<and> concat bss = take (sum_list ns) (concat (concat ms))"
proof -
  have u: "memory_inv (transport s)" "unread (transport s) = frames ms"
    using framed_session [OF assms(1-6)] assms(8) by auto
  have f: "well_framed (unread (transport s))" "deframe (unread (transport s)) = concat (concat ms)"
    using frames_well_framed [of ms] assms(6) u(2) by auto
  note r = newTFramedTransport_rinv [OF u(1) f(1) assms(4,5)]
  from framed_memory.framed_source.read_chunks_ok [OF r(1), of ns] assms(7) obtain bss s' where
    *: "read_chunks (framed_ops memory_ops) ns (snd (newTFramedTransport (transport s) sz)) = (Inr bss, s')"
    "map length bss = ns" "concat (concat ms) = concat bss @ framed_inp unread s'"
    unfolding r(2) f(2) by blast
  moreover have "length (concat bss) = sum_list ns" using *(2) by (simp add: length_concat)
  ultimately show ?thesis by auto
qed

theorem framed_roundtrip_witness:
  "\<exists>s bss s'. send_messages (framed_ops memory_ops) [[[7], [8, 9]], [[1]]]
      (snd (newTFramedTransport (newTMemoryBuffer 2) 5)) = (Inr (), s)
    \<and> read_chunks (framed_ops memory_ops) [2, 2] (snd (newTFramedTransport (transport s) 5)) = (Inr bss, s')
    \<and> concat bss = [7, 8, 9, 1]"
proof -
  have m: "memory_inv (newTMemoryBuffer 2)" "owner (newTMemoryBuffer 2)"
    "unread (newTMemoryBuffer 2) = []" "wBase (newTMemoryBuffer 2) = 0"
    using memory_reachable_inv [OF memory_reachable.new, of 2]
    by (auto simp: newTMemoryBuffer_def initCommon_def unread_def)
  have small: "wBase (newTMemoryBuffer 2) + length (frames [[[7], [8, 9]], [[1]]]) < 2 ^ 31"
    by (simp add: frames_def m(4))
  obtain s where s: "send_messages (framed_ops memory_ops) [[[7], [8, 9]], [[1]]]
      (snd (newTFramedTransport (newTMemoryBuffer 2) 5)) = (Inr (), s)"
    using framed_session [OF m(1-3) _ _ small, of 5] by auto
  from framed_roundtrip [OF m(1-3) _ _ small _ s, of "[2, 2]"] show ?thesis using s by auto
qed

text \<open>
  C32. A frame header cut off by the end of the stream and a truncated payload raise
  end-of-file, and a negative frame size is rejected; a stream that ends between frames is
  reported as the end of the data.
\<close>

theorem framed_malformed_input:
  assumes "memory_inv (transport s)"
  shows "\<exists>s'. readFrame memory_ops s = (
      let bs = unread (transport s) in
      if bs = [] then Inr False
      else if length bs < 4 then Inl (TTransportException END_OF_FILE)
      else if htonl (load32 (take 4 bs)) <s 0 then Inl (TTransportException TT_UNKNOWN)
      else if length bs < 4 + frame_size bs then Inl (TTransportException END_OF_FILE)
      else Inr True, s')"
proof -
  let ?bs = "unread (transport s)"
  consider "?bs = []" | "?bs \<noteq> []" "length ?bs < 4" | "?bs \<noteq> []" "4 \<le> length ?bs" "htonl (load32 (take 4 ?bs)) <s 0"
    | "?bs \<noteq> []" "4 \<le> length ?bs" "\<not> htonl (load32 (take 4 ?bs)) <s 0" "length ?bs < 4 + frame_size ?bs"
    | "?bs \<noteq> []" "4 \<le> length ?bs" "\<not> htonl (load32 (take 4 ?bs)) <s 0" "4 + frame_size ?bs \<le> length ?bs"
    by linarith
  then show ?thesis
  proof cases
    case 1
    with framed_memory.frameSize_loop_end [OF assms] show ?thesis
      by (auto simp: readFrame_def bindM_def onTransport_def liftM_def returnM_def)
  next
    case 5
    obtain u1 where u1: "frameSize_loop (read_virt memory_ops) [] (transport s) = (Inr (Some (take 4 ?bs)), u1)"
      "memory_inv u1" "unread u1 = drop 4 ?bs"
      using framed_memory.frameSize_loop_ok [OF assms, of "[]"] 5 by auto
    have "frame_size ?bs \<le> length (unread u1)" using 5 u1(3) by simp
    from memory_source.source_readAll [OF u1(2) this] u1(1) 5 show ?thesis
      by (auto simp: readFrame_def bindM_def onTransport_def liftM_def returnM_def modifyM_def Let_def
          frame_size_def)
  qed (use framed_memory.readFrame_malformed [OF assms] in \<open>auto simp: Let_def\<close>)
qed

theorem framed_malformed_input_witness:
  "\<exists>s'. readFrame memory_ops (snd (newTFramedTransport (initCommon (Some [0xff, 0, 0, 0]) 4 True 4) 5))
    = (Inl (TTransportException TT_UNKNOWN), s')"
proof -
  have i: "memory_inv (initCommon (Some [0xff, 0, 0, 0]) 4 True 4)" by (rule memory_inv_init) auto
  have u: "unread (initCommon (Some [0xff, 0, 0, 0]) 4 True 4) = [0xff, 0, 0, 0]"
    by (simp add: unread_def initCommon_def mslice_def)
  have n: "htonl (load32 [0xff, 0, 0, 0]) <s 0"
    by (simp add: htonl_def load32_def mem32_def word_sless_alt)
  show ?thesis
    using framed_malformed_input [of "snd (newTFramedTransport (initCommon (Some [0xff, 0, 0, 0]) 4 True 4) 5)"] i u n
    by (simp add: newTFramedTransport_eq)
qed

text \<open>
  C37. A write for which the buffer has no room and that would make the message 2 GiB or more is
  refused with \<open>BAD_ARGS\<close> and leaves the transport unchanged, also if the 32-bit sum of the lengths
  wraps around. (A write that fits the buffer, which may itself be larger, is accepted.)
\<close>

theorem framed_write_too_large:
  assumes "wBound s < wBase s + length buf" and "wBase s < 2 ^ 32" and "length buf < 2 ^ 32"
    and "2 ^ 31 \<le> wBase s + length buf"
  shows "framed_write buf s = (Inl (TTransportException BAD_ARGS), s)"
proof (cases "wBase s + length buf < 2 ^ 32")
  case True
  with assms show ?thesis by (simp add: framed_write_def buffer_write_def framed_writeSlow_def Let_def add.commute)
next
  case False
  define n where "n = length buf + wBase s - 2 ^ 32"
  have n: "length buf + wBase s = n + 2 ^ 32" "n < wBase s" using False assms(3) by (simp_all add: n_def)
  then have "u32 (length buf + wBase s) < wBase s" using assms(2) by (simp add: u32_def)
  with assms(1,2) show ?thesis
    by (simp add: framed_write_def buffer_write_def framed_writeSlow_def Let_def)
qed

theorem framed_write_too_large_witness:
  "framed_write (replicate 2147483647 0) (snd (newTFramedTransport () 5))
     = (Inl (TTransportException BAD_ARGS), snd (newTFramedTransport () 5))"
  by (rule framed_write_too_large) (simp_all add: newTFramedTransport_eq)

text \<open>
  If the wrapped transport's \<open>write\<close> throws during \<open>flush\<close>, the exception is passed on and the
  pending payload is dropped, so the next message starts a fresh frame.
\<close>

theorem framed_flush_resets_on_error:
  assumes "4 < wBufSize s" and "4 < wBase s" and "wBase s < 2 ^ 31"
    and "write_virt U (mslice (memcpy (wBuf s) 0 (be32 (word_of_nat (wBase s - 4)))) 0 (wBase s)) (transport s)
      = (Inl e, u)"
  shows "\<exists>s'. framed_flush U s = (Inl e, s') \<and> framed_pending s' = [] \<and> transport s' = u"
proof -
  define n where "n = wBase s - 4"
  have n: "0 < n" "n < 2 ^ 31" "wBase s = 4 + n" using assms(2,3) by (auto simp: n_def)
  then have "0 <s (word_of_nat n :: int32_t)" "unat (word_of_nat n :: int32_t) = n"
    by (simp_all add: word_sless_alt sint_word_of_nat unat_of_nat)
  with assms(1,4) n(3) show ?thesis
    by (auto simp: framed_flush_def monad_simps onTransport_def framed_pending_def Let_def)
qed

theorem framed_flush_resets_on_error_witness:
  "\<exists>s'. framed_flush (memory_ops\<lparr>write_virt := \<lambda>bs. throwM (TTransportException NOT_OPEN)\<rparr>)
      ((snd (newTFramedTransport (newTMemoryBuffer 4) 8))\<lparr>wBase := 6\<rparr>)
      = (Inl (TTransportException NOT_OPEN), s') \<and> framed_pending s' = []"
  using framed_flush_resets_on_error [of "(snd (newTFramedTransport (newTMemoryBuffer 4) 8))\<lparr>wBase := 6\<rparr>"
      "memory_ops\<lparr>write_virt := \<lambda>bs. throwM (TTransportException NOT_OPEN)\<rparr>"
      "TTransportException NOT_OPEN" "newTMemoryBuffer 4"]
  by (simp add: throwM_def newTFramedTransport_eq) blast

text \<open>
  C40. A framed transport constructed with a write buffer of 0, 1, 2 or 4 bytes ends up with
  one of exactly 4 bytes, and \<open>flush\<close> before anything is written then fails its assertion.
\<close>

theorem framed_tiny_buffer_asserts:
  assumes "sz \<in> {0, 1, 2, 4}"
  shows "fst (newTFramedTransport u sz) = Inr ()
    \<and> fst (framed_flush U (snd (newTFramedTransport u sz))) = Inl AssertionFailure"
proof -
  have "wBufSize (snd (newTFramedTransport u sz)) = 4 \<and> fst (newTFramedTransport u sz) = Inr ()"
    using assms
    by (auto simp: newTFramedTransport_def framed_initPointers_def framed_write_def buffer_write_def
        framed_writeSlow_def frame_grow_def while_option_unfold monad_simps setReadBuffer_def
        setWriteBuffer_def Let_def wBuf_update_eq [of "\<lambda>m. memcpy m 0 (mem32 0)"])
  then show ?thesis by (simp add: framed_flush_def monad_simps)
qed

theorem framed_tiny_buffer_asserts_witness:
  "fst (framed_flush memory_ops (snd (newTFramedTransport (newTMemoryBuffer 8) 4))) = Inl AssertionFailure"
  using framed_tiny_buffer_asserts [of 4 "newTMemoryBuffer 8" memory_ops] by simp

end
