(* ===== verification/BinaryProtocol.thy ===== *)
theory BinaryProtocol
  imports Generated FramedTransport
begin

text \<open>
  \<^verbatim>\<open>TBinaryProtocolT\<close> (\<^verbatim>\<open>TBinaryProtocol.h/.tcc\<close>): fixed-width big-endian integers,
  length-prefixed strings, and message headers with or without a version word. The operations
  take the transport \<open>T\<close> they run on as an argument; over any byte sink and any byte source
  they satisfy the contracts of \<open>wire_writer\<close> and \<open>wire_reader\<close> for the layout
  \<open>binary_wire\<close>.
\<close>

section \<open>State\<close>

record 't TBinaryProtocol =
  trans :: 't
  string_limit :: int32_t
  container_limit :: int32_t
  strict_read :: bool
  strict_write :: bool
  string_buf :: "byte list option"
  string_buf_size :: int32_t

definition VERSION_MASK :: int32_t where "VERSION_MASK = 0xffff0000"
definition VERSION_1 :: int32_t where "VERSION_1 = 0x80010000"

text \<open>The first constructor is the second one with the default limits and strictness.\<close>

definition newTBinaryProtocol_limits ::
  "'t \<Rightarrow> int32_t \<Rightarrow> int32_t \<Rightarrow> bool \<Rightarrow> bool \<Rightarrow> 't TBinaryProtocol" where
  "newTBinaryProtocol_limits t slim clim sr sw =
     \<lparr>trans = t, string_limit = slim, container_limit = clim, strict_read = sr,
      strict_write = sw, string_buf = None, string_buf_size = 0\<rparr>"

definition newTBinaryProtocol :: "'t \<Rightarrow> 't TBinaryProtocol" where
  "newTBinaryProtocol t = newTBinaryProtocol_limits t 0 0 False True"

definition setStringSizeLimit :: "int32_t \<Rightarrow> ('t TBinaryProtocol, unit) M" where
  "setStringSizeLimit slim = modifyM (\<lambda>s. s\<lparr>string_limit := slim\<rparr>)"

definition setContainerSizeLimit :: "int32_t \<Rightarrow> ('t TBinaryProtocol, unit) M" where
  "setContainerSizeLimit clim = modifyM (\<lambda>s. s\<lparr>container_limit := clim\<rparr>)"

definition setStrict :: "bool \<Rightarrow> bool \<Rightarrow> ('t TBinaryProtocol, unit) M" where
  "setStrict sr sw = modifyM (\<lambda>s. s\<lparr>strict_read := sr, strict_write := sw\<rparr>)"

text \<open>A call on the transport.\<close>

definition onTrans :: "('t, 'a) M \<Rightarrow> ('t TBinaryProtocol, 'a) M" where
  "onTrans m = liftM trans (\<lambda>t s. s\<lparr>trans := t\<rparr>) m"

section \<open>Writing\<close>

definition binary_writeBool :: "'t TTransport \<Rightarrow> bool \<Rightarrow> ('t TBinaryProtocol, uint32_t) M" where
  "binary_writeBool T value =
     (let tmp = (if value then 1 else 0) in
      bindM (onTrans (write_virt T [tmp])) (\<lambda>_. returnM 1))"

definition binary_writeByte :: "'t TTransport \<Rightarrow> int8_t \<Rightarrow> ('t TBinaryProtocol, uint32_t) M" where
  "binary_writeByte T b = bindM (onTrans (write_virt T [b])) (\<lambda>_. returnM 1)"

definition binary_writeI16 :: "'t TTransport \<Rightarrow> int16_t \<Rightarrow> ('t TBinaryProtocol, uint32_t) M" where
  "binary_writeI16 T i16 =
     (let net = htons i16 in bindM (onTrans (write_virt T (mem16 net))) (\<lambda>_. returnM 2))"

definition binary_writeI32 :: "'t TTransport \<Rightarrow> int32_t \<Rightarrow> ('t TBinaryProtocol, uint32_t) M" where
  "binary_writeI32 T i32 =
     (let net = htonl i32 in bindM (onTrans (write_virt T (mem32 net))) (\<lambda>_. returnM 4))"

definition binary_writeI64 :: "'t TTransport \<Rightarrow> int64_t \<Rightarrow> ('t TBinaryProtocol, uint32_t) M" where
  "binary_writeI64 T i64 =
     (let net = htonll i64 in bindM (onTrans (write_virt T (mem64 net))) (\<lambda>_. returnM 8))"

definition binary_writeDouble :: "'t TTransport \<Rightarrow> double \<Rightarrow> ('t TBinaryProtocol, uint32_t) M" where
  "binary_writeDouble T dub =
     (let bits = htonll dub in bindM (onTrans (write_virt T (mem64 bits))) (\<lambda>_. returnM 8))"

definition binary_writeString :: "'t TTransport \<Rightarrow> byte list \<Rightarrow> ('t TBinaryProtocol, uint32_t) M" where
  "binary_writeString T str =
     (if length str > 2 ^ 31 - 1 then throwM (TProtocolException SIZE_LIMIT)
      else (let sz = word_of_nat (length str) :: uint32_t in
        bindM (binary_writeI32 T sz) (\<lambda>result.
        bindM (if sz > 0 then onTrans (write_virt T str) else returnM ()) (\<lambda>_.
        returnM (result + sz)))))"

definition binary_writeBinary :: "'t TTransport \<Rightarrow> byte list \<Rightarrow> ('t TBinaryProtocol, uint32_t) M" where
  "binary_writeBinary T str = binary_writeString T str"

definition binary_writeMessageBegin ::
  "'t TTransport \<Rightarrow> byte list \<Rightarrow> TMessageType \<Rightarrow> int32_t \<Rightarrow> ('t TBinaryProtocol, uint32_t) M" where
  "binary_writeMessageBegin T name messageType seqid s =
     (if strict_write s then
        (let version = VERSION_1 OR messageType in
         seqM [binary_writeI32 T version, binary_writeString T name, binary_writeI32 T seqid] s)
      else
        seqM [binary_writeString T name, binary_writeByte T (ucast messageType),
              binary_writeI32 T seqid] s)"

definition binary_writeFieldBegin ::
  "'t TTransport \<Rightarrow> byte list \<Rightarrow> TType \<Rightarrow> int16_t \<Rightarrow> ('t TBinaryProtocol, uint32_t) M" where
  "binary_writeFieldBegin T name fieldType fieldId =
     seqM [binary_writeByte T fieldType, binary_writeI16 T fieldId]"

definition binary_writeFieldStop :: "'t TTransport \<Rightarrow> ('t TBinaryProtocol, uint32_t) M" where
  "binary_writeFieldStop T = binary_writeByte T T_STOP"

definition binary_writeMapBegin ::
  "'t TTransport \<Rightarrow> TType \<Rightarrow> TType \<Rightarrow> uint32_t \<Rightarrow> ('t TBinaryProtocol, uint32_t) M" where
  "binary_writeMapBegin T keyType valType sz =
     seqM [binary_writeByte T keyType, binary_writeByte T valType, binary_writeI32 T sz]"

definition binary_writeListBegin ::
  "'t TTransport \<Rightarrow> TType \<Rightarrow> uint32_t \<Rightarrow> ('t TBinaryProtocol, uint32_t) M" where
  "binary_writeListBegin T elemType sz =
     seqM [binary_writeByte T elemType, binary_writeI32 T sz]"

definition binary_writeSetBegin ::
  "'t TTransport \<Rightarrow> TType \<Rightarrow> uint32_t \<Rightarrow> ('t TBinaryProtocol, uint32_t) M" where
  "binary_writeSetBegin T elemType sz =
     seqM [binary_writeByte T elemType, binary_writeI32 T sz]"

section \<open>Reading\<close>

definition binary_readBool :: "'t TTransport \<Rightarrow> ('t TBinaryProtocol, bool \<times> uint32_t) M" where
  "binary_readBool T = bindM (onTrans (readAll_virt T 1)) (\<lambda>b. returnM (b ! 0 \<noteq> 0, 1))"

definition binary_readByte :: "'t TTransport \<Rightarrow> ('t TBinaryProtocol, int8_t \<times> uint32_t) M" where
  "binary_readByte T = bindM (onTrans (readAll_virt T 1)) (\<lambda>b. returnM (b ! 0, 1))"

text \<open>\<open>ntohs\<close>, \<open>ntohl\<close> and \<open>ntohll\<close> are the same functions as \<open>htons\<close>, \<open>htonl\<close> and \<open>htonll\<close>.\<close>

definition binary_readI16 :: "'t TTransport \<Rightarrow> ('t TBinaryProtocol, int16_t \<times> uint32_t) M" where
  "binary_readI16 T = bindM (onTrans (readAll_virt T 2)) (\<lambda>b. returnM (htons (load16 b), 2))"

definition binary_readI32 :: "'t TTransport \<Rightarrow> ('t TBinaryProtocol, int32_t \<times> uint32_t) M" where
  "binary_readI32 T = bindM (onTrans (readAll_virt T 4)) (\<lambda>b. returnM (htonl (load32 b), 4))"

definition binary_readI64 :: "'t TTransport \<Rightarrow> ('t TBinaryProtocol, int64_t \<times> uint32_t) M" where
  "binary_readI64 T = bindM (onTrans (readAll_virt T 8)) (\<lambda>b. returnM (htonll (load64 b), 8))"

definition binary_readDouble :: "'t TTransport \<Rightarrow> ('t TBinaryProtocol, double \<times> uint32_t) M" where
  "binary_readDouble T = bindM (onTrans (readAll_virt T 8)) (\<lambda>b. returnM (htonll (load64 b), 8))"

text \<open>The string buffer, kept between calls and grown when a longer string arrives.\<close>

definition grow_string_buf :: "int32_t \<Rightarrow> 't TBinaryProtocol \<Rightarrow> 't TBinaryProtocol" where
  "grow_string_buf sz s =
     (if string_buf_size s <s sz \<or> string_buf s = None then
        (let old = (case string_buf s of None \<Rightarrow> [] | Some b \<Rightarrow> b) in
         s\<lparr>string_buf := Some (take (unat sz) (old @ replicate (unat sz - length old) 0)),
           string_buf_size := sz\<rparr>)
      else s)"

text \<open>
  \<open>readAll(string_buf_, size)\<close> followed by \<open>str.assign(string_buf_, size)\<close>; the buffer is never
  \<^verbatim>\<open>NULL\<close> here.
\<close>

definition read_string_buf ::
  "'t TTransport \<Rightarrow> int32_t \<Rightarrow> ('t TBinaryProtocol, byte list) M" where
  "read_string_buf T sz =
     bindM (onTrans (readAll_virt T (unat sz))) (\<lambda>bs.
     bindM (modifyM (\<lambda>s. s\<lparr>string_buf := map_option (\<lambda>b. memcpy b 0 bs) (string_buf s)\<rparr>)) (\<lambda>_.
     getM (\<lambda>s. case string_buf s of None \<Rightarrow> [] | Some b \<Rightarrow> take (unat sz) b)))"

definition binary_readStringBody ::
  "'t TTransport \<Rightarrow> int32_t \<Rightarrow> ('t TBinaryProtocol, byte list \<times> uint32_t) M" where
  "binary_readStringBody T sz =
     bindM (getM string_limit) (\<lambda>limit.
     if sz <s 0 then throwM (TProtocolException NEGATIVE_SIZE)
     else if 0 <s limit \<and> limit <s sz then throwM (TProtocolException SIZE_LIMIT)
     else if sz = 0 then returnM ([], 0)
     else
       bindM (onTrans (borrow_virt T (unat sz))) (\<lambda>borrow_buf.
       case borrow_buf of
         Some buf \<Rightarrow>
           bindM (onTrans (consume_virt T (unat sz))) (\<lambda>_. returnM (take (unat sz) buf, sz))
       | None \<Rightarrow>
           bindM (modifyM (grow_string_buf sz)) (\<lambda>_.
           bindM (read_string_buf T sz) (\<lambda>str. returnM (str, sz)))))"

definition binary_readString :: "'t TTransport \<Rightarrow> ('t TBinaryProtocol, byte list \<times> uint32_t) M" where
  "binary_readString T =
     bindM (binary_readI32 T) (\<lambda>(sz, result).
     bindM (binary_readStringBody T sz) (\<lambda>(str, r). returnM (str, result + r)))"

definition binary_readBinary :: "'t TTransport \<Rightarrow> ('t TBinaryProtocol, byte list \<times> uint32_t) M" where
  "binary_readBinary T = binary_readString T"

definition binary_readMessageBegin ::
  "'t TTransport \<Rightarrow> ('t TBinaryProtocol, (byte list \<times> TMessageType \<times> int32_t) \<times> uint32_t) M" where
  "binary_readMessageBegin T =
     bindM (binary_readI32 T) (\<lambda>(sz, r1).
     if sz <s 0 then
       (let version = sz AND VERSION_MASK in
        if version \<noteq> VERSION_1 then throwM (TProtocolException BAD_VERSION)
        else
          bindM (binary_readString T) (\<lambda>(name, r2).
          bindM (binary_readI32 T) (\<lambda>(seqid, r3).
          returnM ((name, sz AND 0x000000ff, seqid), r1 + r2 + r3))))
     else
       bindM (getM strict_read) (\<lambda>strict.
       if strict then throwM (TProtocolException BAD_VERSION)
       else
         bindM (binary_readStringBody T sz) (\<lambda>(name, r2).
         bindM (binary_readByte T) (\<lambda>(type, r3).
         bindM (binary_readI32 T) (\<lambda>(seqid, r4).
         returnM ((name, scast type, seqid), r1 + r2 + r3 + r4))))))"

definition binary_readStructBegin :: "('t TBinaryProtocol, byte list option \<times> uint32_t) M" where
  "binary_readStructBegin = returnM (Some [], 0)"

definition binary_readFieldBegin ::
  "'t TTransport \<Rightarrow> ('t TBinaryProtocol, (byte list option \<times> TType \<times> int16_t) \<times> uint32_t) M" where
  "binary_readFieldBegin T =
     bindM (binary_readByte T) (\<lambda>(type, r1).
     if type = T_STOP then returnM ((None, type, 0), r1)
     else bindM (binary_readI16 T) (\<lambda>(fieldId, r2). returnM ((None, type, fieldId), r1 + r2)))"

text \<open>The size checks of the container headers.\<close>

definition checkContainerSize :: "int32_t \<Rightarrow> ('t TBinaryProtocol, unit) M" where
  "checkContainerSize sizei =
     bindM (getM container_limit) (\<lambda>limit.
     if sizei <s 0 then throwM (TProtocolException NEGATIVE_SIZE)
     else if limit \<noteq> 0 \<and> limit <s sizei then throwM (TProtocolException SIZE_LIMIT)
     else returnM ())"

definition binary_readMapBegin ::
  "'t TTransport \<Rightarrow> ('t TBinaryProtocol, (TType \<times> TType \<times> uint32_t) \<times> uint32_t) M" where
  "binary_readMapBegin T =
     bindM (binary_readByte T) (\<lambda>(k, r1).
     bindM (binary_readByte T) (\<lambda>(v, r2).
     bindM (binary_readI32 T) (\<lambda>(sizei, r3).
     bindM (checkContainerSize sizei) (\<lambda>_.
     returnM ((k, v, sizei), r1 + r2 + r3)))))"

definition binary_readListBegin ::
  "'t TTransport \<Rightarrow> ('t TBinaryProtocol, (TType \<times> uint32_t) \<times> uint32_t) M" where
  "binary_readListBegin T =
     bindM (binary_readByte T) (\<lambda>(e, r1).
     bindM (binary_readI32 T) (\<lambda>(sizei, r2).
     bindM (checkContainerSize sizei) (\<lambda>_.
     returnM ((e, sizei), r1 + r2))))"

definition binary_readSetBegin ::
  "'t TTransport \<Rightarrow> ('t TBinaryProtocol, (TType \<times> uint32_t) \<times> uint32_t) M" where
  "binary_readSetBegin T =
     bindM (binary_readByte T) (\<lambda>(e, r1).
     bindM (binary_readI32 T) (\<lambda>(sizei, r2).
     bindM (checkContainerSize sizei) (\<lambda>_.
     returnM ((e, sizei), r1 + r2))))"

text \<open>The remaining methods return 0 and do nothing.\<close>

definition binary_ops :: "'t TTransport \<Rightarrow> 't TBinaryProtocol TProtocol" where
  "binary_ops T = \<lparr>
     writeMessageBegin_virt = binary_writeMessageBegin T, writeMessageEnd_virt = returnM 0,
     writeStructBegin_virt = (\<lambda>name. returnM 0), writeStructEnd_virt = returnM 0,
     writeFieldBegin_virt = binary_writeFieldBegin T, writeFieldEnd_virt = returnM 0,
     writeFieldStop_virt = binary_writeFieldStop T,
     writeMapBegin_virt = binary_writeMapBegin T, writeMapEnd_virt = returnM 0,
     writeListBegin_virt = binary_writeListBegin T, writeListEnd_virt = returnM 0,
     writeSetBegin_virt = binary_writeSetBegin T, writeSetEnd_virt = returnM 0,
     writeBool_virt = binary_writeBool T, writeByte_virt = binary_writeByte T,
     writeI16_virt = binary_writeI16 T, writeI32_virt = binary_writeI32 T,
     writeI64_virt = binary_writeI64 T, writeDouble_virt = binary_writeDouble T,
     writeString_virt = binary_writeString T, writeBinary_virt = binary_writeBinary T,
     readMessageBegin_virt = binary_readMessageBegin T, readMessageEnd_virt = returnM 0,
     readStructBegin_virt = binary_readStructBegin, readStructEnd_virt = returnM 0,
     readFieldBegin_virt = binary_readFieldBegin T, readFieldEnd_virt = returnM 0,
     readMapBegin_virt = binary_readMapBegin T, readMapEnd_virt = returnM 0,
     readListBegin_virt = binary_readListBegin T, readListEnd_virt = returnM 0,
     readSetBegin_virt = binary_readSetBegin T, readSetEnd_virt = returnM 0,
     readBool_virt = binary_readBool T, readByte_virt = binary_readByte T,
     readI16_virt = binary_readI16 T, readI32_virt = binary_readI32 T,
     readI64_virt = binary_readI64 T, readDouble_virt = binary_readDouble T,
     readString_virt = binary_readString T, readBinary_virt = binary_readBinary T\<rparr>"

section \<open>The layout\<close>

fun binary_base :: "tval \<Rightarrow> byte list" where
  "binary_base (VBool b) = [if b then 1 else 0]"
| "binary_base (VByte b) = [b]"
| "binary_base (VI16 i) = be16 i"
| "binary_base (VI32 i) = be32 i"
| "binary_base (VI64 i) = be64 i"
| "binary_base (VDouble d) = be64 d"
| "binary_base (VString s) = be32 (word_of_nat (length s)) @ s"
| "binary_base (VBinary s) = be32 (word_of_nat (length s)) @ s"
| "binary_base v = []"

definition binary_wire :: "unit wire" where
  "binary_wire = \<lparr>wire_push = (\<lambda>c. c), wire_field = (\<lambda>c fid. c), wire_base = binary_base,
     wire_base_field = (\<lambda>c fid v. (ttype_of v # be16 fid) @ binary_base v),
     wire_header = (\<lambda>c fid type. type # be16 fid), wire_stop = [T_STOP],
     wire_map = (\<lambda>k v n. k # v # be32 (word_of_nat n)),
     wire_set = (\<lambda>e n. e # be32 (word_of_nat n)),
     wire_list = (\<lambda>e n. e # be32 (word_of_nat n))\<rparr>"

text \<open>
  The observations: the limits and strictness are constants of the view, the bytes are those of
  the transport, and the string buffer has the size it records.
\<close>

type_synonym binary_config = "int32_t \<times> int32_t \<times> bool \<times> bool"

definition binary_config :: "'t TBinaryProtocol \<Rightarrow> binary_config" where
  "binary_config s = (string_limit s, container_limit s, strict_read s, strict_write s)"

definition string_buf_ok :: "'t TBinaryProtocol \<Rightarrow> bool" where
  "string_buf_ok s \<longleftrightarrow> 0 \<le> sint (string_buf_size s)
     \<and> (\<forall>b. string_buf s = Some b \<longrightarrow> length b = unat (string_buf_size s))"

definition binary_writing ::
  "('t \<Rightarrow> bool) \<Rightarrow> ('t \<Rightarrow> byte list) \<Rightarrow> ('t \<Rightarrow> nat) \<Rightarrow> binary_config \<Rightarrow>
   ('t TBinaryProtocol, unit) writing" where
  "binary_writing tinv outp room cfg = \<lparr>w_inv = (\<lambda>s. tinv (trans s) \<and> binary_config s = cfg \<and> string_buf_ok s),
     w_ctl = (\<lambda>s. ()), w_outp = (\<lambda>s. outp (trans s)), w_room = (\<lambda>s. room (trans s))\<rparr>"

definition binary_reading ::
  "('t \<Rightarrow> bool) \<Rightarrow> ('t \<Rightarrow> byte list) \<Rightarrow> binary_config \<Rightarrow> ('t TBinaryProtocol, unit) reading" where
  "binary_reading tinv inp cfg =
     \<lparr>r_inv = (\<lambda>s. tinv (trans s) \<and> binary_config s = cfg \<and> string_buf_ok s),
      r_ctl = (\<lambda>s. ()), r_inp = (\<lambda>s. inp (trans s))\<rparr>"

section \<open>Writing emits the layout\<close>

locale binary_over_sink = byte_sink T inv outp room
  for T :: "'t TTransport" and inv outp room +
  fixes cfg :: binary_config
begin

abbreviation V where "V \<equiv> binary_writing inv outp room cfg"

lemma emits_trans:
  assumes "k = word_of_nat (length bs)"
  shows "emits V c (bindM (onTrans (write_virt T bs)) (\<lambda>_. returnM k)) bs c"
  unfolding emits_def
proof (intro allI impI, elim conjE)
  fix s :: "'t TBinaryProtocol"
  assume s: "w_inv V s" "w_ctl V s = c" "length bs \<le> w_room V s"
  obtain t where t: "write_virt T bs (trans s) = (Inr (), t)" "inv t"
    "outp t = outp (trans s) @ bs" "room (trans s) = room t + length bs"
    using sink_write [of "trans s" bs] s by (auto simp: binary_writing_def)
  with s assms show "\<exists>s'. bindM (onTrans (write_virt T bs)) (\<lambda>_. returnM k) s
      = (Inr (word_of_nat (length bs)), s') \<and> w_inv V s' \<and> w_ctl V s' = c
      \<and> w_outp V s' = w_outp V s @ bs \<and> w_room V s = w_room V s' + length bs"
    by (auto simp: binary_writing_def binary_config_def string_buf_ok_def onTrans_def monad_simps)
qed

lemma emits_writeByte: "emits V c (binary_writeByte T b) [b] c"
  unfolding binary_writeByte_def by (rule emits_trans) simp

lemma emits_writeBool: "emits V c (binary_writeBool T b) [if b then 1 else 0] c"
  unfolding binary_writeBool_def Let_def by (rule emits_trans) simp

lemma emits_writeI16: "emits V c (binary_writeI16 T i) (be16 i) c"
  unfolding binary_writeI16_def Let_def mem_htons by (rule emits_trans) simp

lemma emits_writeI32: "emits V c (binary_writeI32 T i) (be32 i) c"
  unfolding binary_writeI32_def Let_def mem_htonl by (rule emits_trans) simp

lemma emits_writeI64: "emits V c (binary_writeI64 T i) (be64 i) c"
  unfolding binary_writeI64_def Let_def mem_htonll by (rule emits_trans) simp

lemma emits_writeDouble: "emits V c (binary_writeDouble T i) (be64 i) c"
  unfolding binary_writeDouble_def Let_def mem_htonll by (rule emits_trans) simp

lemma emits_writeString:
  assumes "length str < 2 ^ 31"
  shows "emits V c (binary_writeString T str) (be32 (word_of_nat (length str)) @ str) c"
proof -
  let ?n = "word_of_nat (length str) :: uint32_t"
  have "unat ?n = length str" using assms by (simp add: unat_of_nat)
  then have pos: "(0 < ?n) = (str \<noteq> [])" by (auto simp: word_less_nat_alt)
  have "emits V c (bindM (if 0 < ?n then onTrans (write_virt T str) else returnM ()) (\<lambda>_. returnM ?n)) str c"
    using emits_trans [of ?n str c] emits_return [of V c] by (auto simp: pos)
  from emits_bind [OF emits_writeI32 [of c ?n] this,
      of "\<lambda>r. bindM (if 0 < ?n then onTrans (write_virt T str) else returnM ()) (\<lambda>_. returnM (r + ?n))"]
  show ?thesis using assms by (simp add: binary_writeString_def Let_def bindM_assoc)
qed

lemma emits_header2:
  "emits V c (seqM [binary_writeByte T a, binary_writeI32 T n]) (a # be32 n) c"
  using emits_seq [OF emits_writeByte emits_last [OF emits_writeI32]] by (simp del: seqM.simps)

lemma emits_header3:
  "emits V c (seqM [binary_writeByte T a, binary_writeByte T b, binary_writeI32 T n]) (a # b # be32 n) c"
  using emits_seq [OF emits_writeByte emits_header2] by (simp add: bindM_assoc)

lemma emits_fieldBegin: "emits V c (binary_writeFieldBegin T nm type fid) (type # be16 fid) c"
  using emits_seq [OF emits_writeByte emits_last [OF emits_writeI16]]
  by (simp add: binary_writeFieldBegin_def del: seqM.simps)

lemma emits_base:
  assumes "is_base v" and "wf_base (okString lim) v"
  shows "emits V c (write_base (binary_ops T) v) (binary_base v) c"
  using assms
  by (cases v) (simp_all add: binary_ops_def binary_writeBinary_def okString_def emits_writeBool emits_writeByte
      emits_writeI16 emits_writeI32 emits_writeI64 emits_writeDouble emits_writeString)

end

sublocale binary_over_sink \<subseteq> binary_writer: wire_writer binary_wire "\<lambda>c. True" "binary_ops T"
  "binary_writing inv outp room cfg" "okString 0" "okContainer 0"
proof (unfold_locales, goal_cases)
  case (3 c v)
  then show ?case by (simp add: binary_wire_def emits_base)
next
  case (4 c v nm fid)
  have "emits V c (seqM [binary_writeFieldBegin T nm (ttype_of v) fid, write_base (binary_ops T) v])
      ((ttype_of v # be16 fid) @ binary_base v) c"
    by (rule emits_seq [OF emits_fieldBegin emits_last [OF emits_base]]) (use 4 in auto)
  then show ?case by (simp add: binary_wire_def binary_ops_def del: seqM.simps)
qed (simp_all add: binary_wire_def binary_ops_def emits_return emits_fieldBegin emits_header2
    emits_header3 binary_writeFieldStop_def emits_writeByte binary_writeMapBegin_def
    binary_writeSetBegin_def binary_writeListBegin_def del: seqM.simps)

section \<open>Reading recovers the layout\<close>

lemma string_buf_ok_grow:
  assumes "string_buf_ok s" and "0 \<le> sint sz"
  shows "string_buf_ok (grow_string_buf sz s) \<and> binary_config (grow_string_buf sz s) = binary_config s
    \<and> trans (grow_string_buf sz s) = trans s
    \<and> (\<exists>b. string_buf (grow_string_buf sz s) = Some b \<and> unat sz \<le> length b)"
proof (cases "string_buf_size s <s sz \<or> string_buf s = None")
  case True
  then show ?thesis using assms
    by (auto simp: grow_string_buf_def string_buf_ok_def binary_config_def Let_def split: option.splits)
next
  case False
  then have "sint sz \<le> sint (string_buf_size s)" by (simp add: word_sless_alt)
  then have "unat sz \<le> unat (string_buf_size s)"
    using assms sint_nonneg(1) [of sz] sint_nonneg(1) [of "string_buf_size s"]
    by (simp add: string_buf_ok_def word_le_nat_alt [symmetric] word_le_def)
  with False assms(1) show ?thesis by (auto simp: grow_string_buf_def string_buf_ok_def)
qed

locale binary_over_source = byte_source T inv inp
  for T :: "'t TTransport" and inv inp +
  fixes cfg :: binary_config
begin

abbreviation R where "R \<equiv> binary_reading inv inp cfg"

lemma onTrans_readAll:
  assumes "r_inv R s" and "r_inp R s = bs @ rest" and "length bs = n"
  obtains s' where "onTrans (readAll_virt T n) s = (Inr bs, s')" "r_inv R s'" "r_inp R s' = rest"
    "string_buf s' = string_buf s"
proof -
  obtain t where "readAll_virt T n (trans s) = (Inr bs, t)" "inv t" "inp t = rest"
    using source_readAll_append [of "trans s" bs rest n] assms by (auto simp: binary_reading_def)
  with assms that [of "s\<lparr>trans := t\<rparr>"] show thesis
    by (auto simp: binary_reading_def onTrans_def liftM_def binary_config_def string_buf_ok_def)
qed

lemma parses_trans:
  assumes "length bs = n" and "f bs = v" and "k = word_of_nat n"
  shows "parses R c (bindM (onTrans (readAll_virt T n)) (\<lambda>b. returnM (f b, k))) bs v c"
  unfolding parses_def
proof (intro allI impI, elim conjE)
  fix s rest assume s: "r_inv R s" "r_inp R s = bs @ rest"
  from onTrans_readAll [OF this assms(1)] obtain s' where
    "onTrans (readAll_virt T n) s = (Inr bs, s')" "r_inv R s'" "r_inp R s' = rest" by metis
  with assms show "\<exists>s'. bindM (onTrans (readAll_virt T n)) (\<lambda>b. returnM (f b, k)) s
      = (Inr (v, word_of_nat (length bs)), s') \<and> r_inv R s' \<and> r_ctl R s' = c \<and> r_inp R s' = rest"
    by (auto simp: bindM_def returnM_def)
qed

lemma parses_readByte: "parses R c (binary_readByte T) [b] b c"
  unfolding binary_readByte_def by (rule parses_trans) simp_all

lemma parses_readBool: "parses R c (binary_readBool T) [if b then 1 else 0] b c"
  unfolding binary_readBool_def by (rule parses_trans) simp_all

lemma parses_readI16: "parses R c (binary_readI16 T) (be16 i) i c"
  unfolding binary_readI16_def by (rule parses_trans) simp_all

lemma parses_readI32: "parses R c (binary_readI32 T) (be32 i) i c"
  unfolding binary_readI32_def by (rule parses_trans) simp_all

lemma parses_readI64: "parses R c (binary_readI64 T) (be64 i) i c"
  unfolding binary_readI64_def by (rule parses_trans) simp_all

lemma parses_readDouble: "parses R c (binary_readDouble T) (be64 i) i c"
  unfolding binary_readDouble_def by (rule parses_trans) simp_all

text \<open>Both ways of reading a string: through the string buffer and by borrowing.\<close>

lemma read_string_buf_ok:
  assumes s: "r_inv R s" and "r_inp R s = str @ rest" and "unat sz = length str" and "0 \<le> sint sz"
  obtains s' where "bindM (modifyM (grow_string_buf sz)) (\<lambda>_. read_string_buf T sz) s = (Inr str, s')"
    "r_inv R s'" "r_inp R s' = rest"
proof -
  let ?g = "grow_string_buf sz s"
  have g: "r_inv R ?g" "r_inp R ?g = str @ rest" and "\<exists>b. string_buf ?g = Some b \<and> unat sz \<le> length b"
    using string_buf_ok_grow [of s sz] assms by (auto simp: binary_reading_def)
  then obtain b where b: "string_buf ?g = Some b" "length str \<le> length b" using assms(3) by auto
  from onTrans_readAll [OF g assms(3) [symmetric]] obtain s' where
    "onTrans (readAll_virt T (unat sz)) ?g = (Inr str, s')" "r_inv R s'" "r_inp R s' = rest"
    "string_buf s' = string_buf ?g" by metis
  with that [of "s'\<lparr>string_buf := Some (memcpy b 0 str)\<rparr>"] b assms(3) show thesis
    by (auto simp: read_string_buf_def monad_simps binary_reading_def binary_config_def
        string_buf_ok_def memcpy_def)
qed

lemma parses_readStringBody:
  assumes "okString (fst cfg) (length str)"
  shows "parses R c (binary_readStringBody T (word_of_nat (length str))) str str c"
  unfolding parses_def
proof (intro allI impI, elim conjE)
  fix s rest assume s: "r_inv R s" "r_inp R s = str @ rest"
  let ?n = "word_of_nat (length str) :: int32_t"
  have n: "unat ?n = length str" "sint ?n = int (length str)" "\<not> ?n <s 0"
    "\<not> (0 <s string_limit s \<and> string_limit s <s ?n)" "(?n = 0) = (str = [])"
    using assms s(1)
    by (auto simp: okString_def unat_of_nat sint_word_of_nat length_not_negative
        length_within_limit binary_reading_def binary_config_def simp flip: unat_eq_zero)
  show "\<exists>s'. binary_readStringBody T ?n s = (Inr (str, ?n), s')
      \<and> r_inv R s' \<and> r_ctl R s' = c \<and> r_inp R s' = rest"
  proof (cases "str = []")
    case True
    with n s show ?thesis
      by (auto simp: binary_readStringBody_def bindM_def getM_def returnM_def)
  next
    case False
    have "inv (trans s)" using s by (simp add: binary_reading_def)
    then show ?thesis
    proof (cases rule: source_borrow_cases [of _ "length str"])
      case (none t)
      then have "r_inv R (s\<lparr>trans := t\<rparr>)" "r_inp R (s\<lparr>trans := t\<rparr>) = str @ rest"
        using s by (auto simp: binary_reading_def binary_config_def string_buf_ok_def)
      from read_string_buf_ok [OF this n(1)] n(2) obtain s' where
        "bindM (modifyM (grow_string_buf ?n)) (\<lambda>_. read_string_buf T ?n) (s\<lparr>trans := t\<rparr>) = (Inr str, s')"
        "r_inv R s'" "r_inp R s' = rest" by auto
      with none(1) n False show ?thesis
        by (auto simp: binary_readStringBody_def bindM_def getM_def onTrans_def liftM_def modifyM_def
            returnM_def split: prod.splits sum.splits)
    next
      case (some bs t)
      obtain t' where t': "consume_virt T (length str) t = (Inr (), t')" "inv t'" "inp t' = rest"
        using some(6) [of "length str"] s by (auto simp: binary_reading_def)
      have "take (length str) bs = str"
        using arg_cong [OF some(5), of "take (length str)"] some(4) s
        by (simp add: binary_reading_def min_def)
      with some(1) n False t' s show ?thesis
        by (auto simp: binary_readStringBody_def bindM_def getM_def onTrans_def liftM_def
            returnM_def binary_reading_def binary_config_def string_buf_ok_def)
    qed
  qed
qed

lemma parses_readString:
  assumes "okString (fst cfg) (length str)"
  shows "parses R c (binary_readString T) (be32 (word_of_nat (length str)) @ str) str c"
  unfolding binary_readString_def
  by (rule parses_bind [OF parses_readI32 parses_readStringBody [OF assms], where g = "\<lambda>x. x"]) simp

lemma parses_readFieldBegin:
  assumes "type \<noteq> T_STOP"
  shows "parses R c (binary_readFieldBegin T) (type # be16 fid) (None, type, fid) c"
proof -
  have "parses R c (binary_readFieldBegin T) ([type] @ be16 fid) (None, type, fid) c"
    unfolding binary_readFieldBegin_def
    by (rule parses_bind [OF parses_readByte parses_readI16, where g = "\<lambda>fid. (None, type, fid)"])
      (use assms in simp)
  then show ?thesis by simp
qed

lemma parses_readFieldStop: "parses R c (binary_readFieldBegin T) [T_STOP] (None, T_STOP, 0) c"
proof -
  have "parses R c (binary_readFieldBegin T) ([T_STOP] @ []) (None, T_STOP, 0) c"
    unfolding binary_readFieldBegin_def
    by (rule parses_bind [OF parses_readByte parses_return [of _ _ "()"],
          where g = "\<lambda>_. (None, T_STOP, 0)"]) simp
  then show ?thesis by simp
qed

text \<open>The checked size at the end of a container header.\<close>

lemma parses_readSize:
  assumes "okContainer (fst (snd cfg)) n"
  shows "parses R c (bindM (binary_readI32 T) (\<lambda>(sizei, r).
    bindM (checkContainerSize sizei) (\<lambda>_. returnM (sizei, r)))) (be32 (word_of_nat n)) (word_of_nat n) c"
proof -
  let ?n = "word_of_nat n :: int32_t"
  have "parses R c (bindM (checkContainerSize ?n) (\<lambda>_. returnM ((), 0))) [] () c"
    using assms unfolding parses_def
    by (auto simp: checkContainerSize_def okContainer_def monad_simps binary_reading_def
        binary_config_def length_not_negative length_within_limit)
  from parses_bind [OF parses_readI32 [of c ?n] this, of "\<lambda>(sizei, r).
    bindM (checkContainerSize sizei) (\<lambda>_. returnM (sizei, r))" "\<lambda>_. ?n"]
  show ?thesis by (simp add: bindM_assoc)
qed

lemma parses_readListBegin:
  assumes "okContainer (fst (snd cfg)) n"
  shows "parses R c (binary_readListBegin T) (e # be32 (word_of_nat n)) (e, word_of_nat n) c"
proof -
  have "parses R c (binary_readListBegin T) ([e] @ be32 (word_of_nat n)) (e, word_of_nat n) c"
    unfolding binary_readListBegin_def
    by (rule parses_bind [OF parses_readByte parses_readSize [OF assms], where g = "\<lambda>n. (e, n)"])
      (simp add: bindM_assoc split_def)
  then show ?thesis by simp
qed

lemma readSetBegin_eq: "binary_readSetBegin T = binary_readListBegin T"
  by (simp add: binary_readSetBegin_def binary_readListBegin_def)

lemma parses_readMapBegin:
  assumes "okContainer (fst (snd cfg)) n"
  shows "parses R c (binary_readMapBegin T) (k # v # be32 (word_of_nat n)) (k, v, word_of_nat n) c"
proof -
  have "parses R c (binary_readMapBegin T) ([k] @ (v # be32 (word_of_nat n))) (k, v, word_of_nat n) c"
    unfolding binary_readMapBegin_def
    by (rule parses_bind [OF parses_readByte parses_readListBegin [OF assms], where g = "\<lambda>x. (k, x)"])
      (simp add: binary_readListBegin_def bindM_assoc split_def add.assoc)
  then show ?thesis by simp
qed

lemma parses_base:
  assumes "is_base v" and "wf_base (okString (fst cfg)) v"
  shows "parses R c (read_base (binary_ops T) bin (ttype_of v)) (binary_base v) (read_as bin v) c"
  using assms
  by (cases v) (auto simp: read_base_def ttype_defs binary_ops_def binary_readBinary_def parses_map
      parses_readBool parses_readByte parses_readI16 parses_readI32 parses_readI64 parses_readDouble
      parses_readString)

end

sublocale binary_over_source \<subseteq> binary_reader: wire_reader binary_wire "\<lambda>c. True" "binary_ops T"
  "binary_reading inv inp cfg" "okString (fst cfg)" "okContainer (fst (snd cfg))"
proof (unfold_locales, goal_cases)
  case (4 c v bin)
  then show ?case using parses_base by (simp add: binary_wire_def)
next
  case (5 c v fid)
  have "readFieldBegin_virt (binary_ops T) = binary_readFieldBegin T" by (simp add: binary_ops_def)
  with 5 show ?case
    by (intro exI [of _ "ttype_of v # be16 fid"] exI [of _ "binary_base v"] exI [of _ c])
      (simp add: binary_wire_def parses_base parses_readFieldBegin valid_tag_not_stop)
next
  case (9 c)
  show ?case using parses_return [of R c "Some []"]
    by (auto simp: binary_wire_def binary_ops_def binary_readStructBegin_def)
next
  case (11 n kt vt c)
  then show ?case using parses_readMapBegin [of n c kt vt] by (auto simp: binary_wire_def binary_ops_def)
qed (simp_all add: binary_wire_def binary_ops_def eats_return parses_readFieldBegin
    parses_readFieldStop valid_tag_not_stop parses_readListBegin readSetBegin_eq parses_base
    okContainer_def)

section \<open>Message headers\<close>

definition binary_message :: "bool \<Rightarrow> byte list \<Rightarrow> TMessageType \<Rightarrow> int32_t \<Rightarrow> byte list" where
  "binary_message strict name messageType seqid =
     (if strict
      then be32 (VERSION_1 OR messageType) @ be32 (word_of_nat (length name)) @ name @ be32 seqid
      else be32 (word_of_nat (length name)) @ name @ [ucast messageType] @ be32 seqid)"

context binary_over_sink
begin

lemma emits_writeMessageBegin:
  assumes "length name < 2 ^ 31"
  shows "emits V c (binary_writeMessageBegin T name messageType seqid)
    (binary_message (snd (snd (snd cfg))) name messageType seqid) c"
proof (cases "snd (snd (snd cfg))")
  case True
  have "emits V c (seqM [binary_writeI32 T (VERSION_1 OR messageType), binary_writeString T name,
      binary_writeI32 T seqid]) (be32 (VERSION_1 OR messageType)
      @ (be32 (word_of_nat (length name)) @ name) @ be32 seqid) c"
    by (rule emits_seq [OF emits_writeI32 emits_seq [OF emits_writeString [OF assms]
            emits_last [OF emits_writeI32]]])
  with True show ?thesis
    by (auto simp: emits_def binary_writeMessageBegin_def binary_message_def binary_writing_def
        binary_config_def simp del: seqM.simps)
next
  case False
  have "emits V c (seqM [binary_writeString T name, binary_writeByte T (ucast messageType),
      binary_writeI32 T seqid]) ((be32 (word_of_nat (length name)) @ name)
      @ [ucast messageType] @ be32 seqid) c"
    by (rule emits_seq [OF emits_writeString [OF assms] emits_seq [OF emits_writeByte
            emits_last [OF emits_writeI32]]])
  with False show ?thesis
    by (auto simp: emits_def binary_writeMessageBegin_def binary_message_def binary_writing_def
        binary_config_def simp del: seqM.simps)
qed

end

text \<open>The version word: negative, with the version in its upper half and the type in its lowest byte.\<close>

lemma version_word:
  assumes "valid_message_type messageType"
  shows "(VERSION_1 OR messageType) <s 0" and "(VERSION_1 OR messageType) AND VERSION_MASK = VERSION_1"
    and "(VERSION_1 OR messageType) AND 0xff = messageType"
  using assms by (auto simp: message_type_defs VERSION_1_def VERSION_MASK_def word_sless_alt)

lemma message_type_byte:
  "valid_message_type messageType \<Longrightarrow> scast (ucast messageType :: int8_t) = messageType"
  by (auto simp: message_type_defs)

context binary_over_source
begin

lemma parses_readMessageBegin_strict:
  assumes "valid_message_type messageType" and "okString (fst cfg) (length name)"
  shows "parses R c (binary_readMessageBegin T) (binary_message True name messageType seqid)
    (name, messageType, seqid) c"
proof -
  have "parses R c (bindM (binary_readString T) (\<lambda>(name, r2).
      bindM (binary_readI32 T) (\<lambda>(seqid, r3). returnM ((name, seqid), r2 + r3))))
      ((be32 (word_of_nat (length name)) @ name) @ be32 seqid) (name, seqid) c"
    by (rule parses_bind [OF parses_readString [OF assms(2)] parses_readI32, where g = "\<lambda>x. (name, x)"])
      simp
  from parses_bind [OF parses_readI32 [of c "VERSION_1 OR messageType"] this,
      where g = "\<lambda>(nm, sq). (nm, messageType, sq)"]
  show ?thesis using version_word [OF assms(1)]
    by (simp add: binary_readMessageBegin_def binary_message_def bindM_assoc split_def add.assoc)
qed

lemma parses_readMessageBegin_unversioned:
  assumes "valid_message_type messageType" and "okString (fst cfg) (length name)"
    and "\<not> fst (snd (snd cfg))"
  shows "parses R c (binary_readMessageBegin T) (binary_message False name messageType seqid)
    (name, messageType, seqid) c"
proof -
  let ?n = "word_of_nat (length name) :: int32_t"
  let ?m2 = "bindM (binary_readStringBody T ?n) (\<lambda>(name, r2).
      bindM (binary_readByte T) (\<lambda>(type, r3). bindM (binary_readI32 T) (\<lambda>(seqid, r4).
      returnM ((name, scast type :: TMessageType, seqid), r2 + r3 + r4))))"
  have "parses R c (bindM (binary_readByte T) (\<lambda>(type, r3). bindM (binary_readI32 T) (\<lambda>(seqid, r4).
      returnM ((scast type :: TMessageType, seqid), r3 + r4))))
      ([ucast messageType] @ be32 seqid) (messageType, seqid) c"
    by (rule parses_bind [OF parses_readByte parses_readI32, where g = "\<lambda>x. (messageType, x)"])
      (use assms in \<open>simp add: message_type_byte\<close>)
  from parses_bind [OF parses_readStringBody [OF assms(2)] this, where g = "\<lambda>x. (name, x)"
      and f = "\<lambda>(name, r2). bindM (binary_readByte T) (\<lambda>(type, r3).
      bindM (binary_readI32 T) (\<lambda>(seqid, r4).
      returnM ((name, scast type :: TMessageType, seqid), r2 + r3 + r4)))"]
  have "parses R c ?m2 (name @ [ucast messageType] @ be32 seqid) (name, messageType, seqid) c"
    by (simp add: bindM_assoc split_def add.assoc)
  then have "parses R c (bindM (getM strict_read) (\<lambda>strict.
      if strict then throwM (TProtocolException BAD_VERSION) else ?m2))
      (name @ [ucast messageType] @ be32 seqid) (name, messageType, seqid) c"
    using assms(3)
    by (auto simp: parses_def bindM_def getM_def binary_reading_def binary_config_def)
  from parses_bind [OF parses_readI32 [of c ?n] this, where g = "\<lambda>x. x"]
  show ?thesis using assms(2) length_not_negative [of "length name"]
    by (auto simp: binary_readMessageBegin_def binary_message_def bindM_assoc split_def add.assoc
        okString_def if_distrib [of "\<lambda>m. bindM m _"] cong: if_cong)
qed

end

section \<open>Over a memory buffer\<close>

interpretation binary_memory: binary_over_source memory_ops memory_inv unread cfg for cfg
  by unfold_locales

interpretation binary_memory_out: binary_over_sink memory_ops "\<lambda>s. memory_inv s \<and> owner s" unread
  "\<lambda>s. 2 ^ 31 - wBase s" cfg for cfg
  by unfold_locales

section \<open>Properties\<close>

text \<open>The state a protocol over a memory buffer has to be in.\<close>

definition binary_ready :: "TMemoryBuffer TBinaryProtocol \<Rightarrow> bool" where
  "binary_ready s \<longleftrightarrow> memory_inv (trans s) \<and> owner (trans s) \<and> string_buf_ok s"

lemma binary_ready_new:
  "sz < 2 ^ 32 \<Longrightarrow> binary_ready (newTBinaryProtocol_limits (newTMemoryBuffer sz) slim clim sr sw)"
  using memory_reachable_inv [OF memory_reachable.new, of sz]
  by (auto simp: binary_ready_def newTBinaryProtocol_limits_def string_buf_ok_def newTMemoryBuffer_def
      initCommon_def)

abbreviation binary_bytes :: "tval \<Rightarrow> byte list" where
  "binary_bytes \<equiv> enc_value binary_wire ()"

text \<open>The lengths both sides accept.\<close>

abbreviation binary_wf :: "'t TBinaryProtocol \<Rightarrow> tval \<Rightarrow> bool" where
  "binary_wf s \<equiv> wf_value (okString (string_limit s)) (okContainer (container_limit s))"

lemma binary_write_memory:
  assumes "binary_ready s" and "wf_value (okString 0) (okContainer 0) v"
    and "wBase (trans s) + length (binary_bytes v) \<le> 2 ^ 31"
  obtains s' where
    "write_value (binary_ops memory_ops) v s = (Inr (word_of_nat (length (binary_bytes v))), s')"
    "unread (trans s') = unread (trans s) @ binary_bytes v" "binary_ready s'"
    "binary_config s' = binary_config s"
proof -
  have "length (binary_bytes v) \<le> 2 ^ 31 - wBase (trans s)" using assms(3) by simp
  with binary_memory_out.binary_writer.write_value_emits [where v = v and c = "()" and cfg = "binary_config s"] assms(1,2) that
  show thesis by (auto simp: emits_def binary_writing_def binary_ready_def)
qed

lemma binary_parses_memory:
  assumes "parses (binary_reading memory_inv unread cfg) () m bs v ()" and "binary_ready s"
    and "binary_config s = cfg" and "unread (trans s) = bs @ rest"
  shows "\<exists>s'. m s = (Inr (v, word_of_nat (length bs)), s') \<and> unread (trans s') = rest"
  using assms by (auto simp: parses_def binary_reading_def binary_ready_def)

lemma binary_wf_unlimited: "binary_wf s v \<Longrightarrow> wf_value (okString 0) (okContainer 0) v"
  by (rule wf_value_mono) (auto simp: okString_def okContainer_def)

text \<open>
  C31. The generated writer over the binary protocol appends exactly the specified encoding of
  the value to the transport and returns its length.
\<close>

theorem binary_write_layout:
  assumes "binary_ready s" and "wf_value (okString 0) (okContainer 0) v"
    and "wBase (trans s) + length (binary_bytes v) \<le> 2 ^ 31"
  shows "\<exists>s'. write_value (binary_ops memory_ops) v s = (Inr (word_of_nat (length (binary_bytes v))), s')
    \<and> unread (trans s') = unread (trans s) @ binary_bytes v"
  using binary_write_memory [OF assms] by metis

text \<open>A struct with an i32 field, a string field and a list field.\<close>

definition sample :: tval where
  "sample = VStruct [] [(([97], 1), VI32 258), (([98], 2), VString [104, 105]),
     (([99], 3), VList T_BOOL [VBool True, VBool False])]"

definition sample_type :: t_type where
  "sample_type = TyStruct [] [(([97], 1, T_REQUIRED), TyI32), (([98], 2, T_OPTIONAL), TyString),
     (([99], 3, T_OPT_IN_REQ_OUT), TyList TyBool)]"

lemma binary_bytes_sample:
  "binary_bytes sample = [8, 0, 1, 0, 0, 1, 2, 11, 0, 2, 0, 0, 0, 2, 104, 105,
     15, 0, 3, 2, 0, 0, 0, 2, 1, 0, 0]"
  by (simp add: sample_def binary_wire_def be16_def mem16_def be32_def mem32_def ttype_defs
      drop_bit_eq_div)

lemma binary_wf_sample: "wf_value (okString 0) (okContainer 0) sample"
  by (simp add: sample_def okString_def okContainer_def valid_tag_def)

lemma sample_ready:
  "binary_ready (newTBinaryProtocol (newTMemoryBuffer 8))"
  "unread (trans (newTBinaryProtocol (newTMemoryBuffer 8))) = []"
  "wBase (trans (newTBinaryProtocol (newTMemoryBuffer 8))) = 0"
  "string_limit (newTBinaryProtocol (newTMemoryBuffer 8)) = 0"
  "container_limit (newTBinaryProtocol (newTMemoryBuffer 8)) = 0"
  using binary_ready_new [of 8]
  by (simp_all add: newTBinaryProtocol_def newTBinaryProtocol_limits_def newTMemoryBuffer_def
      initCommon_def unread_def)

theorem binary_write_layout_witness:
  "\<exists>s'. write_value (binary_ops memory_ops) sample (newTBinaryProtocol (newTMemoryBuffer 8)) = (Inr 27, s')
    \<and> unread (trans s') = [8, 0, 1, 0, 0, 1, 2, 11, 0, 2, 0, 0, 0, 2, 104, 105,
       15, 0, 3, 2, 0, 0, 0, 2, 1, 0, 0]"
  using binary_write_layout [OF sample_ready(1) binary_wf_sample] sample_ready(2,3)
  by (simp add: binary_bytes_sample)

text \<open>
  C2. Round trip: the generated reader of the same schema reads back the value that was
  written, reports the same number of bytes and leaves nothing behind.
\<close>

theorem binary_roundtrip:
  assumes "binary_ready s" and "unread (trans s) = []" and "binary_wf s v" and "conforms ty v"
    and "wBase (trans s) + length (binary_bytes v) \<le> 2 ^ 31" and "size v + 2 \<le> fuel"
  shows "\<exists>n s' s''. write_value (binary_ops memory_ops) v s = (Inr n, s')
    \<and> read_type fuel (binary_ops memory_ops) ty s' = (Inr (v, n), s'') \<and> unread (trans s'') = []"
proof -
  obtain s' where s': "write_value (binary_ops memory_ops) v s = (Inr (word_of_nat (length (binary_bytes v))), s')"
    "unread (trans s') = binary_bytes v" "binary_ready s'" "binary_config s' = binary_config s"
    using binary_write_memory [OF assms(1) binary_wf_unlimited [OF assms(3)] assms(5)] assms(2) by auto
  have "parses (binary_reading memory_inv unread (binary_config s)) ()
      (read_type fuel (binary_ops memory_ops) ty) (binary_bytes v) v ()"
    using binary_memory.binary_reader.read_type_parses [where cur = None and v = v and c = "()" and cfg = "binary_config s" and ty = ty and fuel = fuel]
      conforms_project [OF assms(4)] assms(3,6) by (simp add: binary_config_def)
  from binary_parses_memory [OF this s'(3,4), of "[]"] s'(1,2) show ?thesis by auto
qed

lemma sample_conforms: "conforms sample_type sample"
  by (simp add: sample_type_def sample_def find_field_def required_set_def)

theorem binary_roundtrip_witness:
  "\<exists>n s' s''. write_value (binary_ops memory_ops) sample (newTBinaryProtocol (newTMemoryBuffer 8)) = (Inr n, s')
    \<and> read_type 100 (binary_ops memory_ops) sample_type s' = (Inr (sample, n), s'') \<and> unread (trans s'') = []"
  using binary_roundtrip [OF sample_ready(1,2) _ sample_conforms, of 100] binary_wf_sample sample_ready(3-5)
  by (simp add: binary_bytes_sample) (simp add: sample_def)

text \<open>
  C14. Schema evolution: a reader with another schema gets the projection of the value to it.
  Fields it does not know, or knows with another type, are skipped, nested ones too; a field or a map
  key that occurs again is read into what is already there. The value must fit the schema of the
  reader: the required members are there, and inside the fields it knows with their types the
  containers and structs have the shape it expects (\<open>fits\<close>).
\<close>

theorem binary_schema_evolution:
  assumes "binary_ready s" and "unread (trans s) = binary_bytes v @ rest" and "binary_wf s v"
    and "fits ty v" and "size v + 2 \<le> fuel"
  shows "\<exists>s'. read_type fuel (binary_ops memory_ops) ty s
      = (Inr (project ty v, word_of_nat (length (binary_bytes v))), s') \<and> unread (trans s') = rest"
proof -
  have "parses (binary_reading memory_inv unread (binary_config s)) ()
      (read_type fuel (binary_ops memory_ops) ty) (binary_bytes v) (project ty v) ()"
    using binary_memory.binary_reader.read_type_parses [where cur = None and v = v and c = "()" and cfg = "binary_config s" and ty = ty and fuel = fuel] assms(3-5)
    by (simp add: binary_config_def)
  from binary_parses_memory [OF this assms(1) refl assms(2)] show ?thesis .
qed

text \<open>A protocol whose buffer holds the sample, and a newer schema that dropped one field and retyped another.\<close>

definition sample_input :: "TMemoryBuffer TBinaryProtocol" where
  "sample_input = newTBinaryProtocol (initCommon (Some (binary_bytes sample)) 27 True 27)"

lemma sample_input_ready:
  "binary_ready sample_input" "unread (trans sample_input) = binary_bytes sample"
  "string_limit sample_input = 0" "container_limit sample_input = 0"
  using memory_inv_init [of 27 27 "Some (binary_bytes sample)" True]
  by (simp_all add: sample_input_def newTBinaryProtocol_def newTBinaryProtocol_limits_def
      binary_ready_def string_buf_ok_def binary_bytes_sample initCommon_def unread_def mslice_def)

definition newer_type :: t_type where
  "newer_type = TyStruct [] [(([98], 2, T_REQUIRED), TyString), (([99], 3, T_OPTIONAL), TyI64)]"

theorem binary_schema_evolution_witness:
  "\<exists>s'. read_type 100 (binary_ops memory_ops) newer_type sample_input
      = (Inr (VStruct [] [(([98], 2), VString [104, 105])], 27), s') \<and> unread (trans s') = []"
proof -
  have "fits newer_type sample" "project newer_type sample = VStruct [] [(([98], 2), VString [104, 105])]"
    by (simp_all add: newer_type_def sample_def find_field_def required_set_def overlay_def ttype_defs)
  moreover have "size sample + 2 \<le> 100" by (simp add: sample_def)
  ultimately show ?thesis
    using binary_schema_evolution [of sample_input sample "[]" newer_type 100] sample_input_ready binary_wf_sample
    by (simp add: binary_bytes_sample)
qed

text \<open>
  C17. A struct in which a required member of the reader's schema does not occur, or occurs only with
  another type than the schema gives it, is read to its end and then refused with \<open>INVALID_DATA\<close>.
  (As in C14, the members that the reader knows with their types fit its schema.)
\<close>

theorem binary_required_field_missing:
  assumes "binary_ready s" and "unread (trans s) = binary_bytes (VStruct nm' fs) @ rest"
    and "binary_wf s (VStruct nm' fs)" and "fits_fields flds fs"
    and "find_field key flds = Some ((fname, key, T_REQUIRED), ty)"
    and "\<forall>n v. ((n, key), v) \<in> set fs \<longrightarrow> ttype_of v \<noteq> type_to_enum ty"
    and "size (VStruct nm' fs) + 2 \<le> fuel"
  shows "\<exists>s'. read_type fuel (binary_ops memory_ops) (TyStruct nm flds) s
      = (Inl (TProtocolException INVALID_DATA), s') \<and> unread (trans s') = rest"
proof -
  have "wf_fields (okString (string_limit s)) (okContainer (container_limit s)) fs" using assms(3) by simp
  with binary_memory.binary_reader.missing_required [where cfg = "binary_config s" and c = "()" and s = s and nm = nm and nm' = nm'
      and fs = fs and flds = flds and fuel = fuel and rest = rest]
    assms(1,2,4,7) required_missing [OF assms(5,6)]
  show ?thesis by (auto simp: binary_config_def binary_reading_def binary_ready_def)
qed

text \<open>Field 1 of the sample is an \<^verbatim>\<open>i32\<close>; a reader that requires it as an \<^verbatim>\<open>i64\<close> refuses the sample.\<close>

theorem binary_required_field_missing_witness:
  "\<exists>s'. read_type 100 (binary_ops memory_ops)
      (TyStruct [] [(([97], 1, T_REQUIRED), TyI64), (([98], 2, T_OPTIONAL), TyString)]) sample_input
      = (Inl (TProtocolException INVALID_DATA), s') \<and> unread (trans s') = []"
proof -
  let ?flds = "[(([97], 1, T_REQUIRED), TyI64), (([98], 2, T_OPTIONAL), TyString)]"
  let ?fs = "[(([97], 1), VI32 258), (([98], 2), VString [104, 105]), (([99], 3), VList T_BOOL [VBool True, VBool False])]"
  have sample: "VStruct [] ?fs = sample" by (simp add: sample_def)
  show ?thesis
  proof (rule binary_required_field_missing [where flds = ?flds and fs = ?fs and nm' = "[]" and rest = "[]"
        and key = 1 and fname = "[97]" and ty = TyI64])
    show "unread (trans sample_input) = binary_bytes (VStruct [] ?fs) @ []"
      unfolding sample using sample_input_ready(2) by simp
    show "binary_wf sample_input (VStruct [] ?fs)" unfolding sample using binary_wf_sample sample_input_ready(3,4) by simp
  qed (use sample_input_ready(1) in \<open>simp_all add: find_field_def ttype_defs\<close>)
qed

text \<open>
  C15. \<open>skip\<close> terminates on every well-formed value and consumes exactly its bytes, however deeply
  it is nested.
\<close>

theorem binary_skip_exact:
  assumes "binary_ready s" and "unread (trans s) = binary_bytes v @ rest" and "binary_wf s v"
    and "size v + 2 \<le> fuel"
  shows "\<exists>s'. skip fuel (binary_ops memory_ops) (ttype_of v) s
      = (Inr (word_of_nat (length (binary_bytes v))), s') \<and> unread (trans s') = rest"
proof -
  have "eats (binary_reading memory_inv unread (binary_config s)) ()
      (skip fuel (binary_ops memory_ops) (ttype_of v)) (binary_bytes v) ()"
    using binary_memory.binary_reader.skip_value_eats [where v = v and c = "()" and cfg = "binary_config s" and fuel = fuel] assms(3,4)
    by (simp add: binary_config_def)
  with assms(1,2) show ?thesis by (auto simp: eats_def binary_reading_def binary_ready_def)
qed

theorem binary_skip_exact_witness:
  "\<exists>s'. skip 100 (binary_ops memory_ops) T_STRUCT sample_input = (Inr 27, s') \<and> unread (trans s') = []"
  using binary_skip_exact [of sample_input sample "[]" 100] sample_input_ready binary_wf_sample
  by (simp add: binary_bytes_sample) (simp add: sample_def)

text \<open>
  C19. Message headers round trip: whatever the writer's strictness, a reader that accepts it
  recovers the name, the message type and the sequence id.
\<close>

theorem binary_message_roundtrip:
  assumes "binary_ready s" and "unread (trans s) = []" and "valid_message_type messageType"
    and "okString (string_limit s) (length name)" and "strict_write s \<or> \<not> strict_read s"
    and "wBase (trans s) + length name + 12 \<le> 2 ^ 31"
  shows "\<exists>n s' s''. binary_writeMessageBegin memory_ops name messageType seqid s = (Inr n, s')
    \<and> binary_readMessageBegin memory_ops s' = (Inr ((name, messageType, seqid), n), s'')
    \<and> unread (trans s'') = []"
proof -
  let ?bs = "binary_message (strict_write s) name messageType seqid"
  have len: "length ?bs \<le> 2 ^ 31 - wBase (trans s)" using assms(6) by (auto simp: binary_message_def)
  have "emits (binary_writing (\<lambda>s. memory_inv s \<and> owner s) unread (\<lambda>s. 2 ^ 31 - wBase s) (binary_config s)) ()
      (binary_writeMessageBegin memory_ops name messageType seqid) ?bs ()"
    using binary_memory_out.emits_writeMessageBegin [where name = name and c = "()" and cfg = "binary_config s" and messageType = messageType and seqid = seqid] assms(4)
    by (simp add: okString_def binary_config_def)
  with assms(1,2) len obtain s' where s':
    "binary_writeMessageBegin memory_ops name messageType seqid s = (Inr (word_of_nat (length ?bs)), s')"
    "unread (trans s') = ?bs" "binary_ready s'" "binary_config s' = binary_config s"
    by (auto simp: emits_def binary_writing_def binary_ready_def)
  have "parses (binary_reading memory_inv unread (binary_config s)) () (binary_readMessageBegin memory_ops)
      ?bs (name, messageType, seqid) ()"
    using binary_memory.parses_readMessageBegin_strict [OF assms(3), where cfg = "binary_config s" and name = name and c = "()" and seqid = seqid]
      binary_memory.parses_readMessageBegin_unversioned [OF assms(3), where cfg = "binary_config s" and name = name and c = "()" and seqid = seqid] assms(4,5)
    by (cases "strict_write s") (auto simp: binary_config_def)
  from binary_parses_memory [OF this s'(3,4), of "[]"] s'(1,2) show ?thesis by auto
qed

theorem binary_message_roundtrip_witness:
  "\<exists>n s' s''. binary_writeMessageBegin memory_ops [112] T_CALL 7 (newTBinaryProtocol (newTMemoryBuffer 8)) = (Inr n, s')
    \<and> binary_readMessageBegin memory_ops s' = (Inr (([112], T_CALL, 7), n), s'') \<and> unread (trans s'') = []"
  using binary_message_roundtrip [OF sample_ready(1,2), of T_CALL "[112]" 7] sample_ready(3,4)
  by (simp add: valid_message_type_def okString_def newTBinaryProtocol_def newTBinaryProtocol_limits_def)

text \<open>Reading the four bytes of an integer, whatever they mean.\<close>

lemma readI32_memory:
  assumes "binary_ready s" and "unread (trans s) = be32 i @ rest"
  obtains s' where "binary_readI32 memory_ops s = (Inr (i, 4), s')" "unread (trans s') = rest"
    "binary_config s' = binary_config s" "binary_ready s'"
proof -
  from binary_memory.parses_readI32 [where cfg = "binary_config s" and c = "()" and i = i] assms
  obtain s' where "binary_readI32 memory_ops s = (Inr (i, 4), s')" "unread (trans s') = rest"
    "binary_config s' = binary_config s" "memory_inv (trans s')" "string_buf_ok s'"
    by (force simp: parses_def binary_reading_def binary_ready_def)
  moreover have "owner (trans s')"
  proof -
    obtain r t where t: "memory_readAll 4 (trans s) = (r, t)" by (cases "memory_readAll 4 (trans s)")
    have "owner t = owner (trans s)"
      using readAll_loop_state [of "trans s" 4 "[]"] assms(1) t
      by (auto simp: memory_readAll_def buffer_readAll_def readAll_def memory_read_def Let_def
          binary_ready_def split: if_splits)
    moreover have "trans s' = t"
      using calculation(1) \<open>binary_readI32 memory_ops s = (Inr (i, 4), s')\<close> t
      by (auto simp: binary_readI32_def onTrans_def monad_simps memory_ops_def split: sum.splits)
    ultimately show ?thesis using assms(1) by (simp add: binary_ready_def)
  qed
  ultimately show thesis using that by (auto simp: binary_ready_def)
qed

text \<open>
  C35. A string length that is negative or above the configured limit is rejected with the
  matching exception before any memory is allocated (the string buffer keeps its size and
  contents) or any byte of the string is read.
\<close>

theorem binary_string_size_checked:
  assumes "binary_ready s" and "unread (trans s) = be32 sz @ rest"
    and "sz <s 0 \<or> (0 <s string_limit s \<and> string_limit s <s sz)"
  shows "\<exists>s'. binary_readString memory_ops s
      = (Inl (TProtocolException (if sz <s 0 then NEGATIVE_SIZE else SIZE_LIMIT)), s')
    \<and> unread (trans s') = rest \<and> string_buf s' = string_buf s \<and> string_buf_size s' = string_buf_size s"
proof -
  obtain s' where s': "binary_readI32 memory_ops s = (Inr (sz, 4), s')" "unread (trans s') = rest"
    "binary_config s' = binary_config s"
    using readI32_memory [OF assms(1,2)] by metis
  moreover have "string_buf s' = string_buf s \<and> string_buf_size s' = string_buf_size s"
    using s'(1) by (auto simp: binary_readI32_def monad_simps onTrans_def split: prod.splits sum.splits)
  ultimately show ?thesis using assms(3)
    by (auto simp: binary_readString_def binary_readStringBody_def monad_simps binary_config_def)
qed

theorem binary_string_size_checked_witness:
  "\<exists>s'. binary_readString memory_ops
      (newTBinaryProtocol_limits (initCommon (Some [0, 0, 0, 9, 65]) 5 True 5) 8 0 True True)
      = (Inl (TProtocolException SIZE_LIMIT), s') \<and> unread (trans s') = [65]"
proof -
  let ?s = "newTBinaryProtocol_limits (initCommon (Some [0, 0, 0, 9, 65]) 5 True 5) 8 0 True True"
  have "binary_ready ?s" using memory_inv_init [of 5 5 "Some [0, 0, 0, 9, 65]" True]
    by (simp add: binary_ready_def newTBinaryProtocol_limits_def string_buf_ok_def initCommon_def)
  moreover have "unread (trans ?s) = be32 9 @ [65]"
    by (simp add: newTBinaryProtocol_limits_def unread_def initCommon_def mslice_def be32_def mem32_def)
  moreover have "0 <s string_limit ?s \<and> string_limit ?s <s 9"
    by (simp add: newTBinaryProtocol_limits_def word_sless_alt)
  ultimately show ?thesis using binary_string_size_checked [of ?s 9 "[65]"]
    by (auto simp: word_sless_alt)
qed

text \<open>
  C36. A reader accepts a message header only if its first word carries the version, or is a
  name length and the reader is not strict; every other first word is \<open>BAD_VERSION\<close>.
\<close>

theorem binary_version_checked:
  assumes "binary_ready s" and "unread (trans s) = be32 w @ rest"
    and "if w <s 0 then w AND VERSION_MASK \<noteq> VERSION_1 else strict_read s"
  shows "\<exists>s'. binary_readMessageBegin memory_ops s = (Inl (TProtocolException BAD_VERSION), s')
    \<and> unread (trans s') = rest"
proof -
  obtain s' where s': "binary_readI32 memory_ops s = (Inr (w, 4), s')" "unread (trans s') = rest"
    "binary_config s' = binary_config s"
    using readI32_memory [OF assms(1,2)] by metis
  then show ?thesis using assms(3)
    by (auto simp: binary_readMessageBegin_def monad_simps binary_config_def Let_def split: if_splits)
qed

theorem binary_version_checked_witness:
  "\<exists>s'. binary_readMessageBegin memory_ops
      (newTBinaryProtocol (initCommon (Some [0x80, 2, 0, 1]) 4 True 4))
      = (Inl (TProtocolException BAD_VERSION), s') \<and> unread (trans s') = []"
proof -
  let ?s = "newTBinaryProtocol (initCommon (Some [0x80, 2, 0, 1]) 4 True 4)"
  have "binary_ready ?s" using memory_inv_init [of 4 4 "Some [0x80, 2, 0, 1]" True]
    by (simp add: binary_ready_def newTBinaryProtocol_def newTBinaryProtocol_limits_def
        string_buf_ok_def initCommon_def)
  moreover have "unread (trans ?s) = be32 0x80020001 @ []"
    by (simp add: newTBinaryProtocol_def newTBinaryProtocol_limits_def unread_def initCommon_def
        mslice_def be32_def mem32_def drop_bit_eq_div)
  ultimately show ?thesis using binary_version_checked [of ?s "0x80020001" "[]"]
    by (simp add: VERSION_MASK_def VERSION_1_def word_sless_alt)
qed

end
