(* ===== verification/PipedTransport.thy ===== *)
theory PipedTransport
  imports MemoryBuffer
begin

text \<open>
  \<^verbatim>\<open>TNullTransport\<close> and \<^verbatim>\<open>TPipedTransport\<close> (\<^verbatim>\<open>transport/TTransportUtils.h/.cpp\<close>). The piped transport
  keeps what is read through it until \<open>readEnd\<close> and then copies it to a second transport, usually a
  log. The theory shows that it is a \<open>reader\<close> again, that exactly the bytes read reach the second
  transport and that nothing that was read ahead is lost, and where its buffers fail.
\<close>

section \<open>The null transport\<close>

text \<open>It has no state; what it does not define is inherited from the base class.\<close>

definition null_write :: "byte list \<Rightarrow> (unit, unit) M" where
  "null_write buf = returnM ()"

definition null_ops :: "unit TTransport" where
  "null_ops = \<lparr>isOpen_virt = (\<lambda>_. True), peek_virt = getM (\<lambda>_. True), open_virt = returnM (),
     close_virt = base_close, read_virt = base_read_virt, readAll_virt = readAll base_read_virt,
     readEnd_virt = base_readEnd, write_virt = null_write, writeEnd_virt = base_writeEnd,
     flush_virt = base_flush, borrow_virt = base_borrow_virt, consume_virt = base_consume_virt\<rparr>"

section \<open>The piped transport\<close>

text \<open>
  The sizes \<^verbatim>\<open>rBufSize_\<close> and \<^verbatim>\<open>wBufSize_\<close> are the lengths of the buffers. \<open>pipeOnRead\<close> and
  \<open>pipeOnWrite\<close> are \<open>None\<close> while they are uninitialised.
\<close>

record ('u, 'd) TPipedTransport =
  srcTrans :: 'u
  dstTrans :: 'd
  pipedRBuf :: "byte list"
  pipedRPos :: nat
  pipedRLen :: nat
  pipedWBuf :: "byte list"
  pipedWLen :: nat
  pipeOnRead :: "bool option"
  pipeOnWrite :: "bool option"

definition onSrc :: "('u, 'a) M \<Rightarrow> (('u, 'd) TPipedTransport, 'a) M" where
  "onSrc = liftM srcTrans (\<lambda>u. srcTrans_update (\<lambda>_. u))"

definition onDst :: "('d, 'a) M \<Rightarrow> (('u, 'd) TPipedTransport, 'a) M" where
  "onDst = liftM dstTrans (\<lambda>d. dstTrans_update (\<lambda>_. d))"

definition newTPipedTransport :: "'u \<Rightarrow> 'd \<Rightarrow> ('u, 'd) TPipedTransport" where
  "newTPipedTransport src dst =
     \<lparr>srcTrans = src, dstTrans = dst, pipedRBuf = replicate 512 0, pipedRPos = 0, pipedRLen = 0,
      pipedWBuf = replicate 512 0, pipedWLen = 0, pipeOnRead = Some True, pipeOnWrite = Some False\<rparr>"

text \<open>The constructor with a size does not set the two flags.\<close>

definition newTPipedTransport_size :: "'u \<Rightarrow> 'd \<Rightarrow> nat \<Rightarrow> ('u, 'd) TPipedTransport" where
  "newTPipedTransport_size src dst sz =
     \<lparr>srcTrans = src, dstTrans = dst, pipedRBuf = replicate 512 0, pipedRPos = 0, pipedRLen = 0,
      pipedWBuf = replicate sz 0, pipedWLen = 0, pipeOnRead = None, pipeOnWrite = None\<rparr>"

definition setPipeOnRead :: "bool \<Rightarrow> (('u, 'd) TPipedTransport, unit) M" where
  "setPipeOnRead b = modifyM (\<lambda>s. s\<lparr>pipeOnRead := Some b\<rparr>)"

definition setPipeOnWrite :: "bool \<Rightarrow> (('u, 'd) TPipedTransport, unit) M" where
  "setPipeOnWrite b = modifyM (\<lambda>s. s\<lparr>pipeOnWrite := Some b\<rparr>)"

text \<open>Testing an uninitialised flag is undefined behaviour.\<close>

definition testFlag :: "('s \<Rightarrow> bool option) \<Rightarrow> ('s, bool) M" where
  "testFlag f s = (case f s of None \<Rightarrow> (Inl UndefinedBehaviour, s) | Some b \<Rightarrow> (Inr b, s))"

text \<open>
  Both \<open>read\<close> and \<open>peek\<close> double the read buffer if it is full and then read into it, at the end of
  what it holds. The doubled size is a \<^verbatim>\<open>uint32_t\<close>: if it wraps around to 0, the buffer is gone and
  the read goes through a null pointer.
\<close>

definition piped_fill :: "'u TTransport \<Rightarrow> (('u, 'd) TPipedTransport, unit) M" where
  "piped_fill U =
     bindM (getM (\<lambda>s. (pipedRLen s = length (pipedRBuf s), u32 (length (pipedRBuf s) * 2)))) (\<lambda>(full, newSize).
     if full \<and> newSize < 2 then throwM UndefinedBehaviour
     else bindM (if full
       then modifyM (\<lambda>s. s\<lparr>pipedRBuf := pipedRBuf s @ replicate (newSize - length (pipedRBuf s)) 0\<rparr>)
       else returnM ()) (\<lambda>_.
     bindM (getM (\<lambda>s. length (pipedRBuf s) - pipedRPos s)) (\<lambda>room.
     bindM (onSrc (read_virt U room)) (\<lambda>bs.
     modifyM (\<lambda>s. s\<lparr>pipedRBuf := memcpy (pipedRBuf s) (pipedRPos s) bs,
       pipedRLen := pipedRLen s + length bs\<rparr>)))))"

definition piped_give :: "nat \<Rightarrow> (('u, 'd) TPipedTransport, byte list) M" where
  "piped_give need s =
     (let give = min (pipedRLen s - pipedRPos s) need in
      (Inr (mslice (pipedRBuf s) (pipedRPos s) give), s\<lparr>pipedRPos := pipedRPos s + give\<rparr>))"

definition piped_read :: "'u TTransport \<Rightarrow> nat \<Rightarrow> (('u, 'd) TPipedTransport, byte list) M" where
  "piped_read U len =
     bindM (getM (\<lambda>s. pipedRLen s - pipedRPos s)) (\<lambda>have.
     if have < len
     then bindM (piped_give have) (\<lambda>copied.
          bindM (piped_fill U) (\<lambda>_.
          bindM (piped_give (len - have)) (\<lambda>more. returnM (copied @ more))))
     else piped_give len)"

definition piped_peek :: "'u TTransport \<Rightarrow> (('u, 'd) TPipedTransport, bool) M" where
  "piped_peek U =
     bindM (getM (\<lambda>s. pipedRPos s \<ge> pipedRLen s)) (\<lambda>empty.
     bindM (if empty then piped_fill U else returnM ()) (\<lambda>_.
     getM (\<lambda>s. pipedRLen s > pipedRPos s)))"

text \<open>
  \<open>readEnd\<close> moves the data that was read ahead down with \<^verbatim>\<open>memcpy\<close>, which is undefined if source and
  destination overlap.
\<close>

definition piped_readEnd :: "'u TTransport \<Rightarrow> 'd TTransport \<Rightarrow> (('u, 'd) TPipedTransport, uint32_t) M" where
  "piped_readEnd U V =
     bindM (testFlag pipeOnRead) (\<lambda>pipe.
     bindM (if pipe
       then bindM (getM (\<lambda>s. mslice (pipedRBuf s) 0 (pipedRPos s))) (\<lambda>bs.
            bindM (onDst (write_virt V bs)) (\<lambda>_. onDst (flush_virt V)))
       else returnM ()) (\<lambda>_.
     bindM (onSrc (readEnd_virt U)) (\<lambda>_.
     bindM (getM (\<lambda>s. (pipedRLen s - pipedRPos s, pipedRPos s))) (\<lambda>(read_ahead, bytes).
     if read_ahead > bytes then throwM UndefinedBehaviour
     else bindM (modifyM (\<lambda>s. s\<lparr>pipedRBuf := memcpy (pipedRBuf s) 0 (mslice (pipedRBuf s) bytes read_ahead),
            pipedRPos := 0, pipedRLen := read_ahead\<rparr>)) (\<lambda>_.
          returnM (word_of_nat bytes :: uint32_t))))))"

text \<open>
  The growth of the write buffer, on \<^verbatim>\<open>uint32_t\<close>; \<open>None\<close> if the loop never exits. If the length wraps
  around, nothing is grown and the copy overruns the buffer.
\<close>

definition piped_grow :: "nat \<Rightarrow> nat \<Rightarrow> nat option" where
  "piped_grow needed sz = while_option (\<lambda>newBufSize. needed \<ge> newBufSize) (\<lambda>newBufSize. u32 (newBufSize * 2))
     (u32 (sz * 2))"

definition piped_write :: "byte list \<Rightarrow> (('u, 'd) TPipedTransport, unit) M" where
  "piped_write buf =
     (if buf = [] then returnM ()
      else bindM (getM (\<lambda>s. (u32 (length buf + pipedWLen s), length (pipedWBuf s)))) (\<lambda>(needed, sz).
        bindM (if needed \<ge> sz
          then (case piped_grow needed sz of
              None \<Rightarrow> throwM NonTermination
            | Some newBufSize \<Rightarrow>
                modifyM (\<lambda>s. s\<lparr>pipedWBuf := pipedWBuf s @ replicate (newBufSize - sz) 0\<rparr>))
          else returnM ()) (\<lambda>_.
        bindM (getM (\<lambda>s. pipedWLen s + length buf > length (pipedWBuf s))) (\<lambda>overflow.
        if overflow then throwM UndefinedBehaviour
        else modifyM (\<lambda>s. s\<lparr>pipedWBuf := memcpy (pipedWBuf s) (pipedWLen s) buf,
               pipedWLen := pipedWLen s + length buf\<rparr>)))))"

definition piped_writeEnd :: "'d TTransport \<Rightarrow> (('u, 'd) TPipedTransport, uint32_t) M" where
  "piped_writeEnd V =
     bindM (testFlag pipeOnWrite) (\<lambda>pipe.
     bindM (if pipe
       then bindM (getM (\<lambda>s. mslice (pipedWBuf s) 0 (pipedWLen s))) (\<lambda>bs.
            bindM (onDst (write_virt V bs)) (\<lambda>_. onDst (flush_virt V)))
       else returnM ()) (\<lambda>_.
     getM (\<lambda>s. word_of_nat (pipedWLen s) :: uint32_t)))"

definition piped_flush :: "'u TTransport \<Rightarrow> (('u, 'd) TPipedTransport, unit) M" where
  "piped_flush U =
     bindM (getM (\<lambda>s. (pipedWLen s, mslice (pipedWBuf s) 0 (pipedWLen s)))) (\<lambda>(len, bs).
     bindM (if len > 0
       then bindM (onSrc (write_virt U bs)) (\<lambda>_. modifyM (\<lambda>s. s\<lparr>pipedWLen := 0\<rparr>))
       else returnM ()) (\<lambda>_.
     onSrc (flush_virt U)))"

definition piped_ops :: "'u TTransport \<Rightarrow> 'd TTransport \<Rightarrow> ('u, 'd) TPipedTransport TTransport" where
  "piped_ops U V = \<lparr>isOpen_virt = (\<lambda>s. isOpen_virt U (srcTrans s)), peek_virt = piped_peek U,
     open_virt = onSrc (open_virt U), close_virt = onSrc (close_virt U),
     read_virt = piped_read U, readAll_virt = readAll (piped_read U), readEnd_virt = piped_readEnd U V,
     write_virt = piped_write, writeEnd_virt = piped_writeEnd V, flush_virt = piped_flush U,
     borrow_virt = base_borrow_virt, consume_virt = base_consume_virt\<rparr>"

section \<open>Reading\<close>

text \<open>
  The unread stream, and the bytes taken from it since the last \<open>readEnd\<close>. The invariant bounds the
  message by 2 GiB: the buffer only ever holds what has come from the source.
\<close>

definition piped_inp :: "('u \<Rightarrow> byte list) \<Rightarrow> ('u, 'd) TPipedTransport \<Rightarrow> byte list" where
  "piped_inp uinp s = mslice (pipedRBuf s) (pipedRPos s) (pipedRLen s - pipedRPos s) @ uinp (srcTrans s)"

definition piped_taken :: "('u, 'd) TPipedTransport \<Rightarrow> byte list" where
  "piped_taken s = mslice (pipedRBuf s) 0 (pipedRPos s)"

definition piped_rinv ::
  "('u \<Rightarrow> bool) \<Rightarrow> ('u \<Rightarrow> byte list) \<Rightarrow> ('u, 'd) TPipedTransport \<Rightarrow> bool" where
  "piped_rinv uinv uinp s \<longleftrightarrow> uinv (srcTrans s) \<and> pipedRPos s \<le> pipedRLen s
     \<and> pipedRLen s \<le> length (pipedRBuf s) \<and> 0 < length (pipedRBuf s) \<and> length (pipedRBuf s) < 2 ^ 32
     \<and> pipedRLen s + length (uinp (srcTrans s)) < 2 ^ 31"

text \<open>
  A source whose \<open>readEnd\<close> neither fails nor touches what is unread, and a sink for the copies.
\<close>

locale piped_between = reader "read_virt U" uinv uinp + byte_sink V dinv doutp droom
  for U :: "'u TTransport" and uinv uinp and V :: "'d TTransport" and dinv doutp droom +
  assumes src_readEnd: "uinv u \<Longrightarrow> \<exists>n u'. readEnd_virt U u = (Inr n, u') \<and> uinv u' \<and> uinp u' = uinp u"
begin

abbreviation rinv :: "('u, 'd) TPipedTransport \<Rightarrow> bool" where
  "rinv \<equiv> piped_rinv uinv uinp"

lemma fill_ok:
  assumes "rinv s" and "pipedRPos s = pipedRLen s"
  shows "\<exists>s'. piped_fill U s = (Inr (), s') \<and> rinv s' \<and> piped_inp uinp s' = piped_inp uinp s
    \<and> piped_taken s' = piped_taken s \<and> pipedRPos s' = pipedRPos s \<and> dstTrans s' = dstTrans s
    \<and> pipeOnRead s' = pipeOnRead s \<and> (pipedRLen s' = pipedRPos s' \<longrightarrow> piped_inp uinp s = [])"
proof -
  define s1 where "s1 = (if pipedRLen s = length (pipedRBuf s)
    then s\<lparr>pipedRBuf := pipedRBuf s @ replicate (u32 (length (pipedRBuf s) * 2) - length (pipedRBuf s)) 0\<rparr> else s)"
  have dbl: "u32 (length (pipedRBuf s) * 2) = length (pipedRBuf s) * 2" if "pipedRLen s = length (pipedRBuf s)"
    using assms(1) that by (simp add: piped_rinv_def)
  have s1: "rinv s1" "pipedRPos s1 = pipedRPos s" "pipedRLen s1 = pipedRLen s" "pipedRLen s1 < length (pipedRBuf s1)"
    "srcTrans s1 = srcTrans s" "dstTrans s1 = dstTrans s" "pipeOnRead s1 = pipeOnRead s"
    "take (pipedRLen s) (pipedRBuf s1) = take (pipedRLen s) (pipedRBuf s)"
    using assms(1) dbl by (auto simp: s1_def piped_rinv_def)
  let ?room = "length (pipedRBuf s1) - pipedRPos s1"
  obtain bs u' where r: "read_virt U ?room (srcTrans s1) = (Inr bs, u')" "uinv u'" "uinp (srcTrans s1) = bs @ uinp u'"
    "length bs \<le> ?room" "bs = [] \<longrightarrow> ?room = 0 \<or> uinp (srcTrans s1) = []"
    using read_ok [of "srcTrans s1" ?room] s1(1) by (auto simp: piped_rinv_def)
  let ?t = "s1\<lparr>srcTrans := u', pipedRBuf := memcpy (pipedRBuf s1) (pipedRPos s1) bs, pipedRLen := pipedRLen s1 + length bs\<rparr>"
  have "piped_fill U s = (Inr (), ?t)"
    using r(1) dbl assms(1)
    by (auto simp: piped_fill_def monad_simps onSrc_def s1_def piped_rinv_def)
  moreover have "rinv ?t" using s1(1-5) r(2-4) assms(2) by (auto simp: piped_rinv_def)
  moreover have "piped_inp uinp ?t = piped_inp uinp s"
    using s1 r(3,4) assms by (auto simp: piped_inp_def mslice_memcpy_same)
  moreover have "piped_taken ?t = piped_taken s"
    using s1 assms(2) by (simp add: piped_taken_def mslice_memcpy_before) (simp add: mslice_def)
  moreover have "pipedRLen ?t = pipedRPos ?t \<longrightarrow> piped_inp uinp s = []"
    using s1 r(3,5) assms(2) by (auto simp: piped_inp_def)
  ultimately show ?thesis using s1(2,6,7) by (intro exI [of _ ?t]) simp
qed

lemma give_ok:
  assumes "rinv s"
  shows "\<exists>s'. piped_give n s = (Inr (take (min n (pipedRLen s - pipedRPos s)) (piped_inp uinp s)), s') \<and> rinv s'
    \<and> piped_inp uinp s' = drop (min n (pipedRLen s - pipedRPos s)) (piped_inp uinp s)
    \<and> piped_taken s' = piped_taken s @ take (min n (pipedRLen s - pipedRPos s)) (piped_inp uinp s)
    \<and> pipedRPos s' = pipedRPos s + min n (pipedRLen s - pipedRPos s)
    \<and> pipedRLen s' = pipedRLen s \<and> dstTrans s' = dstTrans s \<and> pipeOnRead s' = pipeOnRead s"
proof -
  let ?g = "min n (pipedRLen s - pipedRPos s)"
  have len: "length (mslice (pipedRBuf s) (pipedRPos s) (pipedRLen s - pipedRPos s)) = pipedRLen s - pipedRPos s"
    using assms by (simp add: piped_rinv_def)
  have "take ?g (piped_inp uinp s) = mslice (pipedRBuf s) (pipedRPos s) ?g"
    using len by (simp add: piped_inp_def min_def)
  moreover have "drop ?g (piped_inp uinp s)
      = mslice (pipedRBuf s) (pipedRPos s + ?g) (pipedRLen s - (pipedRPos s + ?g)) @ uinp (srcTrans s)"
    using len by (simp add: piped_inp_def min_def)
  moreover have "mslice (pipedRBuf s) 0 (pipedRPos s + ?g) = mslice (pipedRBuf s) 0 (pipedRPos s) @ mslice (pipedRBuf s) (pipedRPos s) ?g"
    using mslice_append [of "pipedRBuf s" 0 "pipedRPos s" ?g] by simp
  ultimately show ?thesis using assms
    by (auto simp: piped_give_def Let_def min.commute piped_rinv_def piped_inp_def piped_taken_def)
qed

lemma piped_read_ok:
  assumes "rinv s"
  shows "\<exists>bs s'. piped_read U n s = (Inr bs, s') \<and> rinv s' \<and> piped_inp uinp s = bs @ piped_inp uinp s'
    \<and> length bs \<le> n \<and> (bs = [] \<longrightarrow> n = 0 \<or> piped_inp uinp s = [])
    \<and> piped_taken s' = piped_taken s @ bs \<and> dstTrans s' = dstTrans s \<and> pipeOnRead s' = pipeOnRead s"
proof -
  let ?have = "pipedRLen s - pipedRPos s"
  have long: "?have \<le> length (piped_inp uinp s)" using assms by (simp add: piped_inp_def piped_rinv_def)
  show ?thesis
  proof (cases "?have < n")
    case False
    obtain s' where g: "piped_give n s = (Inr (take n (piped_inp uinp s)), s')" "rinv s'"
      "piped_inp uinp s' = drop n (piped_inp uinp s)" "piped_taken s' = piped_taken s @ take n (piped_inp uinp s)"
      "dstTrans s' = dstTrans s" "pipeOnRead s' = pipeOnRead s"
      using give_ok [OF assms, of n] False by (auto simp: min_absorb1)
    with False have "piped_read U n s = (Inr (take n (piped_inp uinp s)), s')"
      by (simp add: piped_read_def bindM_def getM_def)
    with g show ?thesis by (intro exI [of _ "take n (piped_inp uinp s)"] exI [of _ s']) auto
  next
    case True
    obtain s1 where g1: "piped_give ?have s = (Inr (take ?have (piped_inp uinp s)), s1)" "rinv s1"
      "piped_inp uinp s1 = drop ?have (piped_inp uinp s)" "piped_taken s1 = piped_taken s @ take ?have (piped_inp uinp s)"
      "pipedRPos s1 = pipedRLen s1" "dstTrans s1 = dstTrans s" "pipeOnRead s1 = pipeOnRead s"
      using give_ok [OF assms, of ?have] assms by (auto simp: piped_rinv_def)
    obtain s2 where f: "piped_fill U s1 = (Inr (), s2)" "rinv s2" "piped_inp uinp s2 = piped_inp uinp s1"
      "piped_taken s2 = piped_taken s1" "dstTrans s2 = dstTrans s1" "pipeOnRead s2 = pipeOnRead s1"
      "pipedRLen s2 = pipedRPos s2 \<longrightarrow> piped_inp uinp s1 = []"
      using fill_ok [OF g1(2,5)] by blast
    let ?k = "min (n - ?have) (pipedRLen s2 - pipedRPos s2)"
    obtain s3 where g3: "piped_give (n - ?have) s2 = (Inr (take ?k (piped_inp uinp s2)), s3)" "rinv s3"
      "piped_inp uinp s3 = drop ?k (piped_inp uinp s2)" "piped_taken s3 = piped_taken s2 @ take ?k (piped_inp uinp s2)"
      "dstTrans s3 = dstTrans s2" "pipeOnRead s3 = pipeOnRead s2"
      using give_ok [OF f(2), of "n - ?have"] by blast
    let ?bs = "take ?have (piped_inp uinp s) @ take ?k (piped_inp uinp s2)"
    have "piped_read U n s = (Inr ?bs, s3)"
      using True g1(1) f(1) g3(1) by (simp add: piped_read_def monad_simps)
    moreover have "piped_inp uinp s = ?bs @ piped_inp uinp s3"
      by (simp only: append_assoc g3(3) append_take_drop_id f(3) g1(3))
    moreover have "length ?bs \<le> n" using True long by simp
    moreover have "piped_inp uinp s = []" if "?bs = []"
    proof -
      have "?have = 0 \<or> piped_inp uinp s = []" "?k = 0 \<or> piped_inp uinp s2 = []" using that by auto
      moreover have "pipedRPos s2 \<le> pipedRLen s2" using f(2) by (simp add: piped_rinv_def)
      ultimately show ?thesis using True f(3,7) g1(3) by (auto simp: min_def split: if_splits)
    qed
    moreover have "piped_taken s3 = piped_taken s @ ?bs" using g1(4) f(4) g3(4) by simp
    moreover have "dstTrans s3 = dstTrans s" "pipeOnRead s3 = pipeOnRead s"
      using g1(6,7) f(5,6) g3(5,6) by simp_all
    ultimately show ?thesis using g3(2) by blast
  qed
qed

text \<open>
  While a message is being read, what has been taken and what is still to come make up the same
  stream, and the second transport is not touched. So the piped transport is a byte source.
\<close>

definition tee_inv :: "byte list \<Rightarrow> 'd \<Rightarrow> bool option \<Rightarrow> ('u, 'd) TPipedTransport \<Rightarrow> bool" where
  "tee_inv W d p s \<longleftrightarrow> rinv s \<and> piped_taken s @ piped_inp uinp s = W \<and> dstTrans s = d \<and> pipeOnRead s = p"

end

sublocale piped_between \<subseteq> tee_reader: reader "piped_read U" "tee_inv W d p" "piped_inp uinp" for W d p
proof
  fix s :: "('u, 'd) TPipedTransport" and n
  assume "tee_inv W d p s"
  then show "\<exists>bs s'. piped_read U n s = (Inr bs, s') \<and> tee_inv W d p s' \<and> piped_inp uinp s = bs @ piped_inp uinp s'
      \<and> length bs \<le> n \<and> (bs = [] \<longrightarrow> n = 0 \<or> piped_inp uinp s = [])"
    using piped_read_ok [of s n] by (fastforce simp: tee_inv_def)
qed

sublocale piped_between \<subseteq> tee: byte_source "piped_ops U V" "tee_inv W d p" "piped_inp uinp" for W d p
proof
  fix s :: "('u, 'd) TPipedTransport" and n
  assume inv: "tee_inv W d p s"
  show "\<exists>r s'. borrow_virt (piped_ops U V) n s = (Inr r, s') \<and> tee_inv W d p s' \<and> piped_inp uinp s' = piped_inp uinp s
        \<and> (\<forall>bs. r = Some bs \<longrightarrow> n \<le> length bs \<and> bs = take (length bs) (piped_inp uinp s)
             \<and> (\<forall>k\<le>n. \<exists>s''. consume_virt (piped_ops U V) k s' = (Inr (), s'') \<and> tee_inv W d p s''
                   \<and> piped_inp uinp s'' = drop k (piped_inp uinp s)))"
    using inv by (simp add: piped_ops_def base_borrow_virt_def returnM_def)
qed (use tee_reader.readAll_complete tee_reader.readAll_eof in \<open>fastforce simp: piped_ops_def\<close>)+

context piped_between
begin

lemma piped_start:
  assumes "uinv u" and "length (uinp u) < 2 ^ 31"
  shows "tee_inv (uinp u) d (Some True) (newTPipedTransport u d)"
    and "piped_inp uinp (newTPipedTransport u d) = uinp u"
  using assms by (simp_all add: tee_inv_def piped_rinv_def newTPipedTransport_def piped_inp_def piped_taken_def)

text \<open>\<open>readEnd\<close>: the message goes to the second transport, and what was read ahead stays.\<close>

lemma piped_readEnd_ok:
  assumes "tee_inv W d (Some True) s" and "dinv d" and "W = bs @ piped_inp uinp s" and "length bs \<le> droom d"
    and "length (piped_inp uinp s) \<le> length bs"
  shows "\<exists>s'. piped_readEnd U V s = (Inr (word_of_nat (length bs)), s')
    \<and> doutp (dstTrans s') = doutp d @ bs \<and> dinv (dstTrans s')
    \<and> piped_inp uinp s' = piped_inp uinp s \<and> tee_inv (piped_inp uinp s) (dstTrans s') (Some True) s'"
proof -
  have s: "rinv s" "piped_taken s = bs" "dstTrans s = d" "pipeOnRead s = Some True"
    using assms(1,3) by (auto simp: tee_inv_def)
  have len: "pipedRPos s = length bs" "pipedRLen s - pipedRPos s \<le> pipedRPos s"
    using s(1,2) assms(5) by (auto simp: piped_rinv_def piped_taken_def piped_inp_def)
  obtain d1 where d1: "write_virt V bs d = (Inr (), d1)" "dinv d1" "doutp d1 = doutp d @ bs"
    using sink_write [OF assms(2,4)] by blast
  obtain d2 where d2: "flush_virt V d1 = (Inr (), d2)" "dinv d2" "doutp d2 = doutp d1"
    using sink_flush [OF d1(2)] by blast
  obtain n u where u: "readEnd_virt U (srcTrans s) = (Inr n, u)" "uinv u" "uinp u = uinp (srcTrans s)"
    using src_readEnd [of "srcTrans s"] s(1) by (auto simp: piped_rinv_def)
  let ?ahead = "mslice (pipedRBuf s) (pipedRPos s) (pipedRLen s - pipedRPos s)"
  let ?t = "s\<lparr>srcTrans := u, dstTrans := d2, pipedRBuf := memcpy (pipedRBuf s) 0 ?ahead,
    pipedRPos := 0, pipedRLen := pipedRLen s - pipedRPos s\<rparr>"
  have ahead: "length ?ahead = pipedRLen s - pipedRPos s" using s(1) by (simp add: piped_rinv_def)
  have run: "piped_readEnd U V s = (Inr (word_of_nat (length bs)), ?t)"
    using s len d1(1) d2(1) u(1)
    by (simp add: piped_readEnd_def monad_simps testFlag_def onSrc_def onDst_def piped_taken_def)
  have "mslice (memcpy (pipedRBuf s) 0 ?ahead) 0 (pipedRLen s - pipedRPos s) = ?ahead"
    using mslice_memcpy_same [of 0 "pipedRBuf s" ?ahead] ahead by simp
  then have inp: "piped_inp uinp ?t = piped_inp uinp s" using u(3) by (simp add: piped_inp_def)
  have "length (memcpy (pipedRBuf s) 0 ?ahead) = length (pipedRBuf s)"
    using ahead s(1) by (intro length_memcpy) (auto simp: piped_rinv_def)
  then have "rinv ?t" using s(1) u(2,3) by (auto simp: piped_rinv_def)
  with inp have "tee_inv (piped_inp uinp s) d2 (Some True) ?t" using s(4) by (simp add: tee_inv_def piped_taken_def)
  with run inp d1(3) d2(2,3) show ?thesis by (intro exI [of _ ?t]) simp
qed

lemma piped_readEnd_overlap:
  assumes "rinv s" and "pipeOnRead s = Some False" and "pipedRPos s < pipedRLen s - pipedRPos s"
  shows "\<exists>s'. piped_readEnd U V s = (Inl UndefinedBehaviour, s')"
  using assms src_readEnd [of "srcTrans s"]
  by (auto simp: piped_readEnd_def monad_simps testFlag_def onSrc_def piped_rinv_def)

end

section \<open>Writing\<close>

text \<open>
  The growing loop ends below 2 GiB. If the buffer is empty it never ends; nor if its size is a
  power of two, as it is by default, and more than 2 GiB are needed.
\<close>

lemma piped_grow_enough:
  assumes "needed < 2 ^ 31" and "0 < sz" and "sz \<le> needed"
  shows "\<exists>n. piped_grow needed sz = Some n \<and> needed < n \<and> n < 2 ^ 32"
proof -
  let ?P = "\<lambda>n. 0 < n \<and> n < 2 ^ 32" and ?b = "\<lambda>n. needed \<ge> n" and ?c = "\<lambda>n. u32 (n * 2)"
  have step: "?P (?c n) \<and> 2 ^ 32 - ?c n < 2 ^ 32 - n" if "?P n" "?b n" for n
    using that assms(1) by simp
  have init: "?P (u32 (sz * 2))" using assms by simp
  obtain y where y: "while_option ?b ?c (u32 (sz * 2)) = Some y"
    using measure_while_option_Some [of ?P ?b ?c "\<lambda>n. 2 ^ 32 - n", OF step init] by blast
  have "?P y" by (rule while_option_rule [where P = ?P, OF _ y init]) (rule step [THEN conjunct1])
  moreover have "\<not> ?b y" by (rule while_option_stop [OF y])
  ultimately show ?thesis using y by (simp add: piped_grow_def)
qed

lemma piped_grow_diverges:
  assumes step: "\<And>n. P n \<Longrightarrow> P (u32 (n * 2))" and bound: "\<And>n. P n \<Longrightarrow> n \<le> needed" and init: "P sz"
  shows "piped_grow needed sz = None"
proof (rule ccontr)
  assume "piped_grow needed sz \<noteq> None"
  then obtain y where y: "while_option (\<lambda>n. needed \<ge> n) (\<lambda>n. u32 (n * 2)) (u32 (sz * 2)) = Some y"
    by (auto simp: piped_grow_def)
  have "P y" by (rule while_option_rule [where P = P, OF _ y step [OF init]]) (rule step)
  with bound while_option_stop [OF y] show False by blast
qed

lemma piped_grow_empty: "piped_grow needed 0 = None"
  by (rule piped_grow_diverges [where P = "\<lambda>n. n = 0"]) simp_all

lemma piped_grow_large:
  assumes "2 ^ 31 \<le> needed" and "k \<le> 31"
  shows "piped_grow needed (2 ^ k) = None"
proof (rule piped_grow_diverges [where P = "\<lambda>n. n = 0 \<or> (\<exists>k\<le>31. n = 2 ^ k)"])
  fix n :: nat
  assume "n = 0 \<or> (\<exists>k\<le>31. n = 2 ^ k)"
  then consider "n = 0" | j where "j < 31" "n = 2 ^ j" | "n = 2 ^ 31" using le_neq_implies_less by blast
  then show "u32 (n * 2) = 0 \<or> (\<exists>k\<le>31. u32 (n * 2) = 2 ^ k)"
  proof cases
    case 2
    then have "(2 :: nat) ^ Suc j < 2 ^ 32" by (intro power_strict_increasing) simp_all
    then show ?thesis using 2 by (intro disjI2 exI [of _ "Suc j"]) (simp add: mult.commute)
  next
    case 3
    then have "u32 (n * 2) = 0" by (simp add: u32_def)
    then show ?thesis ..
  qed simp
next
  fix n :: nat
  assume "n = 0 \<or> (\<exists>k\<le>31. n = 2 ^ k)"
  then have "n \<le> 2 ^ 31" using power_increasing [of _ 31 "2 :: nat"] by auto
  then show "n \<le> needed" using assms(1) by simp
qed (use assms(2) in blast)

lemma piped_write_hangs:
  "buf \<noteq> [] \<Longrightarrow> piped_write buf (newTPipedTransport_size src dst 0)
    = (Inl NonTermination, newTPipedTransport_size src dst 0)"
  by (simp add: piped_write_def monad_simps newTPipedTransport_size_def piped_grow_empty)

text \<open>What has been written so far: what the first transport has, and the pending bytes.\<close>

definition piped_out :: "('u \<Rightarrow> byte list) \<Rightarrow> ('u, 'd) TPipedTransport \<Rightarrow> byte list" where
  "piped_out uoutp s = uoutp (srcTrans s) @ mslice (pipedWBuf s) 0 (pipedWLen s)"

definition piped_room :: "('u \<Rightarrow> nat) \<Rightarrow> ('u, 'd) TPipedTransport \<Rightarrow> nat" where
  "piped_room uroom s = min (uroom (srcTrans s)) (2 ^ 31 - 1) - pipedWLen s"

definition piped_winv :: "('u \<Rightarrow> bool) \<Rightarrow> ('u \<Rightarrow> nat) \<Rightarrow> ('u, 'd) TPipedTransport \<Rightarrow> bool" where
  "piped_winv uinv uroom s \<longleftrightarrow> uinv (srcTrans s) \<and> pipedWLen s \<le> min (uroom (srcTrans s)) (2 ^ 31 - 1)
     \<and> pipedWLen s \<le> length (pipedWBuf s) \<and> 0 < length (pipedWBuf s) \<and> length (pipedWBuf s) < 2 ^ 32"

locale piped_over_sink = byte_sink U uinv uoutp uroom
  for U :: "'u TTransport" and uinv uoutp uroom
begin

abbreviation winv :: "('u, 'd) TPipedTransport \<Rightarrow> bool" where
  "winv \<equiv> piped_winv uinv uroom"

lemma put_ok:
  assumes "winv s" and "length bs \<le> piped_room uroom s" and "pipedWLen s + length bs \<le> length (pipedWBuf s)"
  shows "winv (s\<lparr>pipedWBuf := memcpy (pipedWBuf s) (pipedWLen s) bs, pipedWLen := pipedWLen s + length bs\<rparr>)
    \<and> piped_out uoutp (s\<lparr>pipedWBuf := memcpy (pipedWBuf s) (pipedWLen s) bs, pipedWLen := pipedWLen s + length bs\<rparr>)
      = piped_out uoutp s @ bs
    \<and> piped_room uroom s
      = piped_room uroom (s\<lparr>pipedWBuf := memcpy (pipedWBuf s) (pipedWLen s) bs, pipedWLen := pipedWLen s + length bs\<rparr>)
        + length bs"
proof -
  have "length (memcpy (pipedWBuf s) (pipedWLen s) bs) = length (pipedWBuf s)" using assms(3) by simp
  then show ?thesis using assms mslice_memcpy_extend [of 0 "pipedWLen s" bs "pipedWBuf s"]
    by (auto simp: piped_winv_def piped_out_def piped_room_def)
qed

lemma piped_write_ok:
  assumes "winv s" and "length bs \<le> piped_room uroom s"
  shows "\<exists>s'. piped_write bs s = (Inr (), s') \<and> winv s' \<and> piped_out uoutp s' = piped_out uoutp s @ bs
    \<and> piped_room uroom s = piped_room uroom s' + length bs"
proof (cases "bs = []")
  case True
  with assms(1) show ?thesis by (auto simp: piped_write_def returnM_def)
next
  case False
  let ?needed = "length bs + pipedWLen s"
  have needed: "?needed < 2 ^ 31" "u32 ?needed = ?needed"
    using assms by (auto simp: piped_winv_def piped_room_def)
  show ?thesis
  proof (cases "?needed \<ge> length (pipedWBuf s)")
    case True
    obtain n where n: "piped_grow ?needed (length (pipedWBuf s)) = Some n" "?needed < n" "n < 2 ^ 32"
      using piped_grow_enough [OF needed(1) _ True] assms(1) by (auto simp: piped_winv_def)
    let ?t = "s\<lparr>pipedWBuf := pipedWBuf s @ replicate (n - length (pipedWBuf s)) 0\<rparr>"
    have t: "winv ?t" "piped_out uoutp ?t = piped_out uoutp s" "piped_room uroom ?t = piped_room uroom s"
      "pipedWLen ?t + length bs \<le> length (pipedWBuf ?t)"
      using assms(1) n True by (auto simp: piped_winv_def piped_out_def piped_room_def mslice_append_mem)
    then have "piped_write bs s = (Inr (), ?t\<lparr>pipedWBuf := memcpy (pipedWBuf ?t) (pipedWLen ?t) bs,
        pipedWLen := pipedWLen ?t + length bs\<rparr>)"
      using False True needed(2) n(1) by (simp add: piped_write_def monad_simps)
    then show ?thesis using put_ok [OF t(1) _ t(4)] assms(2) t(2,3) by simp
  next
    case no: False
    then have "piped_write bs s = (Inr (), s\<lparr>pipedWBuf := memcpy (pipedWBuf s) (pipedWLen s) bs,
        pipedWLen := pipedWLen s + length bs\<rparr>)"
      using False needed(2) by (simp add: piped_write_def monad_simps)
    then show ?thesis using put_ok [OF assms] no by simp
  qed
qed

lemma piped_flush_ok:
  assumes "winv s"
  shows "\<exists>s'. piped_flush U s = (Inr (), s') \<and> winv s' \<and> piped_out uoutp s' = piped_out uoutp s
    \<and> uoutp (srcTrans s') = piped_out uoutp s"
proof -
  let ?bs = "mslice (pipedWBuf s) 0 (pipedWLen s)"
  have len: "length ?bs = pipedWLen s" "uinv (srcTrans s)" "pipedWLen s \<le> uroom (srcTrans s)"
    using assms by (auto simp: piped_winv_def)
  obtain u where u: "(if pipedWLen s > 0 then write_virt U ?bs (srcTrans s) else (Inr (), srcTrans s)) = (Inr (), u)"
    "uinv u" "uoutp u = uoutp (srcTrans s) @ ?bs"
    using sink_write [OF len(2), of ?bs] len(1-3) by (cases "pipedWLen s = 0") auto
  obtain u' where u': "flush_virt U u = (Inr (), u')" "uinv u'" "uoutp u' = uoutp u"
    using sink_flush [OF u(2)] by blast
  have "piped_flush U s = (Inr (), s\<lparr>srcTrans := u', pipedWLen := 0\<rparr>)"
    using u(1) u'(1) by (cases "pipedWLen s = 0") (auto simp: piped_flush_def monad_simps onSrc_def)
  moreover have "winv (s\<lparr>srcTrans := u', pipedWLen := 0\<rparr>)" using assms u'(2) by (auto simp: piped_winv_def)
  ultimately show ?thesis using u(3) u'(3) by (intro exI [of _ "s\<lparr>srcTrans := u', pipedWLen := 0\<rparr>"])
    (simp add: piped_out_def)
qed

end

sublocale piped_over_sink \<subseteq> piped_sink: byte_sink "piped_ops U V" winv "piped_out uoutp" "piped_room uroom"
  for V :: "'d TTransport"
proof
  fix s :: "('u, 'd) TPipedTransport"
  assume inv: "winv s"
  show "\<exists>s'. flush_virt (piped_ops U V) s = (Inr (), s') \<and> winv s' \<and> piped_out uoutp s' = piped_out uoutp s"
    using piped_flush_ok [OF inv] by (auto simp: piped_ops_def)
  show "piped_room uroom s < 2 ^ 32" by (simp add: piped_room_def)
next
  fix s :: "('u, 'd) TPipedTransport" and bs :: "byte list"
  assume "winv s" "length bs \<le> piped_room uroom s"
  then show "\<exists>s'. write_virt (piped_ops U V) bs s = (Inr (), s') \<and> winv s'
      \<and> piped_out uoutp s' = piped_out uoutp s @ bs \<and> piped_room uroom s = piped_room uroom s' + length bs"
    using piped_write_ok by (simp add: piped_ops_def)
qed

section \<open>Between memory buffers\<close>

lemma memory_readEnd_ok:
  assumes "memory_inv s" and "owner s"
  shows "\<exists>n s'. memory_readEnd s = (Inr n, s') \<and> (memory_inv s' \<and> owner s') \<and> unread s' = unread s"
  using assms
  by (auto simp: memory_readEnd_def resetBuffer_def monad_simps memory_inv_def unread_def Let_def)

interpretation piped_memory: piped_between memory_ops "\<lambda>s. memory_inv s \<and> owner s" unread memory_ops
  "\<lambda>s. memory_inv s \<and> owner s" unread "\<lambda>s. 2 ^ 31 - wBase s"
proof (unfold_locales, goal_cases)
  case (1 s n)
  then show ?case using memory_read_queue [of s n] by (fastforce simp: memory_ops_def)
next
  case (2 u)
  then show ?case using memory_readEnd_ok [of u] by (simp add: memory_ops_def)
qed

interpretation piped_memory_out: piped_over_sink memory_ops "\<lambda>s. memory_inv s \<and> owner s" unread
  "\<lambda>s. 2 ^ 31 - wBase s"
  by unfold_locales

end
