(* ===== verification/Varint.thy ===== *)
theory Varint
  imports Prelude
begin

text \<open>
  The integer codings of the compact protocol (\<^verbatim>\<open>TCompactProtocol.tcc\<close>): zigzag, which maps
  signed integers of small magnitude to small unsigned ones, and varints, seven bits per byte with
  the low bits first. The theory proves zigzag to be a bijection, the varint loops to be inverse to
  each other, and the number of bytes to be bounded.
\<close>

section \<open>Integer codings\<close>

text \<open>A signed right shift by all but one bit is the mask of the sign bit.\<close>

definition i64ToZigzag :: "int64_t \<Rightarrow> uint64_t" where
  "i64ToZigzag l = push_bit 1 l XOR signed_drop_bit 63 l"

definition i32ToZigzag :: "int32_t \<Rightarrow> uint32_t" where
  "i32ToZigzag n = push_bit 1 n XOR signed_drop_bit 31 n"

definition zigzagToI32 :: "uint32_t \<Rightarrow> int32_t" where
  "zigzagToI32 n = drop_bit 1 n XOR - (n AND 1)"

text \<open>The negation is done on an \<^verbatim>\<open>int32_t\<close>, which is then sign-extended.\<close>

definition zigzagToI64 :: "uint64_t \<Rightarrow> int64_t" where
  "zigzagToI64 n = drop_bit 1 n XOR scast (- (ucast (n AND 1) :: int32_t))"

lemma unat_drop_bit_7: "n AND NOT 0x7F \<noteq> 0 \<Longrightarrow> unat (drop_bit 7 n) < unat (n :: 'a::len word)"
proof -
  assume "n AND NOT 0x7F \<noteq> 0"
  then have "unat n \<noteq> 0" by (auto simp: unat_eq_0)
  moreover have "unat (drop_bit 7 n) = unat n div 128"
    by (simp only: unat_drop_bit_eq) (simp add: drop_bit_eq_div)
  ultimately show ?thesis by simp
qed

text \<open>The bytes the loops of \<open>writeVarint32\<close> and \<open>writeVarint64\<close> put into their buffer.\<close>

function varint32 :: "uint32_t \<Rightarrow> byte list" where
  "varint32 n = (if n AND NOT 0x7F = 0 then [ucast n]
     else ucast ((n AND 0x7F) OR 0x80) # varint32 (drop_bit 7 n))"
  by pat_completeness auto
termination
  by (relation "measure unat") (auto intro: unat_drop_bit_7)

function varint64 :: "uint64_t \<Rightarrow> byte list" where
  "varint64 n = (if n AND NOT 0x7F = 0 then [ucast n]
     else ucast ((n AND 0x7F) OR 0x80) # varint64 (drop_bit 7 n))"
  by pat_completeness auto
termination
  by (relation "measure unat") (auto intro: unat_drop_bit_7)

declare varint32.simps [simp del] varint64.simps [simp del]

text \<open>
  The fast path: the loop over the borrowed bytes. \<open>rsize\<close> counts the bytes; \<open>None\<close> is the exception
  for a varint of more than ten bytes. The transport lends at least ten bytes.
\<close>

function varint_scan :: "byte list \<Rightarrow> nat \<Rightarrow> uint64_t \<Rightarrow> nat \<Rightarrow> (uint64_t \<times> nat) option" where
  "varint_scan borrowed rsize val shift =
     (let b = borrowed ! rsize; rsize' = rsize + 1;
          val' = val OR push_bit shift (ucast (b AND 0x7f)) in
      if b AND 0x80 = 0 then Some (val', rsize')
      else if rsize' \<ge> 10 then None
      else varint_scan borrowed rsize' val' (shift + 7))"
  by pat_completeness auto
termination
  by (relation "measure (\<lambda>(borrowed, rsize, val, shift). 10 - rsize)") auto

declare varint_scan.simps [simp del]

section \<open>Zigzag is a bijection\<close>

lemma minus_and_1: "- (n AND 1) = (if bit n 0 then -1 else (0 :: 'a::len word))"
  by (simp add: and_one_eq mod2_eq_if bit_0)

lemma sign_32: "zigzagToI32 n = drop_bit 1 n XOR (if bit n 0 then -1 else 0)"
  by (simp only: zigzagToI32_def minus_and_1)

lemma sign_64: "zigzagToI64 n = drop_bit 1 n XOR (if bit n 0 then -1 else 0)"
proof -
  have "ucast (n AND 1) = (if bit n 0 then 1 else (0 :: int32_t))"
    by (simp add: and_one_eq mod2_eq_if bit_0)
  then show ?thesis by (simp add: zigzagToI64_def)
qed

lemma bit_push_bit_1: "bit (push_bit 1 n) k \<longleftrightarrow> 0 < k \<and> k < LENGTH('a) \<and> bit n (k - 1)" for n :: "'a::len word"
  by (subst bit_push_bit_iff) (use bit_imp_le_length [of n "k - 1"] in auto)

lemma bit_i32ToZigzag: "bit (i32ToZigzag n) k \<longleftrightarrow> k < 32 \<and> ((0 < k \<and> bit n (k - 1)) \<noteq> bit n 31)"
  unfolding i32ToZigzag_def bit_xor_iff bit_push_bit_1
  by (cases k) (auto simp: bit_signed_drop_bit_iff dest: bit_imp_le_length)

lemma bit_i64ToZigzag: "bit (i64ToZigzag n) k \<longleftrightarrow> k < 64 \<and> ((0 < k \<and> bit n (k - 1)) \<noteq> bit n 63)"
  unfolding i64ToZigzag_def bit_xor_iff bit_push_bit_1
  by (cases k) (auto simp: bit_signed_drop_bit_iff dest: bit_imp_le_length)

lemma zigzagToI32_i32ToZigzag [simp]: "zigzagToI32 (i32ToZigzag n) = n"
proof (rule bit_word_eqI)
  fix k assume "k < LENGTH(32)"
  then have "k < 31 \<or> k = 31" by auto
  then show "bit (zigzagToI32 (i32ToZigzag n)) k = bit n k"
    by (auto simp: sign_32 bit_simps bit_i32ToZigzag)
qed

lemma zigzagToI64_i64ToZigzag [simp]: "zigzagToI64 (i64ToZigzag n) = n"
proof (rule bit_word_eqI)
  fix k assume "k < LENGTH(64)"
  then have "k < 63 \<or> k = 63" by auto
  then show "bit (zigzagToI64 (i64ToZigzag n)) k = bit n k"
    by (auto simp: sign_64 bit_simps bit_i64ToZigzag)
qed

lemma bit_zigzagToI32: "k < 32 \<Longrightarrow> bit (zigzagToI32 m) k \<longleftrightarrow> (k < 31 \<and> bit m (Suc k)) \<noteq> bit m 0"
  using bit_imp_le_length[of m "Suc k"] by (auto simp: sign_32 bit_simps)

lemma i32ToZigzag_zigzagToI32 [simp]: "i32ToZigzag (zigzagToI32 n) = n"
proof (rule bit_word_eqI)
  fix k assume k: "k < LENGTH(32)"
  show "bit (i32ToZigzag (zigzagToI32 n)) k = bit n k"
  using k by (cases k) (auto simp: bit_i32ToZigzag bit_zigzagToI32)
qed

lemma i32ToZigzag_word:
  "i32ToZigzag n = word_of_int (if sint n < 0 then - 2 * sint n - 1 else 2 * sint n)"
proof -
  have sign: "signed_drop_bit 31 n = (if sint n < 0 then -1 else 0)"
    using bit_last_iff [of n]
    by (intro bit_word_eqI) (auto simp: bit_signed_drop_bit_iff not_le)
  have "push_bit 1 n = 2 * n" by (simp add: push_bit_eq_mult)
  then show ?thesis
    by (simp add: i32ToZigzag_def sign not_eq_complement)
qed

section \<open>Varints\<close>

lemma and_not_7F: "(n AND NOT 0x7F = 0) = (unat n < 128)" for n :: "'a::len word"
proof -
  have m: "(0x7F :: 'a word) = mask 7" by (simp add: mask_eq_exp_minus_1)
  have "n AND NOT 0x7F = push_bit 7 (drop_bit 7 n)"
    unfolding m by (rule bit_word_eqI) (auto simp: bit_simps)
  moreover have "push_bit 7 (drop_bit 7 n) = 0 \<longleftrightarrow> drop_bit 7 n = 0"
  proof
    assume a: "push_bit 7 (drop_bit 7 n) = 0"
    show "drop_bit 7 n = 0"
    proof (rule bit_word_eqI)
      fix k assume "k < LENGTH('a)"
      from arg_cong [OF a, of "\<lambda>x. bit x (k + 7)"] show "bit (drop_bit 7 n) k = bit 0 k"
        using bit_imp_le_length [of n "k + 7"] by (auto simp: bit_simps ac_simps)
    qed
  qed simp
  moreover have "drop_bit 7 n = 0 \<longleftrightarrow> unat n div 128 = 0"
    by (simp only: unat_eq_0 [symmetric] unat_drop_bit_eq) (simp add: drop_bit_eq_div)
  ultimately show ?thesis by auto
qed

lemma unat_drop_bit_7_eq: "unat (drop_bit 7 n) = unat n div 128" for n :: "'a::len word"
  by (simp only: unat_drop_bit_eq) (simp add: drop_bit_eq_div)

lemma length_varint64: "unat n < 2 ^ (7 * k) \<Longrightarrow> 0 < k \<Longrightarrow> length (varint64 n) \<le> k"
proof (induction n arbitrary: k rule: varint64.induct)
  case (1 n)
  show ?case
  proof (cases "n AND NOT 0x7F = 0")
    case False
    then have big: "128 \<le> unat n" unfolding and_not_7F by simp
    obtain j where j: "k = Suc j" using "1.prems"(2) by (cases k) auto
    have "0 < j" using big "1.prems"(1) j by (cases j) auto
    moreover have "unat (drop_bit 7 n) < 2 ^ (7 * j)"
      using "1.prems"(1) by (simp add: j unat_drop_bit_7_eq power_add less_mult_imp_div_less)
    ultimately show ?thesis using "1.IH" [OF False, of j] False by (simp add: varint64.simps [of n] j)
  qed (use "1.prems" in \<open>simp add: varint64.simps [of n]\<close>)
qed


lemma bit_0x80: "bit (0x80 :: 'a::len word) i \<longleftrightarrow> i = 7 \<and> i < LENGTH('a)"
proof -
  have "(0x80 :: 'a word) = push_bit 7 1" by simp
  then have "bit (0x80 :: 'a word) i \<longleftrightarrow> bit (push_bit 7 1 :: 'a word) i" by (simp only:)
  then show ?thesis by (auto simp only: bit_push_bit_iff bit_1_iff) auto
qed

lemma bit_0x7F: "bit (0x7F :: 'a::len word) i \<longleftrightarrow> i < 7 \<and> i < LENGTH('a)"
proof -
  have "(0x7F :: 'a word) = mask 7" by (simp add: mask_eq_exp_minus_1)
  then show ?thesis by (simp only: bit_mask_iff) auto
qed

lemma varint_last:
  assumes "unat n < 128"
  shows "(ucast n :: byte) AND 0x80 = 0" and "ucast ((ucast n :: byte) AND 0x7f) = (n :: uint64_t)"
proof -
  have "n AND mask 7 = n" using assms less_mask_eq [of n 7] by (simp add: word_less_nat_alt)
  then have hb: "\<not> bit n i" if "7 \<le> i" for i using that by (metis bit_and_iff bit_mask_iff not_le)
  show "(ucast n :: byte) AND 0x80 = 0"
    by (rule bit_word_eqI) (auto simp: bit_and_iff bit_unsigned_iff bit_0x80 hb simp del: bit_numeral_word_iff)
  show "ucast ((ucast n :: byte) AND 0x7f) = n"
  proof (rule bit_word_eqI)
    fix i assume "i < LENGTH(64)"
    then show "bit (ucast ((ucast n :: byte) AND 0x7f) :: uint64_t) i = bit n i"
      using hb [of i] by (cases "i < 7") (simp_all add: bit_and_iff bit_unsigned_iff bit_0x7F del: bit_numeral_word_iff)
  qed
qed

lemma varint_more:
  fixes n :: uint64_t
  shows "(ucast ((n AND 0x7F) OR 0x80) :: byte) AND 0x80 \<noteq> 0"
    and "ucast ((ucast ((n AND 0x7F) OR 0x80) :: byte) AND 0x7f) = (n AND 0x7F)"
proof -
  have "bit ((ucast ((n AND 0x7F) OR 0x80) :: byte) AND 0x80) 7"
    by (simp only: bit_and_iff bit_or_iff bit_unsigned_iff bit_0x80 bit_0x7F) simp
  then show "(ucast ((n AND 0x7F) OR 0x80) :: byte) AND 0x80 \<noteq> 0" by (metis bit_0_eq bot_apply bot_bool_def)
  show "ucast ((ucast ((n AND 0x7F) OR 0x80) :: byte) AND 0x7f) = (n AND 0x7F)"
    by (rule bit_word_eqI) (auto simp: bit_and_iff bit_or_iff bit_unsigned_iff bit_0x80 bit_0x7F simp del: bit_numeral_word_iff)
qed

lemma varint_join: "push_bit k (n AND 0x7F) OR push_bit (k + 7) (drop_bit 7 n) = push_bit k (n :: 64 word)"
proof -
  have m7f: "(0x7f :: 64 word) = mask 7" by (simp add: mask_eq_exp_minus_1)
  show ?thesis unfolding m7f
  proof (rule bit_word_eqI)
    fix i assume "i < LENGTH(64)"
    moreover have "7 + (i - (k + 7)) = i - k" if "k + 7 \<le> i" using that by simp
    ultimately show "bit (push_bit k (n AND mask 7) OR push_bit (k + 7) (drop_bit 7 n)) i = bit (push_bit k n) i"
      by (cases "k + 7 \<le> i") (auto simp: bit_simps)
  qed
qed

lemma unat_ucast_32_64: "unat (ucast (n :: uint32_t) :: uint64_t) = unat n"
proof -
  have "unat n < 2 ^ 64" using unsigned_less [of n, where ?'a = nat] by simp
  then show ?thesis by (simp add: unsigned_ucast_eq take_bit_nat_eq_self)
qed

text \<open>The 32-bit loop emits what the 64-bit loop emits for the zero-extended value.\<close>

lemma varint32_eq: "varint32 n = varint64 (ucast n)"
proof (induction n rule: varint32.induct)
  case (1 n)
  have eq: "((ucast n :: uint64_t) AND NOT 0x7F = 0) = (n AND NOT 0x7F = 0)"
    by (simp only: and_not_7F unat_ucast_32_64)
  have b: "ucast ((n AND 0x7F) OR 0x80) = (ucast (((ucast n :: uint64_t) AND 0x7F) OR 0x80) :: byte)"
    by (rule bit_word_eqI) (auto simp: bit_and_iff bit_or_iff bit_unsigned_iff bit_0x80 bit_0x7F simp del: bit_numeral_word_iff)
  have d: "(ucast (drop_bit 7 n) :: uint64_t) = drop_bit 7 (ucast n)"
    by (rule bit_word_eqI) (auto simp: bit_simps dest: bit_imp_le_length)
  show ?case
  proof (cases "n AND NOT 0x7F = 0")
    case True
    then have "varint32 n = [ucast n]" "varint64 (ucast n) = [ucast (ucast n :: uint64_t)]"
      using eq by (simp_all only: varint32.simps [of n] varint64.simps [of "ucast n"] if_True refl)
    moreover have "ucast (ucast n :: uint64_t) = (ucast n :: byte)"
      by (rule bit_word_eqI) (auto simp: bit_simps)
    ultimately show ?thesis by simp
  next
    case False
    with eq "1.IH" b d show ?thesis
      by (simp only: varint32.simps [of n] varint64.simps [of "ucast n"] if_False not_False_eq_True simp_thms)
  qed
qed

lemma length_varint32: "length (varint32 n) \<le> 5"
proof -
  have "unat n < 2 ^ (7 * 5)" using unsigned_less [of n, where ?'a = nat] by simp
  then show ?thesis using length_varint64 [of "ucast n" 5] by (simp add: varint32_eq unat_ucast_32_64)
qed

lemma length_varint64_le: "length (varint64 n) \<le> 10"
proof -
  have "unat n < 2 ^ (7 * 10)" using unsigned_less [of n, where ?'a = nat] by simp
  then show ?thesis using length_varint64 [of n 10] by simp
qed

lemma varint64_nonempty [simp]: "0 < length (varint64 n)" "varint64 n \<noteq> []"
  by (simp_all add: varint64.simps [of n])

lemma varint_scan_varint64:
  assumes "mslice borrowed rsize (length (varint64 n)) = varint64 n"
    and "rsize + length (varint64 n) \<le> 10"
  shows "varint_scan borrowed rsize val shift
    = Some (val OR push_bit shift n, rsize + length (varint64 n))"
  using assms
proof (induction n arbitrary: rsize val shift rule: varint64.induct)
  case (1 n)
  have fst: "borrowed ! rsize = varint64 n ! 0"
  proof -
    have "rsize < length borrowed"
      using "1.prems"(1) varint64_nonempty(2) [of n] by (metis mslice_def drop_eq_Nil not_less take_Nil)
    with arg_cong [OF "1.prems"(1), of "\<lambda>xs. xs ! 0"] show ?thesis by (simp add: mslice_def)
  qed
  show ?case
  proof (cases "n AND NOT 0x7F = 0")
    case True
    then have v: "varint64 n = [ucast n]" by (simp only: varint64.simps [of n] if_True refl)
    moreover have "unat n < 128" using True unfolding and_not_7F .
    ultimately show ?thesis using fst varint_last [of n]
      by (simp add: varint_scan.simps [of borrowed rsize])
  next
    case False
    let ?m = "drop_bit 7 n"
    have v: "varint64 n = ucast ((n AND 0x7F) OR 0x80) # varint64 ?m"
      using False by (simp only: varint64.simps [of n] if_False)
    have sl: "mslice borrowed (rsize + 1) (length (varint64 ?m)) = varint64 ?m"
      using arg_cong [OF "1.prems"(1), of "drop 1"] by (simp add: v)
    have len: "rsize + 1 + length (varint64 ?m) \<le> 10" using "1.prems"(2) by (simp add: v)
    then have "rsize + 1 < 10" using varint64_nonempty(1) [of ?m] by linarith
    with "1.IH" [OF False sl len] fst varint_more [of n] show ?thesis
      by (simp add: v varint_scan.simps [of borrowed rsize] or.assoc varint_join del: One_nat_def push_bit_and)
  qed
qed

text \<open>Ten continuation bytes are refused.\<close>

lemma varint_scan_overlong:
  assumes "\<forall>i. rsize \<le> i \<and> i < 10 \<longrightarrow> borrowed ! i AND 0x80 \<noteq> 0" and "rsize < 10"
  shows "varint_scan borrowed rsize val shift = None"
  using assms
proof (induction borrowed rsize val shift rule: varint_scan.induct)
  case (1 borrowed rsize val shift)
  then show ?case by (auto simp: varint_scan.simps [of borrowed rsize] Let_def)
qed

section \<open>Properties\<close>

text \<open>
  C22. Zigzag interleaves the integers by magnitude: 0, -1, 1, -2, \<dots> are sent to 0, 1, 2, 3, \<dots>, and
  the decoder is its inverse on both sides.
\<close>

theorem zigzag_by_magnitude:
  "unat (i32ToZigzag n) = nat (if sint n < 0 then - 2 * sint n - 1 else 2 * sint n)
   \<and> zigzagToI32 (i32ToZigzag n) = n \<and> i32ToZigzag (zigzagToI32 m) = m"
proof -
  have "uint (i32ToZigzag n) = (if sint n < 0 then - 2 * sint n - 1 else 2 * sint n)"
    unfolding i32ToZigzag_word uint_word_of_int
    using sint_range_size [of n] by (auto simp: word_size intro!: mod_pos_pos_trivial)
  then show ?thesis by (simp add: unat_eq_nat_uint)
qed

text \<open>
  C21. A varint of a 32-bit integer has at most five bytes and one of a 64-bit integer at most ten, so
  the loops stay inside their buffers, and the reader's loop, whatever follows in memory, decodes
  both: the one of a 32-bit integer to its zero extension, which the reader truncates again.
\<close>

theorem varint_bounds:
  "length (varint32 n) \<le> 5 \<and> length (varint64 m) \<le> 10
   \<and> varint_scan (varint32 n @ rest) 0 0 0 = Some (ucast n, length (varint32 n))
   \<and> varint_scan (varint64 m @ rest) 0 0 0 = Some (m, length (varint64 m))"
proof -
  have scan: "varint_scan (varint64 k @ rest) 0 0 0 = Some (k, length (varint64 k))" for k
    using length_varint64_le [of k] varint_scan_varint64 [of "varint64 k @ rest" 0 k 0 0]
    by (simp add: mslice_def)
  show ?thesis using length_varint32 length_varint64_le scan [of "ucast n"] scan [of m]
    by (simp add: varint32_eq)
qed

end
