(* ===== verification/CompactProtocol.thy ===== *)
theory CompactProtocol
  imports Generated FramedTransport Varint
begin

text \<open>
  \<^verbatim>\<open>TCompactProtocolT\<close> (\<^verbatim>\<open>TCompactProtocol.h/.tcc\<close>): zigzag varints, field headers that
  carry the difference to the previous field id, booleans folded into the field header, and
  short list headers. The theory proves the integer codings to be inverse to their decoders and
  the protocol to satisfy the contracts \<open>wire_writer\<close> and \<open>wire_reader\<close> for the layout
  \<open>compact_wire\<close>.
\<close>

section \<open>State\<close>

text \<open>
  \<open>booleanField\<close> is the pending boolean field of the writer (\<open>None\<close> for a \<^verbatim>\<open>NULL\<close> name),
  \<open>boolValue\<close> the one of the reader (\<open>None\<close> when \<open>hasBoolValue\<close> is false), and the head of
  \<open>lastField\<close> is the top of the stack.
\<close>

record 't TCompactProtocol =
  ctrans :: 't
  booleanField :: "(byte list \<times> TType \<times> int16_t) option"
  boolValue :: "bool option"
  lastField :: "int16_t list"
  lastFieldId :: int16_t
  cstring_limit :: int32_t
  cstring_buf :: "byte list option"
  cstring_buf_size :: int32_t
  ccontainer_limit :: int32_t

definition PROTOCOL_ID :: int8_t where "PROTOCOL_ID = 0x82"
definition VERSION_N :: int8_t where "VERSION_N = 1"
definition COMPACT_VERSION_MASK :: int8_t where "COMPACT_VERSION_MASK = 0x1f"
definition TYPE_MASK :: int8_t where "TYPE_MASK = 0xE0"
definition TYPE_SHIFT_AMOUNT :: nat where "TYPE_SHIFT_AMOUNT = 5"

definition newTCompactProtocol_limits :: "'t \<Rightarrow> int32_t \<Rightarrow> int32_t \<Rightarrow> 't TCompactProtocol" where
  "newTCompactProtocol_limits t slim clim =
     \<lparr>ctrans = t, booleanField = None, boolValue = None, lastField = [], lastFieldId = 0,
      cstring_limit = slim, cstring_buf = None, cstring_buf_size = 0, ccontainer_limit = clim\<rparr>"

definition newTCompactProtocol :: "'t \<Rightarrow> 't TCompactProtocol" where
  "newTCompactProtocol t = newTCompactProtocol_limits t 0 0"

definition onCTrans :: "('t, 'a) M \<Rightarrow> ('t TCompactProtocol, 'a) M" where
  "onCTrans m = liftM ctrans (\<lambda>t s. s\<lparr>ctrans := t\<rparr>) m"

section \<open>Type codes\<close>

definition CT_STOP :: int8_t where "CT_STOP = 0x00"
definition CT_BOOLEAN_TRUE :: int8_t where "CT_BOOLEAN_TRUE = 0x01"
definition CT_BOOLEAN_FALSE :: int8_t where "CT_BOOLEAN_FALSE = 0x02"
definition CT_BYTE :: int8_t where "CT_BYTE = 0x03"
definition CT_I16 :: int8_t where "CT_I16 = 0x04"
definition CT_I32 :: int8_t where "CT_I32 = 0x05"
definition CT_I64 :: int8_t where "CT_I64 = 0x06"
definition CT_DOUBLE :: int8_t where "CT_DOUBLE = 0x07"
definition CT_BINARY :: int8_t where "CT_BINARY = 0x08"
definition CT_LIST :: int8_t where "CT_LIST = 0x09"
definition CT_SET :: int8_t where "CT_SET = 0x0A"
definition CT_MAP :: int8_t where "CT_MAP = 0x0B"
definition CT_STRUCT :: int8_t where "CT_STRUCT = 0x0C"

lemmas ctype_defs = CT_STOP_def CT_BOOLEAN_TRUE_def CT_BOOLEAN_FALSE_def CT_BYTE_def CT_I16_def
  CT_I32_def CT_I64_def CT_DOUBLE_def CT_BINARY_def CT_LIST_def CT_SET_def CT_MAP_def CT_STRUCT_def

definition TTypeToCType :: "int8_t list" where
  "TTypeToCType = [CT_STOP, 0, CT_BOOLEAN_TRUE, CT_BYTE, CT_DOUBLE, 0, CT_I16, 0, CT_I32, 0, CT_I64,
     CT_BINARY, CT_STRUCT, CT_MAP, CT_SET, CT_LIST]"

text \<open>An index outside the table is undefined behaviour; \<open>TType\<close> values below 16 are inside.\<close>

definition getCompactType :: "TType \<Rightarrow> ('t TCompactProtocol, int8_t) M" where
  "getCompactType ttype =
     (if unat ttype < length TTypeToCType then returnM (TTypeToCType ! unat ttype)
      else throwM UndefinedBehaviour)"

definition getTType :: "int8_t \<Rightarrow> ('t TCompactProtocol, TType) M" where
  "getTType type =
     (if type = T_STOP then returnM T_STOP
      else if type = CT_BOOLEAN_FALSE \<or> type = CT_BOOLEAN_TRUE then returnM T_BOOL
      else if type = CT_BYTE then returnM T_BYTE
      else if type = CT_I16 then returnM T_I16
      else if type = CT_I32 then returnM T_I32
      else if type = CT_I64 then returnM T_I64
      else if type = CT_DOUBLE then returnM T_DOUBLE
      else if type = CT_BINARY then returnM T_STRING
      else if type = CT_LIST then returnM T_LIST
      else if type = CT_SET then returnM T_SET
      else if type = CT_MAP then returnM T_MAP
      else if type = CT_STRUCT then returnM T_STRUCT
      else throwM TException)"

section \<open>Writing\<close>

definition compact_writeByte :: "'t TTransport \<Rightarrow> int8_t \<Rightarrow> ('t TCompactProtocol, uint32_t) M" where
  "compact_writeByte T b = bindM (onCTrans (write_virt T [b])) (\<lambda>_. returnM 1)"

definition writeVarint32 :: "'t TTransport \<Rightarrow> uint32_t \<Rightarrow> ('t TCompactProtocol, uint32_t) M" where
  "writeVarint32 T n =
     (let buf = varint32 n in
      bindM (onCTrans (write_virt T buf)) (\<lambda>_. returnM (word_of_nat (length buf))))"

definition writeVarint64 :: "'t TTransport \<Rightarrow> uint64_t \<Rightarrow> ('t TCompactProtocol, uint32_t) M" where
  "writeVarint64 T n =
     (let buf = varint64 n in
      bindM (onCTrans (write_virt T buf)) (\<lambda>_. returnM (word_of_nat (length buf))))"

definition compact_writeI16 :: "'t TTransport \<Rightarrow> int16_t \<Rightarrow> ('t TCompactProtocol, uint32_t) M" where
  "compact_writeI16 T i16 = writeVarint32 T (i32ToZigzag (scast i16))"

definition compact_writeI32 :: "'t TTransport \<Rightarrow> int32_t \<Rightarrow> ('t TCompactProtocol, uint32_t) M" where
  "compact_writeI32 T i32 = writeVarint32 T (i32ToZigzag i32)"

definition compact_writeI64 :: "'t TTransport \<Rightarrow> int64_t \<Rightarrow> ('t TCompactProtocol, uint32_t) M" where
  "compact_writeI64 T i64 = writeVarint64 T (i64ToZigzag i64)"

text \<open>\<open>htolell\<close> is the identity on a little-endian host.\<close>

definition compact_writeDouble :: "'t TTransport \<Rightarrow> double \<Rightarrow> ('t TCompactProtocol, uint32_t) M" where
  "compact_writeDouble T dub = bindM (onCTrans (write_virt T (mem64 dub))) (\<lambda>_. returnM 8)"

text \<open>The size is converted to \<^verbatim>\<open>uint32_t\<close>, and that many bytes are written.\<close>

definition compact_writeBinary :: "'t TTransport \<Rightarrow> byte list \<Rightarrow> ('t TCompactProtocol, uint32_t) M" where
  "compact_writeBinary T str =
     (let ssize = word_of_nat (length str) :: uint32_t in
      bindM (writeVarint32 T ssize) (\<lambda>w.
      bindM (onCTrans (write_virt T (take (unat ssize) str))) (\<lambda>_.
      returnM (w + ssize))))"

definition compact_writeString :: "'t TTransport \<Rightarrow> byte list \<Rightarrow> ('t TCompactProtocol, uint32_t) M" where
  "compact_writeString T str = compact_writeBinary T str"

definition compact_writeMessageBegin ::
  "'t TTransport \<Rightarrow> byte list \<Rightarrow> TMessageType \<Rightarrow> int32_t \<Rightarrow> ('t TCompactProtocol, uint32_t) M" where
  "compact_writeMessageBegin T name messageType seqid =
     seqM [compact_writeByte T PROTOCOL_ID,
       compact_writeByte T ((VERSION_N AND COMPACT_VERSION_MASK)
         OR (ucast (push_bit TYPE_SHIFT_AMOUNT messageType) AND TYPE_MASK)),
       writeVarint32 T seqid, compact_writeString T name]"

text \<open>
  \<open>fieldId\<close> and \<open>lastFieldId\<close> are promoted to \<^verbatim>\<open>int\<close> before they are subtracted.
\<close>

definition writeFieldBeginInternal ::
  "'t TTransport \<Rightarrow> byte list \<Rightarrow> TType \<Rightarrow> int16_t \<Rightarrow> int8_t \<Rightarrow> ('t TCompactProtocol, uint32_t) M" where
  "writeFieldBeginInternal T name fieldType fieldId typeOverride =
     bindM (if typeOverride = -1 then getCompactType fieldType else returnM typeOverride) (\<lambda>typeToWrite.
     bindM (getM lastFieldId) (\<lambda>lastId.
     let delta = sint fieldId - sint lastId in
     bindM (if lastId <s fieldId \<and> delta \<le> 15
         then compact_writeByte T (push_bit 4 (word_of_int delta) OR typeToWrite)
         else seqM [compact_writeByte T typeToWrite, compact_writeI16 T fieldId]) (\<lambda>wsize.
     bindM (modifyM (\<lambda>s. s\<lparr>lastFieldId := fieldId\<rparr>)) (\<lambda>_.
     returnM wsize))))"

definition compact_writeFieldBegin ::
  "'t TTransport \<Rightarrow> byte list \<Rightarrow> TType \<Rightarrow> int16_t \<Rightarrow> ('t TCompactProtocol, uint32_t) M" where
  "compact_writeFieldBegin T name fieldType fieldId =
     (if fieldType = T_BOOL then
        bindM (modifyM (\<lambda>s. s\<lparr>booleanField := Some (name, fieldType, fieldId)\<rparr>)) (\<lambda>_. returnM 0)
      else writeFieldBeginInternal T name fieldType fieldId (-1))"

definition compact_writeFieldStop :: "'t TTransport \<Rightarrow> ('t TCompactProtocol, uint32_t) M" where
  "compact_writeFieldStop T = compact_writeByte T T_STOP"

definition compact_writeStructBegin :: "byte list \<Rightarrow> ('t TCompactProtocol, uint32_t) M" where
  "compact_writeStructBegin name =
     bindM (modifyM (\<lambda>s. s\<lparr>lastField := lastFieldId s # lastField s, lastFieldId := 0\<rparr>)) (\<lambda>_. returnM 0)"

text \<open>The top of an empty stack is undefined behaviour.\<close>

definition compact_writeStructEnd :: "('t TCompactProtocol, uint32_t) M" where
  "compact_writeStructEnd s =
     (case lastField s of
        [] \<Rightarrow> (Inl UndefinedBehaviour, s)
      | i # rest \<Rightarrow> (Inr 0, s\<lparr>lastFieldId := i, lastField := rest\<rparr>))"

text \<open>The size arrives as an \<^verbatim>\<open>int32_t\<close>.\<close>

definition writeCollectionBegin ::
  "'t TTransport \<Rightarrow> TType \<Rightarrow> int32_t \<Rightarrow> ('t TCompactProtocol, uint32_t) M" where
  "writeCollectionBegin T elemType sz =
     bindM (getCompactType elemType) (\<lambda>ctype.
     if sz \<le>s 14 then compact_writeByte T (ucast (push_bit 4 sz) OR ctype)
     else seqM [compact_writeByte T (0xf0 OR ctype), writeVarint32 T sz])"

definition compact_writeListBegin ::
  "'t TTransport \<Rightarrow> TType \<Rightarrow> uint32_t \<Rightarrow> ('t TCompactProtocol, uint32_t) M" where
  "compact_writeListBegin T elemType sz = writeCollectionBegin T elemType sz"

definition compact_writeSetBegin ::
  "'t TTransport \<Rightarrow> TType \<Rightarrow> uint32_t \<Rightarrow> ('t TCompactProtocol, uint32_t) M" where
  "compact_writeSetBegin T elemType sz = writeCollectionBegin T elemType sz"

definition compact_writeMapBegin ::
  "'t TTransport \<Rightarrow> TType \<Rightarrow> TType \<Rightarrow> uint32_t \<Rightarrow> ('t TCompactProtocol, uint32_t) M" where
  "compact_writeMapBegin T keyType valType sz =
     (if sz = 0 then compact_writeByte T 0
      else
        bindM (writeVarint32 T sz) (\<lambda>a.
        bindM (getCompactType keyType) (\<lambda>k.
        bindM (getCompactType valType) (\<lambda>v.
        bindM (compact_writeByte T (push_bit 4 k OR v)) (\<lambda>b.
        returnM (a + b))))))"

definition compact_writeBool :: "'t TTransport \<Rightarrow> bool \<Rightarrow> ('t TCompactProtocol, uint32_t) M" where
  "compact_writeBool T value =
     bindM (getM booleanField) (\<lambda>bf.
     case bf of
       Some (name, fieldType, fieldId) \<Rightarrow>
         bindM (writeFieldBeginInternal T name fieldType fieldId
           (if value then CT_BOOLEAN_TRUE else CT_BOOLEAN_FALSE)) (\<lambda>wsize.
         bindM (modifyM (\<lambda>s. s\<lparr>booleanField := None\<rparr>)) (\<lambda>_.
         returnM wsize))
     | None \<Rightarrow> compact_writeByte T (if value then CT_BOOLEAN_TRUE else CT_BOOLEAN_FALSE))"

section \<open>Reading\<close>

definition compact_readByte :: "'t TTransport \<Rightarrow> ('t TCompactProtocol, int8_t \<times> uint32_t) M" where
  "compact_readByte T = bindM (onCTrans (readAll_virt T 1)) (\<lambda>b. returnM (b ! 0, 1))"

text \<open>The slow path: one byte at a time.\<close>

function varint_slow ::
  "'t TTransport \<Rightarrow> nat \<Rightarrow> uint64_t \<Rightarrow> nat \<Rightarrow> ('t TCompactProtocol, int64_t \<times> uint32_t) M" where
  "varint_slow T rsize val shift s =
     (case onCTrans (readAll_virt T 1) s of
        (Inl e, s') \<Rightarrow> (Inl e, s')
      | (Inr bs, s') \<Rightarrow>
          let b = bs ! 0; rsize' = rsize + 1;
              val' = val OR push_bit shift (ucast (b AND 0x7f)) in
          if b AND 0x80 = 0 then (Inr (val', word_of_nat rsize'), s')
          else if rsize' \<ge> 10 then (Inl (TProtocolException INVALID_DATA), s')
          else varint_slow T rsize' val' (shift + 7) s')"
  by pat_completeness auto
termination
  by (relation "measure (\<lambda>(T, rsize, val, shift, s). 10 - rsize)") auto

declare varint_slow.simps [simp del]

definition readVarint64 :: "'t TTransport \<Rightarrow> ('t TCompactProtocol, int64_t \<times> uint32_t) M" where
  "readVarint64 T =
     bindM (onCTrans (borrow_virt T 10)) (\<lambda>borrowed.
     case borrowed of
       Some buf \<Rightarrow>
         (case varint_scan buf 0 0 0 of
            Some (val, rsize) \<Rightarrow>
              bindM (onCTrans (consume_virt T rsize)) (\<lambda>_. returnM (val, word_of_nat rsize))
          | None \<Rightarrow> throwM (TProtocolException INVALID_DATA))
     | None \<Rightarrow> varint_slow T 0 0 0)"

definition readVarint32 :: "'t TTransport \<Rightarrow> ('t TCompactProtocol, int32_t \<times> uint32_t) M" where
  "readVarint32 T = bindM (readVarint64 T) (\<lambda>(val, rsize). returnM (ucast val, rsize))"

definition compact_readI16 :: "'t TTransport \<Rightarrow> ('t TCompactProtocol, int16_t \<times> uint32_t) M" where
  "compact_readI16 T =
     bindM (readVarint32 T) (\<lambda>(val, rsize). returnM (ucast (zigzagToI32 val), rsize))"

definition compact_readI32 :: "'t TTransport \<Rightarrow> ('t TCompactProtocol, int32_t \<times> uint32_t) M" where
  "compact_readI32 T = bindM (readVarint32 T) (\<lambda>(val, rsize). returnM (zigzagToI32 val, rsize))"

definition compact_readI64 :: "'t TTransport \<Rightarrow> ('t TCompactProtocol, int64_t \<times> uint32_t) M" where
  "compact_readI64 T = bindM (readVarint64 T) (\<lambda>(val, rsize). returnM (zigzagToI64 val, rsize))"

definition compact_readDouble :: "'t TTransport \<Rightarrow> ('t TCompactProtocol, double \<times> uint32_t) M" where
  "compact_readDouble T = bindM (onCTrans (readAll_virt T 8)) (\<lambda>b. returnM (load64 b, 8))"

definition compact_grow_string_buf :: "int32_t \<Rightarrow> 't TCompactProtocol \<Rightarrow> 't TCompactProtocol" where
  "compact_grow_string_buf sz s =
     (if cstring_buf_size s <s sz \<or> cstring_buf s = None then
        (let old = (case cstring_buf s of None \<Rightarrow> [] | Some b \<Rightarrow> b) in
         s\<lparr>cstring_buf := Some (take (unat sz) (old @ replicate (unat sz - length old) 0)),
           cstring_buf_size := sz\<rparr>)
      else s)"

definition compact_read_string_buf ::
  "'t TTransport \<Rightarrow> int32_t \<Rightarrow> ('t TCompactProtocol, byte list) M" where
  "compact_read_string_buf T sz =
     bindM (onCTrans (readAll_virt T (unat sz))) (\<lambda>bs.
     bindM (modifyM (\<lambda>s. s\<lparr>cstring_buf := map_option (\<lambda>b. memcpy b 0 bs) (cstring_buf s)\<rparr>)) (\<lambda>_.
     getM (\<lambda>s. case cstring_buf s of None \<Rightarrow> [] | Some b \<Rightarrow> take (unat sz) b)))"

definition compact_readBinary :: "'t TTransport \<Rightarrow> ('t TCompactProtocol, byte list \<times> uint32_t) M" where
  "compact_readBinary T =
     bindM (readVarint32 T) (\<lambda>(sz, rsize).
     bindM (getM cstring_limit) (\<lambda>limit.
     if sz = 0 then returnM ([], rsize)
     else if sz <s 0 then throwM (TProtocolException NEGATIVE_SIZE)
     else if 0 <s limit \<and> limit <s sz then throwM (TProtocolException SIZE_LIMIT)
     else
       bindM (modifyM (compact_grow_string_buf sz)) (\<lambda>_.
       bindM (compact_read_string_buf T sz) (\<lambda>str.
       returnM (str, rsize + sz)))))"

definition compact_readString :: "'t TTransport \<Rightarrow> ('t TCompactProtocol, byte list \<times> uint32_t) M" where
  "compact_readString T = compact_readBinary T"

definition compact_readBool :: "'t TTransport \<Rightarrow> ('t TCompactProtocol, bool \<times> uint32_t) M" where
  "compact_readBool T =
     bindM (getM boolValue) (\<lambda>bv.
     case bv of
       Some v \<Rightarrow> bindM (modifyM (\<lambda>s. s\<lparr>boolValue := None\<rparr>)) (\<lambda>_. returnM (v, 0))
     | None \<Rightarrow> bindM (compact_readByte T) (\<lambda>(val, n). returnM (val = CT_BOOLEAN_TRUE, 1)))"

text \<open>The message type is cut to two bits after an arithmetic shift.\<close>

definition compact_readMessageBegin ::
  "'t TTransport \<Rightarrow> ('t TCompactProtocol, (byte list \<times> TMessageType \<times> int32_t) \<times> uint32_t) M" where
  "compact_readMessageBegin T =
     bindM (compact_readByte T) (\<lambda>(protocolId, r1).
     if protocolId \<noteq> PROTOCOL_ID then throwM (TProtocolException BAD_VERSION)
     else
       bindM (compact_readByte T) (\<lambda>(versionAndType, r2).
       if versionAndType AND COMPACT_VERSION_MASK \<noteq> VERSION_N
       then throwM (TProtocolException BAD_VERSION)
       else
         (let messageType = signed_drop_bit TYPE_SHIFT_AMOUNT (scast versionAndType :: int32_t) AND 0x03 in
          bindM (readVarint32 T) (\<lambda>(seqid, r3).
          bindM (compact_readString T) (\<lambda>(name, r4).
          returnM ((name, messageType, seqid), r1 + r2 + r3 + r4))))))"

definition compact_readStructBegin :: "('t TCompactProtocol, byte list option \<times> uint32_t) M" where
  "compact_readStructBegin =
     bindM (modifyM (\<lambda>s. s\<lparr>lastField := lastFieldId s # lastField s, lastFieldId := 0\<rparr>)) (\<lambda>_.
     returnM (Some [], 0))"

definition compact_readStructEnd :: "('t TCompactProtocol, uint32_t) M" where
  "compact_readStructEnd s =
     (case lastField s of
        [] \<Rightarrow> (Inl UndefinedBehaviour, s)
      | i # rest \<Rightarrow> (Inr 0, s\<lparr>lastFieldId := i, lastField := rest\<rparr>))"

definition compact_readFieldBegin ::
  "'t TTransport \<Rightarrow> ('t TCompactProtocol, (byte list option \<times> TType \<times> int16_t) \<times> uint32_t) M" where
  "compact_readFieldBegin T =
     bindM (compact_readByte T) (\<lambda>(b, r1).
     let type = b AND 0x0f in
     if type = T_STOP then returnM ((None, T_STOP, 0), r1)
     else
       (let modifier = drop_bit 4 (b AND 0xf0) in
        bindM (if modifier = 0 then compact_readI16 T
               else bindM (getM lastFieldId) (\<lambda>lastId. returnM (lastId + ucast modifier, 0))) (\<lambda>(fieldId, r2).
        bindM (getTType type) (\<lambda>fieldType.
        bindM (if type = CT_BOOLEAN_TRUE \<or> type = CT_BOOLEAN_FALSE
               then modifyM (\<lambda>s. s\<lparr>boolValue := Some (type = CT_BOOLEAN_TRUE)\<rparr>) else returnM ()) (\<lambda>_.
        bindM (modifyM (\<lambda>s. s\<lparr>lastFieldId := fieldId\<rparr>)) (\<lambda>_.
        returnM ((None, fieldType, fieldId), r1 + r2)))))))"

definition compact_checkSize :: "int32_t \<Rightarrow> ('t TCompactProtocol, unit) M" where
  "compact_checkSize sz =
     bindM (getM ccontainer_limit) (\<lambda>limit.
     if sz <s 0 then throwM (TProtocolException NEGATIVE_SIZE)
     else if limit \<noteq> 0 \<and> limit <s sz then throwM (TProtocolException SIZE_LIMIT)
     else returnM ())"

definition compact_readMapBegin ::
  "'t TTransport \<Rightarrow> ('t TCompactProtocol, (TType \<times> TType \<times> uint32_t) \<times> uint32_t) M" where
  "compact_readMapBegin T =
     bindM (readVarint32 T) (\<lambda>(msize, r1).
     bindM (if msize \<noteq> 0 then compact_readByte T else returnM (0, 0)) (\<lambda>(kvType, r2).
     bindM (compact_checkSize msize) (\<lambda>_.
     bindM (getTType (drop_bit 4 kvType)) (\<lambda>keyType.
     bindM (getTType (kvType AND 0xf)) (\<lambda>valType.
     returnM ((keyType, valType, msize), r1 + r2))))))"

definition compact_readListBegin ::
  "'t TTransport \<Rightarrow> ('t TCompactProtocol, (TType \<times> uint32_t) \<times> uint32_t) M" where
  "compact_readListBegin T =
     bindM (compact_readByte T) (\<lambda>(size_and_type, r1).
     let lsize = ucast (drop_bit 4 size_and_type AND 0x0f) :: int32_t in
     bindM (if lsize = 15 then readVarint32 T else returnM (lsize, 0)) (\<lambda>(lsize', r2).
     bindM (compact_checkSize lsize') (\<lambda>_.
     bindM (getTType (size_and_type AND 0x0f)) (\<lambda>elemType.
     returnM ((elemType, lsize'), r1 + r2)))))"

definition compact_readSetBegin ::
  "'t TTransport \<Rightarrow> ('t TCompactProtocol, (TType \<times> uint32_t) \<times> uint32_t) M" where
  "compact_readSetBegin T = compact_readListBegin T"

definition compact_ops :: "'t TTransport \<Rightarrow> 't TCompactProtocol TProtocol" where
  "compact_ops T = \<lparr>
     writeMessageBegin_virt = compact_writeMessageBegin T, writeMessageEnd_virt = returnM 0,
     writeStructBegin_virt = compact_writeStructBegin, writeStructEnd_virt = compact_writeStructEnd,
     writeFieldBegin_virt = compact_writeFieldBegin T, writeFieldEnd_virt = returnM 0,
     writeFieldStop_virt = compact_writeFieldStop T,
     writeMapBegin_virt = compact_writeMapBegin T, writeMapEnd_virt = returnM 0,
     writeListBegin_virt = compact_writeListBegin T, writeListEnd_virt = returnM 0,
     writeSetBegin_virt = compact_writeSetBegin T, writeSetEnd_virt = returnM 0,
     writeBool_virt = compact_writeBool T, writeByte_virt = compact_writeByte T,
     writeI16_virt = compact_writeI16 T, writeI32_virt = compact_writeI32 T,
     writeI64_virt = compact_writeI64 T, writeDouble_virt = compact_writeDouble T,
     writeString_virt = compact_writeString T, writeBinary_virt = compact_writeBinary T,
     readMessageBegin_virt = compact_readMessageBegin T, readMessageEnd_virt = returnM 0,
     readStructBegin_virt = compact_readStructBegin, readStructEnd_virt = compact_readStructEnd,
     readFieldBegin_virt = compact_readFieldBegin T, readFieldEnd_virt = returnM 0,
     readMapBegin_virt = compact_readMapBegin T, readMapEnd_virt = returnM 0,
     readListBegin_virt = compact_readListBegin T, readListEnd_virt = returnM 0,
     readSetBegin_virt = compact_readSetBegin T, readSetEnd_virt = returnM 0,
     readBool_virt = compact_readBool T, readByte_virt = compact_readByte T,
     readI16_virt = compact_readI16 T, readI32_virt = compact_readI32 T,
     readI64_virt = compact_readI64 T, readDouble_virt = compact_readDouble T,
     readString_virt = compact_readString T, readBinary_virt = compact_readBinary T\<rparr>"

section \<open>The layout\<close>

definition ctype_of :: "TType \<Rightarrow> int8_t" where
  "ctype_of t = TTypeToCType ! unat t"

fun compact_base :: "tval \<Rightarrow> byte list" where
  "compact_base (VBool b) = [if b then CT_BOOLEAN_TRUE else CT_BOOLEAN_FALSE]"
| "compact_base (VByte b) = [b]"
| "compact_base (VI16 i) = varint32 (i32ToZigzag (scast i))"
| "compact_base (VI32 i) = varint32 (i32ToZigzag i)"
| "compact_base (VI64 i) = varint64 (i64ToZigzag i)"
| "compact_base (VDouble d) = mem64 d"
| "compact_base (VString s) = varint32 (word_of_nat (length s)) @ s"
| "compact_base (VBinary s) = varint32 (word_of_nat (length s)) @ s"
| "compact_base v = []"

text \<open>
  The control state: the stack of field ids, the last field id, and the boolean a reader has
  taken from a field header and not yet delivered.
\<close>

type_synonym compact_control = "int16_t list \<times> int16_t \<times> bool option"

definition compact_header :: "int16_t \<Rightarrow> int16_t \<Rightarrow> int8_t \<Rightarrow> byte list" where
  "compact_header lastId fid ct =
     (if lastId <s fid \<and> sint fid - sint lastId \<le> 15
      then [push_bit 4 (word_of_int (sint fid - sint lastId)) OR ct]
      else ct # varint32 (i32ToZigzag (scast fid)))"

definition compact_field_type :: "tval \<Rightarrow> int8_t" where
  "compact_field_type v = (case v of VBool b \<Rightarrow> (if b then CT_BOOLEAN_TRUE else CT_BOOLEAN_FALSE)
     | _ \<Rightarrow> ctype_of (ttype_of v))"

definition compact_collection :: "TType \<Rightarrow> nat \<Rightarrow> byte list" where
  "compact_collection e n =
     (if n \<le> 14 then [push_bit 4 (word_of_nat n) OR ctype_of e]
      else (0xf0 OR ctype_of e) # varint32 (word_of_nat n))"

definition compact_wire :: "compact_control wire" where
  "compact_wire = \<lparr>wire_push = (\<lambda>(st, l, p). (l # st, 0, p)), wire_field = (\<lambda>(st, l, p) fid. (st, fid, p)),
     wire_base = compact_base,
     wire_base_field = (\<lambda>(st, l, p) fid v. compact_header l fid (compact_field_type v)
       @ (if ttype_of v = T_BOOL then [] else compact_base v)),
     wire_header = (\<lambda>(st, l, p) fid type. compact_header l fid (ctype_of type)),
     wire_stop = [T_STOP],
     wire_map = (\<lambda>k v n. if n = 0 then [0]
       else varint32 (word_of_nat n) @ [push_bit 4 (ctype_of k) OR ctype_of v]),
     wire_set = compact_collection, wire_list = compact_collection\<rparr>"

definition compact_idle :: "compact_control \<Rightarrow> bool" where
  "compact_idle c \<longleftrightarrow> snd (snd c) = None"

lemma after_fields_compact: "\<exists>l'. after_fields compact_wire (st, l, p) fs = (st, l', p)"
  by (induction fs arbitrary: l) (auto simp: compact_wire_def)

lemma upto_14: "n \<le> 14 \<Longrightarrow> n \<in> {0, 1, 2, 3, 4, 5, 6, 7, 8, 9, 10, 11, 12, 13, 14 :: nat}"
  by (simp; presburger)

text \<open>Two nibbles in a byte.\<close>

lemma bit_0x0f: "bit (0x0f :: byte) i \<longleftrightarrow> i < 4"
proof -
  have "(0x0f :: byte) = mask 4" by (simp add: mask_eq_exp_minus_1)
  then show ?thesis by (simp only: bit_mask_iff) auto
qed

lemma bit_0xf0: "bit (0xf0 :: byte) i \<longleftrightarrow> 4 \<le> i \<and> i < 8"
proof -
  have "(0xf0 :: byte) = push_bit 4 (mask 4)" by (simp add: mask_eq_exp_minus_1)
  then show ?thesis by (simp only: bit_push_bit_iff bit_mask_iff) auto
qed

lemma small_bits: "unat (w :: byte) < 16 \<Longrightarrow> bit w i \<Longrightarrow> i < 4"
proof (rule ccontr)
  assume "unat w < 16" "bit w i" "\<not> i < 4"
  then have "w AND mask 4 = w" using less_mask_eq [of w 4] by (simp add: word_less_nat_alt)
  with \<open>bit w i\<close> \<open>\<not> i < 4\<close> show False by (metis bit_and_iff bit_mask_iff)
qed

lemma nibbles:
  assumes "unat (h :: byte) < 16" and "unat l < 16"
  shows "(push_bit 4 h OR l) AND 0x0f = l" and "drop_bit 4 ((push_bit 4 h OR l) AND 0xf0) = h"
    and "drop_bit 4 (push_bit 4 h OR l) = h" and "drop_bit 4 (push_bit 4 h OR l) AND 0x0f = h"
proof -
  have b: "bit (push_bit 4 h OR l) i = (if i < 4 then bit l i else i < 8 \<and> bit h (i - 4))" for i
    using small_bits [OF assms(2), of i] bit_imp_le_length [of l i]
    by (auto simp: bit_or_iff bit_push_bit_iff)
  show "(push_bit 4 h OR l) AND 0x0f = l"
    by (rule bit_word_eqI) (use small_bits [OF assms(2)] in
      \<open>auto simp: bit_and_iff b bit_0x0f simp del: bit_numeral_word_iff push_bit_and\<close>)
  have hi: "bit (drop_bit 4 (push_bit 4 h OR l)) i = bit h i" for i
    using small_bits [OF assms(1), of i] by (auto simp: bit_drop_bit_eq b simp del: drop_bit_or)
  show "drop_bit 4 (push_bit 4 h OR l) = h" by (rule bit_word_eqI) (simp only: hi)
  show "drop_bit 4 (push_bit 4 h OR l) AND 0x0f = h"
    by (rule bit_word_eqI) (use small_bits [OF assms(1)] in
      \<open>auto simp: bit_and_iff hi bit_0x0f simp del: bit_numeral_word_iff drop_bit_or\<close>)
  show "drop_bit 4 ((push_bit 4 h OR l) AND 0xf0) = h"
    by (rule bit_word_eqI) (use small_bits [OF assms(1)] in
      \<open>auto simp: bit_drop_bit_eq bit_and_iff b bit_0xf0 simp del: bit_numeral_word_iff drop_bit_and push_bit_and\<close>)
qed

lemma ctype_of_simps [simp]:
  "ctype_of T_BOOL = CT_BOOLEAN_TRUE" "ctype_of T_BYTE = CT_BYTE" "ctype_of T_DOUBLE = CT_DOUBLE"
  "ctype_of T_I16 = CT_I16" "ctype_of T_I32 = CT_I32" "ctype_of T_I64 = CT_I64"
  "ctype_of T_STRING = CT_BINARY" "ctype_of T_STRUCT = CT_STRUCT" "ctype_of T_MAP = CT_MAP"
  "ctype_of T_SET = CT_SET" "ctype_of T_LIST = CT_LIST"
  by (simp_all add: ctype_of_def TTypeToCType_def ttype_defs)

lemma ctype_small:
  assumes "valid_tag t"
  shows "unat (ctype_of t) < 16" and "ctype_of t \<noteq> 0"
  using assms by (auto simp: valid_tag_def ctype_defs)

lemma getCompactType_valid: "valid_tag t \<Longrightarrow> getCompactType t = returnM (ctype_of t)"
  by (auto simp: valid_tag_def getCompactType_def TTypeToCType_def ctype_of_def ttype_defs)

lemma getTType_ctype_of: "valid_tag t \<Longrightarrow> getTType (ctype_of t) = returnM t"
  by (auto simp: valid_tag_def getTType_def ctype_defs T_STOP_def)

lemma compact_field_type_small:
  shows "unat (compact_field_type v) < 16" and "compact_field_type v \<noteq> 0"
    and "getTType (compact_field_type v) = returnM (ttype_of v)"
  using ctype_small [of "ttype_of v"] getTType_ctype_of [of "ttype_of v"]
  by (cases v; simp add: compact_field_type_def ctype_defs getTType_def T_STOP_def)+

section \<open>Observations\<close>

type_synonym compact_config = "int32_t \<times> int32_t"

definition compact_config :: "'t TCompactProtocol \<Rightarrow> compact_config" where
  "compact_config s = (cstring_limit s, ccontainer_limit s)"

definition cstring_buf_ok :: "'t TCompactProtocol \<Rightarrow> bool" where
  "cstring_buf_ok s \<longleftrightarrow> 0 \<le> sint (cstring_buf_size s)
     \<and> (\<forall>b. cstring_buf s = Some b \<longrightarrow> length b = unat (cstring_buf_size s))"

text \<open>\<open>bf\<close> is the pending boolean field of a writer, which is empty between the fields.\<close>

definition compact_writing ::
  "('t \<Rightarrow> bool) \<Rightarrow> ('t \<Rightarrow> byte list) \<Rightarrow> ('t \<Rightarrow> nat) \<Rightarrow> compact_config \<Rightarrow>
   (byte list \<times> TType \<times> int16_t) option \<Rightarrow> ('t TCompactProtocol, compact_control) writing" where
  "compact_writing tinv outp room cfg bf =
     \<lparr>w_inv = (\<lambda>s. tinv (ctrans s) \<and> compact_config s = cfg \<and> cstring_buf_ok s \<and> booleanField s = bf),
      w_ctl = (\<lambda>s. (lastField s, lastFieldId s, boolValue s)),
      w_outp = (\<lambda>s. outp (ctrans s)), w_room = (\<lambda>s. room (ctrans s))\<rparr>"

definition compact_reading ::
  "('t \<Rightarrow> bool) \<Rightarrow> ('t \<Rightarrow> byte list) \<Rightarrow> compact_config \<Rightarrow> ('t TCompactProtocol, compact_control) reading" where
  "compact_reading tinv inp cfg =
     \<lparr>r_inv = (\<lambda>s. tinv (ctrans s) \<and> compact_config s = cfg \<and> cstring_buf_ok s \<and> booleanField s = None),
      r_ctl = (\<lambda>s. (lastField s, lastFieldId s, boolValue s)), r_inp = (\<lambda>s. inp (ctrans s))\<rparr>"

lemmas compact_view_defs = compact_writing_def compact_reading_def compact_config_def cstring_buf_ok_def

section \<open>Writing emits the layout\<close>

locale compact_over_sink = byte_sink T inv outp room
  for T :: "'t TTransport" and inv outp room +
  fixes cfg :: compact_config
begin

abbreviation V where "V bf \<equiv> compact_writing inv outp room cfg bf"

lemma emits_trans:
  assumes "k = word_of_nat (length bs)"
  shows "emits (V bf) c (bindM (onCTrans (write_virt T bs)) (\<lambda>_. returnM k)) bs c"
  unfolding emits_def
proof (intro allI impI, elim conjE)
  fix s :: "'t TCompactProtocol"
  assume s: "w_inv (V bf) s" "w_ctl (V bf) s = c" "length bs \<le> w_room (V bf) s"
  obtain t where t: "write_virt T bs (ctrans s) = (Inr (), t)" "inv t"
    "outp t = outp (ctrans s) @ bs" "room (ctrans s) = room t + length bs"
    using sink_write [of "ctrans s" bs] s by (auto simp: compact_writing_def)
  with s assms show "\<exists>s'. bindM (onCTrans (write_virt T bs)) (\<lambda>_. returnM k) s
      = (Inr (word_of_nat (length bs)), s') \<and> w_inv (V bf) s' \<and> w_ctl (V bf) s' = c
      \<and> w_outp (V bf) s' = w_outp (V bf) s @ bs \<and> w_room (V bf) s = w_room (V bf) s' + length bs"
    by (auto simp: compact_view_defs onCTrans_def monad_simps)
qed

lemma emits_writeByte: "emits (V bf) c (compact_writeByte T b) [b] c"
  unfolding compact_writeByte_def by (rule emits_trans) simp

lemma emits_writeVarint32: "emits (V bf) c (writeVarint32 T n) (varint32 n) c"
  unfolding writeVarint32_def Let_def by (rule emits_trans) simp

lemma emits_writeVarint64: "emits (V bf) c (writeVarint64 T n) (varint64 n) c"
  unfolding writeVarint64_def Let_def by (rule emits_trans) simp

lemma emits_writeBinary:
  assumes "length str < 2 ^ 32"
  shows "emits (V bf) c (compact_writeBinary T str) (varint32 (word_of_nat (length str)) @ str) c"
proof -
  let ?n = "word_of_nat (length str) :: uint32_t"
  have n: "unat ?n = length str" using assms by (simp add: unat_of_nat)
  have "emits (V bf) c (bindM (onCTrans (write_virt T str)) (\<lambda>_. returnM ?n)) str c"
    by (rule emits_trans) simp
  from emits_bind [OF emits_writeVarint32 [where c = c and n = ?n] this,
      of "\<lambda>w. bindM (onCTrans (write_virt T str)) (\<lambda>_. returnM (w + ?n))"]
  show ?thesis by (simp add: compact_writeBinary_def Let_def n bindM_assoc)
qed

text \<open>A change of the control state alone.\<close>

lemma emits_control:
  assumes "\<And>s. w_inv (V bf) s \<Longrightarrow> w_ctl (V bf) s = c \<Longrightarrow> w_inv (V bf) (f s) \<and> w_ctl (V bf) (f s) = c' \<and> ctrans (f s) = ctrans s"
  shows "emits (V bf) c (bindM (modifyM f) (\<lambda>_. returnM 0)) [] c'"
  using assms unfolding emits_def by (auto simp: monad_simps compact_writing_def)

lemma emits_header:
  assumes "typeOverride = -1 \<Longrightarrow> getCompactType fieldType = (returnM ct :: ('t TCompactProtocol, int8_t) M)"
    and "typeOverride \<noteq> -1 \<Longrightarrow> typeOverride = ct"
  shows "emits (V bf) (st, l, p) (writeFieldBeginInternal T nm fieldType fid typeOverride)
    (compact_header l fid ct) (st, fid, p)"
proof -
  let ?c = "(st, l, p)"
  have long: "emits (V bf) ?c (seqM [compact_writeByte T ct, compact_writeI16 T fid])
      ([ct] @ varint32 (i32ToZigzag (scast fid))) ?c"
    unfolding compact_writeI16_def
    by (rule emits_seq [OF emits_writeByte emits_last [OF emits_writeVarint32]])
  have w: "emits (V bf) ?c (if l <s fid \<and> sint fid - sint l \<le> 15
      then compact_writeByte T (push_bit 4 (word_of_int (sint fid - sint l)) OR ct)
      else seqM [compact_writeByte T ct, compact_writeI16 T fid]) (compact_header l fid ct) ?c"
    using long emits_writeByte by (simp add: compact_header_def del: seqM.simps)
  have "emits (V bf) ?c (bindM (modifyM (\<lambda>s. s\<lparr>lastFieldId := fid\<rparr>)) (\<lambda>_. returnM 0)) [] (st, fid, p)"
    by (rule emits_control) (auto simp: compact_view_defs)
  from emits_bind [OF w this, of "\<lambda>wsize. bindM (modifyM (\<lambda>s. s\<lparr>lastFieldId := fid\<rparr>)) (\<lambda>_. returnM wsize)"]
  have body: "emits (V bf) ?c (bindM (getM lastFieldId) (\<lambda>lastId.
      let delta = sint fid - sint lastId in
      bindM (if lastId <s fid \<and> delta \<le> 15
         then compact_writeByte T (push_bit 4 (word_of_int delta) OR ct)
         else seqM [compact_writeByte T ct, compact_writeI16 T fid]) (\<lambda>wsize.
      bindM (modifyM (\<lambda>s. s\<lparr>lastFieldId := fid\<rparr>)) (\<lambda>_.
      returnM wsize)))) (compact_header l fid ct) (st, fid, p)"
    by (intro emits_get [where x = l]) (auto simp: compact_writing_def bindM_assoc Let_def simp del: seqM.simps)
  have "(if typeOverride = -1 then getCompactType fieldType else returnM typeOverride)
      = (returnM ct :: ('t TCompactProtocol, int8_t) M)"
    using assms by simp
  then have "writeFieldBeginInternal T nm fieldType fid typeOverride = bindM (getM lastFieldId) (\<lambda>lastId.
      let delta = sint fid - sint lastId in
      bindM (if lastId <s fid \<and> delta \<le> 15
         then compact_writeByte T (push_bit 4 (word_of_int delta) OR ct)
         else seqM [compact_writeByte T ct, compact_writeI16 T fid]) (\<lambda>wsize.
      bindM (modifyM (\<lambda>s. s\<lparr>lastFieldId := fid\<rparr>)) (\<lambda>_.
      returnM wsize)))"
    by (simp only: writeFieldBeginInternal_def bindM_return)
  with body show ?thesis by simp
qed

lemma emits_base:
  assumes "is_base v" and "wf_base (okString lim) v"
  shows "emits (V None) c (write_base (compact_ops T) v) (compact_base v) c"
proof (cases v)
  case (VBool b)
  have "emits (V None) c (compact_writeBool T b) [if b then CT_BOOLEAN_TRUE else CT_BOOLEAN_FALSE] c"
    using emits_writeByte [where c = c and b = "if b then CT_BOOLEAN_TRUE else CT_BOOLEAN_FALSE"]
    by (auto simp: emits_def compact_writeBool_def bindM_def getM_def compact_writing_def)
  with VBool show ?thesis by (simp add: compact_ops_def)
next
  case (VDouble d)
  have "emits (V None) c (compact_writeDouble T d) (mem64 d) c"
    unfolding compact_writeDouble_def by (rule emits_trans) simp
  with VDouble show ?thesis by (simp add: compact_ops_def)
qed (use assms in \<open>simp_all add: compact_ops_def emits_writeByte compact_writeI16_def compact_writeI32_def
    compact_writeI64_def emits_writeVarint32 emits_writeVarint64 compact_writeString_def
    emits_writeBinary okString_def\<close>)

text \<open>A boolean field is written by \<open>writeBool\<close>, with the header that \<open>writeFieldBegin\<close> left pending.\<close>

lemma emits_bool_field:
  "emits (V None) (st, l, p) (seqM [compact_writeFieldBegin T nm T_BOOL fid, compact_writeBool T b])
    (compact_header l fid (if b then CT_BOOLEAN_TRUE else CT_BOOLEAN_FALSE)) (st, fid, p)"
  unfolding emits_def
proof (intro allI impI, elim conjE)
  fix s :: "'t TCompactProtocol"
  let ?ct = "if b then CT_BOOLEAN_TRUE else CT_BOOLEAN_FALSE"
  let ?bs = "compact_header l fid ?ct"
  let ?bf = "Some (nm, T_BOOL, fid)"
  let ?s = "s\<lparr>booleanField := ?bf\<rparr>"
  assume s: "w_inv (V None) s" "w_ctl (V None) s = (st, l, p)" "length ?bs \<le> w_room (V None) s"
  have "emits (V ?bf) (st, l, p) (writeFieldBeginInternal T nm T_BOOL fid ?ct) ?bs (st, fid, p)"
    by (rule emits_header) (auto simp: ctype_defs split: if_splits)
  moreover have "w_inv (V ?bf) ?s" "w_ctl (V ?bf) ?s = (st, l, p)" "length ?bs \<le> w_room (V ?bf) ?s"
    using s by (simp_all add: compact_view_defs)
  ultimately obtain s' where
    s': "writeFieldBeginInternal T nm T_BOOL fid ?ct ?s = (Inr (word_of_nat (length ?bs)), s')"
      "w_inv (V ?bf) s'" "w_ctl (V ?bf) s' = (st, fid, p)" "w_outp (V ?bf) s' = w_outp (V ?bf) ?s @ ?bs"
      "w_room (V ?bf) ?s = w_room (V ?bf) s' + length ?bs"
    by (rule emitsD)
  have "compact_writeFieldBegin T nm T_BOOL fid s = (Inr 0, ?s)"
    by (simp add: compact_writeFieldBegin_def monad_simps)
  moreover have "compact_writeBool T b ?s = (Inr (word_of_nat (length ?bs)), s'\<lparr>booleanField := None\<rparr>)"
    using s'(1) by (simp add: compact_writeBool_def bindM_def getM_def modifyM_def returnM_def)
  ultimately have "seqM [compact_writeFieldBegin T nm T_BOOL fid, compact_writeBool T b] s
      = (Inr (word_of_nat (length ?bs)), s'\<lparr>booleanField := None\<rparr>)"
    by (simp add: bindM_def returnM_def)
  with s' show "\<exists>s'. seqM [compact_writeFieldBegin T nm T_BOOL fid, compact_writeBool T b] s
      = (Inr (word_of_nat (length ?bs)), s') \<and> w_inv (V None) s' \<and> w_ctl (V None) s' = (st, fid, p)
      \<and> w_outp (V None) s' = w_outp (V None) s @ ?bs \<and> w_room (V None) s = w_room (V None) s' + length ?bs"
    by (auto simp: compact_view_defs simp del: seqM.simps)
qed

lemma emits_fieldBegin:
  assumes "valid_tag type" and "type \<noteq> T_BOOL"
  shows "emits (V None) (st, l, p) (compact_writeFieldBegin T nm type fid)
    (compact_header l fid (ctype_of type)) (st, fid, p)"
  using emits_header [of "-1" type "ctype_of type"] assms
  by (simp add: compact_writeFieldBegin_def getCompactType_valid)

lemma emits_collection:
  assumes "okContainer lim n" and "valid_tag e"
  shows "emits (V None) c (writeCollectionBegin T e (word_of_nat n)) (compact_collection e n) c"
proof -
  let ?n = "word_of_nat n :: int32_t"
  have small: "(?n \<le>s 14) = (n \<le> 14)"
    using assms(1) sint_word_of_nat [of n] by (auto simp: okContainer_def word_sle_eq)
  have "ucast (push_bit 4 ?n) = (push_bit 4 (word_of_nat n) :: byte)" if "n \<le> 14"
  proof -
    from upto_14 [OF that] show ?thesis by auto
  qed
  moreover have "emits (V None) c (seqM [compact_writeByte T (0xf0 OR ctype_of e), writeVarint32 T ?n])
      ([0xf0 OR ctype_of e] @ varint32 ?n) c"
    by (rule emits_seq [OF emits_writeByte emits_last [OF emits_writeVarint32]])
  ultimately show ?thesis using emits_writeByte
    by (simp add: writeCollectionBegin_def getCompactType_valid [OF assms(2)] small compact_collection_def
        del: seqM.simps)
qed

lemma emits_map:
  assumes "okContainer lim n" and "valid_tag k" and "valid_tag v"
  shows "emits (V None) c (compact_writeMapBegin T k v (word_of_nat n)) (wire_map compact_wire k v n) c"
proof (cases "n = 0")
  case True
  then show ?thesis using emits_writeByte by (simp add: compact_writeMapBegin_def compact_wire_def)
next
  case False
  let ?n = "word_of_nat n :: uint32_t"
  have "?n \<noteq> 0" using False assms(1) by (simp add: okContainer_def word_of_nat_eq_0_iff nat_dvd_not_less)
  moreover have "emits (V None) c (seqM [writeVarint32 T ?n, compact_writeByte T (push_bit 4 (ctype_of k) OR ctype_of v)])
      (varint32 ?n @ [push_bit 4 (ctype_of k) OR ctype_of v]) c"
    by (rule emits_seq [OF emits_writeVarint32 emits_last [OF emits_writeByte]])
  ultimately show ?thesis using False
    by (simp add: compact_writeMapBegin_def compact_wire_def getCompactType_valid assms(2,3) bindM_assoc)
qed

lemma emits_structEnd: "emits (V None) (l # st, l', p) compact_writeStructEnd [] (st, l, p)"
  unfolding emits_def by (auto simp: compact_writeStructEnd_def compact_view_defs)

end

sublocale compact_over_sink \<subseteq> compact_writer: wire_writer compact_wire compact_idle "compact_ops T"
  "compact_writing inv outp room cfg None" "okString 0" "okContainer 0"
proof (unfold_locales, goal_cases)
  case (3 c v)
  then show ?case by (simp add: compact_wire_def emits_base)
next
  case (4 c v nm fid)
  obtain st l p where c: "c = (st, l, p)" by (cases c)
  show ?case
  proof (cases "ttype_of v = T_BOOL")
    case True
    then obtain b where "v = VBool b" by (cases v) (auto simp: ttype_defs)
    with emits_bool_field show ?thesis
      by (simp add: c compact_wire_def compact_ops_def compact_field_type_def del: seqM.simps)
  next
    case False
    then have "compact_field_type v = ctype_of (ttype_of v)"
      by (cases v) (simp_all add: compact_field_type_def)
    moreover have "emits (V None) c (seqM [compact_writeFieldBegin T nm (ttype_of v) fid, write_base (compact_ops T) v])
        (compact_header l fid (ctype_of (ttype_of v)) @ compact_base v) (st, fid, p)"
      unfolding c
      by (rule emits_seq [OF emits_fieldBegin emits_last [OF emits_base]]) (use 4 False in auto)
    ultimately show ?thesis using False
      by (simp add: c compact_wire_def compact_ops_def del: seqM.simps)
  qed
next
  case (5 c v nm fid)
  then have "ttype_of v \<noteq> T_BOOL" by (cases v) (simp_all add: ttype_defs)
  then show ?case using emits_fieldBegin by (cases c) (simp add: compact_wire_def compact_ops_def)
next
  case (8 c nm)
  show ?case unfolding compact_ops_def compact_writeStructBegin_def TProtocol.simps
    by (rule emits_control) (auto simp: compact_view_defs compact_wire_def)
next
  case (9 c fs)
  obtain st l p where c: "c = (st, l, p)" by (cases c)
  obtain l' where "after_fields compact_wire (l # st, 0, p) fs = (l # st, l', p)"
    using after_fields_compact by blast
  with emits_structEnd show ?case by (simp add: c compact_wire_def compact_ops_def)
qed (auto simp: compact_wire_def compact_idle_def compact_ops_def emits_return compact_writeFieldStop_def
    emits_writeByte compact_writeSetBegin_def compact_writeListBegin_def emits_collection
    emits_map [unfolded compact_wire_def, simplified] simp del: seqM.simps)

section \<open>Reading recovers the layout\<close>

lemma compact_string_buf_grow:
  assumes "cstring_buf_ok s" and "0 \<le> sint sz"
  shows "cstring_buf_ok (compact_grow_string_buf sz s)
    \<and> compact_config (compact_grow_string_buf sz s) = compact_config s
    \<and> ctrans (compact_grow_string_buf sz s) = ctrans s
    \<and> (\<exists>b. cstring_buf (compact_grow_string_buf sz s) = Some b \<and> unat sz \<le> length b)"
proof (cases "cstring_buf_size s <s sz \<or> cstring_buf s = None")
  case True
  then show ?thesis using assms
    by (auto simp: compact_grow_string_buf_def cstring_buf_ok_def compact_config_def Let_def split: option.splits)
next
  case False
  then have "sint sz \<le> sint (cstring_buf_size s)" by (simp add: word_sless_alt)
  then have "unat sz \<le> unat (cstring_buf_size s)"
    using assms sint_nonneg(1) [of sz] sint_nonneg(1) [of "cstring_buf_size s"]
    by (simp add: cstring_buf_ok_def word_le_nat_alt [symmetric] word_le_def)
  with False assms(1) show ?thesis by (auto simp: compact_grow_string_buf_def cstring_buf_ok_def)
qed

lemma compact_grow_control [simp]:
  "lastField (compact_grow_string_buf sz s) = lastField s"
  "lastFieldId (compact_grow_string_buf sz s) = lastFieldId s"
  "boolValue (compact_grow_string_buf sz s) = boolValue s"
  "booleanField (compact_grow_string_buf sz s) = booleanField s"
  by (simp_all add: compact_grow_string_buf_def Let_def)

locale compact_over_source = byte_source T inv inp
  for T :: "'t TTransport" and inv inp +
  fixes cfg :: compact_config
begin

abbreviation R where "R \<equiv> compact_reading inv inp cfg"

lemma onCTrans_readAll:
  assumes "r_inv R s" and "r_inp R s = bs @ rest" and "length bs = n"
  obtains s' where "onCTrans (readAll_virt T n) s = (Inr bs, s')" "r_inv R s'" "r_inp R s' = rest"
    "cstring_buf s' = cstring_buf s" "r_ctl R s' = r_ctl R s"
proof -
  obtain t where "readAll_virt T n (ctrans s) = (Inr bs, t)" "inv t" "inp t = rest"
    using source_readAll_append [of "ctrans s" bs rest n] assms by (auto simp: compact_reading_def)
  with assms that [of "s\<lparr>ctrans := t\<rparr>"] show thesis
    by (auto simp: compact_view_defs onCTrans_def liftM_def)
qed

lemma parses_trans:
  assumes "length bs = n" and "f bs = v" and "k = word_of_nat n"
  shows "parses R c (bindM (onCTrans (readAll_virt T n)) (\<lambda>b. returnM (f b, k))) bs v c"
  unfolding parses_def
proof (intro allI impI, elim conjE)
  fix s rest assume s: "r_inv R s" "r_ctl R s = c" "r_inp R s = bs @ rest"
  from onCTrans_readAll [OF s(1,3) assms(1)] obtain s' where
    "onCTrans (readAll_virt T n) s = (Inr bs, s')" "r_inv R s'" "r_inp R s' = rest"
    "r_ctl R s' = r_ctl R s" by metis
  with assms s show "\<exists>s'. bindM (onCTrans (readAll_virt T n)) (\<lambda>b. returnM (f b, k)) s
      = (Inr (v, word_of_nat (length bs)), s') \<and> r_inv R s' \<and> r_ctl R s' = c \<and> r_inp R s' = rest"
    by (auto simp: bindM_def returnM_def)
qed

lemma parses_readByte: "parses R c (compact_readByte T) [b] b c"
  unfolding compact_readByte_def by (rule parses_trans) simp_all

text \<open>The slow path of a varint.\<close>

lemma varint_slow_ok:
  assumes "r_inv R s" and "r_inp R s = varint64 n @ rest" and "rsize + length (varint64 n) \<le> 10"
  shows "\<exists>s'. varint_slow T rsize val shift s
      = (Inr (val OR push_bit shift n, word_of_nat (rsize + length (varint64 n))), s')
    \<and> r_inv R s' \<and> r_ctl R s' = r_ctl R s \<and> r_inp R s' = rest"
  using assms
proof (induction n arbitrary: rsize val shift s rule: varint64.induct)
  case (1 n)
  show ?case
  proof (cases "n AND NOT 0x7F = 0")
    case True
    then have v: "varint64 n = [ucast n]" by (simp only: varint64.simps [of n] if_True refl)
    obtain s' where "onCTrans (readAll_virt T 1) s = (Inr [ucast n], s')" "r_inv R s'"
      "r_inp R s' = rest" "r_ctl R s' = r_ctl R s"
      using onCTrans_readAll [OF "1.prems"(1), of "[ucast n]" rest 1] "1.prems"(2) v by auto
    moreover have "unat n < 128" using True unfolding and_not_7F .
    ultimately show ?thesis using varint_last [of n] v
      by (simp add: varint_slow.simps [of T rsize])
  next
    case False
    let ?m = "drop_bit 7 n"
    let ?b = "ucast ((n AND 0x7F) OR 0x80) :: byte"
    have v: "varint64 n = ?b # varint64 ?m" using False by (simp only: varint64.simps [of n] if_False)
    obtain s' where s': "onCTrans (readAll_virt T 1) s = (Inr [?b], s')" "r_inv R s'"
      "r_inp R s' = varint64 ?m @ rest" "r_ctl R s' = r_ctl R s"
      using onCTrans_readAll [OF "1.prems"(1), of "[?b]" "varint64 ?m @ rest" 1] "1.prems"(2) v by auto
    have len: "rsize + 1 + length (varint64 ?m) \<le> 10" using "1.prems"(3) by (simp add: v)
    then have "rsize + 1 < 10" using varint64_nonempty(1) [of ?m] by linarith
    with "1.IH" [OF False s'(2,3) len, of "val OR push_bit shift (n AND 0x7F)" "shift + 7"] s' varint_more [of n]
    show ?thesis
      by (simp add: v varint_slow.simps [of T rsize] or.assoc varint_join add.assoc del: One_nat_def push_bit_and)
        (simp add: add.commute add.left_commute)
  qed
qed

lemma parses_readVarint64: "parses R c (readVarint64 T) (varint64 n) n c"
  unfolding parses_def
proof (intro allI impI, elim conjE)
  fix s rest assume s: "r_inv R s" "r_ctl R s = c" "r_inp R s = varint64 n @ rest"
  have "inv (ctrans s)" using s by (simp add: compact_reading_def)
  then show "\<exists>s'. readVarint64 T s = (Inr (n, word_of_nat (length (varint64 n))), s')
      \<and> r_inv R s' \<and> r_ctl R s' = c \<and> r_inp R s' = rest"
  proof (cases rule: source_borrow_cases [of _ 10])
    case (none t)
    have st: "r_inv R (s\<lparr>ctrans := t\<rparr>)" "r_inp R (s\<lparr>ctrans := t\<rparr>) = varint64 n @ rest"
      "r_ctl R (s\<lparr>ctrans := t\<rparr>) = c"
      using s none by (auto simp: compact_view_defs)
    from varint_slow_ok [OF st(1,2), of 0 0 0] st(3) none(1) length_varint64_le [of n] show ?thesis
      by (auto simp: readVarint64_def bindM_def onCTrans_def liftM_def)
  next
    case (some bs t)
    have inp: "inp (ctrans s) = varint64 n @ rest" using s by (simp add: compact_reading_def)
    have len: "length (varint64 n) \<le> 10" by (rule length_varint64_le)
    have "take (length (varint64 n)) bs = varint64 n"
      using arg_cong [OF some(5), of "take (length (varint64 n))"] some(4) inp len by (simp add: min_def)
    then have "varint_scan bs 0 0 0 = Some (n, length (varint64 n))"
      using varint_scan_varint64 [of bs 0 n 0 0] len by (simp add: mslice_def)
    moreover obtain t' where "consume_virt T (length (varint64 n)) t = (Inr (), t')" "inv t'" "inp t' = rest"
      using some(6) [OF len] inp by auto
    ultimately show ?thesis using some(1) s
      by (auto simp: readVarint64_def bindM_def onCTrans_def liftM_def returnM_def compact_view_defs)
  qed
qed

lemma parses_readVarint32: "parses R c (readVarint32 T) (varint32 n) n c"
proof -
  have "parses R c (mapM (ucast :: uint64_t \<Rightarrow> int32_t) (readVarint64 T)) (varint32 n)
      (ucast (ucast n :: uint64_t)) c"
    unfolding varint32_eq by (rule parses_map [OF parses_readVarint64])
  moreover have "ucast (ucast n :: uint64_t) = n" by (rule bit_word_eqI) (auto simp: bit_simps)
  ultimately show ?thesis by (simp add: mapM_def readVarint32_def)
qed

lemma parses_readI16: "parses R c (compact_readI16 T) (varint32 (i32ToZigzag (scast i))) i c"
proof -
  have "parses R c (mapM (\<lambda>val. ucast (zigzagToI32 val) :: int16_t) (readVarint32 T))
      (varint32 (i32ToZigzag (scast i))) (ucast (zigzagToI32 (i32ToZigzag (scast i)))) c"
    by (rule parses_map [OF parses_readVarint32])
  moreover have "ucast (scast i :: int32_t) = i" by (rule bit_word_eqI) (auto simp: bit_simps)
  ultimately show ?thesis by (simp add: mapM_def compact_readI16_def)
qed

lemma parses_readI32: "parses R c (compact_readI32 T) (varint32 (i32ToZigzag i)) i c"
  using parses_map [OF parses_readVarint32 [of c "i32ToZigzag i"], of zigzagToI32]
  by (simp add: mapM_def compact_readI32_def)

lemma parses_readI64: "parses R c (compact_readI64 T) (varint64 (i64ToZigzag i)) i c"
  using parses_map [OF parses_readVarint64 [of c "i64ToZigzag i"], of zigzagToI64]
  by (simp add: mapM_def compact_readI64_def)

lemma parses_readDouble: "parses R c (compact_readDouble T) (mem64 d) d c"
  unfolding compact_readDouble_def by (rule parses_trans) simp_all

lemma parses_string_body:
  assumes "okString (fst cfg) (length str)" and "str \<noteq> []"
  shows "parses R c (bindM (modifyM (compact_grow_string_buf (word_of_nat (length str)))) (\<lambda>_.
    bindM (compact_read_string_buf T (word_of_nat (length str))) (\<lambda>x. returnM (x, word_of_nat (length str))))) str str c"
  unfolding parses_def
proof (intro allI impI, elim conjE)
  fix s rest assume s: "r_inv R s" "r_ctl R s = c" "r_inp R s = str @ rest"
  let ?n = "word_of_nat (length str) :: int32_t"
  let ?g = "compact_grow_string_buf ?n s"
  have n: "unat ?n = length str" "0 \<le> sint ?n"
    using assms by (auto simp: okString_def unat_of_nat sint_word_of_nat)
  have g: "r_inv R ?g" "r_inp R ?g = str @ rest" "r_ctl R ?g = c"
    and "\<exists>b. cstring_buf ?g = Some b \<and> unat ?n \<le> length b"
    using compact_string_buf_grow [of s ?n] s n(2) by (auto simp: compact_reading_def)
  then obtain b where b: "cstring_buf ?g = Some b" "length str \<le> length b" using n(1) by auto
  from onCTrans_readAll [OF g(1,2) n(1) [symmetric]] obtain s' where
    "onCTrans (readAll_virt T (unat ?n)) ?g = (Inr str, s')" "r_inv R s'" "r_inp R s' = rest"
    "cstring_buf s' = cstring_buf ?g" "r_ctl R s' = r_ctl R ?g" by metis
  with b n(1) g(3) show "\<exists>s'. bindM (modifyM (compact_grow_string_buf ?n)) (\<lambda>_.
      bindM (compact_read_string_buf T ?n) (\<lambda>x. returnM (x, ?n))) s = (Inr (str, ?n), s')
      \<and> r_inv R s' \<and> r_ctl R s' = c \<and> r_inp R s' = rest"
    by (auto simp: compact_read_string_buf_def monad_simps compact_view_defs memcpy_def)
qed

lemma parses_readBinary:
  assumes "okString (fst cfg) (length str)"
  shows "parses R c (compact_readBinary T) (varint32 (word_of_nat (length str)) @ str) str c"
proof -
  let ?n = "word_of_nat (length str) :: int32_t"
  have n: "\<not> ?n <s 0" "\<not> (0 <s fst cfg \<and> fst cfg <s ?n)" "(?n = 0) = (str = [])"
    using assms by (auto simp: okString_def unat_of_nat length_not_negative length_within_limit
        simp flip: unat_eq_zero)
  let ?body = "\<lambda>limit. if ?n = 0 then returnM ([], 0)
     else if ?n <s 0 then throwM (TProtocolException NEGATIVE_SIZE)
     else if 0 <s limit \<and> limit <s ?n then throwM (TProtocolException SIZE_LIMIT)
     else bindM (modifyM (compact_grow_string_buf ?n)) (\<lambda>_.
       bindM (compact_read_string_buf T ?n) (\<lambda>x. returnM (x, ?n)))"
  have "parses R c (?body (fst cfg)) str str c"
  proof (cases "str = []")
    case True
    then show ?thesis using parses_return [of R c "[]"] by simp
  next
    case False
    with n have "?body (fst cfg) = bindM (modifyM (compact_grow_string_buf ?n)) (\<lambda>_.
       bindM (compact_read_string_buf T ?n) (\<lambda>x. returnM (x, ?n)))" by (simp only: if_False)
    with parses_string_body [OF assms False] show ?thesis by (simp only:)
  qed
  then have "parses R c (bindM (getM cstring_limit) ?body) str str c"
    by (rule parses_get [rotated]) (auto simp: compact_reading_def compact_config_def)
  from parses_bind [OF parses_readVarint32 [of c ?n] this, where g = "\<lambda>x. x"] show ?thesis
    by (auto simp: compact_readBinary_def bindM_assoc if_distrib [of "\<lambda>m. bindM m _"] cong: if_cong)
qed

lemma parses_readBool:
  assumes "p = None"
  shows "parses R (st, l, p) (compact_readBool T) [if b then CT_BOOLEAN_TRUE else CT_BOOLEAN_FALSE] b (st, l, p)"
proof -
  have "parses R (st, l, p) (bindM (compact_readByte T) (\<lambda>(val, n). returnM (val = CT_BOOLEAN_TRUE, 1)))
      ([if b then CT_BOOLEAN_TRUE else CT_BOOLEAN_FALSE] @ []) b (st, l, p)"
    by (rule parses_bind [OF parses_readByte parses_return, where g = "\<lambda>x. x"])
      (simp add: ctype_defs)
  then show ?thesis unfolding compact_readBool_def
    by (intro parses_get [where x = None]) (use assms in \<open>auto simp: compact_reading_def\<close>)
qed

lemma parses_pending_bool: "parses R (st, l, Some b) (compact_readBool T) [] b (st, l, None)"
  unfolding parses_def
  by (auto simp: compact_readBool_def monad_simps compact_view_defs)

lemma parses_base:
  assumes "is_base v" and "wf_base (okString (fst cfg)) v" and "compact_idle c"
  shows "parses R c (read_base (compact_ops T) bin (ttype_of v)) (compact_base v) (read_as bin v) c"
  using assms
  by (cases c; cases v) (auto simp: read_base_def ttype_defs compact_ops_def compact_readString_def parses_map
      parses_readBool parses_readByte parses_readI16 parses_readI32 parses_readI64 parses_readDouble
      parses_readBinary compact_idle_def)

text \<open>The field id of a header: a difference to the last one, or written out.\<close>

lemma parses_fieldId:
  fixes l fid :: int16_t
  assumes "l <s fid" and "sint fid - sint l \<le> 15"
  shows "unat (word_of_int (sint fid - sint l) :: byte) < 16"
    and "(word_of_int (sint fid - sint l) :: byte) \<noteq> 0"
    and "l + ucast (word_of_int (sint fid - sint l) :: byte) = fid"
proof -
  let ?d = "sint fid - sint l"
  have d: "0 < ?d" "?d \<le> 15" using assms by (auto simp: word_sless_alt)
  then have u: "uint (word_of_int ?d :: byte) = ?d" by (simp only: uint_word_of_int) simp
  then have "int (unat (word_of_int ?d :: byte)) = ?d" by simp
  then show "unat (word_of_int ?d :: byte) < 16" using d by linarith
  show "(word_of_int ?d :: byte) \<noteq> 0" using u d by (metis less_irrefl unsigned_0)
  have "(ucast (word_of_int ?d :: byte) :: int16_t) = word_of_int ?d"
    by (simp only: ucast_eq u)
  also have "\<dots> = fid - l" by simp
  finally show "l + ucast (word_of_int ?d :: byte) = fid" by simp
qed

text \<open>Reading a header: the boolean carried by its type is kept for \<open>readBool\<close>.\<close>

abbreviation carried :: "int8_t \<Rightarrow> bool option \<Rightarrow> bool option" where
  "carried ct p \<equiv> if ct = CT_BOOLEAN_TRUE \<or> ct = CT_BOOLEAN_FALSE then Some (ct = CT_BOOLEAN_TRUE) else p"

lemma parses_header_end:
  assumes "getTType ct = (returnM type :: ('t TCompactProtocol, TType) M)"
  shows "parses R (st, l, p) (bindM (getTType ct) (\<lambda>fieldType.
        bindM (if ct = CT_BOOLEAN_TRUE \<or> ct = CT_BOOLEAN_FALSE
               then modifyM (\<lambda>s. s\<lparr>boolValue := Some (ct = CT_BOOLEAN_TRUE)\<rparr>) else returnM ()) (\<lambda>_.
        bindM (modifyM (\<lambda>s. s\<lparr>lastFieldId := fid\<rparr>)) (\<lambda>_.
        returnM ((None :: byte list option, fieldType, fid), 0))))) [] (None, type, fid) (st, fid, carried ct p)"
  unfolding assms bindM_return parses_def
  by (auto simp: monad_simps compact_view_defs)

lemma parses_short_header:
  assumes "unat h < 16" and "h \<noteq> 0" and "unat ct < 16" and "ct \<noteq> 0"
    and "getTType ct = (returnM type :: ('t TCompactProtocol, TType) M)"
  shows "parses R (st, l, p) (compact_readFieldBegin T) [push_bit 4 h OR ct] (None, type, l + ucast h)
    (st, l + ucast h, carried ct p)"
proof -
  note nb = nibbles [OF assms(1,3)]
  have "parses R (st, l, p) (bindM (getM lastFieldId) (\<lambda>lastId. bindM (getTType ct) (\<lambda>fieldType.
        bindM (if ct = CT_BOOLEAN_TRUE \<or> ct = CT_BOOLEAN_FALSE
               then modifyM (\<lambda>s. s\<lparr>boolValue := Some (ct = CT_BOOLEAN_TRUE)\<rparr>) else returnM ()) (\<lambda>_.
        bindM (modifyM (\<lambda>s. s\<lparr>lastFieldId := lastId + ucast h\<rparr>)) (\<lambda>_.
        returnM ((None :: byte list option, fieldType, lastId + ucast h), 0))))))
      [] (None, type, l + ucast h) (st, l + ucast h, carried ct p)"
    by (rule parses_get [where x = l], simp add: compact_reading_def) (rule parses_header_end [OF assms(5)])
  then have "parses R (st, l, p) (compact_readFieldBegin T) ([push_bit 4 h OR ct] @ [])
      (None, type, l + ucast h) (st, l + ucast h, carried ct p)"
    unfolding compact_readFieldBegin_def
    by (rule parses_bind [OF parses_readByte, where g = "\<lambda>x. x"])
      (use assms(2,4) in \<open>simp add: Let_def nb T_STOP_def bindM_assoc del: push_bit_and drop_bit_and drop_bit_or\<close>)
  then show ?thesis by simp
qed

lemma parses_long_header:
  assumes "unat ct < 16" and "ct \<noteq> 0" and "getTType ct = (returnM type :: ('t TCompactProtocol, TType) M)"
  shows "parses R (st, l, p) (compact_readFieldBegin T) (ct # varint32 (i32ToZigzag (scast fid)))
    (None, type, fid) (st, fid, carried ct p)"
proof -
  have z: "ct AND 0x0f = ct" "drop_bit 4 (ct AND 0xf0) = 0"
    using nibbles(1,2) [of 0 ct] assms(1) by simp_all
  have "parses R (st, l, p) (bindM (compact_readI16 T) (\<lambda>(fieldId, r2). bindM (getTType ct) (\<lambda>fieldType.
        bindM (if ct = CT_BOOLEAN_TRUE \<or> ct = CT_BOOLEAN_FALSE
               then modifyM (\<lambda>s. s\<lparr>boolValue := Some (ct = CT_BOOLEAN_TRUE)\<rparr>) else returnM ()) (\<lambda>_.
        bindM (modifyM (\<lambda>s. s\<lparr>lastFieldId := fieldId\<rparr>)) (\<lambda>_.
        returnM ((None :: byte list option, fieldType, fieldId), r2)))))) (varint32 (i32ToZigzag (scast fid)) @ [])
        (None, type, fid) (st, fid, carried ct p)"
    by (rule parses_bind [OF parses_readI16 parses_header_end [OF assms(3)], where g = "\<lambda>x. x"])
      (simp add: bindM_assoc)
  then have "parses R (st, l, p) (compact_readFieldBegin T) ([ct] @ varint32 (i32ToZigzag (scast fid)) @ [])
      (None, type, fid) (st, fid, carried ct p)"
    unfolding compact_readFieldBegin_def
    by (rule parses_bind [OF parses_readByte, where g = "\<lambda>x. x"])
      (use assms(2) in \<open>simp add: Let_def z T_STOP_def bindM_assoc split_def del: drop_bit_and\<close>)
  then show ?thesis by simp
qed

lemma parses_header:
  assumes "unat ct < 16" and "ct \<noteq> 0" and "getTType ct = (returnM type :: ('t TCompactProtocol, TType) M)"
  shows "parses R (st, l, p) (compact_readFieldBegin T) (compact_header l fid ct) (None, type, fid)
    (st, fid, carried ct p)"
proof (cases "l <s fid \<and> sint fid - sint l \<le> 15")
  case True
  note id = parses_fieldId [OF conjunct1 [OF True] conjunct2 [OF True]]
  from parses_short_header [OF id(1,2) assms, of st l p] show ?thesis
    unfolding id(3) compact_header_def using True by (simp only: if_True simp_thms)
next
  case False
  then show ?thesis using parses_long_header [OF assms] by (simp only: compact_header_def if_False)
qed

lemma parses_stop: "parses R c (compact_readFieldBegin T) [T_STOP] (None, T_STOP, 0) c"
proof -
  have "parses R c (compact_readFieldBegin T) ([T_STOP] @ []) (None, T_STOP, 0) c"
    unfolding compact_readFieldBegin_def
    by (rule parses_bind [OF parses_readByte parses_return [of _ _ "()"], where g = "\<lambda>_. (None, T_STOP, 0)"])
      (simp add: T_STOP_def)
  then show ?thesis by simp
qed

lemma parses_checkSize:
  assumes "okContainer (snd cfg) n" and "parses R c m bs v c'"
  shows "parses R c (bindM (compact_checkSize (word_of_nat n)) (\<lambda>_. m)) bs v c'"
  using assms unfolding parses_def
  by (auto simp: compact_checkSize_def okContainer_def monad_simps compact_view_defs length_not_negative
      length_within_limit)

lemma parses_type_end:
  assumes "valid_tag e"
  shows "parses R c (bindM (getTType (ctype_of e)) (\<lambda>t. returnM (t, 0))) [] e c"
  using parses_return by (simp add: getTType_ctype_of [OF assms])

text \<open>A list header: the size in the upper nibble, or fifteen there and the size as a varint.\<close>

lemma parses_collection:
  assumes "okContainer (snd cfg) n" and "valid_tag e"
  shows "parses R c (compact_readListBegin T) (compact_collection e n) (e, word_of_nat n) c"
proof -
  let ?n = "word_of_nat n :: int32_t"
  have tail: "parses R c (bindM (compact_checkSize ?n) (\<lambda>_. bindM (getTType (ctype_of e)) (\<lambda>t. returnM (t, 0)))) [] e c"
    by (rule parses_checkSize [OF assms(1) parses_type_end [OF assms(2)]])
  show ?thesis
  proof (cases "n \<le> 14")
    case True
    let ?h = "word_of_nat n :: byte"
    have h: "unat ?h = n" using True by (simp add: unat_of_nat)
    have e: "(ucast ?h :: int32_t) = ?n" "?n \<noteq> 15" using upto_14 [OF True] by auto
    have "unat ?h < 16" using True h by simp
    note nb = nibbles [OF this ctype_small(1) [OF assms(2)]]
    have "parses R c (compact_readListBegin T) ([push_bit 4 ?h OR ctype_of e] @ []) (e, ?n) c"
      unfolding compact_readListBegin_def
      by (rule parses_bind [OF parses_readByte tail, where g = "\<lambda>t. (t, ?n)"])
        (simp add: Let_def nb(1,4) e bindM_assoc del: push_bit_and drop_bit_and drop_bit_or)
    with True show ?thesis by (simp add: compact_collection_def)
  next
    case False
    have f: "(0xf0 :: byte) = push_bit 4 15" "unat (15 :: byte) < 16" by simp_all
    note nb = nibbles [OF f(2) ctype_small(1) [OF assms(2)], folded f(1)]
    have mid: "parses R c (bindM (readVarint32 T) (\<lambda>(k, r2). bindM (compact_checkSize k) (\<lambda>_.
        bindM (getTType (ctype_of e)) (\<lambda>t. returnM ((t, k), r2))))) (varint32 ?n @ []) (e, ?n) c"
      by (rule parses_bind [OF parses_readVarint32 tail, where g = "\<lambda>t. (t, ?n)"]) (simp add: bindM_assoc)
    have "parses R c (compact_readListBegin T) ([0xf0 OR ctype_of e] @ varint32 ?n @ []) (e, ?n) c"
      unfolding compact_readListBegin_def
      by (rule parses_bind [OF parses_readByte mid, where g = "\<lambda>x. x"])
        (simp add: Let_def nb(1,4) bindM_assoc split_def del: push_bit_and drop_bit_and drop_bit_or)
    with False show ?thesis by (simp add: compact_collection_def)
  qed
qed

lemma parses_mapBegin:
  assumes "okContainer (snd cfg) n" and "valid_tag k" and "valid_tag v"
  shows "\<exists>k' v'. parses R c (compact_readMapBegin T) (wire_map compact_wire k v n) (k', v', word_of_nat n) c
    \<and> (0 < n \<longrightarrow> k' = k \<and> v' = v)"
proof (cases "n = 0")
  case True
  have z: "varint32 0 = [0]" by (simp add: varint32.simps)
  have "parses R c (bindM (compact_checkSize (word_of_nat 0)) (\<lambda>_. returnM ((T_STOP, T_STOP, 0), 0)))
      [] (T_STOP, T_STOP, 0) c"
    by (rule parses_checkSize) (use assms(1) True parses_return in auto)
  moreover have "getTType 0 = (returnM T_STOP :: ('t TCompactProtocol, TType) M)" by (simp add: getTType_def T_STOP_def)
  ultimately have "parses R c (compact_readMapBegin T) (varint32 0 @ []) (T_STOP, T_STOP, 0) c"
    unfolding compact_readMapBegin_def
    by (intro parses_bind [OF parses_readVarint32, where g = "\<lambda>x. x"]) (auto simp: bindM_assoc)
  then show ?thesis using True by (auto simp: compact_wire_def z)
next
  case False
  let ?n = "word_of_nat n :: uint32_t"
  let ?b = "push_bit 4 (ctype_of k) OR ctype_of v"
  have n0: "?n \<noteq> 0" using False assms(1) by (simp add: okContainer_def word_of_nat_eq_0_iff nat_dvd_not_less)
  note nb = nibbles [OF ctype_small(1) [OF assms(2)] ctype_small(1) [OF assms(3)]]
  have tail: "parses R c (bindM (compact_checkSize ?n) (\<lambda>_. bindM (getTType (ctype_of k)) (\<lambda>kt.
      bindM (getTType (ctype_of v)) (\<lambda>vt. returnM ((kt, vt, ?n), 0))))) [] (k, v, ?n) c"
    by (rule parses_checkSize [OF assms(1)]) (use parses_return in \<open>simp add: getTType_ctype_of assms(2,3)\<close>)
  have mid: "parses R c (bindM (compact_readByte T) (\<lambda>(kv, r2). bindM (compact_checkSize ?n) (\<lambda>_.
      bindM (getTType (drop_bit 4 kv)) (\<lambda>kt. bindM (getTType (kv AND 0xf)) (\<lambda>vt. returnM ((kt, vt, ?n), r2))))))
      ([?b] @ []) (k, v, ?n) c"
    by (rule parses_bind [OF parses_readByte tail, where g = "\<lambda>x. x"])
      (simp add: nb bindM_assoc del: push_bit_and drop_bit_and drop_bit_or)
  have "parses R c (compact_readMapBegin T) (varint32 ?n @ [?b] @ []) (k, v, ?n) c"
    unfolding compact_readMapBegin_def
    by (rule parses_bind [OF parses_readVarint32 mid, where g = "\<lambda>x. x"])
      (use n0 in \<open>simp add: bindM_assoc split_def\<close>)
  then show ?thesis using False by (auto simp: compact_wire_def)
qed

lemma eats_structEnd: "eats R (l # st, l', p) compact_readStructEnd [] (st, l, p)"
  unfolding eats_def by (auto simp: compact_readStructEnd_def compact_view_defs)

lemma parses_structBegin: "parses R (st, l, p) compact_readStructBegin [] (Some []) (l # st, 0, p)"
  unfolding parses_def by (auto simp: compact_readStructBegin_def compact_view_defs monad_simps)

end

sublocale compact_over_source \<subseteq> compact_reader: wire_reader compact_wire compact_idle "compact_ops T"
  "compact_reading inv inp cfg" "okString (fst cfg)" "okContainer (snd cfg)"
proof (unfold_locales, goal_cases)
  case (4 c v bin)
  then show ?case using parses_base by (simp add: compact_wire_def)
next
  case (5 c v fid)
  obtain st l where c: "c = (st, l, None)" using 5(1) by (cases c) (auto simp: compact_idle_def)
  let ?p = "carried (compact_field_type v) None"
  have hdr: "parses R c (compact_readFieldBegin T) (compact_header l fid (compact_field_type v))
      (None, ttype_of v, fid) (st, fid, ?p)"
    unfolding c by (rule parses_header [OF compact_field_type_small])
  have body: "parses R (st, fid, ?p) (read_base (compact_ops T) bin (ttype_of v))
      (if ttype_of v = T_BOOL then [] else compact_base v) (read_as bin v) (st, fid, None)" for bin
  proof (cases "ttype_of v = T_BOOL")
    case True
    then obtain b where "v = VBool b" by (cases v) (auto simp: ttype_defs)
    then show ?thesis using parses_map [OF parses_pending_bool [of st fid b], of VBool]
      by (cases b) (simp_all add: read_base_def compact_ops_def compact_field_type_def ctype_defs)
  next
    case False
    then have "?p = None"
      by (cases v) (simp_all add: compact_field_type_def ctype_defs)
    with False parses_base [OF 5(2,3), of "(st, fid, None)"] show ?thesis by (simp add: compact_idle_def)
  qed
  show ?case using hdr body
    by (intro exI [of _ "compact_header l fid (compact_field_type v)"]
        exI [of _ "if ttype_of v = T_BOOL then [] else compact_base v"] exI [of _ "(st, fid, ?p)"])
      (simp add: c compact_wire_def compact_ops_def)
next
  case (6 c v fid)
  then have "ctype_of (ttype_of v) \<noteq> CT_BOOLEAN_TRUE" "ctype_of (ttype_of v) \<noteq> CT_BOOLEAN_FALSE"
    by (cases v; simp add: ctype_defs)+
  with parses_header [OF ctype_small [of "ttype_of v"] getTType_ctype_of] show ?case
    by (cases c) (simp add: compact_wire_def compact_ops_def)
next
  case (9 c)
  show ?case using parses_structBegin by (cases c) (auto simp: compact_wire_def compact_ops_def)
next
  case (10 c fs)
  obtain st l p where c: "c = (st, l, p)" by (cases c)
  obtain l' where "after_fields compact_wire (l # st, 0, p) fs = (l # st, l', p)"
    using after_fields_compact by blast
  with eats_structEnd show ?case by (simp add: c compact_wire_def compact_ops_def)
next
  case (11 n kt vt c)
  then show ?case using parses_mapBegin [of n kt vt c] by (simp add: compact_ops_def)
qed (auto simp: compact_wire_def compact_ops_def compact_idle_def eats_return parses_stop
    parses_collection compact_readSetBegin_def okContainer_def)

section \<open>Message headers\<close>

definition compact_message :: "byte list \<Rightarrow> TMessageType \<Rightarrow> int32_t \<Rightarrow> byte list" where
  "compact_message name messageType seqid =
     [PROTOCOL_ID, (VERSION_N AND COMPACT_VERSION_MASK)
         OR (ucast (push_bit TYPE_SHIFT_AMOUNT messageType) AND TYPE_MASK)]
     @ varint32 seqid @ varint32 (word_of_nat (length name)) @ name"

text \<open>What the reader makes of the type bits: the lowest two of them, after an arithmetic shift.\<close>

definition compact_type_read :: "TMessageType \<Rightarrow> TMessageType" where
  "compact_type_read t = (if t = T_ONEWAY then 0 else t)"

lemma compact_version_byte:
  assumes "valid_message_type t"
  defines "b \<equiv> (VERSION_N AND COMPACT_VERSION_MASK) OR (ucast (push_bit TYPE_SHIFT_AMOUNT t) AND TYPE_MASK)"
  shows "b AND COMPACT_VERSION_MASK = VERSION_N"
    and "signed_drop_bit TYPE_SHIFT_AMOUNT (scast b :: int32_t) AND 0x03 = compact_type_read t"
  unfolding b_def using assms(1)
  by (auto simp: message_type_defs VERSION_N_def COMPACT_VERSION_MASK_def TYPE_MASK_def
      TYPE_SHIFT_AMOUNT_def compact_type_read_def)

context compact_over_sink
begin

lemma emits_writeMessageBegin:
  assumes "length name < 2 ^ 31"
  shows "emits (V None) c (compact_writeMessageBegin T name messageType seqid)
    (compact_message name messageType seqid) c"
proof -
  let ?b = "(VERSION_N AND COMPACT_VERSION_MASK)
     OR (ucast (push_bit TYPE_SHIFT_AMOUNT messageType) AND TYPE_MASK)"
  have "emits (V None) c (compact_writeString T name) (varint32 (word_of_nat (length name)) @ name) c"
    unfolding compact_writeString_def by (rule emits_writeBinary) (use assms in simp)
  from emits_seq [OF emits_writeByte [where b = PROTOCOL_ID] emits_seq [OF emits_writeByte [where b = ?b]
      emits_seq [OF emits_writeVarint32 [where n = seqid] emits_last [OF this]]]]
  show ?thesis by (simp add: compact_writeMessageBegin_def compact_message_def del: seqM.simps)
qed

end

context compact_over_source
begin

lemma parses_readMessageBegin:
  assumes "valid_message_type messageType" and "okString (fst cfg) (length name)"
  shows "parses R c (compact_readMessageBegin T) (compact_message name messageType seqid)
    (name, compact_type_read messageType, seqid) c"
proof -
  let ?b = "(VERSION_N AND COMPACT_VERSION_MASK)
     OR (ucast (push_bit TYPE_SHIFT_AMOUNT messageType) AND TYPE_MASK)"
  let ?t = "compact_type_read messageType"
  have "parses R c (bindM (readVarint32 T) (\<lambda>(seqid, r3). bindM (compact_readString T) (\<lambda>(name, r4).
      returnM ((name, ?t, seqid), r3 + r4))))
      (varint32 seqid @ varint32 (word_of_nat (length name)) @ name) (name, ?t, seqid) c"
    unfolding compact_readString_def
    by (rule parses_bind [OF parses_readVarint32 parses_readBinary [OF assms(2)], where g = "\<lambda>x. (x, ?t, seqid)"])
      simp
  from parses_bind [OF parses_readByte [of c ?b] this, where g = "\<lambda>x. x"
      and f = "\<lambda>(versionAndType, r2).
       if versionAndType AND COMPACT_VERSION_MASK \<noteq> VERSION_N
       then throwM (TProtocolException BAD_VERSION)
       else bindM (readVarint32 T) (\<lambda>(seqid, r3).
          bindM (compact_readString T) (\<lambda>(name, r4).
          returnM ((name, signed_drop_bit TYPE_SHIFT_AMOUNT (scast versionAndType :: int32_t) AND 0x03, seqid),
            r2 + r3 + r4)))"]
  have "parses R c (bindM (compact_readByte T) (\<lambda>(versionAndType, r2).
       if versionAndType AND COMPACT_VERSION_MASK \<noteq> VERSION_N
       then throwM (TProtocolException BAD_VERSION)
       else bindM (readVarint32 T) (\<lambda>(seqid, r3).
          bindM (compact_readString T) (\<lambda>(name, r4).
          returnM ((name, signed_drop_bit TYPE_SHIFT_AMOUNT (scast versionAndType :: int32_t) AND 0x03, seqid),
            r2 + r3 + r4)))))
      ([?b] @ varint32 seqid @ varint32 (word_of_nat (length name)) @ name) (name, ?t, seqid) c"
    unfolding prod.case compact_version_byte [OF assms(1)]
    by (simp add: bindM_assoc split_def add.assoc del: bit.conj_disj_distrib2)
  from parses_bind [OF parses_readByte [of c PROTOCOL_ID] this, where g = "\<lambda>x. x"
      and f = "\<lambda>(protocolId, r1). if protocolId \<noteq> PROTOCOL_ID then throwM (TProtocolException BAD_VERSION)
     else bindM (compact_readByte T) (\<lambda>(versionAndType, r2).
       if versionAndType AND COMPACT_VERSION_MASK \<noteq> VERSION_N
       then throwM (TProtocolException BAD_VERSION)
       else (let messageType = signed_drop_bit TYPE_SHIFT_AMOUNT (scast versionAndType :: int32_t) AND 0x03 in
          bindM (readVarint32 T) (\<lambda>(seqid, r3).
          bindM (compact_readString T) (\<lambda>(name, r4).
          returnM ((name, messageType, seqid), r1 + r2 + r3 + r4)))))"]
  show ?thesis
    by (simp add: compact_readMessageBegin_def compact_message_def bindM_assoc split_def add.assoc Let_def
        if_distrib [of "\<lambda>m. bindM m _"] cong: if_cong)
qed

end

section \<open>Over a memory buffer\<close>

interpretation compact_memory: compact_over_source memory_ops memory_inv unread cfg for cfg
  by unfold_locales

interpretation compact_memory_out: compact_over_sink memory_ops "\<lambda>s. memory_inv s \<and> owner s" unread
  "\<lambda>s. 2 ^ 31 - wBase s" cfg for cfg
  by unfold_locales

section \<open>Properties\<close>

text \<open>The state between two messages: nothing pending, an empty stack of structs or any other.\<close>

definition compact_ready :: "TMemoryBuffer TCompactProtocol \<Rightarrow> bool" where
  "compact_ready s \<longleftrightarrow> memory_inv (ctrans s) \<and> owner (ctrans s) \<and> cstring_buf_ok s
     \<and> booleanField s = None \<and> boolValue s = None"

lemma compact_ready_new:
  "sz < 2 ^ 32 \<Longrightarrow> compact_ready (newTCompactProtocol_limits (newTMemoryBuffer sz) slim clim)"
  using memory_reachable_inv [OF memory_reachable.new, of sz]
  by (auto simp: compact_ready_def newTCompactProtocol_limits_def cstring_buf_ok_def newTMemoryBuffer_def
      initCommon_def)

definition compact_ctl :: "'t TCompactProtocol \<Rightarrow> compact_control" where
  "compact_ctl s = (lastField s, lastFieldId s, boolValue s)"

text \<open>The encoding depends on the last field id of the enclosing struct only through nested structs.\<close>

abbreviation compact_bytes :: "'t TCompactProtocol \<Rightarrow> tval \<Rightarrow> byte list" where
  "compact_bytes s \<equiv> enc_value compact_wire (compact_ctl s)"

abbreviation compact_wf :: "'t TCompactProtocol \<Rightarrow> tval \<Rightarrow> bool" where
  "compact_wf s \<equiv> wf_value (okString (cstring_limit s)) (okContainer (ccontainer_limit s))"

lemma compact_emits_memory:
  assumes "emits (compact_writing (\<lambda>s. memory_inv s \<and> owner s) unread (\<lambda>s. 2 ^ 31 - wBase s) (compact_config s) None)
      (compact_ctl s) m bs (compact_ctl s)"
    and "compact_ready s" and "wBase (ctrans s) + length bs \<le> 2 ^ 31"
  obtains s' where "m s = (Inr (word_of_nat (length bs)), s')"
    "unread (ctrans s') = unread (ctrans s) @ bs" "compact_ready s'"
    "compact_config s' = compact_config s" "compact_ctl s' = compact_ctl s"
proof -
  have "length bs \<le> 2 ^ 31 - wBase (ctrans s)" using assms(3) by simp
  with assms(1,2) that show thesis
    by (auto simp: emits_def compact_writing_def compact_ready_def compact_ctl_def)
qed

lemma compact_parses_memory:
  assumes "parses (compact_reading memory_inv unread (compact_config s)) (compact_ctl s) m bs v (compact_ctl s)"
    and "compact_ready s" and "unread (ctrans s) = bs @ rest"
  shows "\<exists>s'. m s = (Inr (v, word_of_nat (length bs)), s') \<and> unread (ctrans s') = rest
    \<and> compact_ctl s' = compact_ctl s"
  using assms by (auto simp: parses_def compact_reading_def compact_ready_def compact_ctl_def)

lemma compact_idle_ready: "compact_ready s \<Longrightarrow> compact_idle (compact_ctl s)"
  by (simp add: compact_ready_def compact_idle_def compact_ctl_def)

text \<open>
  C3. Round trip of the compact protocol: the generated reader of the same schema gets back the
  value written, booleans in field headers and delta-coded field ids included, with the same byte
  count, and leaves nothing behind.
\<close>

theorem compact_roundtrip:
  assumes "compact_ready s" and "unread (ctrans s) = []" and "compact_wf s v" and "conforms ty v"
    and "wBase (ctrans s) + length (compact_bytes s v) \<le> 2 ^ 31" and "size v + 2 \<le> fuel"
  shows "\<exists>n s' s''. write_value (compact_ops memory_ops) v s = (Inr n, s')
    \<and> read_type fuel (compact_ops memory_ops) ty s' = (Inr (v, n), s'') \<and> unread (ctrans s'') = []"
proof -
  have "wf_value (okString 0) (okContainer 0) v"
    by (rule wf_value_mono(1) [OF _ _ assms(3)]) (auto simp: okString_def okContainer_def)
  then have "emits (compact_writing (\<lambda>s. memory_inv s \<and> owner s) unread (\<lambda>s. 2 ^ 31 - wBase s) (compact_config s) None)
      (compact_ctl s) (write_value (compact_ops memory_ops) v) (compact_bytes s v) (compact_ctl s)"
    by (intro compact_memory_out.compact_writer.write_value_emits compact_idle_ready assms(1))
  from compact_emits_memory [OF this assms(1,5)] obtain s' where
    s': "write_value (compact_ops memory_ops) v s = (Inr (word_of_nat (length (compact_bytes s v))), s')"
      "unread (ctrans s') = compact_bytes s v" "compact_ready s'" "compact_config s' = compact_config s"
      "compact_ctl s' = compact_ctl s"
    using assms(2) by auto
  have "parses (compact_reading memory_inv unread (compact_config s')) (compact_ctl s')
      (read_type fuel (compact_ops memory_ops) ty) (compact_bytes s v) v (compact_ctl s')"
    using compact_memory.compact_reader.read_type_parses [where cur = None and v = v and c = "compact_ctl s" and cfg = "compact_config s" and ty = ty and fuel = fuel]
      conforms_project [OF assms(4)] assms(1,3,6) compact_idle_ready [OF assms(1)] s'(4,5)
    by (simp add: compact_config_def)
  from compact_parses_memory [OF this s'(3), of "[]"] s'(1,2) show ?thesis by auto
qed

text \<open>A struct with a boolean field, a field far from it and a list.\<close>

definition compact_sample :: tval where
  "compact_sample = VStruct [] [(([97], 1), VBool True), (([98], 40), VI32 (-2)),
     (([99], 41), VList T_BOOL [VBool True, VBool False])]"

definition compact_sample_type :: t_type where
  "compact_sample_type = TyStruct [] [(([97], 1, T_REQUIRED), TyBool), (([98], 40, T_OPTIONAL), TyI32),
     (([99], 41, T_OPT_IN_REQ_OUT), TyList TyBool)]"

definition compact_new :: "TMemoryBuffer TCompactProtocol" where
  "compact_new = newTCompactProtocol (newTMemoryBuffer 8)"

lemma compact_new_facts:
  "compact_ready compact_new" "unread (ctrans compact_new) = []" "wBase (ctrans compact_new) = 0"
  "cstring_limit compact_new = 0" "ccontainer_limit compact_new = 0" "compact_ctl compact_new = ([], 0, None)"
  using compact_ready_new [of 8]
  by (simp_all add: compact_new_def newTCompactProtocol_def newTCompactProtocol_limits_def newTMemoryBuffer_def
      initCommon_def unread_def compact_ctl_def)

lemma compact_sample_bytes:
  "enc_value compact_wire ([], 0, None) compact_sample = [0x11, 0x05, 0x50, 0x03, 0x19, 0x21, 0x01, 0x02, 0x00]"
  by (simp add: compact_sample_def compact_wire_def compact_header_def compact_field_type_def ttype_defs
      ctype_defs ctype_of_def TTypeToCType_def compact_collection_def i32ToZigzag_def varint32.simps word_sless_alt)

theorem compact_roundtrip_witness:
  "\<exists>n s' s''. write_value (compact_ops memory_ops) compact_sample compact_new = (Inr n, s')
    \<and> read_type 100 (compact_ops memory_ops) compact_sample_type s' = (Inr (compact_sample, n), s'')
    \<and> unread (ctrans s'') = []"
proof -
  have "conforms compact_sample_type compact_sample"
    by (simp add: compact_sample_type_def compact_sample_def find_field_def required_set_def)
  moreover have "compact_wf compact_new compact_sample"
    by (simp add: compact_sample_def compact_new_facts okContainer_def valid_tag_def)
  moreover have "size compact_sample + 2 \<le> 100" by (simp add: compact_sample_def)
  ultimately show ?thesis
    using compact_roundtrip [OF compact_new_facts(1,2), of compact_sample compact_sample_type 100]
    by (simp add: compact_new_facts compact_sample_bytes)
qed

text \<open>
  C20. Message headers of the compact protocol: name and sequence id round trip, and so does the
  message type of a call, a reply and an exception; a oneway call is read as message type 0, because
  the reader keeps only two of the three type bits.
\<close>

theorem compact_message_roundtrip:
  assumes "compact_ready s" and "unread (ctrans s) = []" and "valid_message_type messageType"
    and "okString (cstring_limit s) (length name)" and "wBase (ctrans s) + length name + 12 \<le> 2 ^ 31"
  shows "\<exists>n s' s''. compact_writeMessageBegin memory_ops name messageType seqid s = (Inr n, s')
    \<and> compact_readMessageBegin memory_ops s'
      = (Inr ((name, if messageType = T_ONEWAY then 0 else messageType, seqid), n), s'')
    \<and> unread (ctrans s'') = []"
proof -
  let ?bs = "compact_message name messageType seqid"
  have len: "wBase (ctrans s) + length ?bs \<le> 2 ^ 31"
    using assms(5) length_varint32 [of seqid] length_varint32 [of "word_of_nat (length name)"]
    by (simp add: compact_message_def)
  have "length name < 2 ^ 31" using assms(4) by (simp add: okString_def)
  from compact_emits_memory [OF compact_memory_out.emits_writeMessageBegin [OF this] assms(1) len]
  obtain s' where s': "compact_writeMessageBegin memory_ops name messageType seqid s = (Inr (word_of_nat (length ?bs)), s')"
    "unread (ctrans s') = ?bs" "compact_ready s'" "compact_config s' = compact_config s"
    using assms(2) by auto
  have "parses (compact_reading memory_inv unread (compact_config s')) (compact_ctl s')
      (compact_readMessageBegin memory_ops) ?bs (name, compact_type_read messageType, seqid) (compact_ctl s')"
    by (rule compact_memory.parses_readMessageBegin [OF assms(3)]) (use assms(4) s'(4) in \<open>simp add: compact_config_def\<close>)
  from compact_parses_memory [OF this s'(3), of "[]"] s'(1,2) show ?thesis
    by (auto simp: compact_type_read_def)
qed

theorem compact_message_roundtrip_witness:
  "\<exists>n s' s''. compact_writeMessageBegin memory_ops [112] T_ONEWAY 7 compact_new = (Inr n, s')
    \<and> compact_readMessageBegin memory_ops s' = (Inr (([112], 0, 7), n), s'') \<and> unread (ctrans s'') = []"
  using compact_message_roundtrip [OF compact_new_facts(1,2), of T_ONEWAY "[112]" 7]
  by (simp add: compact_new_facts valid_message_type_def okString_def)

end
