(* ===== verification/Base64.thy ===== *)
theory Base64
  imports Prelude
begin

text \<open>
  \<^verbatim>\<open>TBase64Utils.cpp\<close>: the base64 coding used for binary strings by the Native Client and the JSON
  protocols, without padding. The pointer loops over whole strings are proved equal to a recursive
  reference coding, decoding is proved inverse to encoding, and the sizes of the output buffers
  are proved exact.
\<close>

section \<open>Tables\<close>

definition kBase64EncodeTable :: "byte list" where
  "kBase64EncodeTable = map of_char ''ABCDEFGHIJKLMNOPQRSTUVWXYZabcdefghijklmnopqrstuvwxyz0123456789+/''"

text \<open>The table, one list per line of the source.\<close>

definition kBase64DecodeRows :: "byte list list" where
  "kBase64DecodeRows = [
     [0xff, 0xff, 0xff, 0xff, 0xff, 0xff, 0xff, 0xff, 0xff, 0xff, 0xff, 0xff, 0xff, 0xff, 0xff, 0xff],
     [0xff, 0xff, 0xff, 0xff, 0xff, 0xff, 0xff, 0xff, 0xff, 0xff, 0xff, 0xff, 0xff, 0xff, 0xff, 0xff],
     [0xff, 0xff, 0xff, 0xff, 0xff, 0xff, 0xff, 0xff, 0xff, 0xff, 0xff, 0x3e, 0xff, 0xff, 0xff, 0x3f],
     [0x34, 0x35, 0x36, 0x37, 0x38, 0x39, 0x3a, 0x3b, 0x3c, 0x3d, 0xff, 0xff, 0xff, 0xff, 0xff, 0xff],
     [0xff, 0x00, 0x01, 0x02, 0x03, 0x04, 0x05, 0x06, 0x07, 0x08, 0x09, 0x0a, 0x0b, 0x0c, 0x0d, 0x0e],
     [0x0f, 0x10, 0x11, 0x12, 0x13, 0x14, 0x15, 0x16, 0x17, 0x18, 0x19, 0xff, 0xff, 0xff, 0xff, 0xff],
     [0xff, 0x1a, 0x1b, 0x1c, 0x1d, 0x1e, 0x1f, 0x20, 0x21, 0x22, 0x23, 0x24, 0x25, 0x26, 0x27, 0x28],
     [0x29, 0x2a, 0x2b, 0x2c, 0x2d, 0x2e, 0x2f, 0x30, 0x31, 0x32, 0x33, 0xff, 0xff, 0xff, 0xff, 0xff],
     [0xff, 0xff, 0xff, 0xff, 0xff, 0xff, 0xff, 0xff, 0xff, 0xff, 0xff, 0xff, 0xff, 0xff, 0xff, 0xff],
     [0xff, 0xff, 0xff, 0xff, 0xff, 0xff, 0xff, 0xff, 0xff, 0xff, 0xff, 0xff, 0xff, 0xff, 0xff, 0xff],
     [0xff, 0xff, 0xff, 0xff, 0xff, 0xff, 0xff, 0xff, 0xff, 0xff, 0xff, 0xff, 0xff, 0xff, 0xff, 0xff],
     [0xff, 0xff, 0xff, 0xff, 0xff, 0xff, 0xff, 0xff, 0xff, 0xff, 0xff, 0xff, 0xff, 0xff, 0xff, 0xff],
     [0xff, 0xff, 0xff, 0xff, 0xff, 0xff, 0xff, 0xff, 0xff, 0xff, 0xff, 0xff, 0xff, 0xff, 0xff, 0xff],
     [0xff, 0xff, 0xff, 0xff, 0xff, 0xff, 0xff, 0xff, 0xff, 0xff, 0xff, 0xff, 0xff, 0xff, 0xff, 0xff],
     [0xff, 0xff, 0xff, 0xff, 0xff, 0xff, 0xff, 0xff, 0xff, 0xff, 0xff, 0xff, 0xff, 0xff, 0xff, 0xff],
     [0xff, 0xff, 0xff, 0xff, 0xff, 0xff, 0xff, 0xff, 0xff, 0xff, 0xff, 0xff, 0xff, 0xff, 0xff, 0xff]]"

definition kBase64DecodeTable :: "byte list" where
  "kBase64DecodeTable = concat kBase64DecodeRows"

section \<open>Groups\<close>

text \<open>The bytes \<open>base64_encode\<close> stores from \<open>buf[0]\<close> on; \<open>in\<close> holds at least \<open>len\<close> bytes.\<close>

definition base64_encode :: "byte list \<Rightarrow> nat \<Rightarrow> byte list" where
  "base64_encode inp len =
     (let e = \<lambda>w :: byte. kBase64EncodeTable ! unat w in
      e (drop_bit 2 (inp ! 0) AND 0x3f) #
      (if len = 3 then
         [e ((push_bit 4 (inp ! 0) AND 0x30) OR (drop_bit 4 (inp ! 1) AND 0x0f)),
          e ((push_bit 2 (inp ! 1) AND 0x3c) OR (drop_bit 6 (inp ! 2) AND 0x03)),
          e (inp ! 2 AND 0x3f)]
       else if len = 2 then
         [e ((push_bit 4 (inp ! 0) AND 0x30) OR (drop_bit 4 (inp ! 1) AND 0x0f)),
          e (push_bit 2 (inp ! 1) AND 0x3c)]
       else [e (push_bit 4 (inp ! 0) AND 0x30)]))"

text \<open>The bytes \<open>base64_decode\<close> stores from \<open>out[0]\<close> on.\<close>

definition base64_decode :: "byte list \<Rightarrow> nat \<Rightarrow> byte list" where
  "base64_decode inp len =
     (let d = \<lambda>i. kBase64DecodeTable ! unat (inp ! i) in
      (push_bit 2 (d 0) OR drop_bit 4 (d 1)) #
      (if len > 2 then
         ((push_bit 4 (d 1) AND 0xf0) OR drop_bit 2 (d 2)) #
         (if len > 3 then [(push_bit 6 (d 2) AND 0xc0) OR d 3] else [])
       else []))"

text \<open>
  The variant that decodes in place: \<open>buf[0]\<close> is stored before \<open>buf[1]\<close> and \<open>buf[2]\<close> are
  computed, from bytes that have not been overwritten yet.
\<close>

definition base64_decode_inplace :: "byte list \<Rightarrow> nat \<Rightarrow> byte list" where
  "base64_decode_inplace buf len =
     (let d = \<lambda>b i. kBase64DecodeTable ! unat (b ! i);
          buf0 = buf[0 := push_bit 2 (d buf 0) OR drop_bit 4 (d buf 1)] in
      if len > 2 then
        (let buf1 = buf0[1 := (push_bit 4 (d buf0 1) AND 0xf0) OR drop_bit 2 (d buf0 2)] in
         if len > 3 then buf1[2 := (push_bit 6 (d buf1 2) AND 0xc0) OR d buf1 3] else buf1)
      else buf0)"

section \<open>Strings\<close>

definition kEncodeRemainderSize :: "nat list" where "kEncodeRemainderSize = [0, 2, 3]"
definition kDecodeRemainderSize :: "nat list" where "kDecodeRemainderSize = [0, 0, 1, 2]"

text \<open>
  The loops over whole groups, with \<open>in_ptr\<close> and \<open>out_ptr\<close> as offsets. The distance of \<open>in_ptr\<close>
  to \<open>end_ptr\<close> is a multiple of the group size, so the test for inequality is a test for less.
\<close>

function encode_groups :: "byte list \<Rightarrow> nat \<Rightarrow> nat \<Rightarrow> byte list \<Rightarrow> nat \<Rightarrow> byte list \<times> nat \<times> nat" where
  "encode_groups inp in_ptr end_ptr out_data out_ptr =
     (if in_ptr < end_ptr then
        encode_groups inp (in_ptr + 3) end_ptr
          (memcpy out_data out_ptr (base64_encode (drop in_ptr inp) 3)) (out_ptr + 4)
      else (out_data, in_ptr, out_ptr))"
  by pat_completeness auto
termination
  by (relation "measure (\<lambda>(inp, in_ptr, end_ptr, out_data, out_ptr). end_ptr - in_ptr)") auto

function decode_groups :: "byte list \<Rightarrow> nat \<Rightarrow> nat \<Rightarrow> byte list \<Rightarrow> nat \<Rightarrow> byte list \<times> nat \<times> nat" where
  "decode_groups inp in_ptr end_ptr out_data out_ptr =
     (if in_ptr < end_ptr then
        decode_groups inp (in_ptr + 4) end_ptr
          (memcpy out_data out_ptr (base64_decode (drop in_ptr inp) 4)) (out_ptr + 3)
      else (out_data, in_ptr, out_ptr))"
  by pat_completeness auto
termination
  by (relation "measure (\<lambda>(inp, in_ptr, end_ptr, out_data, out_ptr). end_ptr - in_ptr)") auto

declare encode_groups.simps [simp del] decode_groups.simps [simp del]

text \<open>
  \<open>fresh\<close> is the memory that \<^verbatim>\<open>new uint8_t[out_size]\<close> returns; its contents are not initialised.
\<close>

definition base64EncodeString :: "(nat \<Rightarrow> byte list) \<Rightarrow> byte list \<Rightarrow> byte list" where
  "base64EncodeString fresh inp =
     (if inp = [] then []
      else
        let in_size = length inp;
            remainder = in_size mod 3;
            out_size = 4 * (in_size div 3) + kEncodeRemainderSize ! remainder;
            end_ptr = in_size - remainder;
            (out_data, in_ptr, out_ptr) = encode_groups inp 0 end_ptr (fresh out_size) 0;
            out_data = (if remainder > 0
              then memcpy out_data out_ptr (base64_encode (drop in_ptr inp) remainder) else out_data)
        in take out_size out_data)"

text \<open>\<open>None\<close> is the result \<^verbatim>\<open>false\<close>.\<close>

definition base64DecodeString :: "(nat \<Rightarrow> byte list) \<Rightarrow> byte list \<Rightarrow> byte list option" where
  "base64DecodeString fresh inp =
     (if inp = [] then Some []
      else
        let in_size = length inp;
            remainder = in_size mod 4 in
        if remainder = 1 then None
        else
          let out_size = 3 * (in_size div 4) + kDecodeRemainderSize ! remainder;
              end_ptr = in_size - remainder;
              (out_data, in_ptr, out_ptr) = decode_groups inp 0 end_ptr (fresh out_size) 0;
              out_data = (if remainder > 0
                then memcpy out_data out_ptr (base64_decode (drop in_ptr inp) remainder) else out_data)
          in Some (take out_size out_data))"

section \<open>The reference coding\<close>

fun b64 :: "byte list \<Rightarrow> byte list" where
  "b64 (a # b # c # rest) = base64_encode [a, b, c] 3 @ b64 rest"
| "b64 [a, b] = base64_encode [a, b] 2"
| "b64 [a] = base64_encode [a] 1"
| "b64 [] = []"

fun unb64 :: "byte list \<Rightarrow> byte list" where
  "unb64 (a # b # c # d # rest) = base64_decode [a, b, c, d] 4 @ unb64 rest"
| "unb64 [a, b, c] = base64_decode [a, b, c] 3"
| "unb64 [a, b] = base64_decode [a, b] 2"
| "unb64 [a] = []"
| "unb64 [] = []"

section \<open>Groups are inverted\<close>

lemma length_kBase64EncodeTable [simp]: "length kBase64EncodeTable = 64"
  by (simp add: kBase64EncodeTable_def)

lemma nth_concat_rows:
  "list_all (\<lambda>r. length r = k) rows \<Longrightarrow> n < k * length rows \<Longrightarrow> concat rows ! n = rows ! (n div k) ! (n mod k)"
proof (induction rows arbitrary: n)
  case (Cons r rows)
  then have "0 < k" by (cases k) auto
  with Cons show ?case
    by (cases "n < k") (auto simp: nth_append not_less le_div_geq le_mod_geq)
qed simp

lemma kBase64DecodeTable_nth:
  "n < 256 \<Longrightarrow> kBase64DecodeTable ! n = kBase64DecodeRows ! (n div 16) ! (n mod 16)"
  unfolding kBase64DecodeTable_def by (rule nth_concat_rows) (simp_all add: kBase64DecodeRows_def)

lemma decode_encode_table_all:
  "map (\<lambda>c. kBase64DecodeRows ! (unat c div 16) ! (unat c mod 16)) kBase64EncodeTable = map word_of_nat [0..<64]"
  "list_all (\<lambda>c. unat c < 128) kBase64EncodeTable"
  unfolding kBase64EncodeTable_def by (simp_all add: kBase64DecodeRows_def upt_rec)

lemma decode_encode_table:
  assumes "unat (w :: byte) < 64"
  shows "kBase64DecodeTable ! unat (kBase64EncodeTable ! unat w) = w"
    and "unat (kBase64EncodeTable ! unat w) < 128"
proof -
  let ?c = "kBase64EncodeTable ! unat w"
  show c: "unat ?c < 128" using decode_encode_table_all(2) assms by (simp add: list_all_length)
  have "kBase64DecodeRows ! (unat ?c div 16) ! (unat ?c mod 16) = w"
    using arg_cong [OF decode_encode_table_all(1), of "\<lambda>xs. xs ! unat w"] assms by simp
  with c show "kBase64DecodeTable ! unat ?c = w" by (simp add: kBase64DecodeTable_nth)
qed

lemma six_bits: "(\<And>i. bit w i \<Longrightarrow> i < 6) \<Longrightarrow> unat (w :: byte) < 64"
proof -
  assume a: "\<And>i. bit w i \<Longrightarrow> i < 6"
  have "take_bit 6 w = w" by (rule bit_word_eqI) (use a in \<open>auto simp: bit_take_bit_iff\<close>)
  then have "unat w = take_bit 6 (unat w)" by (metis unsigned_take_bit_eq)
  then show ?thesis using take_bit_nat_less_exp [of 6 "unat w"] by simp
qed

lemma byte_bits:
  assumes "\<And>i. i \<in> {0,1,2,3,4,5,6,7} \<Longrightarrow> bit (v :: byte) i = bit w i"
  shows "v = w"
proof (rule bit_word_eqI)
  fix n assume "n < LENGTH(8)"
  then have "n \<in> {0,1,2,3,4,5,6,7}" by (simp; presburger)
  then show "bit v n = bit w n" by (rule assms)
qed

lemma and_less_64:
  "unat (w AND 0x3f :: byte) < 64" "unat ((w AND 0x30) OR (v AND 0x0f) :: byte) < 64"
  "unat ((w AND 0x3c) OR (v AND 0x03) :: byte) < 64" "unat (w AND 0x3c :: byte) < 64" "unat (w AND 0x30 :: byte) < 64"
proof -
  have m: "i < 6" if "bit (0x3f :: byte) i \<or> bit (0x30 :: byte) i \<or> bit (0x0f :: byte) i \<or> bit (0x3c :: byte) i \<or> bit (0x03 :: byte) i" for i
  proof -
    have "i < 8" using that bit_imp_le_length [where 'a = 8, of _ i] by fastforce
    then have "i \<in> {0,1,2,3,4,5,6,7}" by (simp; presburger)
    then show ?thesis using that by auto
  qed
  show "unat (w AND 0x3f :: byte) < 64" "unat ((w AND 0x30) OR (v AND 0x0f) :: byte) < 64"
  "unat ((w AND 0x3c) OR (v AND 0x03) :: byte) < 64" "unat (w AND 0x3c :: byte) < 64" "unat (w AND 0x30 :: byte) < 64"
    by (rule six_bits, metis m bit_and_iff bit_or_iff)+
qed

lemma join_1: "push_bit 2 (drop_bit 2 a AND 0x3f) OR drop_bit 4 ((push_bit 4 a AND 0x30) OR (drop_bit 4 b AND 0x0f)) = (a :: byte)"
  by (rule byte_bits) (auto simp: bit_simps, simp_all add: numeral_2_eq_2 numeral_3_eq_3)

lemma join_2: "(push_bit 4 ((push_bit 4 a AND 0x30) OR (drop_bit 4 b AND 0x0f)) AND 0xf0) OR drop_bit 2 ((push_bit 2 b AND 0x3c) OR (drop_bit 6 c AND 0x03)) = (b :: byte)"
  by (rule byte_bits) (auto simp: bit_simps)

lemma join_3: "(push_bit 6 ((push_bit 2 b AND 0x3c) OR (drop_bit 6 c AND 0x03)) AND 0xc0) OR (c AND 0x3f) = (c :: byte)"
  by (rule byte_bits) (auto simp: bit_simps)

lemma join_1_last: "push_bit 2 (drop_bit 2 a AND 0x3f) OR drop_bit 4 (push_bit 4 a AND 0x30) = (a :: byte)"
  by (rule byte_bits) (auto simp: bit_simps, simp_all add: numeral_2_eq_2 numeral_3_eq_3)

lemma join_2_last: "(push_bit 4 ((push_bit 4 a AND 0x30) OR (drop_bit 4 b AND 0x0f)) AND 0xf0) OR drop_bit 2 (push_bit 2 b AND 0x3c) = (b :: byte)"
  by (rule byte_bits) (auto simp: bit_simps)

lemmas joins = join_1 join_2 join_3 join_1_last join_2_last

lemma decode_encode_group:
  "base64_decode (base64_encode [a, b, c] 3) 4 = [a, b, c]"
  "base64_decode (base64_encode [a, b] 2) 3 = [a, b]"
  "base64_decode (base64_encode [a] 1) 2 = [a]"
  unfolding base64_decode_def base64_encode_def Let_def
  by (simp_all add: decode_encode_table(1) and_less_64 joins
      del: push_bit_and drop_bit_and drop_bit_or push_bit_or)

lemma length_base64_encode: "len \<in> {1, 2, 3} \<Longrightarrow> length (base64_encode inp len) = len + 1"
  by (auto simp: base64_encode_def Let_def)

lemma length_base64_decode: "len \<in> {2, 3, 4} \<Longrightarrow> length (base64_decode inp len) = len - 1"
  by (auto simp: base64_decode_def Let_def)

lemma base64_encode_3: "base64_encode (a # b # c # rest) 3 = base64_encode [a, b, c] 3"
  by (simp add: base64_encode_def)

lemma base64_decode_4: "base64_decode (a # b # c # d # rest) 4 = base64_decode [a, b, c, d] 4"
  by (simp add: base64_decode_def)

lemma unb64_b64: "unb64 (b64 inp) = inp"
proof (induction inp rule: b64.induct)
  case (1 a b c rest)
  obtain w x y z where "base64_encode [a, b, c] 3 = [w, x, y, z]"
    using length_base64_encode [of 3 "[a, b, c]"] by (auto simp: numeral_eq_Suc length_Suc_conv)
  with 1 decode_encode_group(1) [of a b c] show ?case by simp
next
  case (2 a b)
  obtain w x y where "base64_encode [a, b] 2 = [w, x, y]"
    using length_base64_encode [of 2 "[a, b]"] by (auto simp: numeral_eq_Suc length_Suc_conv)
  with decode_encode_group(2) [of a b] show ?case by simp
next
  case (3 a)
  obtain w x where "base64_encode [a] 1 = [w, x]"
    using length_base64_encode [of 1 "[a]"] by (auto simp: numeral_eq_Suc length_Suc_conv)
  with decode_encode_group(3) [of a] show ?case by simp
qed simp

section \<open>The loops compute the reference coding\<close>

lemma memcpy_memcpy_append:
  assumes "i + length xs + length ys \<le> length m"
  shows "memcpy (memcpy m i xs) (i + length xs) ys = memcpy m i (xs @ ys)"
proof -
  have "length (take i m) = i" using assms by simp
  then have "take (i + length xs) (memcpy m i xs) = take i m @ xs"
    and "drop (i + length xs + length ys) (memcpy m i xs) = drop (i + length xs + length ys) m"
    by (simp_all add: memcpy_def add.commute add.left_commute)
  then show ?thesis by (simp add: memcpy_def [of "memcpy m i xs"] memcpy_def [of m i "xs @ ys"] add.assoc)
qed

lemma drop_3:
  assumes "i + 3 \<le> length xs"
  obtains a b c where "drop i xs = a # b # c # drop (i + 3) xs"
proof -
  have "drop i xs = xs ! i # xs ! (i + 1) # xs ! (i + 2) # drop (i + 3) xs"
    using assms by (simp add: Cons_nth_drop_Suc [symmetric] numeral_eq_Suc)
  with that show thesis .
qed

lemma drop_4:
  assumes "i + 4 \<le> length xs"
  obtains a b c d where "drop i xs = a # b # c # d # drop (i + 4) xs"
proof -
  have "drop i xs = xs ! i # xs ! (i + 1) # xs ! (i + 2) # xs ! (i + 3) # drop (i + 4) xs"
    using assms by (simp add: Cons_nth_drop_Suc [symmetric] numeral_eq_Suc)
  with that show thesis .
qed

lemma div_add1: "0 < k \<Longrightarrow> (k + n) div k = Suc (n div k)" for n k :: nat
  by (simp add: div_add_self1)

lemma length_b64:
  "length (b64 inp) = 4 * (length inp div 3) + kEncodeRemainderSize ! (length inp mod 3)"
  by (induction inp rule: b64.induct) (simp_all add: length_base64_encode kEncodeRemainderSize_def div_add1)

lemma length_unb64:
  "length (unb64 inp) = 3 * (length inp div 4) + kDecodeRemainderSize ! (length inp mod 4)"
  by (induction inp rule: unb64.induct) (simp_all add: length_base64_decode kDecodeRemainderSize_def div_add1)

lemma encode_groups_ok:
  assumes "in_ptr + 3 * k \<le> length inp" and "out_ptr + 4 * k \<le> length out_data"
  shows "encode_groups inp in_ptr (in_ptr + 3 * k) out_data out_ptr
    = (memcpy out_data out_ptr (b64 (take (3 * k) (drop in_ptr inp))), in_ptr + 3 * k, out_ptr + 4 * k)"
  using assms
proof (induction k arbitrary: in_ptr out_data out_ptr)
  case 0
  then show ?case by (simp add: encode_groups.simps)
next
  case (Suc k)
  obtain a b c where d: "drop in_ptr inp = a # b # c # drop (in_ptr + 3) inp"
    using drop_3 [of in_ptr inp] Suc.prems(1) by auto
  let ?g = "base64_encode [a, b, c] 3"
  have g: "length ?g = 4" by (simp add: length_base64_encode)
  let ?out = "memcpy out_data out_ptr ?g"
  have len: "length (b64 (take (3 * k) (drop (in_ptr + 3) inp))) = 4 * k"
    using Suc.prems(1) by (simp add: length_b64 kEncodeRemainderSize_def)
  have "encode_groups inp (in_ptr + 3) (in_ptr + 3 + 3 * k) ?out (out_ptr + 4)
      = (memcpy ?out (out_ptr + 4) (b64 (take (3 * k) (drop (in_ptr + 3) inp))),
         in_ptr + 3 + 3 * k, out_ptr + 4 + 4 * k)"
    using Suc.prems g by (intro Suc.IH) auto
  moreover have "memcpy ?out (out_ptr + 4) (b64 (take (3 * k) (drop (in_ptr + 3) inp)))
      = memcpy out_data out_ptr (b64 (take (3 * Suc k) (drop in_ptr inp)))"
    using memcpy_memcpy_append [of out_ptr ?g "b64 (take (3 * k) (drop (in_ptr + 3) inp))" out_data]
      Suc.prems(2) g len by (simp add: d numeral_eq_Suc)
  moreover have "encode_groups inp in_ptr (in_ptr + 3 * Suc k) out_data out_ptr
      = encode_groups inp (in_ptr + 3) (in_ptr + 3 + 3 * k) ?out (out_ptr + 4)"
    by (subst encode_groups.simps) (simp add: d base64_encode_3 [of a b c "drop (in_ptr + 3) inp"] add.assoc)
  ultimately show ?case by (simp only: mult_Suc_right add.assoc)
qed

lemma decode_groups_ok:
  assumes "in_ptr + 4 * k \<le> length inp" and "out_ptr + 3 * k \<le> length out_data"
  shows "decode_groups inp in_ptr (in_ptr + 4 * k) out_data out_ptr
    = (memcpy out_data out_ptr (unb64 (take (4 * k) (drop in_ptr inp))), in_ptr + 4 * k, out_ptr + 3 * k)"
  using assms
proof (induction k arbitrary: in_ptr out_data out_ptr)
  case 0
  then show ?case by (simp add: decode_groups.simps)
next
  case (Suc k)
  obtain a b c e where d: "drop in_ptr inp = a # b # c # e # drop (in_ptr + 4) inp"
    using drop_4 [of in_ptr inp] Suc.prems(1) by (metis add.commute add.left_commute le_add1 le_trans mult_Suc_right)
  let ?g = "base64_decode [a, b, c, e] 4"
  have g: "length ?g = 3" by (simp add: length_base64_decode)
  let ?out = "memcpy out_data out_ptr ?g"
  have len: "length (unb64 (take (4 * k) (drop (in_ptr + 4) inp))) = 3 * k"
    using Suc.prems(1) by (simp add: length_unb64 kDecodeRemainderSize_def)
  have "decode_groups inp (in_ptr + 4) (in_ptr + 4 + 4 * k) ?out (out_ptr + 3)
      = (memcpy ?out (out_ptr + 3) (unb64 (take (4 * k) (drop (in_ptr + 4) inp))),
         in_ptr + 4 + 4 * k, out_ptr + 3 + 3 * k)"
    using Suc.prems g by (intro Suc.IH) auto
  moreover have "memcpy ?out (out_ptr + 3) (unb64 (take (4 * k) (drop (in_ptr + 4) inp)))
      = memcpy out_data out_ptr (unb64 (take (4 * Suc k) (drop in_ptr inp)))"
    using memcpy_memcpy_append [of out_ptr ?g "unb64 (take (4 * k) (drop (in_ptr + 4) inp))" out_data]
      Suc.prems(2) g len by (simp add: d numeral_eq_Suc)
  moreover have "decode_groups inp in_ptr (in_ptr + 4 * Suc k) out_data out_ptr
      = decode_groups inp (in_ptr + 4) (in_ptr + 4 + 4 * k) ?out (out_ptr + 3)"
    by (subst decode_groups.simps) (simp add: d base64_decode_4 [of a b c e "drop (in_ptr + 4) inp"] add.assoc)
  ultimately show ?case by (simp only: mult_Suc_right add.assoc)
qed

text \<open>Whole groups and a remainder are coded separately.\<close>

lemma b64_append: "length xs mod 3 = 0 \<Longrightarrow> b64 (xs @ ys) = b64 xs @ b64 ys"
  by (induction xs rule: b64.induct) (simp_all add: mod_Suc split: if_splits)

lemma unb64_append: "length xs mod 4 = 0 \<Longrightarrow> unb64 (xs @ ys) = unb64 xs @ unb64 ys"
  by (induction xs rule: unb64.induct) (simp_all add: mod_Suc split: if_splits)

lemma b64_short: "length xs = r \<Longrightarrow> 0 < r \<Longrightarrow> r < 3 \<Longrightarrow> base64_encode xs r = b64 xs"
  by (cases xs rule: b64.cases) (auto simp: numeral_2_eq_2)

lemma unb64_short: "length xs = r \<Longrightarrow> 1 < r \<Longrightarrow> r < 4 \<Longrightarrow> base64_decode xs r = unb64 xs"
  by (cases xs rule: unb64.cases) (auto simp: numeral_2_eq_2 numeral_3_eq_3)

lemma memcpy_all: "length xs = length m \<Longrightarrow> take (length m) (memcpy m 0 xs) = xs"
  by simp

text \<open>The memory allocated for the output has the requested size.\<close>

abbreviation allocates :: "(nat \<Rightarrow> byte list) \<Rightarrow> bool" where
  "allocates fresh \<equiv> (\<forall>n. length (fresh n) = n)"

lemma base64EncodeString_ok:
  assumes "allocates fresh"
  shows "base64EncodeString fresh inp = b64 inp"
proof (cases "inp = []")
  case False
  let ?r = "length inp mod 3"
  let ?k = "length inp div 3"
  let ?n = "4 * ?k + kEncodeRemainderSize ! ?r"
  have e: "length inp - ?r = 3 * ?k" by (simp add: minus_mod_eq_mult_div)
  let ?g = "take (3 * ?k) inp"
  have glen: "length ?g = 3 * ?k" by simp
  have split: "b64 inp = b64 ?g @ b64 (drop (3 * ?k) inp)"
    using b64_append [of ?g "drop (3 * ?k) inp"] glen by simp
  have gl: "length (b64 ?g) = 4 * ?k" using glen by (simp add: length_b64 kEncodeRemainderSize_def)
  have rl: "length (drop (3 * ?k) inp) = ?r" by (simp add: minus_mult_div_eq_mod)
  have "encode_groups inp 0 (3 * ?k) (fresh ?n) 0 = (memcpy (fresh ?n) 0 (b64 ?g), 3 * ?k, 4 * ?k)"
    using encode_groups_ok [of 0 ?k inp 0 "fresh ?n"] assms by simp
  moreover have "memcpy (memcpy (fresh ?n) 0 (b64 ?g)) (4 * ?k) (b64 (drop (3 * ?k) inp)) = b64 inp"
    using memcpy_memcpy_append [of 0 "b64 ?g" "b64 (drop (3 * ?k) inp)" "fresh ?n"] gl assms split length_b64 [of inp]
    by (metis add_0 le_refl length_append memcpy_0)
  moreover have "base64_encode (drop (3 * ?k) inp) ?r = b64 (drop (3 * ?k) inp)" if "0 < ?r"
    by (rule b64_short [OF rl that]) simp
  moreover have "drop (3 * ?k) inp = []" if "?r = 0" using rl that by simp
  ultimately show ?thesis using False e length_b64 [of inp]
    by (cases "0 < ?r") (simp_all add: base64EncodeString_def Let_def)
qed (simp add: base64EncodeString_def)

lemma base64DecodeString_ok:
  assumes "allocates fresh"
  shows "base64DecodeString fresh inp = (if length inp mod 4 = 1 then None else Some (unb64 inp))"
proof (cases "inp = [] \<or> length inp mod 4 = 1")
  case False
  let ?r = "length inp mod 4"
  let ?k = "length inp div 4"
  let ?n = "3 * ?k + kDecodeRemainderSize ! ?r"
  have e: "length inp - ?r = 4 * ?k" by (simp add: minus_mod_eq_mult_div)
  let ?g = "take (4 * ?k) inp"
  have glen: "length ?g = 4 * ?k" by simp
  have split: "unb64 inp = unb64 ?g @ unb64 (drop (4 * ?k) inp)"
    using unb64_append [of ?g "drop (4 * ?k) inp"] glen by simp
  have gl: "length (unb64 ?g) = 3 * ?k" using glen by (simp add: length_unb64 kDecodeRemainderSize_def)
  have rl: "length (drop (4 * ?k) inp) = ?r" by (simp add: minus_mult_div_eq_mod)
  have "decode_groups inp 0 (4 * ?k) (fresh ?n) 0 = (memcpy (fresh ?n) 0 (unb64 ?g), 4 * ?k, 3 * ?k)"
    using decode_groups_ok [of 0 ?k inp 0 "fresh ?n"] assms by simp
  moreover have "memcpy (memcpy (fresh ?n) 0 (unb64 ?g)) (3 * ?k) (unb64 (drop (4 * ?k) inp)) = unb64 inp"
    using memcpy_memcpy_append [of 0 "unb64 ?g" "unb64 (drop (4 * ?k) inp)" "fresh ?n"] gl assms split length_unb64 [of inp]
    by (metis add_0 le_refl length_append memcpy_0)
  moreover have "base64_decode (drop (4 * ?k) inp) ?r = unb64 (drop (4 * ?k) inp)" if "0 < ?r"
    by (rule unb64_short [OF rl]) (use False that in auto)
  moreover have "drop (4 * ?k) inp = []" if "?r = 0" using rl that by simp
  ultimately show ?thesis using False e length_unb64 [of inp]
    by (cases "0 < ?r") (simp_all add: base64DecodeString_def Let_def)
qed (auto simp: base64DecodeString_def Let_def)

lemma base64_table: "w \<in> set (b64 inp) \<Longrightarrow> w \<in> set kBase64EncodeTable"
proof (induction inp rule: b64.induct)
  case (1 a b c rest)
  then show ?case by (auto simp: base64_encode_def Let_def and_less_64)
qed (auto simp: base64_encode_def Let_def and_less_64)

lemma base64_ascii: "w \<in> set (b64 inp) \<Longrightarrow> unat w < 128"
proof (induction inp rule: b64.induct)
  case (1 a b c rest)
  then show ?case by (auto simp: base64_encode_def Let_def decode_encode_table(2) and_less_64)
qed (auto simp: base64_encode_def Let_def decode_encode_table(2) and_less_64)

section \<open>Properties\<close>

text \<open>
  C27. Base64 round trip: whatever memory the allocator returns, encoding a string fills exactly the
  buffer allocated for it with characters of the base64 alphabet (letters, digits, plus and slash),
  and decoding the result gives the string back.
\<close>

theorem base64_roundtrip:
  assumes "allocates fresh"
  shows "base64DecodeString fresh (base64EncodeString fresh inp) = Some inp
    \<and> length (base64EncodeString fresh inp) = (4 * length inp + 2) div 3
    \<and> set (base64EncodeString fresh inp)
        \<subseteq> set (map of_char ''ABCDEFGHIJKLMNOPQRSTUVWXYZabcdefghijklmnopqrstuvwxyz0123456789+/'')"
proof (intro conjI)
  have "length (b64 inp) mod 4 \<noteq> 1"
    by (induction inp rule: b64.induct) (simp_all add: length_base64_encode)
  then show "base64DecodeString fresh (base64EncodeString fresh inp) = Some inp"
    by (simp add: base64EncodeString_ok [OF assms] base64DecodeString_ok [OF assms] unb64_b64)
  show "length (base64EncodeString fresh inp) = (4 * length inp + 2) div 3"
    unfolding base64EncodeString_ok [OF assms]
    by (induction inp rule: b64.induct) (simp_all add: length_base64_encode)
  show "set (base64EncodeString fresh inp)
      \<subseteq> set (map of_char ''ABCDEFGHIJKLMNOPQRSTUVWXYZabcdefghijklmnopqrstuvwxyz0123456789+/'')"
    using base64_table by (auto simp: base64EncodeString_ok [OF assms] kBase64EncodeTable_def)
qed

theorem base64_roundtrip_witness:
  "base64DecodeString (\<lambda>n. replicate n 0) (base64EncodeString (\<lambda>n. replicate n 0) [77, 97, 110, 33]) = Some [77, 97, 110, 33]
   \<and> length (base64EncodeString (\<lambda>n. replicate n 0) [77, 97, 110, 33]) = 6
   \<and> set (base64EncodeString (\<lambda>n. replicate n 0) [77, 97, 110, 33])
       \<subseteq> set (map of_char ''ABCDEFGHIJKLMNOPQRSTUVWXYZabcdefghijklmnopqrstuvwxyz0123456789+/'')"
proof -
  have "allocates (\<lambda>n. replicate n 0)" "(4 * length [77 :: byte, 97, 110, 33] + 2) div 3 = 6" by simp_all
  with base64_roundtrip [OF this(1), of "[77, 97, 110, 33]"] show ?thesis by metis
qed

text \<open>
  C28. The two overloads of \<open>base64_decode\<close> agree: decoding in place stores the same bytes as decoding
  into another buffer, because each byte is overwritten only after its last use.
\<close>

theorem base64_decode_inplace_agrees:
  assumes "4 \<le> length buf" and "len \<in> {2, 3, 4}"
  shows "take (len - 1) (base64_decode_inplace buf len) = base64_decode buf len"
proof -
  obtain a b c d rest where "buf = a # b # c # d # rest"
    using assms(1) by (auto simp: numeral_eq_Suc Suc_le_length_iff)
  with assms(2) show ?thesis
    by (auto simp: base64_decode_inplace_def base64_decode_def Let_def numeral_eq_Suc)
qed

theorem base64_decode_inplace_agrees_witness:
  "take 2 (base64_decode_inplace [84, 87, 69, 0] 3) = base64_decode [84, 87, 69, 0] 3"
  using base64_decode_inplace_agrees [of "[84, 87, 69, 0]" 3] by simp

end
