(* ===== verification/Double.thy ===== *)
theory Double
  imports Prelude
begin

text \<open>
  What the protocols do with an IEEE 754 double beyond copying it: conversion from an integer
  (rounding to the nearest of 53 significant bits, ties to even), the test for an integral value and
  the conversion back. A double is its bit pattern: sign, eleven bits of exponent, 52 bits of fraction.
\<close>

section \<open>The length of a number in bits\<close>

fun bits :: "nat \<Rightarrow> nat" where
  "bits n = (if n = 0 then 0 else Suc (bits (n div 2)))"

declare bits.simps [simp del]

lemma bits_0 [simp]: "bits 0 = 0"
  by (subst bits.simps) simp

lemma bits_pos: "0 < n \<Longrightarrow> bits n = Suc (bits (n div 2))"
  by (subst bits.simps) simp

lemma less_power_bits: "n < 2 ^ bits n"
proof (induction n rule: bits.induct)
  case (1 n)
  then show ?case by (cases "n = 0") (auto simp: bits_pos)
qed

lemma power_bits_le: "0 < n \<Longrightarrow> 2 ^ (bits n - 1) \<le> n"
proof (induction n rule: bits.induct)
  case (1 n)
  show ?case
  proof (cases "n div 2 = 0")
    case True
    with "1.prems" have "n = 1" by simp
    then show ?thesis by (simp add: bits_pos)
  next
    case False
    then have "0 < bits (n div 2)" by (simp add: bits_pos)
    then have "(2 :: nat) ^ (bits n - 1) = 2 * 2 ^ (bits (n div 2) - 1)"
      using "1.prems" by (simp add: bits_pos flip: power_Suc)
    with "1.IH" False "1.prems" show ?thesis by simp
  qed
qed

lemma bits_le_iff: "bits n \<le> k \<longleftrightarrow> n < 2 ^ k"
proof
  assume "bits n \<le> k"
  then have "(2 :: nat) ^ bits n \<le> 2 ^ k" by (simp add: power_increasing)
  then show "n < 2 ^ k" using less_power_bits [of n] by linarith
next
  assume "n < 2 ^ k"
  show "bits n \<le> k"
  proof (cases "n = 0")
    case False
    then have "(2 :: nat) ^ (bits n - 1) < 2 ^ k" using power_bits_le [of n] \<open>n < 2 ^ k\<close> by (simp add: le_less_trans)
    then have "bits n - 1 < k" by (simp only: power_strict_increasing_iff)
    then show ?thesis by linarith
  qed simp
qed

section \<open>Conversions\<close>

text \<open>The nearest number with 53 significant bits; a tie goes to the even one.\<close>

definition round53 :: "nat \<Rightarrow> nat" where
  "round53 a =
     (let k = bits a - 53; q = a div 2 ^ k; r = a mod 2 ^ k in
      if 2 ^ k < 2 * r \<or> (2 * r = 2 ^ k \<and> odd q) then (q + 1) * 2 ^ k else q * 2 ^ k)"

definition double_of_int :: "int \<Rightarrow> double" where
  "double_of_int i =
     (if i = 0 then 0
      else
        let a = round53 (nat \<bar>i\<bar>); n = bits a;
            m = (if n \<le> 53 then a * 2 ^ (53 - n) else a div 2 ^ (n - 53))
        in word_of_nat ((if i < 0 then 2 ^ 63 else 0) + (n + 1022) * 2 ^ 52 + (m - 2 ^ 52)))"

text \<open>
  \<open>Some k\<close> if the value is the integer \<open>k\<close>, that is if \<^verbatim>\<open>fmod(d, 1.0)\<close> is zero; \<open>None\<close> for a
  fractional value, an infinity and a NaN, where it is not.
\<close>

definition double_integer :: "double \<Rightarrow> int option" where
  "double_integer d =
     (let n = unat d; ex = n div 2 ^ 52 mod 2 ^ 11; fr = n mod 2 ^ 52;
          sgn = (if n div 2 ^ 63 = 0 then 1 else -1) in
      if ex = 2047 then None
      else
        let m = (if ex = 0 then fr else 2 ^ 52 + fr); e = (if ex = 0 then 1 else ex) in
        if 1075 \<le> e then Some (sgn * int (m * 2 ^ (e - 1075)))
        else if 2 ^ (1075 - e) dvd m then Some (sgn * int (m div 2 ^ (1075 - e)))
        else None)"

lemma round53_small: "a < 2 ^ 53 \<Longrightarrow> round53 a = a"
proof -
  assume "a < 2 ^ 53"
  then have "bits a - 53 = 0" by (simp add: bits_le_iff)
  then show ?thesis unfolding round53_def Let_def by (simp only:) simp
qed

text \<open>Decoding a bit pattern put together from its parts.\<close>

lemma double_integer_parts:
  assumes "0 < ex" and "ex < 2047" and "fr < 2 ^ 52"
  shows "double_integer (word_of_nat ((if neg then 2 ^ 63 else 0) + ex * 2 ^ 52 + fr))
    = (let m = 2 ^ 52 + fr; sgn = (if neg then -1 else 1) in
       if 1075 \<le> ex then Some (sgn * int (m * 2 ^ (ex - 1075)))
       else if 2 ^ (1075 - ex) dvd m then Some (sgn * int (m div 2 ^ (1075 - ex))) else None)"
proof -
  let ?n = "(if neg then 2 ^ 63 else 0) + ex * 2 ^ 52 + fr"
  have "ex * 2 ^ 52 + fr < (ex + 1) * 2 ^ 52" using assms(3) by simp
  also have "\<dots> \<le> 2047 * 2 ^ 52" using assms(2) by (intro mult_right_mono) auto
  finally have low: "ex * 2 ^ 52 + fr < 2047 * 2 ^ 52" .
  then have "?n < 2 ^ LENGTH(64)" by (cases neg) simp_all
  then have u: "unat (word_of_nat ?n :: double) = ?n"
    by (simp only: unsigned_of_nat take_bit_nat_eq_self of_nat_id)
  have e: "?n div 2 ^ 52 = (if neg then 2 ^ 11 else 0) + ex"
    using assms(3) by (cases neg) simp_all
  then have "?n div 2 ^ 52 mod 2 ^ 11 = ex" using assms(2) by simp
  moreover have "?n mod 2 ^ 52 = fr"
  proof -
    have "?n = fr + 2 ^ 52 * ((if neg then 2 ^ 11 else 0) + ex)" by (cases neg) simp_all
    then show ?thesis using assms(3) by (simp only: mod_mult_self2 mod_less)
  qed
  moreover have "(?n div 2 ^ 63 = 0) = (\<not> neg)" using low by (cases neg) simp_all
  ultimately show ?thesis unfolding double_integer_def Let_def u using assms(1,2)
    by (simp only: if_False less_numeral_extra nat_neq_iff) simp
qed

text \<open>Integers up to \<open>2^53\<close> in magnitude survive the conversion to double and back.\<close>

lemma double_integer_of_int_less:
  assumes "\<bar>i\<bar> < 2 ^ 53"
  shows "double_integer (double_of_int i) = Some i"
proof (cases "i = 0")
  case True
  then show ?thesis by (simp add: double_of_int_def double_integer_def)
next
  case False
  let ?a = "nat \<bar>i\<bar>"
  let ?n = "bits ?a"
  have a: "0 < ?a" "?a < 2 ^ 53" "round53 ?a = ?a" using False assms by (auto intro: round53_small)
  have n: "?n \<le> 53" "0 < ?n" using a by (simp_all add: bits_le_iff bits_pos)
  let ?m = "?a * 2 ^ (53 - ?n)"
  have "(2 :: nat) ^ 52 = 2 ^ (?n - 1) * 2 ^ (53 - ?n)" using n by (simp flip: power_add)
  then have lo: "2 ^ 52 \<le> ?m" using power_bits_le [OF a(1)] by (metis mult_le_mono1)
  have "?m < 2 ^ ?n * 2 ^ (53 - ?n)" using less_power_bits [of ?a] by simp
  also have "\<dots> = 2 ^ 53" using n by (simp flip: power_add)
  finally have hi: "?m < 2 ^ 53" .
  have d: "double_of_int i = word_of_nat ((if i < 0 then 2 ^ 63 else 0) + (?n + 1022) * 2 ^ 52 + (?m - 2 ^ 52))"
    unfolding double_of_int_def Let_def a(3) using False n by (simp only: if_False if_True)
  have m: "2 ^ 52 + (?m - 2 ^ 52) = ?m" using lo by linarith
  have fr: "?m - 2 ^ 52 < 2 ^ 52" using hi lo by (simp add: less_diff_conv2)
  have sgn: "(if i < 0 then -1 else 1) * int ?a = i" by simp
  have ex: "0 < ?n + 1022" "?n + 1022 < 2047" using n by simp_all
  show ?thesis
  proof (cases "?n = 53")
    case True
    then have "1075 \<le> ?n + 1022" "?n + 1022 - 1075 = 0" "?m = ?a" by simp_all
    then show ?thesis unfolding d double_integer_parts [OF ex fr] Let_def m
      by (simp only: if_True power_0 mult_1_right sgn)
  next
    case False
    then have "\<not> 1075 \<le> ?n + 1022" "1075 - (?n + 1022) = 53 - ?n" using n by linarith+
    moreover have "2 ^ (53 - ?n) dvd ?m" "?m div 2 ^ (53 - ?n) = ?a" by simp_all
    ultimately show ?thesis unfolding d double_integer_parts [OF ex fr] Let_def m
      by (simp only: if_True if_False sgn)
  qed
qed

lemma bits_power: "bits (2 ^ k) = Suc k"
  by (induction k) (simp_all add: bits_pos)

lemma double_integer_bound: "double_integer (double_of_int (2 ^ 53)) = Some (2 ^ 53)"
    "double_integer (double_of_int (- (2 ^ 53))) = Some (- (2 ^ 53))"
  using bits_power [of 53] by (simp_all add: double_of_int_def double_integer_def round53_def Let_def)

lemma double_integer_of_int:
  assumes "\<bar>i\<bar> \<le> 2 ^ 53"
  shows "double_integer (double_of_int i) = Some i"
proof -
  have "i = 2 ^ 53 \<or> i = - (2 ^ 53) \<or> \<bar>i\<bar> < 2 ^ 53" using assms by auto
  then show ?thesis using double_integer_of_int_less double_integer_bound by blast
qed

lemma round53_tie: "round53 (2 ^ 53 + 1) = 2 ^ 53"
proof -
  have "bits (2 ^ 53 + 1) = 54" using bits_power [of 52] by (simp add: bits_pos)
  then show ?thesis unfolding round53_def Let_def by simp
qed

lemma round53_large:
  assumes "2 ^ 53 + 2 \<le> a"
  shows "2 ^ 53 < round53 a"
proof -
  let ?k = "bits a - 53"
  have "\<not> bits a \<le> 53" using assms unfolding bits_le_iff by simp
  then have k: "bits a - 1 = 52 + ?k" "0 < ?k" by auto
  have "0 < a" using assms by simp
  from power_bits_le [OF this] have "2 ^ 52 * 2 ^ ?k \<le> a" unfolding k(1) by (simp only: power_add)
  then have q: "2 ^ 52 \<le> a div 2 ^ ?k" by (simp add: less_eq_div_iff_mult_less_eq)
  have "2 ^ 53 < a div 2 ^ ?k * 2 ^ ?k"
  proof (cases "?k = 1")
    case True
    then have "a div 2 ^ ?k = a div 2" by simp
    moreover have "2 ^ 52 + 1 \<le> a div 2" using assms by (simp add: less_eq_div_iff_mult_less_eq)
    ultimately show ?thesis using True by simp
  next
    case False
    then have "(2 :: nat) ^ 2 \<le> 2 ^ ?k" using k(2) by (intro power_increasing) auto
    then have "(2 :: nat) ^ 52 * 2 ^ 2 \<le> a div 2 ^ ?k * 2 ^ ?k" using q by (rule mult_le_mono [rotated])
    then show ?thesis by simp
  qed
  also have "\<dots> \<le> round53 a" unfolding round53_def Let_def by simp
  finally show ?thesis .
qed

end
