(* ===== verification/PPVar.thy ===== *)
theory PPVar
  imports Prelude "HOL-Library.AList"
begin

text \<open>
  The interface of \<^verbatim>\<open>pp::Var\<close>, \<^verbatim>\<open>pp::VarDictionary\<close> and \<^verbatim>\<open>pp::VarArray\<close>, which belong to the
  Native Client SDK and not to this repository. The operations the repository calls are a record, an
  argument of every definition that uses them; their documented behaviour is the locale \<open>ppapi\<close>.
  Dictionaries and arrays are references to objects of the browser: copying a variable copies the
  reference, and setting an entry is seen through every copy. A store that keeps association lists
  and lists shows that the behaviour is possible.
\<close>

section \<open>Operations\<close>

datatype PP_VarType =
    PP_VARTYPE_UNDEFINED
  | PP_VARTYPE_NULL
  | PP_VARTYPE_BOOL
  | PP_VARTYPE_INT32
  | PP_VARTYPE_DOUBLE
  | PP_VARTYPE_STRING
  | PP_VARTYPE_ARRAY
  | PP_VARTYPE_DICTIONARY

text \<open>\<open>'v\<close> are the variables, \<open>'h\<close> is the state of the browser they refer to.\<close>

record ('h, 'v) pp =
  var_undefined :: 'v
  var_bool :: "bool \<Rightarrow> 'v"
  var_int :: "int32_t \<Rightarrow> 'v"
  var_double :: "double \<Rightarrow> 'v"
  var_string :: "byte list \<Rightarrow> 'v"
  var_type :: "'v \<Rightarrow> PP_VarType"
  AsBool :: "'v \<Rightarrow> bool"
  AsInt :: "'v \<Rightarrow> int32_t"
  AsDouble :: "'v \<Rightarrow> double"
  AsString :: "'v \<Rightarrow> byte list"
  newVarDictionary :: "'h \<Rightarrow> 'v \<times> 'h"
  newVarArray :: "'h \<Rightarrow> 'v \<times> 'h"
  dict_Set :: "'v \<Rightarrow> 'v \<Rightarrow> 'v \<Rightarrow> 'h \<Rightarrow> bool \<times> 'h"
  dict_Get :: "'v \<Rightarrow> 'v \<Rightarrow> 'h \<Rightarrow> 'v"
  dict_HasKey :: "'v \<Rightarrow> 'v \<Rightarrow> 'h \<Rightarrow> bool"
  dict_GetKeys :: "'v \<Rightarrow> 'h \<Rightarrow> 'v \<times> 'h"
  array_Set :: "'v \<Rightarrow> nat \<Rightarrow> 'v \<Rightarrow> 'h \<Rightarrow> bool \<times> 'h"
  array_Get :: "'v \<Rightarrow> nat \<Rightarrow> 'h \<Rightarrow> 'v"
  array_GetLength :: "'v \<Rightarrow> 'h \<Rightarrow> nat"

definition is_undefined :: "('h, 'v) pp \<Rightarrow> 'v \<Rightarrow> bool" where
  "is_undefined pp v \<longleftrightarrow> var_type pp v = PP_VARTYPE_UNDEFINED"
definition is_null :: "('h, 'v) pp \<Rightarrow> 'v \<Rightarrow> bool" where
  "is_null pp v \<longleftrightarrow> var_type pp v = PP_VARTYPE_NULL"
definition is_bool :: "('h, 'v) pp \<Rightarrow> 'v \<Rightarrow> bool" where
  "is_bool pp v \<longleftrightarrow> var_type pp v = PP_VARTYPE_BOOL"
definition is_int :: "('h, 'v) pp \<Rightarrow> 'v \<Rightarrow> bool" where
  "is_int pp v \<longleftrightarrow> var_type pp v = PP_VARTYPE_INT32"
definition is_double :: "('h, 'v) pp \<Rightarrow> 'v \<Rightarrow> bool" where
  "is_double pp v \<longleftrightarrow> var_type pp v = PP_VARTYPE_DOUBLE"
definition is_string :: "('h, 'v) pp \<Rightarrow> 'v \<Rightarrow> bool" where
  "is_string pp v \<longleftrightarrow> var_type pp v = PP_VARTYPE_STRING"
definition is_array :: "('h, 'v) pp \<Rightarrow> 'v \<Rightarrow> bool" where
  "is_array pp v \<longleftrightarrow> var_type pp v = PP_VARTYPE_ARRAY"
definition is_dictionary :: "('h, 'v) pp \<Rightarrow> 'v \<Rightarrow> bool" where
  "is_dictionary pp v \<longleftrightarrow> var_type pp v = PP_VARTYPE_DICTIONARY"

lemmas var_kind_defs = is_undefined_def is_null_def is_bool_def is_int_def is_double_def is_string_def
  is_array_def is_dictionary_def

section \<open>Documented behaviour\<close>

text \<open>What an object holds.\<close>

datatype 'v object = Dict "byte list \<rightharpoonup> 'v" | Arr "'v list"

text \<open>
  \<open>alloc h\<close> are the references in use, \<open>content\<close> the objects behind them, \<open>okStr\<close> the strings that a
  string variable can hold (valid UTF-8; ASCII in particular). The order of \<open>GetKeys\<close> is not
  specified, a key that is not a string is refused by \<open>Set\<close> without effect, and reading a missing
  entry gives an undefined variable.
\<close>

locale ppapi =
  fixes pp :: "('h, 'v) pp"
    and alloc :: "'h \<Rightarrow> 'v set"
    and content :: "'h \<Rightarrow> 'v \<Rightarrow> 'v object"
    and okStr :: "byte list \<Rightarrow> bool"
  assumes undefined_var: "var_type pp (var_undefined pp) = PP_VARTYPE_UNDEFINED"
    and bool_var: "var_type pp (var_bool pp b) = PP_VARTYPE_BOOL" "AsBool pp (var_bool pp b) = b"
    and int_var: "var_type pp (var_int pp i32) = PP_VARTYPE_INT32" "AsInt pp (var_int pp i32) = i32"
    and double_var: "var_type pp (var_double pp dbl) = PP_VARTYPE_DOUBLE" "AsDouble pp (var_double pp dbl) = dbl"
    and string_var: "okStr str \<Longrightarrow> var_type pp (var_string pp str) = PP_VARTYPE_STRING"
      "okStr str \<Longrightarrow> AsString pp (var_string pp str) = str"
    and okStr_ascii: "list_all (\<lambda>w. unat w < 128) str \<Longrightarrow> okStr str"
    and new_dictionary: "newVarDictionary pp h = (d, h') \<Longrightarrow> d \<notin> alloc h \<and> alloc h' = insert d (alloc h)
      \<and> var_type pp d = PP_VARTYPE_DICTIONARY \<and> content h' d = Dict Map.empty
      \<and> (\<forall>e\<in>alloc h. content h' e = content h e)"
    and new_array: "newVarArray pp h = (d, h') \<Longrightarrow> d \<notin> alloc h \<and> alloc h' = insert d (alloc h)
      \<and> var_type pp d = PP_VARTYPE_ARRAY \<and> content h' d = Arr []
      \<and> (\<forall>e\<in>alloc h. content h' e = content h e)"
    and set_entry: "d \<in> alloc h \<Longrightarrow> content h d = Dict m \<Longrightarrow> var_type pp k = PP_VARTYPE_STRING \<Longrightarrow>
      \<exists>h'. dict_Set pp d k x h = (True, h') \<and> alloc h' = alloc h
        \<and> (\<forall>e\<in>alloc h. content h' e = (if e = d then Dict (m(AsString pp k \<mapsto> x)) else content h e))"
    and set_refused: "var_type pp k \<noteq> PP_VARTYPE_STRING \<Longrightarrow> dict_Set pp d k x h = (False, h)"
    and get_entry: "d \<in> alloc h \<Longrightarrow> content h d = Dict m \<Longrightarrow> var_type pp k = PP_VARTYPE_STRING \<Longrightarrow>
      dict_Get pp d k h = (case m (AsString pp k) of None \<Rightarrow> var_undefined pp | Some x \<Rightarrow> x)"
    and has_key: "d \<in> alloc h \<Longrightarrow> content h d = Dict m \<Longrightarrow> var_type pp k = PP_VARTYPE_STRING \<Longrightarrow>
      dict_HasKey pp d k h = (AsString pp k \<in> dom m)"
    and get_keys: "d \<in> alloc h \<Longrightarrow> content h d = Dict m \<Longrightarrow> dict_GetKeys pp d h = (a, h') \<Longrightarrow>
      a \<notin> alloc h \<and> alloc h' = insert a (alloc h) \<and> var_type pp a = PP_VARTYPE_ARRAY
      \<and> (\<forall>e\<in>alloc h. content h' e = content h e)
      \<and> (\<exists>ks. content h' a = Arr ks \<and> (\<forall>k\<in>set ks. var_type pp k = PP_VARTYPE_STRING)
          \<and> distinct (map (AsString pp) ks) \<and> set (map (AsString pp) ks) = dom m)"
    and set_element: "d \<in> alloc h \<Longrightarrow> content h d = Arr xs \<Longrightarrow>
      \<exists>h'. array_Set pp d (length xs) x h = (True, h') \<and> alloc h' = alloc h
        \<and> (\<forall>e\<in>alloc h. content h' e = (if e = d then Arr (xs @ [x]) else content h e))"
    and get_element: "d \<in> alloc h \<Longrightarrow> content h d = Arr xs \<Longrightarrow> i < length xs \<Longrightarrow> array_Get pp d i h = xs ! i"
    and get_length: "d \<in> alloc h \<Longrightarrow> content h d = Arr xs \<Longrightarrow> array_GetLength pp d h = length xs"
begin

text \<open>What earlier references show is not changed by a later state that keeps their objects.\<close>

definition later :: "'h \<Rightarrow> 'h \<Rightarrow> bool" where
  "later h h' \<longleftrightarrow> alloc h \<subseteq> alloc h' \<and> (\<forall>e\<in>alloc h. content h' e = content h e)"

lemma later_refl [simp]: "later h h"
  by (simp add: later_def)

lemma later_trans: "later h h' \<Longrightarrow> later h' h'' \<Longrightarrow> later h h''"
  by (auto simp: later_def)

end

section \<open>A store\<close>

datatype var =
    UndefinedVar | NullVar | BoolVar bool | IntVar int32_t | DoubleVar double | StringVar "byte list" | ArrayRef nat | DictRef nat

datatype cell = DictCell "(byte list \<times> var) list" | ArrayCell "var list"

text \<open>Cells are numbered in the order they are made.\<close>

type_synonym store = "cell list"

fun type_of_var :: "var \<Rightarrow> PP_VarType" where
  "type_of_var UndefinedVar = PP_VARTYPE_UNDEFINED"
| "type_of_var NullVar = PP_VARTYPE_NULL"
| "type_of_var (BoolVar b) = PP_VARTYPE_BOOL"
| "type_of_var (IntVar i) = PP_VARTYPE_INT32"
| "type_of_var (DoubleVar d) = PP_VARTYPE_DOUBLE"
| "type_of_var (StringVar s) = PP_VARTYPE_STRING"
| "type_of_var (ArrayRef n) = PP_VARTYPE_ARRAY"
| "type_of_var (DictRef n) = PP_VARTYPE_DICTIONARY"

fun store_set :: "var \<Rightarrow> var \<Rightarrow> var \<Rightarrow> store \<Rightarrow> bool \<times> store" where
  "store_set (DictRef n) (StringVar k) x h =
     (case h ! n of DictCell kvs \<Rightarrow> (True, h[n := DictCell (AList.update k x kvs)]) | ArrayCell xs \<Rightarrow> (False, h))"
| "store_set d k x h = (False, h)"

fun store_get :: "var \<Rightarrow> var \<Rightarrow> store \<Rightarrow> var" where
  "store_get (DictRef n) (StringVar k) h =
     (case h ! n of DictCell kvs \<Rightarrow> (case map_of kvs k of None \<Rightarrow> UndefinedVar | Some x \<Rightarrow> x) | ArrayCell xs \<Rightarrow> UndefinedVar)"
| "store_get d k h = UndefinedVar"

fun store_has :: "var \<Rightarrow> var \<Rightarrow> store \<Rightarrow> bool" where
  "store_has (DictRef n) (StringVar k) h =
     (case h ! n of DictCell kvs \<Rightarrow> map_of kvs k \<noteq> None | ArrayCell xs \<Rightarrow> False)"
| "store_has d k h = False"

fun store_keys :: "var \<Rightarrow> store \<Rightarrow> var \<times> store" where
  "store_keys (DictRef n) h =
     (ArrayRef (length h), h @ [case h ! n of
        DictCell kvs \<Rightarrow> ArrayCell (map StringVar (remdups (map fst kvs))) | ArrayCell xs \<Rightarrow> ArrayCell []])"
| "store_keys d h = (ArrayRef (length h), h @ [ArrayCell []])"

fun store_append :: "var \<Rightarrow> nat \<Rightarrow> var \<Rightarrow> store \<Rightarrow> bool \<times> store" where
  "store_append (ArrayRef n) i x h =
     (case h ! n of ArrayCell xs \<Rightarrow>
        (True, h[n := ArrayCell (if i < length xs then xs[i := x]
           else xs @ replicate (i - length xs) UndefinedVar @ [x])]) | DictCell kvs \<Rightarrow> (False, h))"
| "store_append d i x h = (False, h)"

fun store_elements :: "var \<Rightarrow> store \<Rightarrow> var list" where
  "store_elements (ArrayRef n) h = (case h ! n of ArrayCell xs \<Rightarrow> xs | DictCell kvs \<Rightarrow> [])"
| "store_elements d h = []"

definition store_pp :: "(store, var) pp" where
  "store_pp = \<lparr>var_undefined = UndefinedVar, var_bool = BoolVar, var_int = IntVar, var_double = DoubleVar,
     var_string = StringVar, var_type = type_of_var,
     AsBool = (\<lambda>v. case v of BoolVar b \<Rightarrow> b | _ \<Rightarrow> False), AsInt = (\<lambda>v. case v of IntVar i \<Rightarrow> i | _ \<Rightarrow> 0),
     AsDouble = (\<lambda>v. case v of DoubleVar d \<Rightarrow> d | _ \<Rightarrow> 0), AsString = (\<lambda>v. case v of StringVar s \<Rightarrow> s | _ \<Rightarrow> []),
     newVarDictionary = (\<lambda>h. (DictRef (length h), h @ [DictCell []])),
     newVarArray = (\<lambda>h. (ArrayRef (length h), h @ [ArrayCell []])),
     dict_Set = store_set, dict_Get = store_get, dict_HasKey = store_has, dict_GetKeys = store_keys,
     array_Set = store_append,
     array_Get = (\<lambda>d i h. let xs = store_elements d h in if i < length xs then xs ! i else UndefinedVar),
     array_GetLength = (\<lambda>d h. length (store_elements d h))\<rparr>"

fun is_dict_cell :: "cell \<Rightarrow> bool" where
  "is_dict_cell (DictCell kvs) = True"
| "is_dict_cell (ArrayCell xs) = False"

fun allocated :: "store \<Rightarrow> var \<Rightarrow> bool" where
  "allocated h (DictRef n) = (n < length h \<and> is_dict_cell (h ! n))"
| "allocated h (ArrayRef n) = (n < length h \<and> \<not> is_dict_cell (h ! n))"
| "allocated h v = False"

definition store_alloc :: "store \<Rightarrow> var set" where
  "store_alloc h = {v. allocated h v}"

fun store_content :: "store \<Rightarrow> var \<Rightarrow> var object" where
  "store_content h (DictRef n) = (case h ! n of DictCell kvs \<Rightarrow> Dict (map_of kvs) | ArrayCell xs \<Rightarrow> Dict Map.empty)"
| "store_content h v = Arr (store_elements v h)"

lemma store_alloc_cases:
  assumes "d \<in> store_alloc h"
  obtains (dict) n kvs where "d = DictRef n" "n < length h" "h ! n = DictCell kvs"
    | (array) n xs where "d = ArrayRef n" "n < length h" "h ! n = ArrayCell xs"
proof (cases d)
  case (DictRef n)
  with assms dict show thesis by (cases "h ! n") (auto simp: store_alloc_def)
next
  case (ArrayRef n)
  with assms array show thesis by (cases "h ! n") (auto simp: store_alloc_def)
qed (use assms in \<open>simp_all add: store_alloc_def\<close>)

lemma store_content_append:
  "e \<in> store_alloc h \<Longrightarrow> store_content (h @ cs) e = store_content h e"
  by (erule store_alloc_cases) (simp_all add: nth_append)

lemma allocated_append:
  "allocated (h @ [c]) v \<longleftrightarrow> v = (if is_dict_cell c then DictRef (length h) else ArrayRef (length h)) \<or> allocated h v"
  by (cases v) (auto simp: nth_append less_Suc_eq)

lemma store_alloc_new:
  "store_alloc (h @ [c]) = insert (if is_dict_cell c then DictRef (length h) else ArrayRef (length h)) (store_alloc h)"
  by (rule set_eqI) (simp only: store_alloc_def mem_Collect_eq insert_iff allocated_append)

lemma store_fresh: "DictRef (length h) \<notin> store_alloc h" "ArrayRef (length h) \<notin> store_alloc h"
  by (simp_all add: store_alloc_def)

lemma store_alloc_update:
  assumes "n < length h" and "is_dict_cell c = is_dict_cell (h ! n)"
  shows "store_alloc (h[n := c]) = store_alloc h"
proof -
  have "allocated (h[n := c]) v = allocated h v" for v
    using assms by (cases v) (auto simp: nth_list_update)
  then show ?thesis by (simp add: store_alloc_def)
qed

lemma store_content_update:
  "n < length h \<Longrightarrow> h ! n = DictCell kvs \<Longrightarrow> e \<in> store_alloc h \<Longrightarrow>
    store_content (h[n := DictCell kvs']) e = (if e = DictRef n then Dict (map_of kvs') else store_content h e)"
  "n < length h \<Longrightarrow> h ! n = ArrayCell xs \<Longrightarrow> e \<in> store_alloc h \<Longrightarrow>
    store_content (h[n := ArrayCell xs']) e = (if e = ArrayRef n then Arr xs' else store_content h e)"
  by (erule store_alloc_cases; auto simp: nth_list_update split: cell.splits)+

text \<open>The strings of the store are not restricted.\<close>

interpretation store: ppapi store_pp store_alloc store_content "\<lambda>s. True"
proof (unfold_locales, goal_cases)
  case (11 h d h')
  then show ?case using store_fresh [of h]
    by (clarsimp simp: store_pp_def store_alloc_new store_content_append)
next
  case (12 h d h')
  then show ?case using store_fresh [of h]
    by (clarsimp simp: store_pp_def store_alloc_new store_content_append)
next
  case (13 d h m k x)
  then obtain n kvs s where "d = DictRef n" "n < length h" "h ! n = DictCell kvs" "m = map_of kvs" "k = StringVar s"
    by (cases k) (auto elim!: store_alloc_cases simp: store_pp_def)
  then show ?case
    by (simp add: store_pp_def store_alloc_update store_content_update update_conv')
next
  case (14 k d x h)
  then show ?case by (cases k; cases d) (auto simp: store_pp_def)
next
  case (15 d h m k)
  then show ?case by (cases k) (auto elim!: store_alloc_cases simp: store_pp_def split: option.splits)
next
  case (16 d h m k)
  then show ?case by (cases k) (auto elim!: store_alloc_cases simp: store_pp_def)
next
  case (17 d h m a h')
  then obtain n kvs where "d = DictRef n" "n < length h" "h ! n = DictCell kvs" "m = map_of kvs"
    by (auto elim!: store_alloc_cases)
  with 17 show ?case using store_fresh [of h]
    by (auto simp: store_pp_def store_alloc_new store_content_append comp_def dom_map_of_conv_image_fst
        nth_append image_image intro: rev_image_eqI)
next
  case (18 d h xs x)
  then obtain n where "d = ArrayRef n" "n < length h" "h ! n = ArrayCell xs"
    by (auto elim!: store_alloc_cases)
  then show ?case by (auto simp: store_pp_def store_alloc_update store_content_update)
next
  case (19 d h xs i)
  then show ?case by (auto elim!: store_alloc_cases simp: store_pp_def)
next
  case (20 d h xs)
  then show ?case by (auto elim!: store_alloc_cases simp: store_pp_def)
qed (simp_all add: store_pp_def)

end
