(* ===== verification/NativeClient.thy ===== *)
theory NativeClient
  imports Generated Base64 Double PPVar
begin

text \<open>
  \<^verbatim>\<open>TNativeClientProtocol.h/.cpp\<close>: the protocol that turns Thrift values into the variables of the
  Native Client messaging interface, and the name-based reader that \<^verbatim>\<open>tools/thrift-compiler.patch\<close>
  adds to the code generator. Structs and maps become dictionaries, lists and sets arrays. The writer
  keeps a stack of the objects it is filling, the reader a stack of cursors. The operations of
  \<^verbatim>\<open>pp::Var\<close> are the parameter \<open>pp\<close>, and \<open>fresh\<close> is the memory of the base64 coder.
\<close>

section \<open>State\<close>

datatype ContextType = DICTIONARY_CONTEXT | MAP_KEY_CONTEXT | MAP_VALUE_CONTEXT | LIST_CONTEXT

record 'v WriterContext =
  wvar :: 'v
  wtype :: ContextType
  field_name :: "byte list"
  map_key :: 'v

record 'v ReaderContext =
  rvar :: 'v
  rkeys :: 'v
  rtype :: ContextType
  rindex :: nat

text \<open>
  The heads of the lists are the tops of the stacks. \<open>heap\<close> is the state of the browser. Taking the
  top of an empty stack violates the precondition of \<^verbatim>\<open>ptr_deque\<close>.
\<close>

record ('h, 'v) TNativeClientProtocol =
  heap :: 'h
  writer_stack :: "'v WriterContext list"
  reader_stack :: "'v ReaderContext list"
  root_var :: "'v option"

definition newTNativeClientProtocol :: "'h \<Rightarrow> ('h, 'v) TNativeClientProtocol" where
  "newTNativeClientProtocol h = \<lparr>heap = h, writer_stack = [], reader_stack = [], root_var = None\<rparr>"

definition newTNativeClientProtocol_from :: "'h \<Rightarrow> 'v \<Rightarrow> ('h, 'v) TNativeClientProtocol" where
  "newTNativeClientProtocol_from h var =
     \<lparr>heap = h, writer_stack = [], reader_stack = [], root_var = Some var\<rparr>"

type_synonym ('h, 'v, 'a) NM = "(('h, 'v) TNativeClientProtocol, 'a) M"

definition nacl_reset :: "('h, 'v, unit) NM" where
  "nacl_reset = modifyM (\<lambda>s. s\<lparr>writer_stack := [], reader_stack := [], root_var := None\<rparr>)"

definition setVar :: "'v \<Rightarrow> ('h, 'v, unit) NM" where
  "setVar var = bindM nacl_reset (\<lambda>_. modifyM (\<lambda>s. s\<lparr>root_var := Some var\<rparr>))"

definition getVar :: "('h, 'v) TNativeClientProtocol \<Rightarrow> 'v option" where
  "getVar s = root_var s"

section \<open>Writer contexts\<close>

definition newWriterContext :: "('h, 'v) pp \<Rightarrow> 'v \<Rightarrow> ContextType \<Rightarrow> ('h, 'v WriterContext) M" where
  "newWriterContext pp var type =
     bindM (assertM (\<lambda>h. (is_dictionary pp var \<and> (type = DICTIONARY_CONTEXT \<or> type = MAP_KEY_CONTEXT))
         \<or> (is_array pp var \<and> type = LIST_CONTEXT))) (\<lambda>_.
     returnM \<lparr>wvar = var, wtype = type, field_name = [], map_key = var_undefined pp\<rparr>)"

definition createDictionaryContext :: "('h, 'v) pp \<Rightarrow> ('h, 'v WriterContext) M" where
  "createDictionaryContext pp h =
     (case newVarDictionary pp h of (var, h') \<Rightarrow> newWriterContext pp var DICTIONARY_CONTEXT h')"

definition createMapContext :: "('h, 'v) pp \<Rightarrow> ('h, 'v WriterContext) M" where
  "createMapContext pp h =
     (case newVarDictionary pp h of (var, h') \<Rightarrow> newWriterContext pp var MAP_KEY_CONTEXT h')"

definition createListContext :: "('h, 'v) pp \<Rightarrow> ('h, 'v WriterContext) M" where
  "createListContext pp h =
     (case newVarArray pp h of (var, h') \<Rightarrow> newWriterContext pp var LIST_CONTEXT h')"

text \<open>The results of \<^verbatim>\<open>Set\<close> are not looked at.\<close>

definition writer_asDictionary :: "('h, 'v) pp \<Rightarrow> 'v WriterContext \<times> 'h \<Rightarrow> bool" where
  "writer_asDictionary pp = (\<lambda>(c, h). is_dictionary pp (wvar c))"

definition writer_asArray :: "('h, 'v) pp \<Rightarrow> 'v WriterContext \<times> 'h \<Rightarrow> bool" where
  "writer_asArray pp = (\<lambda>(c, h). is_array pp (wvar c))"

definition context_writeVar :: "('h, 'v) pp \<Rightarrow> 'v \<Rightarrow> ('v WriterContext \<times> 'h, unit) M" where
  "context_writeVar pp var = (\<lambda>(c, h).
     (case wtype c of
        DICTIONARY_CONTEXT \<Rightarrow>
          bindM (assertM (writer_asDictionary pp)) (\<lambda>_.
          modifyM (\<lambda>(c, h). (c, snd (dict_Set pp (wvar c) (var_string pp (field_name c)) var h))))
      | LIST_CONTEXT \<Rightarrow>
          bindM (assertM (writer_asArray pp)) (\<lambda>_.
          modifyM (\<lambda>(c, h). (c, snd (array_Set pp (wvar c) (array_GetLength pp (wvar c) h) var h))))
      | MAP_KEY_CONTEXT \<Rightarrow>
          modifyM (\<lambda>(c, h). (c\<lparr>map_key := var, wtype := MAP_VALUE_CONTEXT\<rparr>, h))
      | MAP_VALUE_CONTEXT \<Rightarrow>
          bindM (assertM (writer_asDictionary pp)) (\<lambda>_.
          modifyM (\<lambda>(c, h). (c\<lparr>wtype := MAP_KEY_CONTEXT\<rparr>, snd (dict_Set pp (wvar c) (map_key c) var h)))))
     (c, h))"

section \<open>Reader contexts\<close>

text \<open>The member \<open>keys_\<close> is a new array before it is assigned.\<close>

definition newReaderContext :: "('h, 'v) pp \<Rightarrow> 'v \<Rightarrow> ContextType \<Rightarrow> ('h, 'v ReaderContext) M" where
  "newReaderContext pp var type h =
     (case newVarArray pp h of (keys, h') \<Rightarrow>
        if is_dictionary pp var then
          (if type = DICTIONARY_CONTEXT \<or> type = MAP_KEY_CONTEXT
           then (case dict_GetKeys pp var h' of (keys', h'') \<Rightarrow>
             (Inr \<lparr>rvar = var, rkeys = keys', rtype = type, rindex = 0\<rparr>, h''))
           else (Inl AssertionFailure, h'))
        else if is_array pp var \<and> type = LIST_CONTEXT
        then (Inr \<lparr>rvar = var, rkeys = keys, rtype = type, rindex = 0\<rparr>, h')
        else (Inl AssertionFailure, h'))"

definition createReaderDictionaryContext :: "('h, 'v) pp \<Rightarrow> 'v \<Rightarrow> ('h, 'v ReaderContext) M" where
  "createReaderDictionaryContext pp var =
     (if \<not> is_dictionary pp var then throwM (TProtocolException TP_UNKNOWN)
      else newReaderContext pp var DICTIONARY_CONTEXT)"

definition createReaderMapContext :: "('h, 'v) pp \<Rightarrow> 'v \<Rightarrow> ('h, 'v ReaderContext) M" where
  "createReaderMapContext pp var =
     (if \<not> is_dictionary pp var then throwM (TProtocolException TP_UNKNOWN)
      else newReaderContext pp var MAP_KEY_CONTEXT)"

definition createReaderListContext :: "('h, 'v) pp \<Rightarrow> 'v \<Rightarrow> ('h, 'v ReaderContext) M" where
  "createReaderListContext pp var =
     (if \<not> is_array pp var then throwM (TProtocolException TP_UNKNOWN)
      else newReaderContext pp var LIST_CONTEXT)"

text \<open>A failed assertion of \<open>asArray\<close> and \<open>asDictionary\<close> is \<open>None\<close>.\<close>

definition reader_asDictionary :: "('h, 'v) pp \<Rightarrow> 'v ReaderContext \<Rightarrow> 'v option" where
  "reader_asDictionary pp c = (if is_dictionary pp (rvar c) then Some (rvar c) else None)"

definition reader_asArray :: "('h, 'v) pp \<Rightarrow> 'v ReaderContext \<Rightarrow> 'v option" where
  "reader_asArray pp c = (if is_array pp (rvar c) then Some (rvar c) else None)"

definition reader_size :: "('h, 'v) pp \<Rightarrow> 'v ReaderContext \<Rightarrow> ('h, nat) M" where
  "reader_size pp c h =
     (if is_dictionary pp (rvar c) then (Inr (array_GetLength pp (rkeys c) h), h)
      else case reader_asArray pp c of
        None \<Rightarrow> (Inl AssertionFailure, h)
      | Some a \<Rightarrow> (Inr (array_GetLength pp a h), h))"

definition reader_isAtEnd :: "('h, 'v) pp \<Rightarrow> 'v ReaderContext \<Rightarrow> ('h, bool) M" where
  "reader_isAtEnd pp c = bindM (reader_size pp c) (\<lambda>n. returnM (n \<le> rindex c))"

definition advance_cursor :: "'v ReaderContext \<Rightarrow> 'v ReaderContext" where
  "advance_cursor c = (case rtype c of
       DICTIONARY_CONTEXT \<Rightarrow> c\<lparr>rindex := rindex c + 1\<rparr>
     | LIST_CONTEXT \<Rightarrow> c\<lparr>rindex := rindex c + 1\<rparr>
     | MAP_KEY_CONTEXT \<Rightarrow> c\<lparr>rtype := MAP_VALUE_CONTEXT\<rparr>
     | MAP_VALUE_CONTEXT \<Rightarrow> c\<lparr>rtype := MAP_KEY_CONTEXT, rindex := rindex c + 1\<rparr>)"

definition reader_advance :: "('h, 'v) pp \<Rightarrow> 'v ReaderContext \<Rightarrow> ('h, 'v ReaderContext) M" where
  "reader_advance pp c =
     bindM (reader_isAtEnd pp c) (\<lambda>atEnd. returnM (if atEnd then c else advance_cursor c))"

definition nextKey :: "('h, 'v) pp \<Rightarrow> 'v ReaderContext \<Rightarrow> ('h, 'v) M" where
  "nextKey pp c =
     bindM (assertM (\<lambda>h. rindex c < array_GetLength pp (rkeys c) h)) (\<lambda>_.
     getM (\<lambda>h. array_Get pp (rkeys c) (rindex c) h))"

definition nextValue :: "('h, 'v) pp \<Rightarrow> 'v ReaderContext \<Rightarrow> ('h, 'v) M" where
  "nextValue pp c =
     bindM (assertM (\<lambda>h. rindex c < array_GetLength pp (rkeys c) h)) (\<lambda>_.
     case reader_asDictionary pp c of
       None \<Rightarrow> throwM AssertionFailure
     | Some d \<Rightarrow> getM (\<lambda>h. dict_Get pp d (array_Get pp (rkeys c) (rindex c) h) h))"

definition nextKeyValue :: "('h, 'v) pp \<Rightarrow> 'v ReaderContext \<Rightarrow> ('h, 'v \<times> 'v) M" where
  "nextKeyValue pp c =
     bindM (assertM (\<lambda>h. rindex c < array_GetLength pp (rkeys c) h)) (\<lambda>_.
     bindM (getM (\<lambda>h. array_Get pp (rkeys c) (rindex c) h)) (\<lambda>key.
     case reader_asDictionary pp c of
       None \<Rightarrow> throwM AssertionFailure
     | Some d \<Rightarrow> bindM (getM (\<lambda>h. dict_Get pp d key h)) (\<lambda>val. returnM (key, val))))"

definition nextArrayValue :: "('h, 'v) pp \<Rightarrow> 'v ReaderContext \<Rightarrow> ('h, 'v) M" where
  "nextArrayValue pp c = (case reader_asArray pp c of
       None \<Rightarrow> throwM AssertionFailure
     | Some a \<Rightarrow>
         bindM (assertM (\<lambda>h. rindex c < array_GetLength pp a h)) (\<lambda>_.
         getM (\<lambda>h. array_Get pp a (rindex c) h)))"

definition nextVar :: "('h, 'v) pp \<Rightarrow> 'v ReaderContext \<Rightarrow> ('h, 'v) M" where
  "nextVar pp c = (case rtype c of
       DICTIONARY_CONTEXT \<Rightarrow> nextValue pp c
     | LIST_CONTEXT \<Rightarrow> nextArrayValue pp c
     | MAP_KEY_CONTEXT \<Rightarrow> nextKey pp c
     | MAP_VALUE_CONTEXT \<Rightarrow> nextValue pp c)"

section \<open>The stacks\<close>

definition onHeap :: "('h, 'a) M \<Rightarrow> ('h, 'v, 'a) NM" where
  "onHeap = liftM heap (\<lambda>h s. s\<lparr>heap := h\<rparr>)"

definition nacl_writeVar :: "('h, 'v) pp \<Rightarrow> 'v \<Rightarrow> ('h, 'v, unit) NM" where
  "nacl_writeVar pp var s =
     (case writer_stack s of
        [] \<Rightarrow>
          if \<not> is_dictionary pp var then (Inl (TProtocolException TP_UNKNOWN), s)
          else (Inr (), s\<lparr>root_var := Some var\<rparr>)
      | c # cs \<Rightarrow>
          (case context_writeVar pp var (c, heap s) of
             (r, (c', h')) \<Rightarrow> (r, s\<lparr>writer_stack := c' # cs, heap := h'\<rparr>)))"

definition nacl_readVar :: "('h, 'v) pp \<Rightarrow> ('h, 'v, 'v) NM" where
  "nacl_readVar pp s =
     (case reader_stack s of
        [] \<Rightarrow>
          (case root_var s of
             None \<Rightarrow> (Inl (TProtocolException TP_UNKNOWN), s)
           | Some var \<Rightarrow> (Inr var, s))
      | c # cs \<Rightarrow>
          bindM (onHeap (nextVar pp c)) (\<lambda>var.
          bindM (onHeap (reader_advance pp c)) (\<lambda>c'.
          bindM (modifyM (\<lambda>s. s\<lparr>reader_stack := c' # cs\<rparr>)) (\<lambda>_.
          returnM var))) s)"

definition pushWriterContext :: "('h, 'v) pp \<Rightarrow> 'v WriterContext \<Rightarrow> ('h, 'v, unit) NM" where
  "pushWriterContext pp c =
     bindM (assertM (\<lambda>s. is_dictionary pp (wvar c) \<or> is_array pp (wvar c))) (\<lambda>_.
     bindM (nacl_writeVar pp (wvar c)) (\<lambda>_.
     modifyM (\<lambda>s. s\<lparr>writer_stack := c # writer_stack s\<rparr>)))"

definition popWriterContext :: "('h, 'v, unit) NM" where
  "popWriterContext s = (case writer_stack s of
       [] \<Rightarrow> (Inl UndefinedBehaviour, s)
     | c # cs \<Rightarrow> (Inr (), s\<lparr>writer_stack := cs\<rparr>))"

definition topWriterContext :: "('h, 'v, 'v WriterContext) NM" where
  "topWriterContext s = (case writer_stack s of
       [] \<Rightarrow> (Inl UndefinedBehaviour, s) | c # cs \<Rightarrow> (Inr c, s))"

definition pushReaderContext :: "('h, 'v) pp \<Rightarrow> 'v ReaderContext \<Rightarrow> ('h, 'v, unit) NM" where
  "pushReaderContext pp c =
     bindM (assertM (\<lambda>s. is_dictionary pp (rvar c) \<or> is_array pp (rvar c))) (\<lambda>_.
     modifyM (\<lambda>s. s\<lparr>reader_stack := c # reader_stack s\<rparr>))"

definition popReaderContext :: "('h, 'v, unit) NM" where
  "popReaderContext s = (case reader_stack s of
       [] \<Rightarrow> (Inl UndefinedBehaviour, s)
     | c # cs \<Rightarrow> (Inr (), s\<lparr>reader_stack := cs\<rparr>))"

definition topReaderContext :: "('h, 'v, 'v ReaderContext) NM" where
  "topReaderContext s = (case reader_stack s of
       [] \<Rightarrow> (Inl UndefinedBehaviour, s) | c # cs \<Rightarrow> (Inr c, s))"

section \<open>Writing\<close>

definition kMaxPreciseDouble :: int where "kMaxPreciseDouble = 9007199254740992"
definition kMinPreciseDouble :: int where "kMinPreciseDouble = -9007199254740992"

definition nacl_writeMessageBegin :: "byte list \<Rightarrow> TMessageType \<Rightarrow> int32_t \<Rightarrow> ('h, 'v, uint32_t) NM" where
  "nacl_writeMessageBegin name messageType seqid = throwM (TProtocolException NOT_IMPLEMENTED)"

definition nacl_writeMessageEnd :: "('h, 'v, uint32_t) NM" where
  "nacl_writeMessageEnd = throwM (TProtocolException NOT_IMPLEMENTED)"

definition nacl_writeStructBegin :: "('h, 'v) pp \<Rightarrow> byte list \<Rightarrow> ('h, 'v, uint32_t) NM" where
  "nacl_writeStructBegin pp name =
     bindM (onHeap (createDictionaryContext pp)) (\<lambda>c. bindM (pushWriterContext pp c) (\<lambda>_. returnM 0))"

definition nacl_writeStructEnd :: "('h, 'v, uint32_t) NM" where
  "nacl_writeStructEnd = bindM popWriterContext (\<lambda>_. returnM 0)"

definition nacl_writeFieldBegin :: "byte list \<Rightarrow> TType \<Rightarrow> int16_t \<Rightarrow> ('h, 'v, uint32_t) NM" where
  "nacl_writeFieldBegin name fieldType fieldId s = (case writer_stack s of
       [] \<Rightarrow> (Inl UndefinedBehaviour, s)
     | c # cs \<Rightarrow> (Inr 0, s\<lparr>writer_stack := c\<lparr>field_name := name\<rparr> # cs\<rparr>))"

definition nacl_writeFieldEnd :: "('h, 'v, uint32_t) NM" where
  "nacl_writeFieldEnd = returnM 0"

definition nacl_writeFieldStop :: "('h, 'v, uint32_t) NM" where
  "nacl_writeFieldStop = returnM 0"

definition nacl_writeMapBegin :: "('h, 'v) pp \<Rightarrow> TType \<Rightarrow> TType \<Rightarrow> uint32_t \<Rightarrow> ('h, 'v, uint32_t) NM" where
  "nacl_writeMapBegin pp keyType valType sz =
     bindM (onHeap (createMapContext pp)) (\<lambda>c. bindM (pushWriterContext pp c) (\<lambda>_. returnM 0))"

definition nacl_writeMapEnd :: "('h, 'v, uint32_t) NM" where
  "nacl_writeMapEnd = bindM popWriterContext (\<lambda>_. returnM 0)"

definition nacl_writeListBegin :: "('h, 'v) pp \<Rightarrow> TType \<Rightarrow> uint32_t \<Rightarrow> ('h, 'v, uint32_t) NM" where
  "nacl_writeListBegin pp elemType sz =
     bindM (onHeap (createListContext pp)) (\<lambda>c. bindM (pushWriterContext pp c) (\<lambda>_. returnM 0))"

definition nacl_writeListEnd :: "('h, 'v, uint32_t) NM" where
  "nacl_writeListEnd = bindM popWriterContext (\<lambda>_. returnM 0)"

definition nacl_writeSetBegin :: "('h, 'v) pp \<Rightarrow> TType \<Rightarrow> uint32_t \<Rightarrow> ('h, 'v, uint32_t) NM" where
  "nacl_writeSetBegin pp elemType sz =
     bindM (onHeap (createListContext pp)) (\<lambda>c. bindM (pushWriterContext pp c) (\<lambda>_. returnM 0))"

definition nacl_writeSetEnd :: "('h, 'v, uint32_t) NM" where
  "nacl_writeSetEnd = bindM popWriterContext (\<lambda>_. returnM 0)"

definition nacl_writeBool :: "('h, 'v) pp \<Rightarrow> bool \<Rightarrow> ('h, 'v, uint32_t) NM" where
  "nacl_writeBool pp value = bindM (nacl_writeVar pp (var_bool pp value)) (\<lambda>_. returnM 0)"

definition nacl_writeByte :: "('h, 'v) pp \<Rightarrow> int8_t \<Rightarrow> ('h, 'v, uint32_t) NM" where
  "nacl_writeByte pp b = bindM (nacl_writeVar pp (var_int pp (scast b))) (\<lambda>_. returnM 0)"

definition nacl_writeI16 :: "('h, 'v) pp \<Rightarrow> int16_t \<Rightarrow> ('h, 'v, uint32_t) NM" where
  "nacl_writeI16 pp i16 = bindM (nacl_writeVar pp (var_int pp (scast i16))) (\<lambda>_. returnM 0)"

definition nacl_writeI32 :: "('h, 'v) pp \<Rightarrow> int32_t \<Rightarrow> ('h, 'v, uint32_t) NM" where
  "nacl_writeI32 pp i32 = bindM (nacl_writeVar pp (var_int pp i32)) (\<lambda>_. returnM 0)"

text \<open>
  The comparisons with \<open>kMaxPreciseDouble\<close> and \<open>kMinPreciseDouble\<close> are made between doubles, after
  the 64-bit integer has been rounded to one.
\<close>

definition promoted :: "int64_t \<Rightarrow> int" where
  "promoted i64 = (if 0 \<le> sint i64 then int (round53 (nat (sint i64))) else - int (round53 (nat (- sint i64))))"

definition nacl_writeI64 :: "('h, 'v) pp \<Rightarrow> int64_t \<Rightarrow> ('h, 'v, uint32_t) NM" where
  "nacl_writeI64 pp i64 =
     (if kMaxPreciseDouble < promoted i64 \<or> promoted i64 < kMinPreciseDouble
      then throwM (TProtocolException SIZE_LIMIT)
      else bindM (nacl_writeVar pp (var_double pp (double_of_int (sint i64)))) (\<lambda>_. returnM 0))"

definition nacl_writeDouble :: "('h, 'v) pp \<Rightarrow> double \<Rightarrow> ('h, 'v, uint32_t) NM" where
  "nacl_writeDouble pp dbl = bindM (nacl_writeVar pp (var_double pp dbl)) (\<lambda>_. returnM 0)"

definition nacl_writeString :: "('h, 'v) pp \<Rightarrow> byte list \<Rightarrow> ('h, 'v, uint32_t) NM" where
  "nacl_writeString pp str = bindM (nacl_writeVar pp (var_string pp str)) (\<lambda>_. returnM 0)"

definition nacl_writeBinary :: "('h, 'v) pp \<Rightarrow> (nat \<Rightarrow> byte list) \<Rightarrow> byte list \<Rightarrow> ('h, 'v, uint32_t) NM" where
  "nacl_writeBinary pp fresh str =
     bindM (nacl_writeVar pp (var_string pp (base64EncodeString fresh str))) (\<lambda>_. returnM 0)"

section \<open>Reading\<close>

definition nacl_readMessageBegin :: "('h, 'v, (byte list \<times> TMessageType \<times> int32_t) \<times> uint32_t) NM" where
  "nacl_readMessageBegin = throwM (TProtocolException NOT_IMPLEMENTED)"

definition nacl_readMessageEnd :: "('h, 'v, uint32_t) NM" where
  "nacl_readMessageEnd = throwM (TProtocolException NOT_IMPLEMENTED)"

definition nacl_readStructBegin :: "('h, 'v) pp \<Rightarrow> ('h, 'v, byte list option \<times> uint32_t) NM" where
  "nacl_readStructBegin pp =
     bindM (nacl_readVar pp) (\<lambda>var.
     bindM (onHeap (createReaderDictionaryContext pp var)) (\<lambda>c.
     bindM (pushReaderContext pp c) (\<lambda>_. returnM (None, 0))))"

definition nacl_readStructEnd :: "('h, 'v, uint32_t) NM" where
  "nacl_readStructEnd = bindM popReaderContext (\<lambda>_. returnM 0)"

definition kFieldIdUnknown :: int16_t where "kFieldIdUnknown = -1"

text \<open>At the end \<open>name\<close> and \<open>fieldId\<close> keep their values; nothing looks at them after \<open>T_STOP\<close>.\<close>

definition nacl_readFieldBegin ::
  "('h, 'v) pp \<Rightarrow> ('h, 'v, (byte list option \<times> TType \<times> int16_t) \<times> uint32_t) NM" where
  "nacl_readFieldBegin pp =
     bindM topReaderContext (\<lambda>c.
     bindM (onHeap (reader_isAtEnd pp c)) (\<lambda>atEnd.
     if atEnd then returnM ((None, T_STOP, 0), 0)
     else
       bindM (onHeap (nextKeyValue pp c)) (\<lambda>(key, val).
       bindM (if is_null pp val \<or> is_undefined pp val then returnM []
              else if \<not> is_string pp key then throwM (TProtocolException NOT_IMPLEMENTED)
              else returnM (AsString pp key)) (\<lambda>name.
       returnM ((Some name, T_UNKNOWN, kFieldIdUnknown), 0)))))"

definition nacl_readFieldEnd :: "('h, 'v, uint32_t) NM" where
  "nacl_readFieldEnd = returnM 0"

text \<open>The sizes are converted from \<^verbatim>\<open>int\<close>; the key and element types are left unset, here \<open>T_STOP\<close>.\<close>

definition nacl_readMapBegin :: "('h, 'v) pp \<Rightarrow> ('h, 'v, (TType \<times> TType \<times> uint32_t) \<times> uint32_t) NM" where
  "nacl_readMapBegin pp =
     bindM (nacl_readVar pp) (\<lambda>var.
     bindM (onHeap (createReaderMapContext pp var)) (\<lambda>c.
     bindM (pushReaderContext pp c) (\<lambda>_.
     bindM (onHeap (reader_size pp c)) (\<lambda>n.
     returnM ((T_STOP, T_STOP, word_of_nat n), 0)))))"

definition nacl_readMapEnd :: "('h, 'v, uint32_t) NM" where
  "nacl_readMapEnd = bindM popReaderContext (\<lambda>_. returnM 0)"

definition nacl_readListBegin :: "('h, 'v) pp \<Rightarrow> ('h, 'v, (TType \<times> uint32_t) \<times> uint32_t) NM" where
  "nacl_readListBegin pp =
     bindM (nacl_readVar pp) (\<lambda>var.
     bindM (onHeap (createReaderListContext pp var)) (\<lambda>c.
     bindM (pushReaderContext pp c) (\<lambda>_.
     bindM (onHeap (reader_size pp c)) (\<lambda>n.
     returnM ((T_STOP, word_of_nat n), 0)))))"

definition nacl_readListEnd :: "('h, 'v, uint32_t) NM" where
  "nacl_readListEnd = bindM popReaderContext (\<lambda>_. returnM 0)"

definition nacl_readSetBegin :: "('h, 'v) pp \<Rightarrow> ('h, 'v, (TType \<times> uint32_t) \<times> uint32_t) NM" where
  "nacl_readSetBegin pp =
     bindM (nacl_readVar pp) (\<lambda>var.
     bindM (onHeap (createReaderListContext pp var)) (\<lambda>c.
     bindM (pushReaderContext pp c) (\<lambda>_.
     bindM (onHeap (reader_size pp c)) (\<lambda>n.
     returnM ((T_STOP, word_of_nat n), 0)))))"

definition nacl_readSetEnd :: "('h, 'v, uint32_t) NM" where
  "nacl_readSetEnd = bindM popReaderContext (\<lambda>_. returnM 0)"

definition nacl_readBool :: "('h, 'v) pp \<Rightarrow> ('h, 'v, bool \<times> uint32_t) NM" where
  "nacl_readBool pp =
     bindM (nacl_readVar pp) (\<lambda>var.
     if \<not> is_bool pp var then throwM (TProtocolException INVALID_DATA)
     else returnM (AsBool pp var, 0))"

text \<open>
  An int, or a double with an integral value of at most \<open>2^53\<close> in magnitude. \<^verbatim>\<open>fmod\<close> of a fractional
  value, an infinity and a NaN is not zero.
\<close>

definition readIntegerValue :: "('h, 'v) pp \<Rightarrow> ('h, 'v, int64_t) NM" where
  "readIntegerValue pp =
     bindM (nacl_readVar pp) (\<lambda>var.
     if is_int pp var then returnM (scast (AsInt pp var))
     else if is_double pp var then
       (case double_integer (AsDouble pp var) of
          None \<Rightarrow> throwM (TProtocolException INVALID_DATA)
        | Some k \<Rightarrow>
            if kMaxPreciseDouble < k \<or> k < kMinPreciseDouble then throwM (TProtocolException SIZE_LIMIT)
            else returnM (word_of_int k))
     else throwM (TProtocolException INVALID_DATA))"

text \<open>The macro \<^verbatim>\<open>READ_INTEGER_VALUE\<close> for a type of \<open>w\<close> bits, followed by the conversion to it.\<close>

definition READ_INTEGER_VALUE :: "('h, 'v) pp \<Rightarrow> nat \<Rightarrow> ('h, 'v, int64_t) NM" where
  "READ_INTEGER_VALUE pp w =
     bindM (readIntegerValue pp) (\<lambda>int_value.
     if 2 ^ (w - 1) - 1 < sint int_value \<or> sint int_value < - (2 ^ (w - 1))
     then throwM (TProtocolException SIZE_LIMIT)
     else returnM int_value)"

definition nacl_readByte :: "('h, 'v) pp \<Rightarrow> ('h, 'v, int8_t \<times> uint32_t) NM" where
  "nacl_readByte pp = bindM (READ_INTEGER_VALUE pp 8) (\<lambda>v. returnM (ucast v, 0))"

definition nacl_readI16 :: "('h, 'v) pp \<Rightarrow> ('h, 'v, int16_t \<times> uint32_t) NM" where
  "nacl_readI16 pp = bindM (READ_INTEGER_VALUE pp 16) (\<lambda>v. returnM (ucast v, 0))"

definition nacl_readI32 :: "('h, 'v) pp \<Rightarrow> ('h, 'v, int32_t \<times> uint32_t) NM" where
  "nacl_readI32 pp = bindM (READ_INTEGER_VALUE pp 32) (\<lambda>v. returnM (ucast v, 0))"

definition nacl_readI64 :: "('h, 'v) pp \<Rightarrow> ('h, 'v, int64_t \<times> uint32_t) NM" where
  "nacl_readI64 pp = bindM (readIntegerValue pp) (\<lambda>v. returnM (v, 0))"

text \<open>Whatever the branch, the last assignment stores \<open>AsDouble\<close>.\<close>

definition nacl_readDouble :: "('h, 'v) pp \<Rightarrow> ('h, 'v, double \<times> uint32_t) NM" where
  "nacl_readDouble pp =
     bindM (nacl_readVar pp) (\<lambda>var.
     if \<not> is_double pp var \<and> \<not> is_int pp var then throwM (TProtocolException INVALID_DATA)
     else returnM (AsDouble pp var, 0))"

definition nacl_readString :: "('h, 'v) pp \<Rightarrow> ('h, 'v, byte list \<times> uint32_t) NM" where
  "nacl_readString pp =
     bindM (nacl_readVar pp) (\<lambda>var.
     if \<not> is_string pp var then throwM (TProtocolException INVALID_DATA)
     else returnM (AsString pp var, 0))"

definition nacl_readBinary ::
  "('h, 'v) pp \<Rightarrow> (nat \<Rightarrow> byte list) \<Rightarrow> ('h, 'v, byte list \<times> uint32_t) NM" where
  "nacl_readBinary pp fresh =
     bindM (nacl_readVar pp) (\<lambda>var.
     if \<not> is_string pp var then throwM (TProtocolException INVALID_DATA)
     else case base64DecodeString fresh (AsString pp var) of
       None \<Rightarrow> throwM (TProtocolException INVALID_DATA)
     | Some str \<Rightarrow> returnM (str, 0))"

definition nacl_skip :: "('h, 'v) pp \<Rightarrow> TType \<Rightarrow> ('h, 'v, uint32_t) NM" where
  "nacl_skip pp type s =
     (case reader_stack s of
        [] \<Rightarrow> (Inr 0, s)
      | c # cs \<Rightarrow>
          bindM (onHeap (reader_advance pp c)) (\<lambda>c'.
          bindM (modifyM (\<lambda>s. s\<lparr>reader_stack := c' # cs\<rparr>)) (\<lambda>_. returnM 0)) s)"

definition nacl_ops :: "('h, 'v) pp \<Rightarrow> (nat \<Rightarrow> byte list) \<Rightarrow> ('h, 'v) TNativeClientProtocol TProtocol" where
  "nacl_ops pp fresh = \<lparr>
     writeMessageBegin_virt = nacl_writeMessageBegin, writeMessageEnd_virt = nacl_writeMessageEnd,
     writeStructBegin_virt = nacl_writeStructBegin pp, writeStructEnd_virt = nacl_writeStructEnd,
     writeFieldBegin_virt = nacl_writeFieldBegin, writeFieldEnd_virt = nacl_writeFieldEnd,
     writeFieldStop_virt = nacl_writeFieldStop,
     writeMapBegin_virt = nacl_writeMapBegin pp, writeMapEnd_virt = nacl_writeMapEnd,
     writeListBegin_virt = nacl_writeListBegin pp, writeListEnd_virt = nacl_writeListEnd,
     writeSetBegin_virt = nacl_writeSetBegin pp, writeSetEnd_virt = nacl_writeSetEnd,
     writeBool_virt = nacl_writeBool pp, writeByte_virt = nacl_writeByte pp,
     writeI16_virt = nacl_writeI16 pp, writeI32_virt = nacl_writeI32 pp,
     writeI64_virt = nacl_writeI64 pp, writeDouble_virt = nacl_writeDouble pp,
     writeString_virt = nacl_writeString pp, writeBinary_virt = nacl_writeBinary pp fresh,
     readMessageBegin_virt = nacl_readMessageBegin, readMessageEnd_virt = nacl_readMessageEnd,
     readStructBegin_virt = nacl_readStructBegin pp, readStructEnd_virt = nacl_readStructEnd,
     readFieldBegin_virt = nacl_readFieldBegin pp, readFieldEnd_virt = nacl_readFieldEnd,
     readMapBegin_virt = nacl_readMapBegin pp, readMapEnd_virt = nacl_readMapEnd,
     readListBegin_virt = nacl_readListBegin pp, readListEnd_virt = nacl_readListEnd,
     readSetBegin_virt = nacl_readSetBegin pp, readSetEnd_virt = nacl_readSetEnd,
     readBool_virt = nacl_readBool pp, readByte_virt = nacl_readByte pp,
     readI16_virt = nacl_readI16 pp, readI32_virt = nacl_readI32 pp,
     readI64_virt = nacl_readI64 pp, readDouble_virt = nacl_readDouble pp,
     readString_virt = nacl_readString pp, readBinary_virt = nacl_readBinary pp fresh\<rparr>"

section \<open>The generated reader with field names\<close>

text \<open>
  The patched generator emits a map from field names to field ids and types, and the reader looks a
  field up in it when the protocol did not give its id. Inserting into the map keeps the first entry.
\<close>

definition field_type_map :: "t_field list \<Rightarrow> (byte list \<times> int16_t \<times> TType) list" where
  "field_type_map flds = map (\<lambda>((fname, key, req), ty). (fname, key, type_to_enum ty)) flds"

definition get_field_type :: "t_field list \<Rightarrow> byte list \<Rightarrow> (int16_t \<times> TType) option" where
  "get_field_type flds fname = map_of (field_type_map flds) fname"

definition resolve_field :: "t_field list \<Rightarrow> byte list option \<Rightarrow> TType \<Rightarrow> int16_t \<Rightarrow> TType \<times> int16_t" where
  "resolve_field flds fname ftype fid =
     (if fid = kFieldIdUnknown then
        (case fname of
           None \<Rightarrow> (ftype, fid)
         | Some n \<Rightarrow> (case get_field_type flds n of
             None \<Rightarrow> (ftype, fid)
           | Some (fid', ftype') \<Rightarrow> (ftype', fid')))
      else (ftype, fid))"

primrec read_named_fields ::
  "nat \<Rightarrow> 'p TProtocol \<Rightarrow> (t_type \<Rightarrow> tval option \<Rightarrow> ('p, tval \<times> uint32_t) M) \<Rightarrow>
   (TType \<Rightarrow> ('p, uint32_t) M) \<Rightarrow> t_field list \<Rightarrow> members \<Rightarrow> members \<Rightarrow> ('p, members \<times> uint32_t) M" where
  "read_named_fields 0 P rd sk flds old fs = throwM NonTermination"
| "read_named_fields (Suc n) P rd sk flds old fs =
     bindM (readFieldBegin_virt P) (\<lambda>((fname, ftype, fid), a).
     if ftype = T_STOP then returnM (fs, a)
     else
       (case resolve_field flds fname ftype fid of (ftype', fid') \<Rightarrow>
        bindM (read_one_field rd sk flds old ftype' fid' fs) (\<lambda>(fs', b).
        bindM (readFieldEnd_virt P) (\<lambda>c.
        bindM (read_named_fields n P rd sk flds old fs') (\<lambda>(fs'', d).
        returnM (fs'', a + (b + (c + d))))))))"

text \<open>The rest of the emitted reader is that of the unpatched generator; \<open>sk\<close> is the \<open>skip\<close> of the protocol.\<close>

primrec read_named_type ::
  "nat \<Rightarrow> 'p TProtocol \<Rightarrow> (TType \<Rightarrow> ('p, uint32_t) M) \<Rightarrow> t_type \<Rightarrow> tval option \<Rightarrow> ('p, tval \<times> uint32_t) M" where
  "read_named_type 0 P sk = (\<lambda>ty cur. throwM NonTermination)"
| "read_named_type (Suc fuel) P sk = (\<lambda>ty cur. case ty of
     TyBool \<Rightarrow> mapM VBool (readBool_virt P)
   | TyByte \<Rightarrow> mapM VByte (readByte_virt P)
   | TyI16 \<Rightarrow> mapM VI16 (readI16_virt P)
   | TyI32 \<Rightarrow> mapM VI32 (readI32_virt P)
   | TyI64 \<Rightarrow> mapM VI64 (readI64_virt P)
   | TyDouble \<Rightarrow> mapM VDouble (readDouble_virt P)
   | TyString \<Rightarrow> mapM VString (readString_virt P)
   | TyBinary \<Rightarrow> mapM VBinary (readBinary_virt P)
   | TyEnum \<Rightarrow> mapM VI32 (readI32_virt P)
   | TyStruct nm flds \<Rightarrow>
       bindM (readStructBegin_virt P) (\<lambda>(sname, a).
       bindM (read_named_fields fuel P (read_named_type fuel P sk) sk flds (members_of cur) []) (\<lambda>(fs, b).
       bindM (readStructEnd_virt P) (\<lambda>c.
       if required_set flds fs then returnM (VStruct nm (overlay (members_of cur) fs), a + (b + c))
       else throwM (TProtocolException INVALID_DATA))))
   | TyMap k v \<Rightarrow>
       bindM (readMapBegin_virt P) (\<lambda>((ktype, vtype, sz), a).
       bindM (read_loop (unat sz) (read_entry (read_named_type fuel P sk k None) (read_named_type fuel P sk v)) []) (\<lambda>(kvs, b).
       bindM (readMapEnd_virt P) (\<lambda>c.
       returnM (VMap (type_to_enum k) (type_to_enum v) kvs, a + (b + c)))))
   | TySet e \<Rightarrow>
       bindM (readSetBegin_virt P) (\<lambda>((etype, sz), a).
       bindM (read_loop (unat sz) (read_element (read_named_type fuel P sk e None) set_insert) []) (\<lambda>(vs, b).
       bindM (readSetEnd_virt P) (\<lambda>c.
       returnM (VSet (type_to_enum e) vs, a + (b + c)))))
   | TyList e \<Rightarrow>
       bindM (readListBegin_virt P) (\<lambda>((etype, sz), a).
       bindM (read_loop (unat sz) (read_element (read_named_type fuel P sk e None) (\<lambda>v vs. vs @ [v])) []) (\<lambda>(vs, b).
       bindM (readListEnd_virt P) (\<lambda>c.
       returnM (VList (type_to_enum e) vs, a + (b + c))))))"

abbreviation nacl_read_into ::
  "nat \<Rightarrow> ('h, 'v) pp \<Rightarrow> (nat \<Rightarrow> byte list) \<Rightarrow> t_type \<Rightarrow> tval option \<Rightarrow> ('h, 'v, tval \<times> uint32_t) NM" where
  "nacl_read_into fuel pp fresh \<equiv> read_named_type fuel (nacl_ops pp fresh) (nacl_skip pp)"

abbreviation nacl_read :: "nat \<Rightarrow> ('h, 'v) pp \<Rightarrow> (nat \<Rightarrow> byte list) \<Rightarrow> t_type \<Rightarrow> ('h, 'v, tval \<times> uint32_t) NM" where
  "nacl_read fuel pp fresh ty \<equiv> nacl_read_into fuel pp fresh ty None"

end
