(* ===== verification/NativeClientValues.thy ===== *)
theory NativeClientValues
  imports NativeClient
begin

text \<open>
  What the Native Client protocol does with whole values. The specification of a value is a tree of
  variables, and \<open>denotes\<close> says that a variable is the root of such a tree in a state of the browser.
  Writing a value builds its tree out of new objects and changes nothing else but the object it is
  entered into; reading a tree gives the value back, whatever order the dictionaries list their keys in.
\<close>

section \<open>Trees of variables\<close>

datatype jvar =
    JBool bool
  | JInt int32_t
  | JDouble double
  | JStr "byte list"
  | JDict "(byte list \<times> jvar) list"
  | JArr "jvar list"

text \<open>\<open>F\<close> contains the objects the tree is made of, \<open>view\<close> what they hold.\<close>

inductive denotes :: "('h, 'v) pp \<Rightarrow> ('v \<Rightarrow> 'v object) \<Rightarrow> 'v set \<Rightarrow> 'v \<Rightarrow> jvar \<Rightarrow> bool"
  for pp view F where
  bool: "var_type pp x = PP_VARTYPE_BOOL \<Longrightarrow> AsBool pp x = b \<Longrightarrow> denotes pp view F x (JBool b)"
| int: "var_type pp x = PP_VARTYPE_INT32 \<Longrightarrow> AsInt pp x = i \<Longrightarrow> denotes pp view F x (JInt i)"
| double: "var_type pp x = PP_VARTYPE_DOUBLE \<Longrightarrow> AsDouble pp x = d \<Longrightarrow> denotes pp view F x (JDouble d)"
| str: "var_type pp x = PP_VARTYPE_STRING \<Longrightarrow> AsString pp x = s \<Longrightarrow> denotes pp view F x (JStr s)"
| dict: "var_type pp x = PP_VARTYPE_DICTIONARY \<Longrightarrow> x \<in> F \<Longrightarrow> view x = Dict m \<Longrightarrow> dom m = fst ` set kvs \<Longrightarrow>
    (\<And>k t. (k, t) \<in> set kvs \<Longrightarrow> \<exists>y. m k = Some y \<and> denotes pp view F y t) \<Longrightarrow>
    denotes pp view F x (JDict kvs)"
| arr: "var_type pp x = PP_VARTYPE_ARRAY \<Longrightarrow> x \<in> F \<Longrightarrow> view x = Arr xs \<Longrightarrow>
    list_all2 (denotes pp view F) xs ts \<Longrightarrow> denotes pp view F x (JArr ts)"

inductive_simps denotes_simps [simp]:
  "denotes pp view F x (JBool b)" "denotes pp view F x (JInt i)" "denotes pp view F x (JDouble d)"
  "denotes pp view F x (JStr s)"
inductive_simps denotes_dict: "denotes pp view F x (JDict kvs)"
inductive_simps denotes_arr: "denotes pp view F x (JArr ts)"

text \<open>A tree stays as it is when its objects do.\<close>

lemma denotes_frame:
  "denotes pp view F x t \<Longrightarrow> F \<subseteq> F' \<Longrightarrow> (\<And>e. e \<in> F \<Longrightarrow> view' e = view e) \<Longrightarrow> denotes pp view' F' x t"
proof (induction rule: denotes.induct)
  case (dict x m kvs)
  show ?case by (rule denotes.dict [of pp x F' view' m]) (use dict in \<open>auto, blast\<close>)
next
  case (arr x xs ts)
  then have "list_all2 (denotes pp view' F') xs ts" by (auto elim: list_all2_mono)
  with arr show ?case by (intro denotes.arr [of pp x F' view' xs]) auto
qed (auto intro: denotes.intros)

lemma denotes_set: "denotes pp view F x t \<Longrightarrow> var_type pp x \<noteq> PP_VARTYPE_UNDEFINED \<and> var_type pp x \<noteq> PP_VARTYPE_NULL"
  by (cases rule: denotes.cases) auto

text \<open>The tree of a value.\<close>

fun tree_base :: "tval \<Rightarrow> jvar" where
  "tree_base (VBool b) = JBool b"
| "tree_base (VByte b) = JInt (scast b)"
| "tree_base (VI16 i) = JInt (scast i)"
| "tree_base (VI32 i) = JInt i"
| "tree_base (VI64 i) = JDouble (double_of_int (sint i))"
| "tree_base (VDouble d) = JDouble d"
| "tree_base (VString s) = JStr s"
| "tree_base v = JArr []"

fun string_of :: "tval \<Rightarrow> byte list" where
  "string_of (VString s) = s"
| "string_of v = []"

function (sequential) tree :: "tval \<Rightarrow> jvar"
  and tree_fields :: "((byte list \<times> int16_t) \<times> tval) list \<Rightarrow> (byte list \<times> jvar) list"
  and tree_elems :: "tval list \<Rightarrow> jvar list"
  and tree_pairs :: "(tval \<times> tval) list \<Rightarrow> (byte list \<times> jvar) list" where
  "tree (VStruct nm fs) = JDict (tree_fields fs)"
| "tree (VMap k v kvs) = JDict (tree_pairs kvs)"
| "tree (VSet e vs) = JArr (tree_elems vs)"
| "tree (VList e vs) = JArr (tree_elems vs)"
| "tree v = tree_base v"
| "tree_fields [] = []"
| "tree_fields (((nm, fid), v) # fs) = (nm, tree v) # tree_fields fs"
| "tree_elems [] = []"
| "tree_elems (v # vs) = tree v # tree_elems vs"
| "tree_pairs [] = []"
| "tree_pairs ((k, v) # kvs) = (string_of k, tree v) # tree_pairs kvs"
  by pat_completeness auto
termination
  by (relation "measure (case_sum (case_sum size fields_size) (case_sum (size_list size) pairs_size))") simp_all

text \<open>
  The values the protocol can carry, apart from binary data: strings the variables can hold, 64-bit integers a double can
  represent, fields with different names, maps with different strings as keys, sets of base values.
\<close>

fun nacl_ok_base :: "(byte list \<Rightarrow> bool) \<Rightarrow> tval \<Rightarrow> bool" where
  "nacl_ok_base okStr (VI64 i) = (\<bar>sint i\<bar> \<le> 2 ^ 53)"
| "nacl_ok_base okStr (VString s) = okStr s"
| "nacl_ok_base okStr (VBinary s) = False"
| "nacl_ok_base okStr v = is_base v"

fun is_string_key :: "(byte list \<Rightarrow> bool) \<Rightarrow> tval \<Rightarrow> bool" where
  "is_string_key okStr (VString s) = okStr s"
| "is_string_key okStr v = False"

function (sequential) nacl_ok :: "(byte list \<Rightarrow> bool) \<Rightarrow> tval \<Rightarrow> bool"
  and nacl_ok_fields :: "(byte list \<Rightarrow> bool) \<Rightarrow> ((byte list \<times> int16_t) \<times> tval) list \<Rightarrow> bool"
  and nacl_ok_elems :: "(byte list \<Rightarrow> bool) \<Rightarrow> tval list \<Rightarrow> bool"
  and nacl_ok_pairs :: "(byte list \<Rightarrow> bool) \<Rightarrow> (tval \<times> tval) list \<Rightarrow> bool" where
  "nacl_ok okStr (VStruct nm fs) = (distinct (map (\<lambda>f. fst (fst f)) fs) \<and> nacl_ok_fields okStr fs)"
| "nacl_ok okStr (VMap k v kvs) = (k = T_STRING \<and> distinct (map fst kvs) \<and> length kvs < 2 ^ 31 \<and> nacl_ok_pairs okStr kvs)"
| "nacl_ok okStr (VSet e vs) = (length vs < 2 ^ 31 \<and> list_all is_base vs \<and> nacl_ok_elems okStr vs)"
| "nacl_ok okStr (VList e vs) = (length vs < 2 ^ 31 \<and> nacl_ok_elems okStr vs)"
| "nacl_ok okStr v = nacl_ok_base okStr v"
| "nacl_ok_fields okStr [] = True"
| "nacl_ok_fields okStr (((nm, fid), v) # fs) = (okStr nm \<and> nacl_ok okStr v \<and> nacl_ok_fields okStr fs)"
| "nacl_ok_elems okStr [] = True"
| "nacl_ok_elems okStr (v # vs) = (nacl_ok okStr v \<and> nacl_ok_elems okStr vs)"
| "nacl_ok_pairs okStr [] = True"
| "nacl_ok_pairs okStr ((k, v) # kvs) = (is_string_key okStr k \<and> nacl_ok okStr v \<and> nacl_ok_pairs okStr kvs)"
  by pat_completeness auto
termination
  by (relation "measure (case_sum (case_sum (\<lambda>(ok, v). size v) (\<lambda>(ok, fs). fields_size fs))
      (case_sum (\<lambda>(ok, vs). size_list size vs) (\<lambda>(ok, kvs). pairs_size kvs)))") simp_all

lemma tree_base_value: "is_base v \<Longrightarrow> tree v = tree_base v"
  by (cases v) simp_all

lemma nacl_ok_base_value: "is_base v \<Longrightarrow> nacl_ok okStr v = nacl_ok_base okStr v"
  by (cases v) simp_all

lemma is_string_keyE: "is_string_key okStr k \<Longrightarrow> (\<And>s. k = VString s \<Longrightarrow> okStr s \<Longrightarrow> P) \<Longrightarrow> P"
  by (cases k) auto

lemma fst_tree_fields: "map fst (tree_fields fs) = map (\<lambda>f. fst (fst f)) fs"
  by (induction fs) auto

lemma set_tree_fields: "(k, t) \<in> set (tree_fields fs) \<longleftrightarrow> (\<exists>fid v. ((k, fid), v) \<in> set fs \<and> t = tree v)"
  by (induction fs) (auto, blast+)

lemma set_tree_pairs: "(k, t) \<in> set (tree_pairs kvs) \<longleftrightarrow> (\<exists>x v. (x, v) \<in> set kvs \<and> k = string_of x \<and> t = tree v)"
  by (induction kvs) (auto, blast+)

lemma tree_elems_map: "tree_elems vs = map tree vs"
  by (induction vs) auto

lemma promoted_small:
  assumes "\<bar>sint i\<bar> \<le> 2 ^ 53"
  shows "\<not> kMaxPreciseDouble < promoted i" and "\<not> promoted i < kMinPreciseDouble"
proof -
  have r: "round53 n = n" if "n \<le> 2 ^ 53" for n
  proof (cases "n = 2 ^ 53")
    case True
    then show ?thesis using bits_power [of 53] by (simp add: round53_def)
  next
    case False
    with that show ?thesis by (intro round53_small) simp
  qed
  have "promoted i = sint i"
    unfolding promoted_def using r [of "nat (sint i)"] r [of "nat (- sint i)"] assms by auto
  then show "\<not> kMaxPreciseDouble < promoted i" "\<not> promoted i < kMinPreciseDouble"
    using assms by (simp_all add: kMaxPreciseDouble_def kMinPreciseDouble_def abs_le_iff)
qed

section \<open>Writing builds the tree\<close>

context ppapi
begin

text \<open>Only the object \<open>d\<close> has changed, and new ones have been made.\<close>

definition changes_only :: "'v \<Rightarrow> 'h \<Rightarrow> 'h \<Rightarrow> bool" where
  "changes_only d h h' \<longleftrightarrow> alloc h \<subseteq> alloc h' \<and> (\<forall>e\<in>alloc h. e \<noteq> d \<longrightarrow> content h' e = content h e)"

lemma changes_only_trans: "changes_only d h h' \<Longrightarrow> changes_only d h' h'' \<Longrightarrow> changes_only d h h''"
  by (auto simp: changes_only_def)

text \<open>
  The context \<open>c\<close> can take the variable \<open>x\<close>: it becomes \<open>c'\<close> and its object holds \<open>ob\<close>.
\<close>

definition accepts :: "'h \<Rightarrow> 'v WriterContext \<Rightarrow> 'v \<Rightarrow> 'v WriterContext \<Rightarrow> 'v object \<Rightarrow> bool" where
  "accepts h c x c' ob \<longleftrightarrow> wvar c \<in> alloc h \<and> (case wtype c of
       DICTIONARY_CONTEXT \<Rightarrow> var_type pp (wvar c) = PP_VARTYPE_DICTIONARY \<and> okStr (field_name c)
         \<and> (\<exists>m. content h (wvar c) = Dict m \<and> c' = c \<and> ob = Dict (m(field_name c \<mapsto> x)))
     | LIST_CONTEXT \<Rightarrow> var_type pp (wvar c) = PP_VARTYPE_ARRAY
         \<and> (\<exists>xs. content h (wvar c) = Arr xs \<and> c' = c \<and> ob = Arr (xs @ [x]))
     | MAP_KEY_CONTEXT \<Rightarrow> c' = c\<lparr>map_key := x, wtype := MAP_VALUE_CONTEXT\<rparr> \<and> ob = content h (wvar c)
     | MAP_VALUE_CONTEXT \<Rightarrow> var_type pp (wvar c) = PP_VARTYPE_DICTIONARY
         \<and> var_type pp (map_key c) = PP_VARTYPE_STRING
         \<and> (\<exists>m. content h (wvar c) = Dict m \<and> c' = c\<lparr>wtype := MAP_KEY_CONTEXT\<rparr>
              \<and> ob = Dict (m(AsString pp (map_key c) \<mapsto> x))))"

lemma accepts_wvar: "accepts h c x c' ob \<Longrightarrow> wvar c' = wvar c \<and> wvar c \<in> alloc h"
  by (auto simp: accepts_def split: ContextType.splits)

text \<open>Whether a context accepts does not depend on the variable, nor on other objects.\<close>

lemma accepts_other:
  assumes "accepts h c x c' ob" and "content h' (wvar c) = content h (wvar c)" and "alloc h \<subseteq> alloc h'"
  obtains c'' ob' where "accepts h' c y c'' ob'" "accepts h c y c'' ob'"
  using assms by (auto simp: accepts_def split: ContextType.splits)

lemma nacl_writeVar_ok:
  assumes "writer_stack s = c # cs" and "accepts (heap s) c x c' ob"
  obtains h' where "nacl_writeVar pp x s = (Inr (), s\<lparr>writer_stack := c' # cs, heap := h'\<rparr>)"
    "alloc h' = alloc (heap s)" "content h' (wvar c) = ob" "changes_only (wvar c) (heap s) h'"
proof (cases "wtype c")
  case DICTIONARY_CONTEXT
  then obtain m where m: "content (heap s) (wvar c) = Dict m" "wvar c \<in> alloc (heap s)"
    "ob = Dict (m(field_name c \<mapsto> x))" "c' = c" "okStr (field_name c)"
    "var_type pp (wvar c) = PP_VARTYPE_DICTIONARY"
    using assms(2) by (auto simp: accepts_def)
  from set_entry [OF m(2,1), of "var_string pp (field_name c)" x] string_var m(5)
  obtain h' where h': "dict_Set pp (wvar c) (var_string pp (field_name c)) x (heap s) = (True, h')"
    "alloc h' = alloc (heap s)"
    "\<forall>e\<in>alloc (heap s). content h' e = (if e = wvar c then Dict (m(field_name c \<mapsto> x)) else content (heap s) e)"
    by auto
  show thesis
    by (rule that [of h']) (use DICTIONARY_CONTEXT assms(1) m h' in \<open>auto simp: nacl_writeVar_def
        context_writeVar_def writer_asDictionary_def is_dictionary_def monad_simps changes_only_def\<close>)
next
  case LIST_CONTEXT
  then obtain xs where m: "content (heap s) (wvar c) = Arr xs" "wvar c \<in> alloc (heap s)"
    "ob = Arr (xs @ [x])" "c' = c" "var_type pp (wvar c) = PP_VARTYPE_ARRAY"
    using assms(2) by (auto simp: accepts_def)
  from set_element [OF m(2,1), of x] obtain h' where h': "array_Set pp (wvar c) (length xs) x (heap s) = (True, h')"
    "alloc h' = alloc (heap s)"
    "\<forall>e\<in>alloc (heap s). content h' e = (if e = wvar c then Arr (xs @ [x]) else content (heap s) e)"
    by auto
  show thesis
    by (rule that [of h']) (use LIST_CONTEXT assms(1) m h' get_length [OF m(2,1)] in \<open>auto simp: nacl_writeVar_def
        context_writeVar_def writer_asArray_def is_array_def monad_simps changes_only_def\<close>)
next
  case MAP_KEY_CONTEXT
  show thesis
    by (rule that [of "heap s"]) (use MAP_KEY_CONTEXT assms in \<open>auto simp: accepts_def nacl_writeVar_def
        context_writeVar_def monad_simps changes_only_def\<close>)
next
  case MAP_VALUE_CONTEXT
  then obtain m where m: "content (heap s) (wvar c) = Dict m" "wvar c \<in> alloc (heap s)"
    "ob = Dict (m(AsString pp (map_key c) \<mapsto> x))" "c' = c\<lparr>wtype := MAP_KEY_CONTEXT\<rparr>"
    "var_type pp (map_key c) = PP_VARTYPE_STRING" "var_type pp (wvar c) = PP_VARTYPE_DICTIONARY"
    using assms(2) by (auto simp: accepts_def)
  from set_entry [OF m(2,1,5), of x]
  obtain h' where h': "dict_Set pp (wvar c) (map_key c) x (heap s) = (True, h')"
    "alloc h' = alloc (heap s)"
    "\<forall>e\<in>alloc (heap s). content h' e = (if e = wvar c then Dict (m(AsString pp (map_key c) \<mapsto> x)) else content (heap s) e)"
    by auto
  show thesis
    by (rule that [of h']) (use MAP_VALUE_CONTEXT assms(1) m h' in \<open>auto simp: nacl_writeVar_def
        context_writeVar_def writer_asDictionary_def is_dictionary_def monad_simps changes_only_def\<close>)
qed

text \<open>What a method that writes one value does to an open context.\<close>

definition builds :: "('h, 'v, uint32_t) NM \<Rightarrow> jvar \<Rightarrow> bool" where
  "builds w t \<longleftrightarrow> (\<forall>s c cs x0 c0 ob0. writer_stack s = c # cs \<and> accepts (heap s) c x0 c0 ob0 \<longrightarrow>
     (\<exists>x c' ob h' F. w s = (Inr 0, s\<lparr>writer_stack := c' # cs, heap := h'\<rparr>) \<and> accepts (heap s) c x c' ob
        \<and> content h' (wvar c) = ob \<and> changes_only (wvar c) (heap s) h'
        \<and> denotes pp (content h') F x t \<and> F \<subseteq> alloc h' - alloc (heap s)))"

lemma buildsD:
  assumes "builds w t" and "writer_stack s = c # cs" and "accepts (heap s) c x0 c0 ob0"
  obtains x c' ob h' F where "w s = (Inr 0, s\<lparr>writer_stack := c' # cs, heap := h'\<rparr>)"
    "accepts (heap s) c x c' ob" "content h' (wvar c) = ob" "changes_only (wvar c) (heap s) h'"
    "denotes pp (content h') F x t" "F \<subseteq> alloc h' - alloc (heap s)"
  using assms unfolding builds_def by blast

lemma builds_scalar:
  assumes "\<And>view. denotes pp view {} x t"
  shows "builds (bindM (nacl_writeVar pp x) (\<lambda>_. returnM 0)) t"
  unfolding builds_def
proof (intro allI impI, elim conjE)
  fix s :: "('h, 'v) TNativeClientProtocol" and c cs x0 c0 ob0
  assume s: "writer_stack s = c # cs" "accepts (heap s) c x0 c0 ob0"
  obtain c' ob where a: "accepts (heap s) c x c' ob"
    using accepts_other [OF s(2) refl order_refl] by metis
  from nacl_writeVar_ok [OF s(1) a] obtain h' where h':
    "nacl_writeVar pp x s = (Inr (), s\<lparr>writer_stack := c' # cs, heap := h'\<rparr>)"
    "content h' (wvar c) = ob" "changes_only (wvar c) (heap s) h'" by metis
  show "\<exists>x' c' ob h' F. bindM (nacl_writeVar pp x) (\<lambda>_. returnM 0) s
      = (Inr 0, s\<lparr>writer_stack := c' # cs, heap := h'\<rparr>) \<and> accepts (heap s) c x' c' ob
      \<and> content h' (wvar c) = ob \<and> changes_only (wvar c) (heap s) h'
      \<and> denotes pp (content h') F x' t \<and> F \<subseteq> alloc h' - alloc (heap s)"
    by (rule exI [of _ x], rule exI [of _ c'], rule exI [of _ ob], rule exI [of _ h'], rule exI [of _ "{}"])
      (use a h' assms in \<open>simp add: bindM_def returnM_def\<close>)
qed

lemma builds_base:
  assumes "is_base v" and "nacl_ok_base okStr v"
  shows "builds (write_base (nacl_ops pp fresh) v) (tree_base v)"
  using assms
  by (cases v) (simp_all add: nacl_ops_def nacl_writeBool_def nacl_writeByte_def nacl_writeI16_def
      nacl_writeI32_def nacl_writeI64_def nacl_writeDouble_def nacl_writeString_def promoted_small
      builds_scalar bool_var int_var double_var string_var)

text \<open>A new context, and what entering it does.\<close>

definition new_context :: "('h, 'v WriterContext) M \<Rightarrow> ContextType \<Rightarrow> 'v object \<Rightarrow> bool" where
  "new_context create type ob \<longleftrightarrow> (\<forall>h. \<exists>k h'. create h = (Inr k, h') \<and> wtype k = type \<and> wvar k \<notin> alloc h
     \<and> alloc h' = insert (wvar k) (alloc h) \<and> content h' (wvar k) = ob \<and> (\<forall>e\<in>alloc h. content h' e = content h e)
     \<and> var_type pp (wvar k) = (if type = LIST_CONTEXT then PP_VARTYPE_ARRAY else PP_VARTYPE_DICTIONARY))"

lemma new_contexts:
  "new_context (createDictionaryContext pp) DICTIONARY_CONTEXT (Dict Map.empty)"
  "new_context (createMapContext pp) MAP_KEY_CONTEXT (Dict Map.empty)"
  "new_context (createListContext pp) LIST_CONTEXT (Arr [])"
  unfolding new_context_def createDictionaryContext_def createMapContext_def createListContext_def
    newWriterContext_def
  by (auto simp: monad_simps is_dictionary_def is_array_def dest: new_dictionary new_array split: prod.splits)

definition enter :: "('h, 'v WriterContext) M \<Rightarrow> ('h, 'v, uint32_t) NM" where
  "enter create = bindM (onHeap create) (\<lambda>c. bindM (pushWriterContext pp c) (\<lambda>_. returnM 0))"

lemma enter_ok:
  assumes "new_context create type ob" and "writer_stack s = c # cs" and "accepts (heap s) c x0 c0 ob0"
  obtains k c' ob' h' where "enter create s = (Inr 0, s\<lparr>writer_stack := k # c' # cs, heap := h'\<rparr>)"
    "wtype k = type" "wvar k \<notin> alloc (heap s)" "alloc h' = insert (wvar k) (alloc (heap s))"
    "content h' (wvar k) = ob" "accepts (heap s) c (wvar k) c' ob'" "content h' (wvar c) = ob'"
    "changes_only (wvar c) (heap s) h'"
    "var_type pp (wvar k) = (if type = LIST_CONTEXT then PP_VARTYPE_ARRAY else PP_VARTYPE_DICTIONARY)"
proof -
  obtain k h1 where k: "create (heap s) = (Inr k, h1)" "wtype k = type" "wvar k \<notin> alloc (heap s)"
    "alloc h1 = insert (wvar k) (alloc (heap s))" "content h1 (wvar k) = ob"
    "\<forall>e\<in>alloc (heap s). content h1 e = content (heap s) e"
    "var_type pp (wvar k) = (if type = LIST_CONTEXT then PP_VARTYPE_ARRAY else PP_VARTYPE_DICTIONARY)"
    using assms(1) unfolding new_context_def by metis
  have c: "wvar c \<in> alloc (heap s)" using accepts_wvar [OF assms(3)] by simp
  obtain c' ob' where a: "accepts h1 c (wvar k) c' ob'" "accepts (heap s) c (wvar k) c' ob'"
    using accepts_other [OF assms(3), of h1] k(4,6) c by (metis subset_insertI)
  let ?s = "s\<lparr>heap := h1\<rparr>"
  have "writer_stack ?s = c # cs" "accepts (heap ?s) c (wvar k) c' ob'" using assms(2) a(1) by simp_all
  from nacl_writeVar_ok [OF this] obtain h2 where h2:
    "nacl_writeVar pp (wvar k) ?s = (Inr (), s\<lparr>writer_stack := c' # cs, heap := h2\<rparr>)"
    "alloc h2 = alloc h1" "content h2 (wvar c) = ob'" "changes_only (wvar c) h1 h2" by auto
  have "wvar k \<noteq> wvar c" using k(3) c by auto
  show thesis
    by (rule that [where k = k and c' = c' and ob' = ob' and h' = h2])
      (use k h2 a \<open>wvar k \<noteq> wvar c\<close> in \<open>auto simp: enter_def onHeap_def pushWriterContext_def
        is_dictionary_def is_array_def monad_simps changes_only_def\<close>)
qed

text \<open>The bodies: filling the object of the top context.\<close>

definition extends :: "(byte list \<rightharpoonup> 'v) \<Rightarrow> (byte list \<rightharpoonup> 'v) \<Rightarrow> ('v \<Rightarrow> 'v object) \<Rightarrow> 'v set \<Rightarrow>
    (byte list \<times> jvar) list \<Rightarrow> bool" where
  "extends m m' view F kvs \<longleftrightarrow> dom m' = dom m \<union> fst ` set kvs \<and> (\<forall>n. n \<notin> fst ` set kvs \<longrightarrow> m' n = m n)
     \<and> (\<forall>n t. (n, t) \<in> set kvs \<longrightarrow> (\<exists>y. m' n = Some y \<and> denotes pp view F y t))"

lemma extends_Cons:
  assumes "extends (m(n \<mapsto> x)) m' view' F2 kvs" and "n \<notin> fst ` set kvs"
    and "denotes pp view F1 x t" and "\<And>e. e \<in> F1 \<Longrightarrow> view' e = view e"
  shows "extends m m' view' (F1 \<union> F2) ((n, t) # kvs)"
proof -
  have "denotes pp view' (F1 \<union> F2) x t" by (rule denotes_frame [OF assms(3)]) (use assms(4) in auto)
  moreover have "m' n = Some x" using assms(1,2) by (simp add: extends_def)
  moreover have "denotes pp view' (F1 \<union> F2) y u" if "denotes pp view' F2 y u" for y u
    by (rule denotes_frame [OF that]) auto
  ultimately have new: "\<exists>y. m' k = Some y \<and> denotes pp view' (F1 \<union> F2) y u" if "(k, u) \<in> set ((n, t) # kvs)" for k u
    using assms(1) that unfolding extends_def by (cases "(k, u) = (n, t)") (simp, metis set_ConsD)
  have "dom m' = dom m \<union> fst ` set ((n, t) # kvs)" "\<forall>k. k \<notin> fst ` set ((n, t) # kvs) \<longrightarrow> m' k = m k"
    using assms(1) by (auto simp: extends_def)
  with new show ?thesis unfolding extends_def by blast
qed

definition fills_dict :: "ContextType \<Rightarrow> ('h, 'v, uint32_t) NM \<Rightarrow> (byte list \<times> jvar) list \<Rightarrow> bool" where
  "fills_dict type w kvs \<longleftrightarrow> (\<forall>s k cs m. writer_stack s = k # cs \<and> wtype k = type \<and> wvar k \<in> alloc (heap s)
       \<and> var_type pp (wvar k) = PP_VARTYPE_DICTIONARY \<and> content (heap s) (wvar k) = Dict m \<longrightarrow>
     (\<exists>k' h' m' F. w s = (Inr 0, s\<lparr>writer_stack := k' # cs, heap := h'\<rparr>) \<and> changes_only (wvar k) (heap s) h'
        \<and> content h' (wvar k) = Dict m' \<and> F \<subseteq> alloc h' - alloc (heap s) \<and> extends m m' (content h') F kvs))"

definition fills_array :: "('h, 'v, uint32_t) NM \<Rightarrow> jvar list \<Rightarrow> bool" where
  "fills_array w ts \<longleftrightarrow> (\<forall>s k cs xs. writer_stack s = k # cs \<and> wtype k = LIST_CONTEXT \<and> wvar k \<in> alloc (heap s)
       \<and> var_type pp (wvar k) = PP_VARTYPE_ARRAY \<and> content (heap s) (wvar k) = Arr xs \<longrightarrow>
     (\<exists>k' h' ys F. w s = (Inr 0, s\<lparr>writer_stack := k' # cs, heap := h'\<rparr>) \<and> changes_only (wvar k) (heap s) h'
        \<and> content h' (wvar k) = Arr (xs @ ys) \<and> F \<subseteq> alloc h' - alloc (heap s)
        \<and> list_all2 (denotes pp (content h') F) ys ts))"

lemma fills_dictD:
  assumes "fills_dict type w kvs" and "writer_stack s = k # cs" and "wtype k = type"
    and "wvar k \<in> alloc (heap s)" and "var_type pp (wvar k) = PP_VARTYPE_DICTIONARY"
    and "content (heap s) (wvar k) = Dict m"
  obtains k' h' m' F where "w s = (Inr 0, s\<lparr>writer_stack := k' # cs, heap := h'\<rparr>)"
    "changes_only (wvar k) (heap s) h'" "content h' (wvar k) = Dict m'" "F \<subseteq> alloc h' - alloc (heap s)"
    "extends m m' (content h') F kvs"
  using assms unfolding fills_dict_def by blast

lemma fills_arrayD:
  assumes "fills_array w ts" and "writer_stack s = k # cs" and "wtype k = LIST_CONTEXT"
    and "wvar k \<in> alloc (heap s)" and "var_type pp (wvar k) = PP_VARTYPE_ARRAY"
    and "content (heap s) (wvar k) = Arr xs"
  obtains k' h' ys F where "w s = (Inr 0, s\<lparr>writer_stack := k' # cs, heap := h'\<rparr>)"
    "changes_only (wvar k) (heap s) h'" "content h' (wvar k) = Arr (xs @ ys)" "F \<subseteq> alloc h' - alloc (heap s)"
    "list_all2 (denotes pp (content h') F) ys ts"
  using assms unfolding fills_array_def by blast

text \<open>Leaving a context that has been filled.\<close>

lemma seqM_step: "m s = (Inr 0, s') \<Longrightarrow> seqM ms s' = (Inr 0, s'') \<Longrightarrow> seqM (m # ms) s = (Inr 0, s'')"
  by (simp add: monad_simps)

lemma seqM_last: "m s = (Inr 0, s') \<Longrightarrow> seqM [m] s = (Inr 0, s')"
  by (simp add: monad_simps)

definition leave :: "('h, 'v, uint32_t) NM" where
  "leave = bindM popWriterContext (\<lambda>_. returnM 0)"

lemma leave_ok: "leave (s\<lparr>writer_stack := k # cs, heap := h\<rparr>) = (Inr 0, s\<lparr>writer_stack := cs, heap := h\<rparr>)"
  by (simp add: leave_def popWriterContext_def monad_simps)

definition fills :: "ContextType \<Rightarrow> 'v object \<Rightarrow> ('h, 'v, uint32_t) NM \<Rightarrow> jvar \<Rightarrow> bool" where
  "fills type ob w t \<longleftrightarrow> (\<forall>s k cs. writer_stack s = k # cs \<and> wtype k = type \<and> wvar k \<in> alloc (heap s)
       \<and> var_type pp (wvar k) = (if type = LIST_CONTEXT then PP_VARTYPE_ARRAY else PP_VARTYPE_DICTIONARY)
       \<and> content (heap s) (wvar k) = ob \<longrightarrow>
     (\<exists>k' h' F. w s = (Inr 0, s\<lparr>writer_stack := k' # cs, heap := h'\<rparr>) \<and> changes_only (wvar k) (heap s) h'
        \<and> F \<subseteq> alloc h' - alloc (heap s) \<and> denotes pp (content h') (insert (wvar k) F) (wvar k) t))"

lemma fillsD:
  assumes "fills type ob w t" and "writer_stack s = k # cs" and "wtype k = type" and "wvar k \<in> alloc (heap s)"
    and "var_type pp (wvar k) = (if type = LIST_CONTEXT then PP_VARTYPE_ARRAY else PP_VARTYPE_DICTIONARY)"
    and "content (heap s) (wvar k) = ob"
  obtains k' h' F where "w s = (Inr 0, s\<lparr>writer_stack := k' # cs, heap := h'\<rparr>)"
    "changes_only (wvar k) (heap s) h'" "F \<subseteq> alloc h' - alloc (heap s)"
    "denotes pp (content h') (insert (wvar k) F) (wvar k) t"
  using assms unfolding fills_def by blast

lemma fills_dict_empty:
  assumes "fills_dict type w kvs" and "type \<noteq> LIST_CONTEXT"
  shows "fills type (Dict Map.empty) w (JDict kvs)"
  unfolding fills_def
proof (intro allI impI, elim conjE)
  fix s :: "('h, 'v) TNativeClientProtocol" and k cs
  assume s: "writer_stack s = k # cs" "wtype k = type" "wvar k \<in> alloc (heap s)"
    "content (heap s) (wvar k) = Dict Map.empty"
    and "var_type pp (wvar k) = (if type = LIST_CONTEXT then PP_VARTYPE_ARRAY else PP_VARTYPE_DICTIONARY)"
  with assms(2) have ty: "var_type pp (wvar k) = PP_VARTYPE_DICTIONARY" by simp
  obtain k' h' m' F where b:
    "w s = (Inr 0, s\<lparr>writer_stack := k' # cs, heap := h'\<rparr>)" "changes_only (wvar k) (heap s) h'"
    "content h' (wvar k) = Dict m'" "F \<subseteq> alloc h' - alloc (heap s)" "extends Map.empty m' (content h') F kvs"
    by (rule fills_dictD [OF assms(1) s(1,2,3) ty s(4)])
  have "denotes pp (content h') (insert (wvar k) F) (wvar k) (JDict kvs)"
  proof (rule denotes.dict [where m = m'])
    show "var_type pp (wvar k) = PP_VARTYPE_DICTIONARY" "content h' (wvar k) = Dict m'" by (fact ty b(3))+
    show "dom m' = fst ` set kvs" using b(5) by (simp add: extends_def)
    fix n t assume "(n, t) \<in> set kvs"
    then obtain y where "m' n = Some y" "denotes pp (content h') F y t" using b(5) unfolding extends_def by blast
    then show "\<exists>y. m' n = Some y \<and> denotes pp (content h') (insert (wvar k) F) y t"
      using denotes_frame [of pp "content h'" F y t "insert (wvar k) F" "content h'"] by auto
  qed simp
  with b(1,2,4) show "\<exists>k' h' F. w s = (Inr 0, s\<lparr>writer_stack := k' # cs, heap := h'\<rparr>)
      \<and> changes_only (wvar k) (heap s) h' \<and> F \<subseteq> alloc h' - alloc (heap s)
      \<and> denotes pp (content h') (insert (wvar k) F) (wvar k) (JDict kvs)"
    by - (intro exI conjI, assumption+)
qed

lemma fills_array_empty:
  assumes "fills_array w ts"
  shows "fills LIST_CONTEXT (Arr []) w (JArr ts)"
  unfolding fills_def
proof (intro allI impI, elim conjE)
  fix s :: "('h, 'v) TNativeClientProtocol" and k cs
  assume s: "writer_stack s = k # cs" "wtype k = LIST_CONTEXT" "wvar k \<in> alloc (heap s)"
    "content (heap s) (wvar k) = Arr []"
    and "var_type pp (wvar k) = (if LIST_CONTEXT = LIST_CONTEXT then PP_VARTYPE_ARRAY else PP_VARTYPE_DICTIONARY)"
  then have ty: "var_type pp (wvar k) = PP_VARTYPE_ARRAY" by simp
  obtain k' h' ys F where b:
    "w s = (Inr 0, s\<lparr>writer_stack := k' # cs, heap := h'\<rparr>)" "changes_only (wvar k) (heap s) h'"
    "content h' (wvar k) = Arr ([] @ ys)" "F \<subseteq> alloc h' - alloc (heap s)"
    "list_all2 (denotes pp (content h') F) ys ts"
    by (rule fills_arrayD [OF assms(1) s(1,2,3) ty s(4)])
  have "list_all2 (denotes pp (content h') (insert (wvar k) F)) ys ts"
    using b(5) by (rule list_all2_mono) (erule denotes_frame; auto)
  then have "denotes pp (content h') (insert (wvar k) F) (wvar k) (JArr ts)"
    using b(3) ty by (intro denotes.arr [of pp _ _ _ ys]) auto
  with b(1,2,4) show "\<exists>k' h' F. w s = (Inr 0, s\<lparr>writer_stack := k' # cs, heap := h'\<rparr>)
      \<and> changes_only (wvar k) (heap s) h' \<and> F \<subseteq> alloc h' - alloc (heap s)
      \<and> denotes pp (content h') (insert (wvar k) F) (wvar k) (JArr ts)"
    by - (intro exI conjI, assumption+)
qed

lemma builds_container:
  assumes new: "new_context create type ob" and body: "fills type ob w t"
  shows "builds (seqM [enter create, w, leave]) t"
  unfolding builds_def
proof (intro allI impI, elim conjE)
  fix s :: "('h, 'v) TNativeClientProtocol" and c cs x0 c0 ob0
  assume s: "writer_stack s = c # cs" "accepts (heap s) c x0 c0 ob0"
  from enter_ok [OF new s] obtain k c' ob' h1 where k:
    "enter create s = (Inr 0, s\<lparr>writer_stack := k # c' # cs, heap := h1\<rparr>)" "wtype k = type"
    "wvar k \<notin> alloc (heap s)" "alloc h1 = insert (wvar k) (alloc (heap s))"
    "content h1 (wvar k) = ob" "accepts (heap s) c (wvar k) c' ob'" "content h1 (wvar c) = ob'"
    "changes_only (wvar c) (heap s) h1"
    "var_type pp (wvar k) = (if type = LIST_CONTEXT then PP_VARTYPE_ARRAY else PP_VARTYPE_DICTIONARY)"
    by metis
  let ?s = "s\<lparr>writer_stack := k # c' # cs, heap := h1\<rparr>"
  obtain k' h' F where b:
    "w ?s = (Inr 0, ?s\<lparr>writer_stack := k' # c' # cs, heap := h'\<rparr>)" "changes_only (wvar k) h1 h'"
    "F \<subseteq> alloc h' - alloc h1" "denotes pp (content h') (insert (wvar k) F) (wvar k) t"
  proof (rule fillsD [OF body, of ?s k "c' # cs"])
    show "wvar k \<in> alloc (heap ?s)" using k(4) by simp
  qed (use k in simp_all)
  have b1: "w ?s = (Inr 0, s\<lparr>writer_stack := k' # c' # cs, heap := h'\<rparr>)" using b(1) by simp
  have run: "seqM [enter create, w, leave] s = (Inr 0, s\<lparr>writer_stack := c' # cs, heap := h'\<rparr>)"
    by (rule seqM_step, rule k(1), rule seqM_step, rule b1, rule seqM_last, rule leave_ok)
  have ne: "wvar c \<noteq> wvar k" using k(3) accepts_wvar [OF k(6)] by auto
  have "content h' (wvar c) = ob'" using b(2) k ne accepts_wvar [OF k(6)] by (auto simp: changes_only_def)
  moreover have "changes_only (wvar c) (heap s) h'"
    using k(3,4,8) b(2) ne by (auto simp: changes_only_def)
  moreover have "insert (wvar k) F \<subseteq> alloc h' - alloc (heap s)"
    using b(2,3) k(3,4) by (auto simp: changes_only_def)
  ultimately show "\<exists>x c' ob h' F. seqM [enter create, w, leave] s
      = (Inr 0, s\<lparr>writer_stack := c' # cs, heap := h'\<rparr>) \<and> accepts (heap s) c x c' ob
      \<and> content h' (wvar c) = ob \<and> changes_only (wvar c) (heap s) h'
      \<and> denotes pp (content h') F x t \<and> F \<subseteq> alloc h' - alloc (heap s)"
    using run k(6) b(4) by blast
qed

text \<open>Writing one field, entry or element and the rest.\<close>

lemma fills_dict_Nil: "fills_dict type (returnM 0) []"
  unfolding fills_dict_def
proof (intro allI impI, elim conjE)
  fix s :: "('h, 'v) TNativeClientProtocol" and k cs m
  assume "writer_stack s = k # cs" "content (heap s) (wvar k) = Dict m"
  then have "returnM 0 s = (Inr 0, s\<lparr>writer_stack := k # cs, heap := heap s\<rparr>)"
    "changes_only (wvar k) (heap s) (heap s)" "content (heap s) (wvar k) = Dict m"
    "{} \<subseteq> alloc (heap s) - alloc (heap s)" "extends m m (content (heap s)) {} []"
    by (auto simp: returnM_def changes_only_def extends_def)
  then show "\<exists>k' h' m' F. returnM 0 s = (Inr 0, s\<lparr>writer_stack := k' # cs, heap := h'\<rparr>)
      \<and> changes_only (wvar k) (heap s) h' \<and> content h' (wvar k) = Dict m'
      \<and> F \<subseteq> alloc h' - alloc (heap s) \<and> extends m m' (content h') F []"
    by - (intro exI conjI, assumption+)
qed

lemma fills_array_Nil: "fills_array (returnM 0) []"
  unfolding fills_array_def
proof (intro allI impI, elim conjE)
  fix s :: "('h, 'v) TNativeClientProtocol" and k cs xs
  assume "writer_stack s = k # cs" "content (heap s) (wvar k) = Arr xs"
  then have "returnM 0 s = (Inr 0, s\<lparr>writer_stack := k # cs, heap := heap s\<rparr>)"
    "changes_only (wvar k) (heap s) (heap s)" "content (heap s) (wvar k) = Arr (xs @ [])"
    "{} \<subseteq> alloc (heap s) - alloc (heap s)" "list_all2 (denotes pp (content (heap s)) {}) [] []"
    by (auto simp: returnM_def changes_only_def)
  then show "\<exists>k' h' ys F. returnM 0 s = (Inr 0, s\<lparr>writer_stack := k' # cs, heap := h'\<rparr>)
      \<and> changes_only (wvar k) (heap s) h' \<and> content h' (wvar k) = Arr (xs @ ys)
      \<and> F \<subseteq> alloc h' - alloc (heap s) \<and> list_all2 (denotes pp (content h') F) ys []"
    by - (intro exI conjI, assumption+)
qed

text \<open>\<open>w\<close> gives the context \<open>k\<close> one more entry and \<open>ws\<close> the others.\<close>

lemma fills_dict_step:
  assumes ws: "fills_dict type ws kvs" and n: "n \<notin> fst ` set kvs"
    and w: "\<And>s k cs m. writer_stack s = k # cs \<Longrightarrow> wtype k = type \<Longrightarrow> wvar k \<in> alloc (heap s) \<Longrightarrow>
      var_type pp (wvar k) = PP_VARTYPE_DICTIONARY \<Longrightarrow> content (heap s) (wvar k) = Dict m \<Longrightarrow>
      \<exists>k' h' F x. w s = (Inr 0, s\<lparr>writer_stack := k' # cs, heap := h'\<rparr>) \<and> wtype k' = type \<and> wvar k' = wvar k
        \<and> changes_only (wvar k) (heap s) h' \<and> content h' (wvar k) = Dict (m(n \<mapsto> x))
        \<and> denotes pp (content h') F x t \<and> F \<subseteq> alloc h' - alloc (heap s)"
  shows "fills_dict type (seqM [w, ws]) ((n, t) # kvs)"
  unfolding fills_dict_def
proof (intro allI impI, elim conjE)
  fix s :: "('h, 'v) TNativeClientProtocol" and k cs m
  assume s: "writer_stack s = k # cs" "wtype k = type" "wvar k \<in> alloc (heap s)"
    "var_type pp (wvar k) = PP_VARTYPE_DICTIONARY" "content (heap s) (wvar k) = Dict m"
  from w [OF s] obtain k1 h1 F1 x where a: "w s = (Inr 0, s\<lparr>writer_stack := k1 # cs, heap := h1\<rparr>)"
    "wtype k1 = type" "wvar k1 = wvar k" "changes_only (wvar k) (heap s) h1"
    "content h1 (wvar k) = Dict (m(n \<mapsto> x))" "denotes pp (content h1) F1 x t" "F1 \<subseteq> alloc h1 - alloc (heap s)"
    by (elim exE conjE)
  let ?s = "s\<lparr>writer_stack := k1 # cs, heap := h1\<rparr>"
  obtain k2 h2 m2 F2 where b: "ws ?s = (Inr 0, ?s\<lparr>writer_stack := k2 # cs, heap := h2\<rparr>)"
    "changes_only (wvar k1) (heap ?s) h2" "content h2 (wvar k1) = Dict m2" "F2 \<subseteq> alloc h2 - alloc (heap ?s)"
    "extends (m(n \<mapsto> x)) m2 (content h2) F2 kvs"
  proof (rule fills_dictD [OF ws, of ?s k1 cs "m(n \<mapsto> x)"])
    show "wvar k1 \<in> alloc (heap ?s)" using a(3,4) s(3) by (auto simp: changes_only_def)
  qed (use a s(4) in simp_all)
  have ws: "ws ?s = (Inr 0, s\<lparr>writer_stack := k2 # cs, heap := h2\<rparr>)" using b(1) by simp
  have "seqM [w, ws] s = (Inr 0, s\<lparr>writer_stack := k2 # cs, heap := h2\<rparr>)"
    by (rule seqM_step, rule a(1), rule seqM_last, rule ws)
  moreover have "changes_only (wvar k) (heap s) h2"
    using a(3,4) b(2) by (auto simp: changes_only_def)
  moreover have "content h2 (wvar k) = Dict m2" using a(3) b(3) by simp
  moreover have "F1 \<union> F2 \<subseteq> alloc h2 - alloc (heap s)"
    using a(4,7) b(2,4) by (auto simp: changes_only_def)
  moreover have "extends m m2 (content h2) (F1 \<union> F2) ((n, t) # kvs)"
  proof (rule extends_Cons [OF b(5) n a(6)])
    fix e assume "e \<in> F1"
    then have "e \<in> alloc h1" "e \<noteq> wvar k1" using a(3,7) s(3) by auto
    then show "content h2 e = content h1 e" using b(2) by (simp add: changes_only_def)
  qed
  ultimately show "\<exists>k' h' m' F. seqM [w, ws] s = (Inr 0, s\<lparr>writer_stack := k' # cs, heap := h'\<rparr>)
      \<and> changes_only (wvar k) (heap s) h' \<and> content h' (wvar k) = Dict m'
      \<and> F \<subseteq> alloc h' - alloc (heap s) \<and> extends m m' (content h') F ((n, t) # kvs)"
    by - (intro exI conjI, assumption+)
qed

lemma fills_array_step:
  assumes w: "builds w t" and ws: "fills_array ws ts"
  shows "fills_array (seqM [w, ws]) (t # ts)"
  unfolding fills_array_def
proof (intro allI impI, elim conjE)
  fix s :: "('h, 'v) TNativeClientProtocol" and k cs xs
  assume s: "writer_stack s = k # cs" "wtype k = LIST_CONTEXT" "wvar k \<in> alloc (heap s)"
    "var_type pp (wvar k) = PP_VARTYPE_ARRAY" "content (heap s) (wvar k) = Arr xs"
  have "accepts (heap s) k x k (Arr (xs @ [x]))" for x using s by (simp add: accepts_def)
  from buildsD [OF w s(1) this] obtain x c' ob h1 F1 where a:
    "w s = (Inr 0, s\<lparr>writer_stack := c' # cs, heap := h1\<rparr>)" "accepts (heap s) k x c' ob"
    "content h1 (wvar k) = ob" "changes_only (wvar k) (heap s) h1"
    "denotes pp (content h1) F1 x t" "F1 \<subseteq> alloc h1 - alloc (heap s)" by metis
  from a(2) s have o: "c' = k" "ob = Arr (xs @ [x])" by (auto simp: accepts_def)
  let ?s = "s\<lparr>writer_stack := k # cs, heap := h1\<rparr>"
  obtain k2 h2 ys F2 where b: "ws ?s = (Inr 0, ?s\<lparr>writer_stack := k2 # cs, heap := h2\<rparr>)"
    "changes_only (wvar k) (heap ?s) h2" "content h2 (wvar k) = Arr ((xs @ [x]) @ ys)"
    "F2 \<subseteq> alloc h2 - alloc (heap ?s)" "list_all2 (denotes pp (content h2) F2) ys ts"
  proof (rule fills_arrayD [OF ws, of ?s k cs "xs @ [x]"])
    show "wvar k \<in> alloc (heap ?s)" using a(4) s(3) by (auto simp: changes_only_def)
  qed (use a o s in simp_all)
  have ws: "ws ?s = (Inr 0, s\<lparr>writer_stack := k2 # cs, heap := h2\<rparr>)" using b(1) by simp
  have w1: "w s = (Inr 0, ?s)" using a(1) o by simp
  have "seqM [w, ws] s = (Inr 0, s\<lparr>writer_stack := k2 # cs, heap := h2\<rparr>)"
    by (rule seqM_step, rule w1, rule seqM_last, rule ws)
  moreover have "changes_only (wvar k) (heap s) h2" using a(4) b(2) by (auto simp: changes_only_def)
  moreover have "content h2 (wvar k) = Arr (xs @ x # ys)" using b(3) by simp
  moreover have "F1 \<union> F2 \<subseteq> alloc h2 - alloc (heap s)" using a(4,6) b(2,4) by (auto simp: changes_only_def)
  moreover have "list_all2 (denotes pp (content h2) (F1 \<union> F2)) (x # ys) (t # ts)"
  proof -
    have "denotes pp (content h2) (F1 \<union> F2) x t"
    proof (rule denotes_frame [OF a(5)])
      fix e assume "e \<in> F1"
      then have "e \<in> alloc h1" "e \<noteq> wvar k" using a(6) s(3) by auto
      then show "content h2 e = content h1 e" using b(2) by (simp add: changes_only_def)
    qed simp
    moreover have "list_all2 (denotes pp (content h2) (F1 \<union> F2)) ys ts"
      using b(5) by (rule list_all2_mono) (erule denotes_frame; auto)
    ultimately show ?thesis by simp
  qed
  ultimately show "\<exists>k' h' ys F. seqM [w, ws] s = (Inr 0, s\<lparr>writer_stack := k' # cs, heap := h'\<rparr>)
      \<and> changes_only (wvar k) (heap s) h' \<and> content h' (wvar k) = Arr (xs @ ys)
      \<and> F \<subseteq> alloc h' - alloc (heap s) \<and> list_all2 (denotes pp (content h') F) ys (t # ts)"
    by - (intro exI conjI, assumption+)
qed

lemma field_step:
  assumes w: "builds w t" and n: "okStr n"
    and s: "writer_stack s = k # cs" "wtype k = DICTIONARY_CONTEXT" "wvar k \<in> alloc (heap s)"
      "var_type pp (wvar k) = PP_VARTYPE_DICTIONARY" "content (heap s) (wvar k) = Dict m"
  shows "\<exists>k' h' F x. seqM [nacl_writeFieldBegin n ty fid, w] s = (Inr 0, s\<lparr>writer_stack := k' # cs, heap := h'\<rparr>)
    \<and> wtype k' = DICTIONARY_CONTEXT \<and> wvar k' = wvar k
    \<and> changes_only (wvar k) (heap s) h' \<and> content h' (wvar k) = Dict (m(n \<mapsto> x))
    \<and> denotes pp (content h') F x t \<and> F \<subseteq> alloc h' - alloc (heap s)"
proof -
  let ?k = "k\<lparr>field_name := n\<rparr>"
  let ?s = "s\<lparr>writer_stack := ?k # cs\<rparr>"
  have start: "nacl_writeFieldBegin n ty fid s = (Inr 0, ?s)" using s(1) by (simp add: nacl_writeFieldBegin_def)
  have top: "writer_stack ?s = ?k # cs" by simp
  have "accepts (heap ?s) ?k x ?k (Dict (m(n \<mapsto> x)))" for x using s n by (simp add: accepts_def)
  from buildsD [OF w top this] obtain x c' ob h1 F1 where a:
    "w ?s = (Inr 0, ?s\<lparr>writer_stack := c' # cs, heap := h1\<rparr>)" "accepts (heap ?s) ?k x c' ob"
    "content h1 (wvar ?k) = ob" "changes_only (wvar ?k) (heap ?s) h1"
    "denotes pp (content h1) F1 x t" "F1 \<subseteq> alloc h1 - alloc (heap ?s)" by metis
  from a(2) s have o: "c' = ?k" "ob = Dict (m(n \<mapsto> x))" by (auto simp: accepts_def)
  have "w ?s = (Inr 0, s\<lparr>writer_stack := c' # cs, heap := h1\<rparr>)" using a(1) by simp
  then have "seqM [nacl_writeFieldBegin n ty fid, w] s = (Inr 0, s\<lparr>writer_stack := c' # cs, heap := h1\<rparr>)"
    by - (rule seqM_step, rule start, rule seqM_last)
  moreover have "wtype c' = DICTIONARY_CONTEXT" "wvar c' = wvar k" using o s by simp_all
  moreover have "changes_only (wvar k) (heap s) h1" "content h1 (wvar k) = Dict (m(n \<mapsto> x))"
    "F1 \<subseteq> alloc h1 - alloc (heap s)" using a(3,4,6) o by simp_all
  ultimately show ?thesis using a(5) by - (intro exI conjI, assumption+)
qed

lemma pair_step:
  assumes w: "builds w t" and n: "okStr n"
    and s: "writer_stack s = k # cs" "wtype k = MAP_KEY_CONTEXT" "wvar k \<in> alloc (heap s)"
      "var_type pp (wvar k) = PP_VARTYPE_DICTIONARY" "content (heap s) (wvar k) = Dict m"
  shows "\<exists>k' h' F x. seqM [nacl_writeString pp n, w] s = (Inr 0, s\<lparr>writer_stack := k' # cs, heap := h'\<rparr>)
    \<and> wtype k' = MAP_KEY_CONTEXT \<and> wvar k' = wvar k
    \<and> changes_only (wvar k) (heap s) h' \<and> content h' (wvar k) = Dict (m(n \<mapsto> x))
    \<and> denotes pp (content h') F x t \<and> F \<subseteq> alloc h' - alloc (heap s)"
proof -
  let ?k = "k\<lparr>map_key := var_string pp n, wtype := MAP_VALUE_CONTEXT\<rparr>"
  let ?s = "s\<lparr>writer_stack := ?k # cs\<rparr>"
  have key: "nacl_writeString pp n s = (Inr 0, ?s)"
    using s(1,2) by (simp add: nacl_writeString_def nacl_writeVar_def context_writeVar_def monad_simps)
  have top: "writer_stack ?s = ?k # cs" by simp
  have "accepts (heap ?s) ?k x (?k\<lparr>wtype := MAP_KEY_CONTEXT\<rparr>) (Dict (m(n \<mapsto> x)))" for x
    using s n by (simp add: accepts_def string_var)
  from buildsD [OF w top this] obtain x c' ob h1 F1 where a:
    "w ?s = (Inr 0, ?s\<lparr>writer_stack := c' # cs, heap := h1\<rparr>)" "accepts (heap ?s) ?k x c' ob"
    "content h1 (wvar ?k) = ob" "changes_only (wvar ?k) (heap ?s) h1"
    "denotes pp (content h1) F1 x t" "F1 \<subseteq> alloc h1 - alloc (heap ?s)" by metis
  from a(2) s n have o: "c' = ?k\<lparr>wtype := MAP_KEY_CONTEXT\<rparr>" "ob = Dict (m(n \<mapsto> x))"
    by (auto simp: accepts_def string_var)
  have "w ?s = (Inr 0, s\<lparr>writer_stack := c' # cs, heap := h1\<rparr>)" using a(1) by simp
  then have "seqM [nacl_writeString pp n, w] s = (Inr 0, s\<lparr>writer_stack := c' # cs, heap := h1\<rparr>)"
    by - (rule seqM_step, rule key, rule seqM_last)
  moreover have "wtype c' = MAP_KEY_CONTEXT" "wvar c' = wvar k" using o s by simp_all
  moreover have "changes_only (wvar k) (heap s) h1" "content h1 (wvar k) = Dict (m(n \<mapsto> x))"
    "F1 \<subseteq> alloc h1 - alloc (heap s)" using a(3,4,6) o by simp_all
  ultimately show ?thesis using a(5) by - (intro exI conjI, assumption+)
qed

lemma begin_end:
  "writeStructBegin_virt (nacl_ops pp fresh) nm = enter (createDictionaryContext pp)"
  "writeMapBegin_virt (nacl_ops pp fresh) kt vt n = enter (createMapContext pp)"
  "writeSetBegin_virt (nacl_ops pp fresh) et n = enter (createListContext pp)"
  "writeListBegin_virt (nacl_ops pp fresh) et n = enter (createListContext pp)"
  "writeStructEnd_virt (nacl_ops pp fresh) = leave" "writeMapEnd_virt (nacl_ops pp fresh) = leave"
  "writeSetEnd_virt (nacl_ops pp fresh) = leave" "writeListEnd_virt (nacl_ops pp fresh) = leave"
  by (simp_all add: nacl_ops_def enter_def leave_def nacl_writeStructBegin_def nacl_writeMapBegin_def
      nacl_writeSetBegin_def nacl_writeListBegin_def nacl_writeStructEnd_def nacl_writeMapEnd_def
      nacl_writeSetEnd_def nacl_writeListEnd_def)

lemma field_calls:
  "writeFieldBegin_virt (nacl_ops pp fresh) = nacl_writeFieldBegin"
  "writeFieldEnd_virt (nacl_ops pp fresh) = returnM 0"
  "writeFieldStop_virt (nacl_ops pp fresh) = returnM 0"
  "writeString_virt (nacl_ops pp fresh) = nacl_writeString pp"
  by (simp_all add: nacl_ops_def nacl_writeFieldEnd_def nacl_writeFieldStop_def)

lemma seqM_stop: "seqM [a, b, returnM 0, c] = seqM [a, b, c]"
  by (simp add: bindM_assoc)

lemma struct_calls: "write_value (nacl_ops pp fresh) (VStruct nm fs)
    = seqM [enter (createDictionaryContext pp), write_fields (nacl_ops pp fresh) fs, leave]"
  by (simp only: write_value.simps begin_end field_calls seqM_stop)

lemma write_builds:
    "nacl_ok okStr v \<Longrightarrow> builds (write_value (nacl_ops pp fresh) v) (tree v)"
  and write_fields_fills: "nacl_ok_fields okStr fs \<Longrightarrow> distinct (map (\<lambda>f. fst (fst f)) fs) \<Longrightarrow>
      fills_dict DICTIONARY_CONTEXT (write_fields (nacl_ops pp fresh) fs) (tree_fields fs)"
  and write_elems_fills: "nacl_ok_elems okStr vs \<Longrightarrow>
      fills_array (write_elems (nacl_ops pp fresh) vs) (tree_elems vs)"
  and write_pairs_fills: "nacl_ok_pairs okStr kvs \<Longrightarrow> distinct (map fst kvs) \<Longrightarrow>
      fills_dict MAP_KEY_CONTEXT (write_pairs (nacl_ops pp fresh) kvs) (tree_pairs kvs)"
proof (induction v and fs and vs and kvs rule: tval_induct)
  case (base v)
  then have "write_value (nacl_ops pp fresh) v = write_base (nacl_ops pp fresh) v" by (cases v) simp_all
  with base show ?case by (simp add: builds_base tree_base_value nacl_ok_base_value)
next
  case (struct nm fs)
  then show ?case
    by (auto simp: struct_calls simp del: seqM.simps write_value.simps
        intro!: builds_container [OF new_contexts(1)] fills_dict_empty)
next
  case (map kt vt kvs)
  then show ?case
    by (auto simp: begin_end simp del: seqM.simps intro!: builds_container [OF new_contexts(2)] fills_dict_empty)
next
  case (set et vs)
  then show ?case
    by (auto simp: begin_end simp del: seqM.simps intro!: builds_container [OF new_contexts(3)] fills_array_empty)
next
  case (list et vs)
  then show ?case
    by (auto simp: begin_end simp del: seqM.simps intro!: builds_container [OF new_contexts(3)] fills_array_empty)
next
  case (field nm fid v fs)
  let ?P = "nacl_ops pp fresh"
  have calls: "write_fields ?P (((nm, fid), v) # fs)
      = seqM [seqM [nacl_writeFieldBegin nm (ttype_of v) fid, write_value ?P v], write_fields ?P fs]"
    by (simp add: field_calls bindM_assoc add.assoc)
  have v: "builds (write_value ?P v) (tree v)" "okStr nm" using field by simp_all
  have fs: "fills_dict DICTIONARY_CONTEXT (write_fields ?P fs) (tree_fields fs)" using field by simp
  have "nm \<notin> set (map fst (tree_fields fs))" unfolding fst_tree_fields using field.prems by simp
  then have "nm \<notin> fst ` set (tree_fields fs)" by simp
  then show ?case unfolding calls tree_fields.simps
    by (rule fills_dict_step [OF fs]) (rule field_step [OF v])
next
  case (elem v vs)
  then show ?case by (simp add: fills_array_step del: seqM.simps)
next
  case (pair x v kvs)
  let ?P = "nacl_ops pp fresh"
  from pair.prems obtain n where x: "x = VString n" "okStr n" by (auto elim: is_string_keyE)
  have calls: "write_pairs ?P ((x, v) # kvs) = seqM [seqM [nacl_writeString pp n, write_value ?P v], write_pairs ?P kvs]"
    by (simp add: x field_calls bindM_assoc add.assoc)
  have v: "builds (write_value ?P v) (tree v)" using pair by simp
  have kvs: "fills_dict MAP_KEY_CONTEXT (write_pairs ?P kvs) (tree_pairs kvs)" using pair by simp
  have "n \<notin> fst ` set (tree_pairs kvs)"
  proof
    assume "n \<in> fst ` set (tree_pairs kvs)"
    then obtain y w where y: "(y, w) \<in> set kvs" "n = string_of y" by (auto simp: set_tree_pairs)
    with pair.prems have "is_string_key okStr y" by (induction kvs) auto
    with y x have "y = x" by (auto elim: is_string_keyE)
    with y(1) pair.prems(2) show False by force
  qed
  then show ?case unfolding calls tree_pairs.simps unfolding x string_of.simps
    by (rule fills_dict_step [OF kvs]) (rule pair_step [OF v x(2)])
qed (simp_all add: fills_dict_Nil fills_array_Nil)

text \<open>The outermost struct is entered with no context open and becomes the root variable.\<close>

lemma enter_root:
  assumes "new_context create type ob" and "type \<noteq> LIST_CONTEXT" and "writer_stack s = []"
  obtains k h' where "enter create s = (Inr 0, s\<lparr>writer_stack := [k], heap := h', root_var := Some (wvar k)\<rparr>)"
    "wtype k = type" "wvar k \<notin> alloc (heap s)" "alloc h' = insert (wvar k) (alloc (heap s))"
    "content h' (wvar k) = ob" "later (heap s) h'" "var_type pp (wvar k) = PP_VARTYPE_DICTIONARY"
proof -
  obtain k h1 where k: "create (heap s) = (Inr k, h1)" "wtype k = type" "wvar k \<notin> alloc (heap s)"
    "alloc h1 = insert (wvar k) (alloc (heap s))" "content h1 (wvar k) = ob"
    "\<forall>e\<in>alloc (heap s). content h1 e = content (heap s) e"
    "var_type pp (wvar k) = (if type = LIST_CONTEXT then PP_VARTYPE_ARRAY else PP_VARTYPE_DICTIONARY)"
    using assms(1) unfolding new_context_def by metis
  show thesis
    by (rule that [of k h1]) (use k assms(2,3) in \<open>auto simp: enter_def onHeap_def pushWriterContext_def
        nacl_writeVar_def is_dictionary_def monad_simps later_def\<close>)
qed

lemma write_root:
  assumes "nacl_ok okStr (VStruct nm fs)" and "writer_stack s = []"
  obtains x h' F where "write_value (nacl_ops pp fresh) (VStruct nm fs) s = (Inr 0, s\<lparr>root_var := Some x, heap := h'\<rparr>)"
    "later (heap s) h'" "F \<subseteq> alloc h' - alloc (heap s)" "denotes pp (content h') F x (tree (VStruct nm fs))"
proof -
  let ?w = "write_fields (nacl_ops pp fresh) fs"
  obtain k h1 where k: "enter (createDictionaryContext pp) s
      = (Inr 0, s\<lparr>writer_stack := [k], heap := h1, root_var := Some (wvar k)\<rparr>)" "wtype k = DICTIONARY_CONTEXT"
    "wvar k \<notin> alloc (heap s)" "alloc h1 = insert (wvar k) (alloc (heap s))" "content h1 (wvar k) = Dict Map.empty"
    "later (heap s) h1" "var_type pp (wvar k) = PP_VARTYPE_DICTIONARY"
    by (rule enter_root [OF new_contexts(1) _ assms(2)]) simp
  let ?s = "s\<lparr>writer_stack := [k], heap := h1, root_var := Some (wvar k)\<rparr>"
  have body: "fills DICTIONARY_CONTEXT (Dict Map.empty) ?w (JDict (tree_fields fs))"
    using assms(1) by (intro fills_dict_empty write_fields_fills) simp_all
  obtain k' h' F where b: "?w ?s = (Inr 0, ?s\<lparr>writer_stack := [k'], heap := h'\<rparr>)" "changes_only (wvar k) h1 h'"
    "F \<subseteq> alloc h' - alloc h1" "denotes pp (content h') (insert (wvar k) F) (wvar k) (JDict (tree_fields fs))"
  proof (rule fillsD [OF body, of ?s k "[]"])
    show "wvar k \<in> alloc (heap ?s)" using k(4) by simp
  qed (use k in simp_all)
  have b1: "?w ?s = (Inr 0, (s\<lparr>root_var := Some (wvar k)\<rparr>)\<lparr>writer_stack := [k'], heap := h'\<rparr>)" using b(1) by simp
  have "seqM [enter (createDictionaryContext pp), ?w, leave] s
      = (Inr 0, s\<lparr>root_var := Some (wvar k), writer_stack := [], heap := h'\<rparr>)"
    by (rule seqM_step, rule k(1), rule seqM_step, rule b1, rule seqM_last, rule leave_ok)
  moreover have "s\<lparr>root_var := Some (wvar k), writer_stack := [], heap := h'\<rparr> = s\<lparr>root_var := Some (wvar k), heap := h'\<rparr>"
    using assms(2) by simp
  ultimately have run: "write_value (nacl_ops pp fresh) (VStruct nm fs) s = (Inr 0, s\<lparr>root_var := Some (wvar k), heap := h'\<rparr>)"
    by (simp only: struct_calls)
  have l: "later (heap s) h'" using b(2) k(3,4,6) by (auto simp: changes_only_def later_def)
  have new: "insert (wvar k) F \<subseteq> alloc h' - alloc (heap s)" using b(2,3) k(3,4) by (auto simp: changes_only_def)
  have "denotes pp (content h') (insert (wvar k) F) (wvar k) (tree (VStruct nm fs))" using b(4) by simp
  then show thesis by (rule that [OF run l new])
qed

end

section \<open>Writing a struct\<close>

text \<open>A struct in the memory of the store, with every kind of field.\<close>

definition nacl_sample :: tval where
  "nacl_sample = VStruct [83] [(([97], 1), VI32 7), (([98], 2), VMap T_STRING T_I64 [(VString [107], VI64 5)]),
     (([99], 3), VList T_BOOL [VBool True, VBool False]), (([100], 4), VSet T_BYTE [VByte 1])]"

lemma nacl_sample_ok: "nacl_ok (\<lambda>s. True) nacl_sample"
  by (simp add: nacl_sample_def)

text \<open>
  C9. Writing a struct with the Native Client protocol succeeds, leaves both stacks as they were, and
  stores in the protocol a variable that is the root of the tree of the struct: a dictionary of the
  fields by name, nested dictionaries for maps, arrays for lists and sets. The objects of the tree
  are new ones and nothing that existed before is changed. The struct must be one that variables can
  hold (\<open>nacl_ok\<close>): at every level, the keys of maps are strings (with other keys the tree is not
  built, see \<open>nacl_number_keys_lost\<close>), the elements of sets are of base types, 64-bit integers are at
  most \<open>2^53\<close> in magnitude, strings and field names are accepted by the API, there is no binary data
  (\<open>writeBinary\<close> is not implemented), the field names of a struct and the keys of a map are distinct,
  and containers have fewer than \<open>2^31\<close> elements.
\<close>

theorem nacl_write_builds_tree:
  assumes "ppapi pp alloc content okStr" and "nacl_ok okStr (VStruct nm fs)" and "writer_stack s = []"
  shows "\<exists>x h' F. write_value (nacl_ops pp fresh) (VStruct nm fs) s = (Inr 0, s\<lparr>root_var := Some x, heap := h'\<rparr>)
    \<and> denotes pp (content h') F x (tree (VStruct nm fs)) \<and> F \<subseteq> alloc h' - alloc (heap s)
    \<and> alloc (heap s) \<subseteq> alloc h' \<and> (\<forall>e\<in>alloc (heap s). content h' e = content (heap s) e)"
  using ppapi.write_root [OF assms] unfolding ppapi.later_def [OF assms(1)] by metis

theorem nacl_write_builds_tree_witness:
  "\<exists>x h' F. write_value (nacl_ops store_pp (\<lambda>n. replicate n 0)) nacl_sample (newTNativeClientProtocol [])
      = (Inr 0, (newTNativeClientProtocol [])\<lparr>root_var := Some x, heap := h'\<rparr>)
    \<and> denotes store_pp (store_content h') F x (tree nacl_sample)"
  using nacl_write_builds_tree [OF store.ppapi_axioms nacl_sample_ok [unfolded nacl_sample_def],
      of "newTNativeClientProtocol []" "\<lambda>n. replicate n 0"]
  unfolding nacl_sample_def by (auto simp: newTNativeClientProtocol_def)

section \<open>The range of 64-bit integers\<close>

lemma promoted_minus: "promoted i = (if 0 \<le> sint i then int (round53 (nat \<bar>sint i\<bar>)) else - int (round53 (nat \<bar>sint i\<bar>)))"
  by (simp add: promoted_def)

lemma double_tie: "double_of_int (2 ^ 53 + 1) = double_of_int (2 ^ 53)"
    "double_of_int (- (2 ^ 53 + 1)) = double_of_int (- (2 ^ 53))"
proof -
  have "round53 (2 ^ 53) = 2 ^ 53" using bits_power [of 53] by (simp add: round53_def)
  then have r: "round53 (nat \<bar>2 ^ 53 + 1\<bar>) = round53 (nat \<bar>2 ^ 53\<bar>)"
    "round53 (nat \<bar>- (2 ^ 53 + 1)\<bar>) = round53 (nat \<bar>- (2 ^ 53)\<bar>)" using round53_tie by simp_all
  show "double_of_int (2 ^ 53 + 1) = double_of_int (2 ^ 53)" unfolding double_of_int_def r by simp
  show "double_of_int (- (2 ^ 53 + 1)) = double_of_int (- (2 ^ 53))" unfolding double_of_int_def r by simp
qed

text \<open>
  C23. \<open>writeI64\<close> accepts exactly the integers up to \<open>2^53 + 1\<close> in magnitude and refuses the others with
  \<open>SIZE_LIMIT\<close>. The bound is compared after the conversion to double, so the two integers
  \<open>2^53 + 1\<close> and \<open>-2^53 - 1\<close>, which no double represents, are accepted and silently written as \<open>2^53\<close>
  and \<open>-2^53\<close>.
\<close>

theorem nacl_i64_range:
  "nacl_writeI64 pp i =
     (if \<bar>sint i\<bar> \<le> 2 ^ 53 then bindM (nacl_writeVar pp (var_double pp (double_of_int (sint i)))) (\<lambda>_. returnM 0)
      else if sint i = 2 ^ 53 + 1 then bindM (nacl_writeVar pp (var_double pp (double_of_int (2 ^ 53)))) (\<lambda>_. returnM 0)
      else if sint i = - (2 ^ 53 + 1) then bindM (nacl_writeVar pp (var_double pp (double_of_int (- (2 ^ 53))))) (\<lambda>_. returnM 0)
      else throwM (TProtocolException SIZE_LIMIT))"
proof (cases "\<bar>sint i\<bar> \<le> 2 ^ 53")
  case True
  then show ?thesis by (simp add: nacl_writeI64_def promoted_small)
next
  case large: False
  let ?a = "nat \<bar>sint i\<bar>"
  show ?thesis
  proof (cases "?a = 2 ^ 53 + 1")
    case True
    then have i: "sint i = 2 ^ 53 + 1 \<or> sint i = - (2 ^ 53 + 1)" by auto
    have "round53 ?a = 2 ^ 53" unfolding True by (rule round53_tie)
    then have "\<not> kMaxPreciseDouble < promoted i" "\<not> promoted i < kMinPreciseDouble"
      unfolding promoted_minus by (cases "0 \<le> sint i"; simp add: kMaxPreciseDouble_def kMinPreciseDouble_def)+
    with i large show ?thesis unfolding nacl_writeI64_def using double_tie by (auto simp del: power_numeral)
  next
    case False
    with large have "2 ^ 53 + 2 \<le> ?a" by simp
    then have "2 ^ 53 < round53 ?a" by (rule round53_large)
    then have "kMaxPreciseDouble < promoted i \<or> promoted i < kMinPreciseDouble"
      unfolding promoted_minus by (cases "0 \<le> sint i"; simp add: kMaxPreciseDouble_def kMinPreciseDouble_def)
    moreover have "sint i \<noteq> 2 ^ 53 + 1" "sint i \<noteq> - (2 ^ 53 + 1)" using False by auto
    ultimately show ?thesis using large by (simp add: nacl_writeI64_def)
  qed
qed

section \<open>Keys that are not strings\<close>

text \<open>
  C24. An entry of a map whose key is a number is lost: both calls succeed and the dictionary of the map
  stays as it was, since \<^verbatim>\<open>Set\<close> refuses the key and its result is not looked at.
\<close>

theorem nacl_number_keys_lost:
  assumes "ppapi pp alloc content okStr" and "writer_stack s = c # cs" and "wtype c = MAP_KEY_CONTEXT"
    and "var_type pp (wvar c) = PP_VARTYPE_DICTIONARY"
  shows "seqM [nacl_writeI32 pp k, nacl_writeI32 pp v] s
    = (Inr 0, s\<lparr>writer_stack := c\<lparr>map_key := var_int pp k\<rparr> # cs\<rparr>)"
proof -
  have "var_type pp (var_int pp k) \<noteq> PP_VARTYPE_STRING" using ppapi.int_var(1) [OF assms(1)] by simp
  from ppapi.set_refused [OF assms(1) this]
  have refused: "dict_Set pp d (var_int pp k) x h = (False, h)" for d x h .
  show ?thesis using assms(2-4) by (simp add: nacl_writeI32_def nacl_writeVar_def context_writeVar_def
      writer_asDictionary_def is_dictionary_def monad_simps refused)
qed

theorem nacl_number_keys_lost_witness:
  "\<exists>c. bindM (nacl_writeMapBegin store_pp T_I32 T_I32 1) (\<lambda>_. seqM [nacl_writeI32 store_pp 1, nacl_writeI32 store_pp 2])
      (newTNativeClientProtocol []) =
    (Inr 0, (newTNativeClientProtocol [DictCell []])\<lparr>writer_stack := [c], root_var := Some (wvar c)\<rparr>)"
proof -
  let ?c = "\<lparr>wvar = DictRef 0, wtype = MAP_KEY_CONTEXT, field_name = [], map_key = UndefinedVar\<rparr>"
  let ?s = "(newTNativeClientProtocol [DictCell []])\<lparr>writer_stack := [?c], root_var := Some (DictRef 0)\<rparr>"
  have "nacl_writeMapBegin store_pp T_I32 T_I32 1 (newTNativeClientProtocol []) = (Inr 0, ?s)"
    by (simp add: nacl_writeMapBegin_def createMapContext_def newWriterContext_def pushWriterContext_def onHeap_def
        nacl_writeVar_def monad_simps newTNativeClientProtocol_def store_pp_def is_dictionary_def)
  then have "bindM (nacl_writeMapBegin store_pp T_I32 T_I32 1) (\<lambda>_. seqM [nacl_writeI32 store_pp 1, nacl_writeI32 store_pp 2])
      (newTNativeClientProtocol []) = seqM [nacl_writeI32 store_pp 1, nacl_writeI32 store_pp 2] ?s"
    by (rule bindM_Inr)
  also have "\<dots> = (Inr 0, ?s\<lparr>writer_stack := [?c\<lparr>map_key := var_int store_pp 1\<rparr>]\<rparr>)"
    by (rule nacl_number_keys_lost [OF store.ppapi_axioms]) (simp_all add: store_pp_def)
  finally show ?thesis by (intro exI [of _ "?c\<lparr>map_key := var_int store_pp 1\<rparr>"]) simp
qed

end
