(* ===== verification/NativeClientReading.thy ===== *)
theory NativeClientReading
  imports NativeClientValues "HOL-Library.Multiset"
begin

text \<open>
  Reading trees of variables with the Native Client protocol. A reader that knows the fields of the
  structs by name gets the value back that was written, up to the order of fields and map entries,
  which follows the order in which the dictionaries list their keys.
\<close>

section \<open>Equal up to order\<close>

inductive same :: "tval \<Rightarrow> tval \<Rightarrow> bool" where
  same_base: "is_base v \<Longrightarrow> same v v"
| same_struct: "mset gs = mset fs \<Longrightarrow> list_all2 (\<lambda>f g. fst f = fst g \<and> same (snd f) (snd g)) gs fs' \<Longrightarrow>
    same (VStruct nm fs) (VStruct nm fs')"
| same_map: "mset gs = mset kvs \<Longrightarrow> list_all2 (\<lambda>f g. fst f = fst g \<and> same (snd f) (snd g)) gs kvs' \<Longrightarrow>
    same (VMap k v kvs) (VMap k v kvs')"
| same_set: "list_all2 same vs vs' \<Longrightarrow> same (VSet e vs) (VSet e vs')"
| same_list: "list_all2 same vs vs' \<Longrightarrow> same (VList e vs) (VList e vs')"

text \<open>Schemas whose structs have fields with different names. Binary fields are treated apart.\<close>

fun named :: "t_type \<Rightarrow> bool" where
  "named TyBinary = False"
| "named (TyStruct nm flds) = (distinct (map (\<lambda>f. fst (fst f)) flds) \<and> list_all (\<lambda>f. named (snd f)) flds)"
| "named (TyMap k v) = (named k \<and> named v)"
| "named (TySet e) = named e"
| "named (TyList e) = named e"
| "named ty = True"

lemma find_field_in: "find_field fid flds = Some f \<Longrightarrow> f \<in> set flds"
  by (auto simp: find_field_def find_Some_iff) (metis nth_mem)

text \<open>A name leads to the entry of the \<^verbatim>\<open>switch\<close> that the field has.\<close>

lemma resolve_named:
  assumes "find_field fid flds = Some ((nm, fid, req), ty)" and "distinct (map (\<lambda>f. fst (fst f)) flds)"
  shows "resolve_field flds (Some nm) ft kFieldIdUnknown = (type_to_enum ty, fid)"
proof -
  have "(nm, fid, type_to_enum ty) \<in> set (field_type_map flds)"
    using find_field_in [OF assms(1)] unfolding field_type_map_def by force
  moreover have "map fst (field_type_map flds) = map (\<lambda>f. fst (fst f)) flds"
    by (auto simp: field_type_map_def)
  ultimately have "map_of (field_type_map flds) nm = Some (fid, type_to_enum ty)"
    using assms(2) by (metis map_of_is_SomeI)
  then show ?thesis by (simp add: resolve_field_def get_field_type_def)
qed

text \<open>The order in which a dictionary lists its keys is a reordering of the fields.\<close>

lemma reorder:
  assumes "distinct ns" and "distinct (map key fs)" and "set ns = key ` set fs"
  obtains gs where "map key gs = ns" "mset gs = mset fs"
proof
  let ?gs = "map (the_inv_into (set fs) key) ns"
  have inj: "inj_on key (set fs)" using assms(2) by (simp add: distinct_map)
  show key: "map key ?gs = ns"
    unfolding map_map by (rule map_idI) (use assms(3) in \<open>simp add: f_the_inv_into_f [OF inj]\<close>)
  have "set ?gs = set fs" using assms(3) inj by (simp add: the_inv_into_onto)
  moreover have "distinct ?gs" using key assms(1) by (metis distinct_map)
  moreover have "distinct fs" using assms(2) by (simp add: distinct_map)
  ultimately show "mset ?gs = mset fs" by (metis set_eq_iff_mset_eq_distinct)
qed

lemma list_all2_of_map: "map g ys = map f xs \<Longrightarrow> list_all2 (\<lambda>x y. f x = g y) xs ys"
proof (induction xs arbitrary: ys)
  case (Cons x xs)
  then show ?case by (cases ys) auto
qed simp

section \<open>Cursors\<close>

context ppapi
begin

text \<open>A method that reads one variable: the value it returns satisfies \<open>Q\<close>.\<close>

definition reads :: "('h, 'v, 'a \<times> uint32_t) NM \<Rightarrow> jvar \<Rightarrow> ('a \<Rightarrow> bool) \<Rightarrow> bool" where
  "reads r t Q \<longleftrightarrow> (\<forall>s s1 x F. nacl_readVar pp s = (Inr x, s1) \<and> F \<subseteq> alloc (heap s1)
       \<and> denotes pp (content (heap s1)) F x t \<longrightarrow>
     (\<exists>v h. r s = (Inr (v, 0), s1\<lparr>heap := h\<rparr>) \<and> later (heap s1) h \<and> Q v))"

lemma readsD:
  assumes "reads r t Q" and "nacl_readVar pp s = (Inr x, s1)" and "F \<subseteq> alloc (heap s1)"
    and "denotes pp (content (heap s1)) F x t"
  obtains v h where "r s = (Inr (v, 0), s1\<lparr>heap := h\<rparr>)" "later (heap s1) h" "Q v"
  using assms unfolding reads_def by blast

definition dict_cursor :: "'h \<Rightarrow> 'v ReaderContext \<Rightarrow> 'v list \<Rightarrow> (byte list \<rightharpoonup> 'v) \<Rightarrow> bool" where
  "dict_cursor h c ks m \<longleftrightarrow> rvar c \<in> alloc h \<and> rkeys c \<in> alloc h
     \<and> var_type pp (rvar c) = PP_VARTYPE_DICTIONARY \<and> content h (rvar c) = Dict m
     \<and> content h (rkeys c) = Arr ks \<and> (\<forall>k\<in>set ks. var_type pp k = PP_VARTYPE_STRING)"

definition array_cursor :: "'h \<Rightarrow> 'v ReaderContext \<Rightarrow> 'v list \<Rightarrow> bool" where
  "array_cursor h c xs \<longleftrightarrow> rvar c \<in> alloc h \<and> rtype c = LIST_CONTEXT
     \<and> var_type pp (rvar c) = PP_VARTYPE_ARRAY \<and> content h (rvar c) = Arr xs"

lemma dict_cursor_later: "dict_cursor h c ks m \<Longrightarrow> later h h' \<Longrightarrow> dict_cursor h' c ks m"
  by (auto simp: dict_cursor_def later_def)

lemma array_cursor_later: "array_cursor h c xs \<Longrightarrow> later h h' \<Longrightarrow> array_cursor h' c xs"
  by (auto simp: array_cursor_def later_def)

lemma dict_cursor_move: "rvar c' = rvar c \<Longrightarrow> rkeys c' = rkeys c \<Longrightarrow> dict_cursor h c' ks m = dict_cursor h c ks m"
  by (simp add: dict_cursor_def)

lemma denotes_later: "denotes pp (content h) F x t \<Longrightarrow> F \<subseteq> alloc h \<Longrightarrow> later h h' \<Longrightarrow> denotes pp (content h') F x t"
  by (erule denotes_frame) (auto simp: later_def)

lemma dict_cursor_size: "dict_cursor h c ks m \<Longrightarrow> reader_size pp c h = (Inr (length ks), h)"
  by (simp add: dict_cursor_def reader_size_def is_dictionary_def get_length)

lemma array_cursor_size: "array_cursor h c xs \<Longrightarrow> reader_size pp c h = (Inr (length xs), h)"
  by (simp add: array_cursor_def reader_size_def reader_asArray_def is_dictionary_def is_array_def get_length)

lemma dict_cursor_end: "dict_cursor h c ks m \<Longrightarrow> reader_isAtEnd pp c h = (Inr (length ks \<le> rindex c), h)"
  by (simp add: reader_isAtEnd_def dict_cursor_size bindM_def returnM_def)

lemma array_cursor_end: "array_cursor h c xs \<Longrightarrow> reader_isAtEnd pp c h = (Inr (length xs \<le> rindex c), h)"
  by (simp add: reader_isAtEnd_def array_cursor_size bindM_def returnM_def)

text \<open>What the cursor reads, and where it moves.\<close>

lemma dict_cursor_entry:
  assumes "dict_cursor h c ks m" and "rindex c < length ks" and "m (AsString pp (ks ! rindex c)) = Some y"
  shows "nextKeyValue pp c h = (Inr (ks ! rindex c, y), h)" and "nextKey pp c h = (Inr (ks ! rindex c), h)"
    and "nextValue pp c h = (Inr y, h)"
  using assms unfolding dict_cursor_def nextKeyValue_def nextKey_def nextValue_def reader_asDictionary_def
    is_dictionary_def
  by (auto simp: monad_simps get_length get_element get_entry)

lemma read_dict_value:
  assumes "reader_stack s = c # cs" and "dict_cursor (heap s) c ks m" and "rindex c < length ks"
    and "m (AsString pp (ks ! rindex c)) = Some y" and "rtype c = DICTIONARY_CONTEXT"
  shows "nacl_readVar pp s = (Inr y, s\<lparr>reader_stack := c\<lparr>rindex := Suc (rindex c)\<rparr> # cs\<rparr>)"
  using assms dict_cursor_entry [OF assms(2-4)] dict_cursor_end [OF assms(2)]
  by (simp add: nacl_readVar_def nextVar_def reader_advance_def advance_cursor_def onHeap_def monad_simps)

lemma read_map_key:
  assumes "reader_stack s = c # cs" and "dict_cursor (heap s) c ks m" and "rindex c < length ks"
    and "m (AsString pp (ks ! rindex c)) = Some y" and "rtype c = MAP_KEY_CONTEXT"
  shows "nacl_readVar pp s = (Inr (ks ! rindex c), s\<lparr>reader_stack := c\<lparr>rtype := MAP_VALUE_CONTEXT\<rparr> # cs\<rparr>)"
  using assms dict_cursor_entry [OF assms(2-4)] dict_cursor_end [OF assms(2)]
  by (simp add: nacl_readVar_def nextVar_def reader_advance_def advance_cursor_def onHeap_def monad_simps)

lemma read_map_value:
  assumes "reader_stack s = c # cs" and "dict_cursor (heap s) c ks m" and "rindex c < length ks"
    and "m (AsString pp (ks ! rindex c)) = Some y" and "rtype c = MAP_VALUE_CONTEXT"
  shows "nacl_readVar pp s
    = (Inr y, s\<lparr>reader_stack := c\<lparr>rtype := MAP_KEY_CONTEXT, rindex := Suc (rindex c)\<rparr> # cs\<rparr>)"
  using assms dict_cursor_entry [OF assms(2-4)] dict_cursor_end [OF assms(2)]
  by (simp add: nacl_readVar_def nextVar_def reader_advance_def advance_cursor_def onHeap_def monad_simps)

lemma read_element_value:
  assumes "reader_stack s = c # cs" and "array_cursor (heap s) c xs" and "rindex c < length xs"
  shows "nacl_readVar pp s = (Inr (xs ! rindex c), s\<lparr>reader_stack := c\<lparr>rindex := Suc (rindex c)\<rparr> # cs\<rparr>)"
  using assms array_cursor_end [OF assms(2)] unfolding array_cursor_def
  by (simp add: nacl_readVar_def nextVar_def nextArrayValue_def reader_asArray_def is_array_def get_length
      get_element reader_advance_def advance_cursor_def onHeap_def monad_simps)

section \<open>Base values\<close>

lemma reads_var:
  assumes "\<And>view F x. denotes pp view F x t \<Longrightarrow> \<exists>v. f x = returnM (v, 0) \<and> Q v"
  shows "reads (bindM (nacl_readVar pp) f) t Q"
  unfolding reads_def
proof (intro allI impI, elim conjE)
  fix s s1 :: "('h, 'v) TNativeClientProtocol" and x F
  assume s: "nacl_readVar pp s = (Inr x, s1)" "denotes pp (content (heap s1)) F x t"
  from assms [OF s(2)] obtain v where v: "f x = returnM (v, 0)" "Q v" by blast
  have "bindM (nacl_readVar pp) f s = (Inr (v, 0), s1\<lparr>heap := heap s1\<rparr>)"
    using s(1) v(1) by (simp add: bindM_def returnM_def)
  then show "\<exists>v h. bindM (nacl_readVar pp) f s = (Inr (v, 0), s1\<lparr>heap := h\<rparr>) \<and> later (heap s1) h \<and> Q v"
    using v(2) later_refl by blast
qed

definition integer_value :: "'v \<Rightarrow> ('h, 'v, int64_t) NM" where
  "integer_value x = (if is_int pp x then returnM (scast (AsInt pp x))
     else if is_double pp x then
       (case double_integer (AsDouble pp x) of
          None \<Rightarrow> throwM (TProtocolException INVALID_DATA)
        | Some k \<Rightarrow>
            if kMaxPreciseDouble < k \<or> k < kMinPreciseDouble then throwM (TProtocolException SIZE_LIMIT)
            else returnM (word_of_int k))
     else throwM (TProtocolException INVALID_DATA))"

lemma integer_reads:
  "readIntegerValue pp = bindM (nacl_readVar pp) integer_value"
  "READ_INTEGER_VALUE pp w = bindM (nacl_readVar pp) (\<lambda>x. bindM (integer_value x) (\<lambda>i.
     if 2 ^ (w - 1) - 1 < sint i \<or> sint i < - (2 ^ (w - 1)) then throwM (TProtocolException SIZE_LIMIT)
     else returnM i))"
  by (simp_all add: READ_INTEGER_VALUE_def readIntegerValue_def integer_value_def [abs_def] bindM_assoc)

lemma integer_value_int: "denotes pp view F x (JInt i) \<Longrightarrow> integer_value x = returnM (scast i)"
  by (auto simp: integer_value_def is_int_def)

lemma integer_value_double:
  assumes "denotes pp view F x (JDouble (double_of_int k))" and "\<bar>k\<bar> \<le> 2 ^ 53"
  shows "integer_value x = returnM (word_of_int k)"
proof -
  have "\<not> kMaxPreciseDouble < k" "\<not> k < kMinPreciseDouble"
    using assms(2) by (simp_all add: kMaxPreciseDouble_def kMinPreciseDouble_def abs_le_iff)
  then show ?thesis
    using assms double_integer_of_int [of k] by (auto simp: integer_value_def is_int_def is_double_def)
qed

lemma reads_int:
  fixes b :: "'w :: len word"
  assumes "LENGTH('w) \<le> 32"
  shows "reads (bindM (READ_INTEGER_VALUE pp LENGTH('w)) (\<lambda>v. returnM (ucast v, 0))) (JInt (scast b)) (\<lambda>v. v = b)"
  unfolding integer_reads bindM_assoc
proof (rule reads_var)
  fix view :: "'v \<Rightarrow> 'v object" and F x
  assume x: "denotes pp view F x (JInt (scast b))"
  let ?i = "scast (scast b :: int32_t) :: int64_t"
  have "sint ?i = sint (scast b :: int32_t)" by (rule sint_up_scast) (simp add: is_up)
  also have "\<dots> = sint b" by (rule sint_up_scast) (simp add: is_up assms)
  finally have i: "sint ?i = sint b" .
  have "ucast ?i = (scast ?i :: 'w word)" using assms by (intro fun_cong [OF down_cast_same]) (simp add: is_down)
  also have "\<dots> = b" by (rule trans [OF scast_eq]) (simp only: i of_int_sint scast_id id_apply)
  finally have "ucast ?i = b" .
  moreover have "\<not> 2 ^ (LENGTH('w) - 1) - 1 < sint b" "\<not> sint b < - (2 ^ (LENGTH('w) - 1))"
    using sint_lt [of b] sint_ge [of b] by auto
  ultimately show "\<exists>v. bindM (integer_value x) (\<lambda>i. bindM
       (if 2 ^ (LENGTH('w) - 1) - 1 < sint i \<or> sint i < - (2 ^ (LENGTH('w) - 1))
        then throwM (TProtocolException SIZE_LIMIT) else returnM i) (\<lambda>v. returnM (ucast v, 0))) =
     (returnM (v, 0) :: ('h, 'v, 'w word \<times> uint32_t) NM) \<and> v = b"
    by (simp add: integer_value_int [OF x] i)
qed

lemma reads_small:
  "reads (nacl_readByte pp) (JInt (scast b)) (\<lambda>v. v = b)"
  "reads (nacl_readI16 pp) (JInt (scast h)) (\<lambda>v. v = h)"
  "reads (nacl_readI32 pp) (JInt i) (\<lambda>v. v = i)"
  using reads_int [of b] reads_int [of h] reads_int [of i]
  by (simp_all add: nacl_readByte_def nacl_readI16_def nacl_readI32_def scast_id)

lemma reads_i64: "\<bar>sint k\<bar> \<le> 2 ^ 53 \<Longrightarrow> reads (nacl_readI64 pp) (JDouble (double_of_int (sint k))) (\<lambda>v. v = k)"
  unfolding nacl_readI64_def integer_reads bindM_assoc
  by (rule reads_var) (simp add: integer_value_double)

lemma reads_base:
  "reads (nacl_readBool pp) (JBool b) (\<lambda>v. v = b)"
  "reads (nacl_readDouble pp) (JDouble d) (\<lambda>v. v = d)"
  "reads (nacl_readString pp) (JStr str) (\<lambda>v. v = str)"
  unfolding nacl_readBool_def nacl_readDouble_def nacl_readString_def
  by (auto intro!: reads_var simp: is_bool_def is_double_def is_string_def)

lemma reads_mono: "reads r t Q \<Longrightarrow> (\<And>v. Q v \<Longrightarrow> Q' v) \<Longrightarrow> reads r t Q'"
  unfolding reads_def by blast

lemma reads_mapM:
  assumes "reads r t (\<lambda>v. v = a)"
  shows "reads (mapM f r) t (\<lambda>v. v = f a)"
  unfolding reads_def
proof (intro allI impI, elim conjE)
  fix s s1 :: "('h, 'v) TNativeClientProtocol" and x F
  assume s: "nacl_readVar pp s = (Inr x, s1)" "F \<subseteq> alloc (heap s1)" "denotes pp (content (heap s1)) F x t"
  from readsD [OF assms s] obtain h where "r s = (Inr (a, 0), s1\<lparr>heap := h\<rparr>)" "later (heap s1) h" by metis
  then show "\<exists>v h. mapM f r s = (Inr (v, 0), s1\<lparr>heap := h\<rparr>) \<and> later (heap s1) h \<and> v = f a"
    by (intro exI [of _ "f a"] exI [of _ h]) (simp add: mapM_def bindM_def returnM_def)
qed

lemma read_base_value:
  assumes "is_base v" and "conforms ty v" and "nacl_ok_base okStr v" and "named ty"
  shows "reads (nacl_read (Suc fuel) pp fresh ty) (tree_base v) (\<lambda>v'. v' = v)"
proof -
  have [simp]: "readBool_virt (nacl_ops pp fresh) = nacl_readBool pp"
    "readByte_virt (nacl_ops pp fresh) = nacl_readByte pp" "readI16_virt (nacl_ops pp fresh) = nacl_readI16 pp"
    "readI32_virt (nacl_ops pp fresh) = nacl_readI32 pp" "readI64_virt (nacl_ops pp fresh) = nacl_readI64 pp"
    "readDouble_virt (nacl_ops pp fresh) = nacl_readDouble pp"
    "readString_virt (nacl_ops pp fresh) = nacl_readString pp" by (simp_all add: nacl_ops_def)
  show ?thesis using assms by (cases v; cases ty) (auto intro!: reads_mapM reads_small reads_i64 reads_base simp: ttype_defs)
qed

section \<open>Fields by name\<close>

lemma field_begin:
  assumes "reader_stack s = c # cs" and "dict_cursor (heap s) c ks m" and "rindex c < length ks"
    and "m (AsString pp (ks ! rindex c)) = Some y" and "denotes pp view F y t"
  shows "nacl_readFieldBegin pp s = (Inr ((Some (AsString pp (ks ! rindex c)), T_UNKNOWN, kFieldIdUnknown), 0), s)"
proof -
  have "is_string pp (ks ! rindex c)" using assms(2,3) by (simp add: dict_cursor_def is_string_def)
  moreover have "\<not> is_null pp y" "\<not> is_undefined pp y"
    using denotes_set [OF assms(5)] by (simp_all add: is_null_def is_undefined_def)
  ultimately show ?thesis
    using assms(1,3) dict_cursor_entry [OF assms(2-4)] dict_cursor_end [OF assms(2)]
    by (simp add: nacl_readFieldBegin_def topReaderContext_def onHeap_def monad_simps)
qed

lemma field_stop:
  assumes "reader_stack s = c # cs" and "dict_cursor (heap s) c ks m" and "rindex c = length ks"
  shows "nacl_readFieldBegin pp s = (Inr ((None, T_STOP, 0), 0), s)"
  using assms(1,3) dict_cursor_end [OF assms(2)]
  by (simp add: nacl_readFieldBegin_def topReaderContext_def onHeap_def monad_simps)

text \<open>The entry of the key \<open>k\<close> is the tree of the field \<open>f\<close>, and \<open>rd\<close> can read it.\<close>

definition names_field ::
  "(t_type \<Rightarrow> tval option \<Rightarrow> ('h, 'v, tval \<times> uint32_t) NM) \<Rightarrow> t_field list \<Rightarrow> (byte list \<rightharpoonup> 'v) \<Rightarrow> 'v set \<Rightarrow> 'h \<Rightarrow>
   'v \<Rightarrow> (byte list \<times> int16_t) \<times> tval \<Rightarrow> bool" where
  "names_field rd flds m F h k f \<longleftrightarrow>
     (\<exists>nm fid v y req ty. f = ((nm, fid), v) \<and> AsString pp k = nm \<and> m nm = Some y
        \<and> denotes pp (content h) F y (tree v) \<and> find_field fid flds = Some ((nm, fid, req), ty)
        \<and> reads (rd ty None) (tree v) (same v))"

lemma names_field_later:
  "names_field rd flds m F h k f \<Longrightarrow> F \<subseteq> alloc h \<Longrightarrow> later h h' \<Longrightarrow> names_field rd flds m F h' k f"
  unfolding names_field_def using denotes_later by blast

lemma read_one_named:
  assumes "reads (rd ty None) t Q" and "find_field fid flds = Some ((nm, fid, req), ty)"
    and "nacl_readVar pp s = (Inr x, s1)" and "F \<subseteq> alloc (heap s1)" and "denotes pp (content (heap s1)) F x t"
    and "fid \<notin> (\<lambda>f. snd (fst f)) ` set acc"
  obtains v h where "read_one_field rd sk flds [] (type_to_enum ty) fid acc s
      = (Inr (acc @ [((nm, fid), v)], 0), s1\<lparr>heap := h\<rparr>)" "later (heap s1) h" "Q v"
proof -
  from readsD [OF assms(1,3,4,5)] obtain v h where v: "rd ty None s = (Inr (v, 0), s1\<lparr>heap := h\<rparr>)"
    "later (heap s1) h" "Q v" .
  have "set_field (nm, fid) v acc = acc @ [((nm, fid), v)]" using assms(6) by (intro set_field_new) simp
  with current_new [OF assms(6)] show thesis by (intro that [of v h] v(2,3)) (simp add: read_one_field_def assms(2) bindM_def returnM_def v(1))
qed

lemma named_fields_loop:
  assumes names: "distinct (map (\<lambda>f. fst (fst f)) flds)"
  shows "\<lbrakk>list_all2 (names_field rd flds m F (heap s)) ks2 gs; F \<subseteq> alloc (heap s);
      reader_stack s = c # cs; dict_cursor (heap s) c (ks1 @ ks2) m; rtype c = DICTIONARY_CONTEXT;
      rindex c = length ks1; distinct (map (\<lambda>f. snd (fst f)) (acc @ gs)); length ks2 < n\<rbrakk> \<Longrightarrow>
    \<exists>fs' h. read_named_fields n (nacl_ops pp fresh) rd sk flds [] acc s
        = (Inr (acc @ fs', 0), s\<lparr>reader_stack := c\<lparr>rindex := length (ks1 @ ks2)\<rparr> # cs, heap := h\<rparr>)
      \<and> later (heap s) h \<and> list_all2 (\<lambda>f g. fst f = fst g \<and> same (snd f) (snd g)) gs fs'"
proof (induction ks2 arbitrary: gs s c ks1 acc n)
  case Nil
  then obtain k where n: "n = Suc k" by (cases n) auto
  have "nacl_readFieldBegin pp s = (Inr ((None, T_STOP, 0), 0), s)" using Nil field_stop [of s c cs ks1 m] by simp
  moreover have "s = s\<lparr>reader_stack := c\<lparr>rindex := length (ks1 @ [])\<rparr> # cs, heap := heap s\<rparr>" using Nil by simp
  ultimately have "read_named_fields n (nacl_ops pp fresh) rd sk flds [] acc s
      = (Inr (acc @ [], 0), s\<lparr>reader_stack := c\<lparr>rindex := length (ks1 @ [])\<rparr> # cs, heap := heap s\<rparr>)"
    by (simp add: n nacl_ops_def bindM_def returnM_def)
  moreover have "list_all2 (\<lambda>f g. fst f = fst g \<and> same (snd f) (snd g)) gs []" using Nil by simp
  ultimately show ?case using later_refl by blast
next
  case (Cons k ks2)
  then obtain j where n: "n = Suc j" "length ks2 < j" by (cases n) auto
  let ?P = "nacl_ops pp fresh" and ?ks = "ks1 @ k # ks2"
  obtain g gs' where gs: "gs = g # gs'" "names_field rd flds m F (heap s) k g"
    "list_all2 (names_field rd flds m F (heap s)) ks2 gs'" using Cons.prems(1) by (auto simp: list_all2_Cons1)
  then obtain nm fid v y req ty where f: "g = ((nm, fid), v)" "AsString pp k = nm" "m nm = Some y"
    "denotes pp (content (heap s)) F y (tree v)" "find_field fid flds = Some ((nm, fid, req), ty)"
    "reads (rd ty None) (tree v) (same v)" unfolding names_field_def by auto
  have at: "rindex c < length ?ks" "?ks ! rindex c = k" using Cons.prems(6) by simp_all
  let ?s1 = "s\<lparr>reader_stack := c\<lparr>rindex := Suc (rindex c)\<rparr> # cs\<rparr>"
  have begin': "readFieldBegin_virt ?P s = (Inr ((Some nm, T_UNKNOWN, kFieldIdUnknown), 0), s)"
    using field_begin [OF Cons.prems(3,4) at(1) _ f(4)] at f by (simp add: nacl_ops_def)
  have resolve: "resolve_field flds (Some nm) T_UNKNOWN kFieldIdUnknown = (type_to_enum ty, fid)"
    by (rule resolve_named [OF f(5) names])
  have var: "nacl_readVar pp s = (Inr y, ?s1)"
    using read_dict_value [OF Cons.prems(3,4) at(1) _ Cons.prems(5)] at f by simp
  have new: "fid \<notin> (\<lambda>f. snd (fst f)) ` set acc" using Cons.prems(7) gs f by auto
  from Cons.prems(2) f(4) have F: "F \<subseteq> alloc (heap ?s1)" "denotes pp (content (heap ?s1)) F y (tree v)" by simp_all
  obtain v' h1 where r: "read_one_field rd sk flds [] (type_to_enum ty) fid acc s
      = (Inr (acc @ [((nm, fid), v')], 0), ?s1\<lparr>heap := h1\<rparr>)" "later (heap ?s1) h1" "same v v'"
    by (rule read_one_named [where ?s1.0 = ?s1 and rd = rd and Q = "same v" and ty = ty and t = "tree v" and x = y
        and F = F, OF f(6,5) var F new])
  let ?s2 = "?s1\<lparr>heap := h1\<rparr>" and ?c = "c\<lparr>rindex := Suc (rindex c)\<rparr>"
  have l: "later (heap s) h1" using r(2) by simp
  have "\<exists>fs' h. read_named_fields j ?P rd sk flds [] (acc @ [((nm, fid), v')]) ?s2
      = (Inr ((acc @ [((nm, fid), v')]) @ fs', 0),
         ?s2\<lparr>reader_stack := ?c\<lparr>rindex := length ((ks1 @ [k]) @ ks2)\<rparr> # cs, heap := h\<rparr>)
      \<and> later (heap ?s2) h \<and> list_all2 (\<lambda>f g. fst f = fst g \<and> same (snd f) (snd g)) gs' fs'"
  proof (rule Cons.IH)
    show "list_all2 (names_field rd flds m F (heap ?s2)) ks2 gs'"
      using gs(3) by (rule list_all2_mono) (simp add: names_field_later [OF _ Cons.prems(2) l])
    show "F \<subseteq> alloc (heap ?s2)" using Cons.prems(2) l by (auto simp: later_def)
    show "dict_cursor (heap ?s2) ?c ((ks1 @ [k]) @ ks2) m"
      using dict_cursor_later [OF Cons.prems(4) l] by (simp add: dict_cursor_def)
  qed (use Cons.prems gs f n in auto)
  then obtain fs' h where rest: "read_named_fields j ?P rd sk flds [] (acc @ [((nm, fid), v')]) ?s2
      = (Inr (acc @ ((nm, fid), v') # fs', 0), s\<lparr>reader_stack := c\<lparr>rindex := length ?ks\<rparr> # cs, heap := h\<rparr>)"
    "later h1 h" "list_all2 (\<lambda>f g. fst f = fst g \<and> same (snd f) (snd g)) gs' fs'" by auto
  have "readFieldEnd_virt ?P = returnM 0" by (simp add: nacl_ops_def nacl_readFieldEnd_def)
  then have "read_named_fields n ?P rd sk flds [] acc s
      = (Inr (acc @ ((nm, fid), v') # fs', 0), s\<lparr>reader_stack := c\<lparr>rindex := length ?ks\<rparr> # cs, heap := h\<rparr>)"
    unfolding n(1) read_named_fields.simps by (simp add: bindM_def begin' ttype_defs resolve [unfolded ttype_defs] r(1) returnM_def rest(1))
  moreover have "later (heap s) h" using l rest(2) by (rule later_trans)
  moreover have "list_all2 (\<lambda>f g. fst f = fst g \<and> same (snd f) (snd g)) gs (((nm, fid), v') # fs')"
    using rest(3) r(3) gs(1) f(1) by simp
  ultimately show ?case by blast
qed

section \<open>Structs\<close>

lemma open_dictionary:
  assumes "x \<in> alloc h" and "var_type pp x = PP_VARTYPE_DICTIONARY" and "content h x = Dict m"
    and "type = DICTIONARY_CONTEXT \<or> type = MAP_KEY_CONTEXT"
  obtains c ks h' where "newReaderContext pp x type h = (Inr c, h')" "later h h'" "dict_cursor h' c ks m"
    "rtype c = type" "rindex c = 0" "rvar c = x" "distinct (map (AsString pp) ks)" "set (map (AsString pp) ks) = dom m"
proof -
  obtain a0 h0 where new: "newVarArray pp h = (a0, h0)" by (cases "newVarArray pp h")
  obtain a h' where keys: "dict_GetKeys pp x h0 = (a, h')" by (cases "dict_GetKeys pp x h0")
  have x: "x \<in> alloc h0" "content h0 x = Dict m" using new_array [OF new] assms by auto
  obtain ks where ks: "content h' a = Arr ks" "\<forall>k\<in>set ks. var_type pp k = PP_VARTYPE_STRING"
    "distinct (map (AsString pp) ks)" "set (map (AsString pp) ks) = dom m"
    using get_keys [OF x keys] by auto
  have "later h h'" using new_array [OF new] get_keys [OF x keys] by (auto simp: later_def)
  moreover have "dict_cursor h' \<lparr>rvar = x, rkeys = a, rtype = type, rindex = 0\<rparr> ks m"
    using get_keys [OF x keys] assms x ks by (auto simp: dict_cursor_def)
  ultimately show thesis
    using that [of "\<lparr>rvar = x, rkeys = a, rtype = type, rindex = 0\<rparr>" h' ks] ks assms(2,4) new keys
    by (auto simp: newReaderContext_def is_dictionary_def)
qed

lemma struct_begin:
  assumes "nacl_readVar pp s = (Inr x, s1)" and "newReaderContext pp x DICTIONARY_CONTEXT (heap s1) = (Inr c, h')"
    and "var_type pp x = PP_VARTYPE_DICTIONARY" and "rvar c = x"
  shows "nacl_readStructBegin pp s = (Inr (None, 0), s1\<lparr>reader_stack := c # reader_stack s1, heap := h'\<rparr>)"
  using assms by (simp add: nacl_readStructBegin_def createReaderDictionaryContext_def pushReaderContext_def
      is_dictionary_def onHeap_def monad_simps)

lemma pop_reader:
  "bindM popReaderContext (\<lambda>_. returnM 0) (s\<lparr>reader_stack := c # cs, heap := h\<rparr>) = (Inr 0, s\<lparr>reader_stack := cs, heap := h\<rparr>)"
  by (simp add: popReaderContext_def monad_simps)

lemma required_set_ids: "map fst fs = map fst gs \<Longrightarrow> required_set flds fs = required_set flds gs"
proof -
  assume "map fst fs = map fst gs"
  then have "map (\<lambda>f. snd (fst f)) fs = map (\<lambda>f. snd (fst f)) gs"
    by (metis (no_types, lifting) comp_def map_eq_conv map_map)
  then have "set (map (\<lambda>f. snd (fst f)) fs) = set (map (\<lambda>f. snd (fst f)) gs)" by (simp only:)
  then show ?thesis by (simp add: required_set_def)
qed

lemma required_set_mset: "mset fs = mset gs \<Longrightarrow> required_set flds fs = required_set flds gs"
  by (drule mset_eq_setD) (simp add: required_set_def)

lemma reads_struct:
  assumes names: "distinct (map (\<lambda>f. fst (fst f)) flds)"
    and fields: "\<And>nm fid v. ((nm, fid), v) \<in> set fs \<Longrightarrow> \<exists>req ty. find_field fid flds = Some ((nm, fid, req), ty)
      \<and> reads (nacl_read fuel pp fresh ty) (tree v) (same v)"
    and dist: "distinct (map (\<lambda>f. fst (fst f)) fs)" "distinct (map (\<lambda>f. snd (fst f)) fs)"
    and req: "required_set flds fs" and fuel: "length fs < fuel"
  shows "reads (nacl_read (Suc fuel) pp fresh (TyStruct nm flds)) (JDict (tree_fields fs)) (same (VStruct nm fs))"
  unfolding reads_def
proof (intro allI impI, elim conjE)
  fix s s1 :: "('h, 'v) TNativeClientProtocol" and x F
  assume s: "nacl_readVar pp s = (Inr x, s1)" "F \<subseteq> alloc (heap s1)"
    and den: "denotes pp (content (heap s1)) F x (JDict (tree_fields fs))"
  from den obtain m where m: "var_type pp x = PP_VARTYPE_DICTIONARY" "x \<in> F" "content (heap s1) x = Dict m"
    "dom m = fst ` set (tree_fields fs)"
    "\<And>k t. (k, t) \<in> set (tree_fields fs) \<Longrightarrow> \<exists>y. m k = Some y \<and> denotes pp (content (heap s1)) F y t"
    by (auto simp: denotes_dict)
  obtain c ks h1 where c: "newReaderContext pp x DICTIONARY_CONTEXT (heap s1) = (Inr c, h1)" "later (heap s1) h1"
    "dict_cursor h1 c ks m" "rtype c = DICTIONARY_CONTEXT" "rindex c = 0" "rvar c = x"
    "distinct (map (AsString pp) ks)" "set (map (AsString pp) ks) = dom m"
  proof (rule open_dictionary [of x "heap s1" m DICTIONARY_CONTEXT])
    show "x \<in> alloc (heap s1)" using m(2) s(2) by blast
  qed (use m in simp_all)
  have "set (map (AsString pp) ks) = (\<lambda>f. fst (fst f)) ` set fs"
    unfolding c(8) m(4) using arg_cong [OF fst_tree_fields [of fs], of set] by simp
  then obtain gs where gs: "map (\<lambda>f. fst (fst f)) gs = map (AsString pp) ks" "mset gs = mset fs"
    by (rule reorder [OF c(7) dist(1)])
  have set: "set gs = set fs" using gs(2) by (rule mset_eq_setD)
  let ?s = "s1\<lparr>reader_stack := c # reader_stack s1, heap := h1\<rparr>"
  have F: "F \<subseteq> alloc h1" using s(2) c(2) by (auto simp: later_def)
  have "list_all2 (\<lambda>k f. AsString pp k = fst (fst f)) ks gs"
    using gs(1) by (rule list_all2_of_map)
  then have named: "list_all2 (names_field (nacl_read_into fuel pp fresh) flds m F (heap ?s)) ks gs"
  proof (rule list.rel_mono_strong)
    fix k f assume k: "f \<in> set gs" "AsString pp k = fst (fst f)"
    obtain n i v where f: "f = ((n, i), v)" by (metis surj_pair)
    then have mem: "((n, i), v) \<in> set fs" using k(1) set by simp
    then have "(n, tree v) \<in> set (tree_fields fs)" by (auto simp: set_tree_fields)
    then obtain y where "m n = Some y" "denotes pp (content (heap s1)) F y (tree v)" using m(5) by blast
    moreover have "denotes pp (content (heap ?s)) F y (tree v)"
      using denotes_later [OF calculation(2) s(2) c(2)] by simp
    ultimately show "names_field (nacl_read_into fuel pp fresh) flds m F (heap ?s) k f"
      using fields [OF mem] k(2) f unfolding names_field_def by auto
  qed
  have "length ks < fuel" using gs fuel by (metis length_map size_mset)
  moreover have "distinct (map (\<lambda>f. snd (fst f)) gs)"
    using dist(2) gs(2) by (metis mset_map mset_eq_imp_distinct_iff)
  ultimately obtain fs' h where r: "read_named_fields fuel (nacl_ops pp fresh) (nacl_read_into fuel pp fresh) (nacl_skip pp) flds [] [] ?s
      = (Inr (fs', 0), s1\<lparr>reader_stack := c\<lparr>rindex := length ks\<rparr> # reader_stack s1, heap := h\<rparr>)"
    "later h1 h" "list_all2 (\<lambda>f g. fst f = fst g \<and> same (snd f) (snd g)) gs fs'"
    using named_fields_loop [OF names named, of c "reader_stack s1" "[]" "[]" fuel fresh "nacl_skip pp"] F c(3,4,5) by auto
  have "map fst gs = map fst fs'" using r(3) by (induction rule: list_all2_induct) simp_all
  then have ok: "required_set flds fs'" using req required_set_ids required_set_mset gs(2) by metis
  have "map (\<lambda>f. snd (fst f)) fs' = map (\<lambda>f. snd (fst f)) gs"
    using arg_cong [OF \<open>map fst gs = map fst fs'\<close>, of "map snd"] by (simp add: comp_def)
  then have all: "overlay [] fs' = fs'"
    using \<open>distinct (map (\<lambda>f. snd (fst f)) gs)\<close> by (intro overlay_new) simp
  have begin': "readStructBegin_virt (nacl_ops pp fresh) s = (Inr (None, 0), ?s)"
    using struct_begin [OF s(1) c(1) m(1) c(6)] by (simp add: nacl_ops_def)
  have fin: "readStructEnd_virt (nacl_ops pp fresh) (s1\<lparr>reader_stack := c' # cs, heap := h\<rparr>)
      = (Inr 0, s1\<lparr>reader_stack := cs, heap := h\<rparr>)" for c' cs
    using pop_reader by (simp add: nacl_ops_def nacl_readStructEnd_def)
  have "nacl_read (Suc fuel) pp fresh (TyStruct nm flds) s = (Inr (VStruct nm fs', 0), s1\<lparr>heap := h\<rparr>)"
    by (simp add: bindM_def begin' r(1) fin ok all returnM_def)
  moreover have "later (heap s1) h" using c(2) r(2) by (rule later_trans)
  moreover have "same (VStruct nm fs) (VStruct nm fs')" using gs(2) r(3) by (rule same_struct)
  ultimately show "\<exists>v h. nacl_read (Suc fuel) pp fresh (TyStruct nm flds) s = (Inr (v, 0), s1\<lparr>heap := h\<rparr>)
      \<and> later (heap s1) h \<and> same (VStruct nm fs) v" by blast
qed

section \<open>Maps, lists and sets\<close>

definition entry_of ::
  "('h, 'v, tval \<times> uint32_t) NM \<Rightarrow> (tval option \<Rightarrow> ('h, 'v, tval \<times> uint32_t) NM) \<Rightarrow> (byte list \<rightharpoonup> 'v) \<Rightarrow> 'v set \<Rightarrow> 'h \<Rightarrow>
   'v \<Rightarrow> tval \<times> tval \<Rightarrow> bool" where
  "entry_of rk rv m F h k f \<longleftrightarrow>
     (\<exists>n v y. f = (VString n, v) \<and> AsString pp k = n \<and> m n = Some y \<and> denotes pp (content h) F y (tree v)
        \<and> reads rk (JStr n) (\<lambda>u. u = VString n) \<and> reads (rv None) (tree v) (same v))"

lemma entry_of_later:
  "entry_of rk rv m F h k f \<Longrightarrow> F \<subseteq> alloc h \<Longrightarrow> later h h' \<Longrightarrow> entry_of rk rv m F h' k f"
  unfolding entry_of_def using denotes_later by blast

lemma entries_loop:
  "\<lbrakk>list_all2 (entry_of rk rv m F (heap s)) ks2 gs; F \<subseteq> alloc (heap s);
      reader_stack s = c # cs; dict_cursor (heap s) c (ks1 @ ks2) m; rtype c = MAP_KEY_CONTEXT;
      rindex c = length ks1; distinct (map fst (acc @ gs))\<rbrakk> \<Longrightarrow>
    \<exists>kvs' h. read_loop (length ks2) (read_entry rk rv) acc s
        = (Inr (acc @ kvs', 0), s\<lparr>reader_stack := c\<lparr>rindex := length (ks1 @ ks2)\<rparr> # cs, heap := h\<rparr>)
      \<and> later (heap s) h \<and> list_all2 (\<lambda>f g. fst f = fst g \<and> same (snd f) (snd g)) gs kvs'"
proof (induction ks2 arbitrary: gs s c ks1 acc)
  case Nil
  then have "s = s\<lparr>reader_stack := c\<lparr>rindex := length (ks1 @ [])\<rparr> # cs, heap := heap s\<rparr>" by simp
  then have "read_loop (length []) (read_entry rk rv) acc s
      = (Inr (acc @ [], 0), s\<lparr>reader_stack := c\<lparr>rindex := length (ks1 @ [])\<rparr> # cs, heap := heap s\<rparr>)"
    by (simp add: returnM_def)
  moreover have "list_all2 (\<lambda>f g. fst f = fst g \<and> same (snd f) (snd g)) gs []" using Nil by simp
  ultimately show ?case using later_refl by blast
next
  case (Cons k ks2)
  let ?ks = "ks1 @ k # ks2"
  obtain g gs' where gs: "gs = g # gs'" "entry_of rk rv m F (heap s) k g"
    "list_all2 (entry_of rk rv m F (heap s)) ks2 gs'" using Cons.prems(1) by (auto simp: list_all2_Cons1)
  then obtain n v y where f: "g = (VString n, v)" "AsString pp k = n" "m n = Some y"
    "denotes pp (content (heap s)) F y (tree v)" "reads rk (JStr n) (\<lambda>u. u = VString n)"
    "reads (rv None) (tree v) (same v)" unfolding entry_of_def by auto
  have at: "rindex c < length ?ks" "?ks ! rindex c = k" using Cons.prems(6) by simp_all
  let ?c1 = "c\<lparr>rtype := MAP_VALUE_CONTEXT\<rparr>" and ?c2 = "c\<lparr>rindex := Suc (rindex c)\<rparr>"
  let ?s1 = "s\<lparr>reader_stack := ?c1 # cs\<rparr>"
  have key: "nacl_readVar pp s = (Inr k, ?s1)"
    using read_map_key [OF Cons.prems(3,4) at(1) _ Cons.prems(5)] at f by simp
  have "denotes pp (content (heap ?s1)) {} k (JStr n)"
    using Cons.prems(4) f(2) by (simp add: dict_cursor_def)
  from readsD [OF f(5) key _ this] obtain h1 where rk: "rk s = (Inr (VString n, 0), ?s1\<lparr>heap := h1\<rparr>)"
    "later (heap s) h1" by auto
  let ?s2 = "s\<lparr>reader_stack := ?c1 # cs, heap := h1\<rparr>"
  have cur: "dict_cursor (heap ?s2) ?c1 ?ks m"
    using dict_cursor_later [OF Cons.prems(4) rk(2)] by (simp add: dict_cursor_def)
  have "nacl_readVar pp ?s2
      = (Inr y, ?s2\<lparr>reader_stack := ?c1\<lparr>rtype := MAP_KEY_CONTEXT, rindex := Suc (rindex ?c1)\<rparr> # cs\<rparr>)"
    by (rule read_map_value [OF _ cur]) (use at f in simp_all)
  then have val: "nacl_readVar pp ?s2 = (Inr y, s\<lparr>reader_stack := ?c2 # cs, heap := h1\<rparr>)"
    using Cons.prems(5) by simp
  let ?s3 = "s\<lparr>reader_stack := ?c2 # cs, heap := h1\<rparr>"
  have F1: "F \<subseteq> alloc (heap ?s3)" using Cons.prems(2) rk(2) by (auto simp: later_def)
  have "denotes pp (content (heap ?s3)) F y (tree v)" using denotes_later [OF f(4) Cons.prems(2) rk(2)] by simp
  from readsD [OF f(6) val F1 this] obtain v' h2 where rv: "rv None ?s2 = (Inr (v', 0), ?s3\<lparr>heap := h2\<rparr>)"
    "later h1 h2" "same v v'" by auto
  have l: "later (heap s) h2" using rk(2) rv(2) by (rule later_trans)
  have new: "VString n \<notin> fst ` set acc" using Cons.prems(7) gs(1) f(1) by auto
  then have none: "map_of acc (VString n) = None" by (simp add: map_of_eq_None_iff)
  have put: "map_put (VString n) v' acc = acc @ [(VString n, v')]" using new by (rule map_put_new)
  let ?s4 = "s\<lparr>reader_stack := ?c2 # cs, heap := h2\<rparr>"
  have step: "read_entry rk rv acc s = (Inr (acc @ [(VString n, v')], 0), ?s4)"
    using rk(1) rv(1) by (simp add: read_entry_def bindM_def returnM_def put none)
  have "\<exists>kvs' h. read_loop (length ks2) (read_entry rk rv) (acc @ [(VString n, v')]) ?s4
      = (Inr ((acc @ [(VString n, v')]) @ kvs', 0),
         ?s4\<lparr>reader_stack := ?c2\<lparr>rindex := length ((ks1 @ [k]) @ ks2)\<rparr> # cs, heap := h\<rparr>)
      \<and> later (heap ?s4) h \<and> list_all2 (\<lambda>f g. fst f = fst g \<and> same (snd f) (snd g)) gs' kvs'"
  proof (rule Cons.IH)
    show "list_all2 (entry_of rk rv m F (heap ?s4)) ks2 gs'"
      using gs(3) by (rule list_all2_mono) (simp add: entry_of_later [OF _ Cons.prems(2) l])
    show "F \<subseteq> alloc (heap ?s4)" using Cons.prems(2) l by (auto simp: later_def)
    show "dict_cursor (heap ?s4) ?c2 ((ks1 @ [k]) @ ks2) m"
      using dict_cursor_later [OF Cons.prems(4) l] by (simp add: dict_cursor_def)
  qed (use Cons.prems gs f in auto)
  then obtain kvs' h where rest: "read_loop (length ks2) (read_entry rk rv) (acc @ [(VString n, v')]) ?s4
      = (Inr (acc @ (VString n, v') # kvs', 0), s\<lparr>reader_stack := c\<lparr>rindex := length ?ks\<rparr> # cs, heap := h\<rparr>)"
    "later h2 h" "list_all2 (\<lambda>f g. fst f = fst g \<and> same (snd f) (snd g)) gs' kvs'" by auto
  have "read_loop (length (k # ks2)) (read_entry rk rv) acc s
      = (Inr (acc @ (VString n, v') # kvs', 0), s\<lparr>reader_stack := c\<lparr>rindex := length ?ks\<rparr> # cs, heap := h\<rparr>)"
    by (simp add: bindM_def step rest(1) returnM_def)
  moreover have "later (heap s) h" using l rest(2) by (rule later_trans)
  moreover have "list_all2 (\<lambda>f g. fst f = fst g \<and> same (snd f) (snd g)) gs ((VString n, v') # kvs')"
    using rest(3) rv(3) gs(1) f(1) by simp
  ultimately show ?case by blast
qed

lemma elements_loop:
  "\<lbrakk>list_all2 (\<lambda>x v. denotes pp (content (heap s)) F x (tree v) \<and> reads rd (tree v) (same v)) xs2 vs;
      F \<subseteq> alloc (heap s); reader_stack s = c # cs; array_cursor (heap s) c (xs1 @ xs2); rindex c = length xs1\<rbrakk> \<Longrightarrow>
    \<exists>vs' h. read_loop (length xs2) (read_element rd add) acc s
        = (Inr (foldl (\<lambda>a v. add v a) acc vs', 0), s\<lparr>reader_stack := c\<lparr>rindex := length (xs1 @ xs2)\<rparr> # cs, heap := h\<rparr>)
      \<and> later (heap s) h \<and> list_all2 same vs vs'"
proof (induction xs2 arbitrary: vs s c xs1 acc)
  case Nil
  then have "s = s\<lparr>reader_stack := c\<lparr>rindex := length (xs1 @ [])\<rparr> # cs, heap := heap s\<rparr>" by simp
  then have "read_loop (length []) (read_element rd add) acc s
      = (Inr (foldl (\<lambda>a v. add v a) acc [], 0), s\<lparr>reader_stack := c\<lparr>rindex := length (xs1 @ [])\<rparr> # cs, heap := heap s\<rparr>)"
    by (simp add: returnM_def)
  moreover have "list_all2 same vs []" using Nil by simp
  ultimately show ?case using later_refl by blast
next
  case (Cons x xs2)
  let ?xs = "xs1 @ x # xs2" and ?c = "c\<lparr>rindex := Suc (rindex c)\<rparr>"
  obtain v vs' where vs: "vs = v # vs'" "denotes pp (content (heap s)) F x (tree v)" "reads rd (tree v) (same v)"
    "list_all2 (\<lambda>x v. denotes pp (content (heap s)) F x (tree v) \<and> reads rd (tree v) (same v)) xs2 vs'"
    using Cons.prems(1) by (auto simp: list_all2_Cons1)
  have at: "rindex c < length ?xs" "?xs ! rindex c = x" using Cons.prems(5) by simp_all
  let ?s1 = "s\<lparr>reader_stack := ?c # cs\<rparr>"
  have var: "nacl_readVar pp s = (Inr x, ?s1)"
    using read_element_value [OF Cons.prems(3,4) at(1)] at by simp
  have F1: "F \<subseteq> alloc (heap ?s1)" "denotes pp (content (heap ?s1)) F x (tree v)" using Cons.prems(2) vs(2) by simp_all
  from readsD [OF vs(3) var F1] obtain w h1 where r: "rd s = (Inr (w, 0), ?s1\<lparr>heap := h1\<rparr>)"
    "later (heap s) h1" "same v w" by auto
  let ?s2 = "s\<lparr>reader_stack := ?c # cs, heap := h1\<rparr>"
  have step: "read_element rd add acc s = (Inr (add w acc, 0), ?s2)"
    using r(1) by (simp add: read_element_def bindM_def returnM_def)
  have "\<exists>ws h. read_loop (length xs2) (read_element rd add) (add w acc) ?s2
      = (Inr (foldl (\<lambda>a v. add v a) (add w acc) ws, 0),
         ?s2\<lparr>reader_stack := ?c\<lparr>rindex := length ((xs1 @ [x]) @ xs2)\<rparr> # cs, heap := h\<rparr>)
      \<and> later (heap ?s2) h \<and> list_all2 same vs' ws"
  proof (rule Cons.IH)
    show "list_all2 (\<lambda>x v. denotes pp (content (heap ?s2)) F x (tree v) \<and> reads rd (tree v) (same v)) xs2 vs'"
      using vs(4) by (rule list_all2_mono) (use denotes_later [OF _ Cons.prems(2) r(2)] in auto)
    show "F \<subseteq> alloc (heap ?s2)" using Cons.prems(2) r(2) by (auto simp: later_def)
    show "array_cursor (heap ?s2) ?c ((xs1 @ [x]) @ xs2)"
      using array_cursor_later [OF Cons.prems(4) r(2)] by (simp add: array_cursor_def)
  qed (use Cons.prems in auto)
  then obtain ws h where rest: "read_loop (length xs2) (read_element rd add) (add w acc) ?s2
      = (Inr (foldl (\<lambda>a v. add v a) acc (w # ws), 0), s\<lparr>reader_stack := c\<lparr>rindex := length ?xs\<rparr> # cs, heap := h\<rparr>)"
    "later h1 h" "list_all2 same vs' ws" by auto
  have "read_loop (length (x # xs2)) (read_element rd add) acc s
      = (Inr (foldl (\<lambda>a v. add v a) acc (w # ws), 0), s\<lparr>reader_stack := c\<lparr>rindex := length ?xs\<rparr> # cs, heap := h\<rparr>)"
    using rest(1) by (simp add: bindM_def step returnM_def)
  moreover have "later (heap s) h" using r(2) rest(2) by (rule later_trans)
  moreover have "list_all2 same vs (w # ws)" using rest(3) r(3) vs(1) by simp
  ultimately show ?case by blast
qed

lemma map_begin:
  assumes "nacl_readVar pp s = (Inr x, s1)" and "newReaderContext pp x MAP_KEY_CONTEXT (heap s1) = (Inr c, h')"
    and "dict_cursor h' c ks m" and "rvar c = x"
  shows "nacl_readMapBegin pp s
    = (Inr ((T_STOP, T_STOP, word_of_nat (length ks)), 0), s1\<lparr>reader_stack := c # reader_stack s1, heap := h'\<rparr>)"
proof -
  have "is_dictionary pp x" using assms(3,4) by (simp add: dict_cursor_def is_dictionary_def)
  then show ?thesis
    using assms dict_cursor_size [OF assms(3)]
    by (simp add: nacl_readMapBegin_def createReaderMapContext_def pushReaderContext_def onHeap_def monad_simps)
qed

lemma list_begin:
  assumes "nacl_readVar pp s = (Inr x, s1)" and "x \<in> alloc (heap s1)"
    and "var_type pp x = PP_VARTYPE_ARRAY" and "content (heap s1) x = Arr xs"
  obtains c h' where "nacl_readListBegin pp s
      = (Inr ((T_STOP, word_of_nat (length xs)), 0), s1\<lparr>reader_stack := c # reader_stack s1, heap := h'\<rparr>)"
    "later (heap s1) h'" "array_cursor h' c xs" "rindex c = 0"
proof -
  obtain a h' where new: "newVarArray pp (heap s1) = (a, h')" by (cases "newVarArray pp (heap s1)")
  let ?c = "\<lparr>rvar = x, rkeys = a, rtype = LIST_CONTEXT, rindex = 0\<rparr>"
  have c: "newReaderContext pp x LIST_CONTEXT (heap s1) = (Inr ?c, h')"
    using new assms(3) by (simp add: newReaderContext_def is_dictionary_def is_array_def)
  have l: "later (heap s1) h'" using new_array [OF new] by (auto simp: later_def)
  then have cur: "array_cursor h' ?c xs" using assms by (auto simp: array_cursor_def later_def)
  show thesis
    by (rule that [of h' ?c])
      (use assms c l cur array_cursor_size [OF cur] in \<open>simp_all add: nacl_readListBegin_def
        createReaderListContext_def pushReaderContext_def is_array_def onHeap_def monad_simps\<close>)
qed

lemma string_keys:
  assumes "nacl_ok_pairs okStr kvs" and "(k, v) \<in> set kvs"
  obtains n where "k = VString n" "okStr n" "nacl_ok okStr v"
proof -
  have "is_string_key okStr k \<and> nacl_ok okStr v" using assms by (induction kvs) auto
  then show thesis using that by (auto elim: is_string_keyE)
qed

lemma reads_map:
  assumes ok: "nacl_ok_pairs okStr kvs" "distinct (map fst kvs)" "length kvs < 2 ^ 31"
    and key: "\<And>k v. (k, v) \<in> set kvs \<Longrightarrow> reads (nacl_read fuel pp fresh kty) (JStr (string_of k)) (\<lambda>u. u = k)"
    and val: "\<And>k v. (k, v) \<in> set kvs \<Longrightarrow> reads (nacl_read fuel pp fresh vty) (tree v) (same v)"
  shows "reads (nacl_read (Suc fuel) pp fresh (TyMap kty vty)) (JDict (tree_pairs kvs))
    (same (VMap (type_to_enum kty) (type_to_enum vty) kvs))"
  unfolding reads_def
proof (intro allI impI, elim conjE)
  fix s s1 :: "('h, 'v) TNativeClientProtocol" and x F
  assume s: "nacl_readVar pp s = (Inr x, s1)" "F \<subseteq> alloc (heap s1)"
    and den: "denotes pp (content (heap s1)) F x (JDict (tree_pairs kvs))"
  from den obtain m where m: "var_type pp x = PP_VARTYPE_DICTIONARY" "x \<in> F" "content (heap s1) x = Dict m"
    "dom m = fst ` set (tree_pairs kvs)"
    "\<And>k t. (k, t) \<in> set (tree_pairs kvs) \<Longrightarrow> \<exists>y. m k = Some y \<and> denotes pp (content (heap s1)) F y t"
    by (auto simp: denotes_dict)
  obtain c ks h1 where c: "newReaderContext pp x MAP_KEY_CONTEXT (heap s1) = (Inr c, h1)" "later (heap s1) h1"
    "dict_cursor h1 c ks m" "rtype c = MAP_KEY_CONTEXT" "rindex c = 0" "rvar c = x"
    "distinct (map (AsString pp) ks)" "set (map (AsString pp) ks) = dom m"
  proof (rule open_dictionary [of x "heap s1" m MAP_KEY_CONTEXT])
    show "x \<in> alloc (heap s1)" using m(2) s(2) by blast
  qed (use m in simp_all)
  let ?key = "\<lambda>f. string_of (fst f)"
  have pairs: "map fst (tree_pairs kvs) = map ?key kvs" by (induction kvs) auto
  have "fst f = VString (?key f)" if "f \<in> set kvs" for f
    using that string_keys [OF ok(1), of "fst f" "snd f"] by (metis prod.collapse string_of.simps(1))
  then have "map fst kvs = map (\<lambda>f. VString (?key f)) kvs" by (intro map_cong) auto
  also have "\<dots> = map VString (map ?key kvs)" by simp
  finally have dist: "distinct (map ?key kvs)" using ok(2) by (metis distinct_map)
  have "set (map (AsString pp) ks) = ?key ` set kvs"
    unfolding c(8) m(4) using arg_cong [OF pairs, of set] by simp
  then obtain gs where gs: "map ?key gs = map (AsString pp) ks" "mset gs = mset kvs"
    by (rule reorder [OF c(7) dist])
  have set: "set gs = set kvs" using gs(2) by (rule mset_eq_setD)
  let ?s = "s1\<lparr>reader_stack := c # reader_stack s1, heap := h1\<rparr>"
  have F: "F \<subseteq> alloc h1" using s(2) c(2) by (auto simp: later_def)
  have "list_all2 (\<lambda>k f. AsString pp k = ?key f) ks gs"
    using gs(1) by (rule list_all2_of_map)
  then have entries: "list_all2 (entry_of (nacl_read fuel pp fresh kty) (nacl_read_into fuel pp fresh vty) m F (heap ?s)) ks gs"
  proof (rule list.rel_mono_strong)
    fix k f assume k: "f \<in> set gs" "AsString pp k = ?key f"
    obtain u v where f: "f = (u, v)" by (cases f)
    then have mem: "(u, v) \<in> set kvs" using k(1) set by simp
    from string_keys [OF ok(1) mem] obtain n where n: "u = VString n" by blast
    have "(n, tree v) \<in> set (tree_pairs kvs)" using mem n by (force simp: set_tree_pairs)
    then obtain y where y: "m n = Some y" "denotes pp (content (heap s1)) F y (tree v)" using m(5) by blast
    have "denotes pp (content (heap ?s)) F y (tree v)" using denotes_later [OF y(2) s(2) c(2)] by simp
    then show "entry_of (nacl_read fuel pp fresh kty) (nacl_read_into fuel pp fresh vty) m F (heap ?s) k f"
      using key [OF mem] val [OF mem] k(2) f n y(1) unfolding entry_of_def by auto
  qed
  have len: "length ks = length kvs" using gs by (metis length_map size_mset)
  have n: "unat (word_of_nat (length ks) :: uint32_t) = length ks"
    using ok(3) len by (simp add: unat_of_nat)
  have "distinct (map fst gs)" using ok(2) gs(2) by (metis mset_map mset_eq_imp_distinct_iff)
  then obtain kvs' h where r: "read_loop (length ks) (read_entry (nacl_read fuel pp fresh kty) (nacl_read_into fuel pp fresh vty)) [] ?s
      = (Inr (kvs', 0), s1\<lparr>reader_stack := c\<lparr>rindex := length ks\<rparr> # reader_stack s1, heap := h\<rparr>)"
    "later h1 h" "list_all2 (\<lambda>f g. fst f = fst g \<and> same (snd f) (snd g)) gs kvs'"
    using entries_loop [OF entries, of c "reader_stack s1" "[]" "[]"] F c(3,4,5) by auto
  have begin': "readMapBegin_virt (nacl_ops pp fresh) s = (Inr ((T_STOP, T_STOP, word_of_nat (length ks)), 0), ?s)"
    using map_begin [OF s(1) c(1,3,6)] by (simp add: nacl_ops_def)
  have fin: "readMapEnd_virt (nacl_ops pp fresh) (s1\<lparr>reader_stack := c' # cs, heap := h\<rparr>)
      = (Inr 0, s1\<lparr>reader_stack := cs, heap := h\<rparr>)" for c' cs
    using pop_reader by (simp add: nacl_ops_def nacl_readMapEnd_def)
  have "nacl_read (Suc fuel) pp fresh (TyMap kty vty) s
      = (Inr (VMap (type_to_enum kty) (type_to_enum vty) kvs', 0), s1\<lparr>heap := h\<rparr>)"
    by (simp add: bindM_def begin' n r(1) fin returnM_def)
  moreover have "later (heap s1) h" using c(2) r(2) by (rule later_trans)
  moreover have "same (VMap (type_to_enum kty) (type_to_enum vty) kvs) (VMap (type_to_enum kty) (type_to_enum vty) kvs')"
    using gs(2) r(3) by (rule same_map)
  ultimately show "\<exists>v h. nacl_read (Suc fuel) pp fresh (TyMap kty vty) s = (Inr (v, 0), s1\<lparr>heap := h\<rparr>)
      \<and> later (heap s1) h \<and> same (VMap (type_to_enum kty) (type_to_enum vty) kvs) v" by blast
qed

text \<open>Lists and sets are read by the same calls.\<close>

lemma reads_array:
  assumes ok: "length vs < 2 ^ 31" and elems: "\<And>v. v \<in> set vs \<Longrightarrow> reads rd (tree v) (same v)"
    and result: "\<And>vs'. list_all2 same vs vs' \<Longrightarrow> Q (f (foldl (\<lambda>a v. add v a) [] vs'))"
    and run: "r = bindM (nacl_readListBegin pp) (\<lambda>((etype, sz), a).
       bindM (read_loop (unat sz) (read_element rd add) []) (\<lambda>(vs, b).
       bindM (bindM popReaderContext (\<lambda>_. returnM 0)) (\<lambda>c. returnM (f vs, a + (b + c)))))"
  shows "reads r (JArr (tree_elems vs)) Q"
  unfolding reads_def
proof (intro allI impI, elim conjE)
  fix s s1 :: "('h, 'v) TNativeClientProtocol" and x F
  assume s: "nacl_readVar pp s = (Inr x, s1)" "F \<subseteq> alloc (heap s1)"
    and "denotes pp (content (heap s1)) F x (JArr (tree_elems vs))"
  then obtain xs where xs: "var_type pp x = PP_VARTYPE_ARRAY" "x \<in> F" "content (heap s1) x = Arr xs"
    "list_all2 (denotes pp (content (heap s1)) F) xs (map tree vs)" by (auto simp: denotes_arr tree_elems_map)
  have "x \<in> alloc (heap s1)" using xs(2) s(2) by blast
  from list_begin [OF s(1) this xs(1,3)] obtain c h1 where c: "nacl_readListBegin pp s
      = (Inr ((T_STOP, word_of_nat (length xs)), 0), s1\<lparr>reader_stack := c # reader_stack s1, heap := h1\<rparr>)"
    "later (heap s1) h1" "array_cursor h1 c xs" "rindex c = 0" by metis
  let ?s = "s1\<lparr>reader_stack := c # reader_stack s1, heap := h1\<rparr>"
  have F: "F \<subseteq> alloc h1" using s(2) c(2) by (auto simp: later_def)
  have den: "list_all2 (\<lambda>x v. denotes pp (content (heap s1)) F x (tree v)) xs vs"
    using xs(4) by (simp add: list_all2_map2)
  have len: "length xs = length vs" using den by (rule list_all2_lengthD)
  have n: "unat (word_of_nat (length xs) :: uint32_t) = length xs" using ok len by (simp add: unat_of_nat)
  have "list_all2 (\<lambda>x v. denotes pp (content (heap ?s)) F x (tree v) \<and> reads rd (tree v) (same v)) xs vs"
    using den by (rule list.rel_mono_strong) (use elems denotes_later [OF _ s(2) c(2)] in simp)
  from elements_loop [OF this, of c "reader_stack s1" "[]" add "[]"] obtain vs' h where
    loop: "read_loop (length xs) (read_element rd add) [] ?s = (Inr (foldl (\<lambda>a v. add v a) [] vs', 0),
       s1\<lparr>reader_stack := c\<lparr>rindex := length xs\<rparr> # reader_stack s1, heap := h\<rparr>)"
    "later h1 h" "list_all2 same vs vs'" using F c(3,4) by auto
  have "r s = (Inr (f (foldl (\<lambda>a v. add v a) [] vs'), 0), s1\<lparr>heap := h\<rparr>)"
    unfolding run by (simp add: bindM_def c(1) n loop(1) popReaderContext_def returnM_def)
  moreover have "later (heap s1) h" using c(2) loop(2) by (rule later_trans)
  ultimately show "\<exists>v h. r s = (Inr (v, 0), s1\<lparr>heap := h\<rparr>) \<and> later (heap s1) h \<and> Q v"
    using result [OF loop(3)] by blast
qed

section \<open>Whole values\<close>

lemma foldl_snoc: "foldl (\<lambda>a v. a @ [v]) acc vs = acc @ vs"
  by (induction vs arbitrary: acc) simp_all

lemma foldl_set_insert: "distinct (acc @ vs) \<Longrightarrow> foldl (\<lambda>a v. set_insert v a) acc vs = acc @ vs"
  by (induction vs arbitrary: acc) (auto simp: set_insert_def)

lemma same_bases: "list_all2 same vs vs' \<Longrightarrow> list_all is_base vs \<Longrightarrow> vs' = vs"
  by (induction rule: list_all2_induct) (auto elim: same.cases)

lemma array_calls:
  "readListBegin_virt (nacl_ops pp fresh) = nacl_readListBegin pp"
  "readSetBegin_virt (nacl_ops pp fresh) = nacl_readListBegin pp"
  "readListEnd_virt (nacl_ops pp fresh) = bindM popReaderContext (\<lambda>_. returnM 0)"
  "readSetEnd_virt (nacl_ops pp fresh) = bindM popReaderContext (\<lambda>_. returnM 0)"
  by (simp_all add: nacl_ops_def nacl_readListBegin_def nacl_readSetBegin_def nacl_readListEnd_def nacl_readSetEnd_def)

lemma read_tree:
    "\<And>fuel ty. conforms ty v \<Longrightarrow> nacl_ok okStr v \<Longrightarrow> named ty \<Longrightarrow> size v + 2 \<le> fuel \<Longrightarrow>
      reads (nacl_read fuel pp fresh ty) (tree v) (same v)"
  and read_tree_fields: "\<And>fuel flds nm fid v. conforms_fields flds fs \<Longrightarrow> nacl_ok_fields okStr fs \<Longrightarrow>
      list_all (\<lambda>f. named (snd f)) flds \<Longrightarrow> fields_size fs \<le> fuel \<Longrightarrow> ((nm, fid), v) \<in> set fs \<Longrightarrow>
      \<exists>req ty. find_field fid flds = Some ((nm, fid, req), ty) \<and> reads (nacl_read fuel pp fresh ty) (tree v) (same v)"
  and read_tree_elems: "\<And>fuel e v. conforms_elems e vs \<Longrightarrow> nacl_ok_elems okStr vs \<Longrightarrow> named e \<Longrightarrow>
      size_list size vs + 1 \<le> fuel \<Longrightarrow> v \<in> set vs \<Longrightarrow> reads (nacl_read fuel pp fresh e) (tree v) (same v)"
  and read_tree_pairs: "\<And>fuel kty vty k v. conforms_pairs kty vty kvs \<Longrightarrow> nacl_ok_pairs okStr kvs \<Longrightarrow> named kty \<Longrightarrow>
      named vty \<Longrightarrow> pairs_size kvs \<le> fuel \<Longrightarrow> (k, v) \<in> set kvs \<Longrightarrow>
      reads (nacl_read fuel pp fresh kty) (JStr (string_of k)) (\<lambda>u. u = k)
      \<and> reads (nacl_read fuel pp fresh vty) (tree v) (same v)"
proof (induction v and fs and vs and kvs rule: tval_induct)
  case (base v)
  then obtain f where f: "fuel = Suc f" by (cases fuel) auto
  have "reads (nacl_read (Suc f) pp fresh ty) (tree_base v) (\<lambda>v'. v' = v)"
    using base by (intro read_base_value) (simp_all add: nacl_ok_base_value)
  then show ?case unfolding f tree_base_value [OF base(1)]
    by (rule reads_mono) (simp add: same_base base(1))
next
  case (struct nm fs)
  then obtain f where f: "fuel = Suc f" "fields_size fs + 2 \<le> f" by (cases fuel) auto
  obtain flds where ty: "ty = TyStruct nm flds" using struct.prems(1) by (cases ty) auto
  have "length fs \<le> fields_size fs" by (induction fs) simp_all
  then have "length fs < f" using f(2) by simp
  with struct f ty show ?case
    unfolding f(1) ty tree.simps by (intro reads_struct struct.IH) simp_all
next
  case (map kt vt kvs)
  then obtain f where f: "fuel = Suc f" "pairs_size kvs \<le> f" by (cases fuel) auto
  obtain k v where ty: "ty = TyMap k v" using map.prems(1) by (cases ty) auto
  have t: "kt = type_to_enum k" "vt = type_to_enum v" using map.prems(1) ty by simp_all
  show ?case unfolding f(1) ty t tree.simps
    using map.IH [of k v f] map.prems f ty by (intro reads_map) auto
next
  case (set et vs)
  then obtain f where f: "fuel = Suc f" "size_list size vs + 1 \<le> f" by (cases fuel) auto
  obtain e where ty: "ty = TySet e" using set.prems(1) by (cases ty) auto
  have et: "et = type_to_enum e" "distinct vs" "list_all is_base vs" using set.prems ty by simp_all
  show ?case unfolding f(1) ty et(1) tree.simps
  proof (rule reads_array [where add = set_insert and f = "VSet (type_to_enum e)" and rd = "nacl_read f pp fresh e"])
    fix vs' assume "list_all2 same vs vs'"
    then show "same (VSet (type_to_enum e) vs) (VSet (type_to_enum e) (foldl (\<lambda>a v. set_insert v a) [] vs'))"
      using same_bases [of vs vs'] et(2,3) by (auto simp: foldl_set_insert intro: same_set)
  qed (use set.IH [of e f] set.prems f ty in \<open>auto simp: array_calls\<close>)
next
  case (list et vs)
  then obtain f where f: "fuel = Suc f" "size_list size vs + 1 \<le> f" by (cases fuel) auto
  obtain e where ty: "ty = TyList e" using list.prems(1) by (cases ty) auto
  have et: "et = type_to_enum e" using list.prems ty by simp
  show ?case unfolding f(1) ty et tree.simps
  proof (rule reads_array [where add = "\<lambda>v vs. vs @ [v]" and f = "VList (type_to_enum e)" and rd = "nacl_read f pp fresh e"])
    fix vs' assume "list_all2 same vs vs'"
    then show "same (VList (type_to_enum e) vs) (VList (type_to_enum e) (foldl (\<lambda>a v. a @ [v]) [] vs'))"
      by (simp add: foldl_snoc same_list)
  qed (use list.IH [of e f] list.prems f ty in \<open>auto simp: array_calls\<close>)
next
  case (field n i w fs)
  then obtain req ty where f: "find_field i flds = Some ((n, i, req), ty)" "conforms ty w" "conforms_fields flds fs"
    by (auto split: option.splits prod.splits dest: find_field_key)
  show ?case
  proof (cases "((nm, fid), v) = ((n, i), w)")
    case True
    have "named ty" using find_field_in [OF f(1)] field.prems(3) by (auto simp: list_all_iff)
    with True f field show ?thesis by auto
  next
    case False
    then have "((nm, fid), v) \<in> set fs" using field.prems(5) by (meson set_ConsD)
    with f(3) field show ?thesis by simp
  qed
next
  case (elem w vs)
  then show ?case by auto
next
  case (pair x y kvs)
  then obtain n where x: "x = VString n" by (auto elim: is_string_keyE)
  then have "reads (nacl_read fuel pp fresh kty) (JStr n) (same (VString n))" using pair by simp
  then have "reads (nacl_read fuel pp fresh kty) (JStr n) (\<lambda>u. u = VString n)"
    by (rule reads_mono) (auto elim: same.cases)
  with pair x show ?case by auto
qed simp_all

lemma read_root:
  assumes "denotes pp (content h) F x (tree v)" and "F \<subseteq> alloc h"
    and "conforms ty v" and "nacl_ok okStr v" and "named ty" and "size v + 2 \<le> fuel"
  obtains v' h' where "nacl_read fuel pp fresh ty (newTNativeClientProtocol_from h x)
      = (Inr (v', 0), (newTNativeClientProtocol_from h x)\<lparr>heap := h'\<rparr>)" "later h h'" "same v v'"
proof -
  let ?s = "newTNativeClientProtocol_from h x"
  have "nacl_readVar pp ?s = (Inr x, ?s)" by (simp add: nacl_readVar_def newTNativeClientProtocol_from_def)
  moreover have "F \<subseteq> alloc (heap ?s)" "denotes pp (content (heap ?s)) F x (tree v)"
    using assms(1,2) by (simp_all add: newTNativeClientProtocol_from_def)
  ultimately obtain w h' where "nacl_read fuel pp fresh ty ?s = (Inr (w, 0), ?s\<lparr>heap := h'\<rparr>)"
    "later (heap ?s) h'" "same v w" by (rule readsD [OF read_tree [OF assms(3-6)]])
  moreover have "heap ?s = h" by (simp add: newTNativeClientProtocol_from_def)
  ultimately show thesis using that by simp
qed

end

section \<open>Writing and reading\<close>

definition nacl_sample_type :: t_type where
  "nacl_sample_type = TyStruct [83] [(([97], 1, T_REQUIRED), TyI32), (([98], 2, T_OPTIONAL), TyMap TyString TyI64),
     (([99], 3, T_OPTIONAL), TyList TyBool), (([100], 4, T_OPTIONAL), TySet TyByte)]"

lemma nacl_sample_facts:
  "conforms nacl_sample_type nacl_sample" "named nacl_sample_type" "size nacl_sample + 2 \<le> 100"
  by (simp_all add: nacl_sample_type_def nacl_sample_def find_field_def required_set_def)

text \<open>
  C1. A struct that the Native Client protocol has written, handed over as a variable, is read back by
  the patched generated reader of the same schema: fields are found by their names, and the result
  equals the original up to the order of fields and map entries. Both sides finish without an error.
  This holds for the values that the variables can hold (\<open>nacl_ok\<close>), at every level: the keys of all
  maps are strings (entries with other keys are lost, see \<open>nacl_number_keys_lost\<close>), the elements of
  sets are of base types, 64-bit integers are at most \<open>2^53\<close> in magnitude, strings and field names
  are ones the API accepts (\<open>okStr\<close>), the field names of a struct are distinct, containers have fewer
  than \<open>2^31\<close> elements, and there are no binary fields (\<open>named\<close>).
\<close>

theorem nacl_roundtrip:
  fixes pp :: "('h, 'v) pp"
  assumes "ppapi pp alloc content okStr" and "conforms ty (VStruct nm fs)" and "nacl_ok okStr (VStruct nm fs)"
    and "named ty" and "size (VStruct nm fs) + 2 \<le> fuel"
  shows "\<exists>s x v' s'. write_value (nacl_ops pp fresh) (VStruct nm fs) (newTNativeClientProtocol h) = (Inr 0, s)
    \<and> getVar s = Some x
    \<and> nacl_read fuel pp fresh ty (newTNativeClientProtocol_from (heap s) x) = (Inr (v', 0), s')
    \<and> same (VStruct nm fs) v'"
proof -
  have empty: "writer_stack (newTNativeClientProtocol h :: ('h, 'v) TNativeClientProtocol) = []"
    by (simp add: newTNativeClientProtocol_def)
  obtain x h1 F where
    w: "write_value (nacl_ops pp fresh) (VStruct nm fs) (newTNativeClientProtocol h)
      = (Inr 0, (newTNativeClientProtocol h)\<lparr>root_var := Some x, heap := h1\<rparr>)"
    "F \<subseteq> alloc h1" "denotes pp (content h1) F x (tree (VStruct nm fs))"
    by (rule ppapi.write_root [OF assms(1,3) empty, of fresh]) blast
  obtain v' h2 where
    "nacl_read fuel pp fresh ty (newTNativeClientProtocol_from h1 x)
      = (Inr (v', 0), (newTNativeClientProtocol_from h1 x)\<lparr>heap := h2\<rparr>)" "same (VStruct nm fs) v'"
    by (rule ppapi.read_root [OF assms(1) w(3,2) assms(2-5), of fresh])
  with w(1) show ?thesis
    by (intro exI [of _ "(newTNativeClientProtocol h)\<lparr>root_var := Some x, heap := h1\<rparr>"] exI [of _ x] exI [of _ v']
        exI [of _ "(newTNativeClientProtocol_from h1 x)\<lparr>heap := h2\<rparr>"]) (simp add: getVar_def)
qed

theorem nacl_roundtrip_witness:
  "\<exists>s x v' s'. write_value (nacl_ops store_pp (\<lambda>n. replicate n 0)) nacl_sample (newTNativeClientProtocol []) = (Inr 0, s)
    \<and> getVar s = Some x
    \<and> nacl_read 100 store_pp (\<lambda>n. replicate n 0) nacl_sample_type (newTNativeClientProtocol_from (heap s) x) = (Inr (v', 0), s')
    \<and> same nacl_sample v'"
  using nacl_roundtrip [OF store.ppapi_axioms nacl_sample_facts(1) [unfolded nacl_sample_def]
      nacl_sample_ok [unfolded nacl_sample_def] nacl_sample_facts(2) nacl_sample_facts(3) [unfolded nacl_sample_def],
      of "\<lambda>n. replicate n 0"]
  unfolding nacl_sample_def .

end
