(* ===== verification/JSONProtocol.thy ===== *)
theory JSONProtocol
  imports Generated Base64 FramedTransport
begin

text \<open>
  \<^verbatim>\<open>TJSONProtocol.h/.cpp\<close>: values as JSON text. A stack of contexts decides about separators and
  about quoting numbers that are keys of an object; the reader looks one byte ahead. Conversions
  between numbers and text are those of \<^verbatim>\<open>boost::lexical_cast\<close>, the parameter \<open>lx\<close>. The loops that
  read to the end of a string or a number take fuel, one unit per character.
\<close>

section \<open>Conversions of the Boost library\<close>

text \<open>
  \<open>text_of_int\<close> is \<^verbatim>\<open>lexical_cast<std::string>\<close> of the integer types, \<open>None\<close> a \<^verbatim>\<open>bad_lexical_cast\<close>, and
  \<open>quiet_nan\<close> the value of \<^verbatim>\<open>HUGE_VAL/HUGE_VAL\<close>.
\<close>

record lexical =
  text_of_int :: "int \<Rightarrow> byte list"
  text_of_double :: "double \<Rightarrow> byte list"
  to_bool :: "byte list \<Rightarrow> bool option"
  to_i16 :: "byte list \<Rightarrow> int16_t option"
  to_i32 :: "byte list \<Rightarrow> int32_t option"
  to_i64 :: "byte list \<Rightarrow> int64_t option"
  to_u64 :: "byte list \<Rightarrow> uint64_t option"
  to_double :: "byte list \<Rightarrow> double option"
  quiet_nan :: double

section \<open>Characters and tables\<close>

definition ascii :: "string \<Rightarrow> byte list" where "ascii = map of_char"

definition kJSONObjectStart :: byte where "kJSONObjectStart = 0x7b"
definition kJSONObjectEnd :: byte where "kJSONObjectEnd = 0x7d"
definition kJSONArrayStart :: byte where "kJSONArrayStart = 0x5b"
definition kJSONArrayEnd :: byte where "kJSONArrayEnd = 0x5d"
definition kJSONPairSeparator :: byte where "kJSONPairSeparator = 0x3a"
definition kJSONElemSeparator :: byte where "kJSONElemSeparator = 0x2c"
definition kJSONBackslash :: byte where "kJSONBackslash = 0x5c"
definition kJSONStringDelimiter :: byte where "kJSONStringDelimiter = 0x22"
definition kJSONZeroChar :: byte where "kJSONZeroChar = 0x30"
definition kJSONEscapeChar :: byte where "kJSONEscapeChar = 0x75"

lemmas json_char_defs = kJSONObjectStart_def kJSONObjectEnd_def kJSONArrayStart_def kJSONArrayEnd_def
  kJSONPairSeparator_def kJSONElemSeparator_def kJSONBackslash_def kJSONStringDelimiter_def
  kJSONZeroChar_def kJSONEscapeChar_def

definition kJSONEscapePrefix :: "byte list" where "kJSONEscapePrefix = [0x5c, 0x75, 0x30, 0x30]"
definition kThriftVersion1 :: uint32_t where "kThriftVersion1 = 1"

definition kThriftNan :: "byte list" where "kThriftNan = ascii ''NaN''"
definition kThriftInfinity :: "byte list" where "kThriftInfinity = ascii ''Infinity''"
definition kThriftNegativeInfinity :: "byte list" where "kThriftNegativeInfinity = ascii ''-Infinity''"

definition kTypeNameBool :: "byte list" where "kTypeNameBool = ascii ''tf''"
definition kTypeNameByte :: "byte list" where "kTypeNameByte = ascii ''i8''"
definition kTypeNameI16 :: "byte list" where "kTypeNameI16 = ascii ''i16''"
definition kTypeNameI32 :: "byte list" where "kTypeNameI32 = ascii ''i32''"
definition kTypeNameI64 :: "byte list" where "kTypeNameI64 = ascii ''i64''"
definition kTypeNameDouble :: "byte list" where "kTypeNameDouble = ascii ''dbl''"
definition kTypeNameStruct :: "byte list" where "kTypeNameStruct = ascii ''rec''"
definition kTypeNameString :: "byte list" where "kTypeNameString = ascii ''str''"
definition kTypeNameMap :: "byte list" where "kTypeNameMap = ascii ''map''"
definition kTypeNameList :: "byte list" where "kTypeNameList = ascii ''lst''"
definition kTypeNameSet :: "byte list" where "kTypeNameSet = ascii ''set''"

lemmas type_name_defs = kTypeNameBool_def kTypeNameByte_def kTypeNameI16_def kTypeNameI32_def
  kTypeNameI64_def kTypeNameDouble_def kTypeNameStruct_def kTypeNameString_def kTypeNameMap_def
  kTypeNameList_def kTypeNameSet_def ascii_def

definition getTypeNameForTypeID :: "TType \<Rightarrow> ('s, byte list) M" where
  "getTypeNameForTypeID typeID =
     (if typeID = T_BOOL then returnM kTypeNameBool
      else if typeID = T_BYTE then returnM kTypeNameByte
      else if typeID = T_I16 then returnM kTypeNameI16
      else if typeID = T_I32 then returnM kTypeNameI32
      else if typeID = T_I64 then returnM kTypeNameI64
      else if typeID = T_DOUBLE then returnM kTypeNameDouble
      else if typeID = T_STRING then returnM kTypeNameString
      else if typeID = T_STRUCT then returnM kTypeNameStruct
      else if typeID = T_MAP then returnM kTypeNameMap
      else if typeID = T_SET then returnM kTypeNameSet
      else if typeID = T_LIST then returnM kTypeNameList
      else throwM (TProtocolException NOT_IMPLEMENTED))"

text \<open>The two nested \<^verbatim>\<open>switch\<close> statements over the first two characters.\<close>

definition type_id_of_name :: "byte list \<Rightarrow> TType" where
  "type_id_of_name name =
     (if length name > 1 then
        (let c0 = name ! 0; c1 = name ! 1 in
         if c0 = of_char CHR ''d'' then T_DOUBLE
         else if c0 = of_char CHR ''i'' then
           (if c1 = of_char CHR ''8'' then T_BYTE
            else if c1 = of_char CHR ''1'' then T_I16
            else if c1 = of_char CHR ''3'' then T_I32
            else if c1 = of_char CHR ''6'' then T_I64
            else T_STOP)
         else if c0 = of_char CHR ''l'' then T_LIST
         else if c0 = of_char CHR ''m'' then T_MAP
         else if c0 = of_char CHR ''r'' then T_STRUCT
         else if c0 = of_char CHR ''s'' then
           (if c1 = of_char CHR ''t'' then T_STRING
            else if c1 = of_char CHR ''e'' then T_SET
            else T_STOP)
         else if c0 = of_char CHR ''t'' then T_BOOL
         else T_STOP)
      else T_STOP)"

definition getTypeIDForTypeName :: "byte list \<Rightarrow> ('s, TType) M" where
  "getTypeIDForTypeName name =
     (let result = type_id_of_name name in
      if result = T_STOP then throwM (TProtocolException NOT_IMPLEMENTED) else returnM result)"

text \<open>0 asks for \<^verbatim>\<open>\u00xx\<close>, 1 for the character itself, anything else for a backslash and that character.\<close>

definition kJSONCharTable :: "byte list" where
  "kJSONCharTable = [
     0, 0, 0, 0, 0, 0, 0, 0, 0x62, 0x74, 0x6e, 0, 0x66, 0x72, 0, 0,
     0, 0, 0, 0, 0, 0, 0, 0, 0, 0, 0, 0, 0, 0, 0, 0,
     1, 1, 0x22, 1, 1, 1, 1, 1, 1, 1, 1, 1, 1, 1, 1, 1]"

definition kEscapeChars :: "byte list" where
  "kEscapeChars = [0x22, 0x5c, 0x62, 0x66, 0x6e, 0x72, 0x74]"

definition kEscapeCharVals :: "byte list" where
  "kEscapeCharVals = [0x22, 0x5c, 0x08, 0x0c, 0x0a, 0x0d, 0x09]"

definition hexVal :: "byte \<Rightarrow> ('s, byte) M" where
  "hexVal ch =
     (if 0x30 \<le> ch \<and> ch \<le> 0x39 then returnM (ch - 0x30)
      else if 0x61 \<le> ch \<and> ch \<le> 0x66 then returnM (ch - 0x61 + 10)
      else throwM (TProtocolException INVALID_DATA))"

definition hexChar :: "byte \<Rightarrow> byte" where
  "hexChar val = (let val = val AND 0x0F in if val < 10 then val + 0x30 else val - 10 + 0x61)"

definition isJSONNumeric :: "byte \<Rightarrow> bool" where
  "isJSONNumeric ch \<longleftrightarrow> ch \<in> set (ascii ''+-.0123456789Ee'')"

section \<open>State\<close>

text \<open>The members are \<^verbatim>\<open>first_\<close> and \<^verbatim>\<open>colon_\<close>.\<close>

datatype TJSONContext =
    BaseContext
  | PairContext bool bool
  | ListContext bool

text \<open>\<open>hasData\<close> and \<open>data\<close> belong to the \<^verbatim>\<open>LookaheadReader\<close>.\<close>

record 't TJSONProtocol =
  json_trans :: 't
  contexts :: "TJSONContext list"
  cur_context :: TJSONContext
  hasData :: bool
  data :: byte

definition newTJSONProtocol :: "'t \<Rightarrow> 't TJSONProtocol" where
  "newTJSONProtocol t =
     \<lparr>json_trans = t, contexts = [], cur_context = BaseContext, hasData = False, data = 0\<rparr>"

definition onJSONTrans :: "('t, 'a) M \<Rightarrow> ('t TJSONProtocol, 'a) M" where
  "onJSONTrans m = liftM json_trans (\<lambda>t s. s\<lparr>json_trans := t\<rparr>) m"

definition trans_write :: "'t TTransport \<Rightarrow> byte list \<Rightarrow> ('t TJSONProtocol, unit) M" where
  "trans_write T bs = onJSONTrans (write_virt T bs)"

definition lookahead_read :: "'t TTransport \<Rightarrow> ('t TJSONProtocol, byte) M" where
  "lookahead_read T s =
     (if hasData s then (Inr (data s), s\<lparr>hasData := False\<rparr>)
      else bindM (onJSONTrans (readAll_virt T 1)) (\<lambda>b.
           bindM (modifyM (\<lambda>s. s\<lparr>data := b ! 0\<rparr>)) (\<lambda>_. getM data)) s)"

definition lookahead_peek :: "'t TTransport \<Rightarrow> ('t TJSONProtocol, byte) M" where
  "lookahead_peek T s =
     bindM (if \<not> hasData s then
         bindM (onJSONTrans (readAll_virt T 1)) (\<lambda>b. modifyM (\<lambda>s. s\<lparr>data := b ! 0\<rparr>))
       else returnM ()) (\<lambda>_.
     bindM (modifyM (\<lambda>s. s\<lparr>hasData := True\<rparr>)) (\<lambda>_. getM data)) s"

definition readSyntaxChar :: "'t TTransport \<Rightarrow> byte \<Rightarrow> ('t TJSONProtocol, uint32_t) M" where
  "readSyntaxChar T ch =
     bindM (lookahead_read T) (\<lambda>ch2.
     if ch2 \<noteq> ch then throwM (TProtocolException INVALID_DATA) else returnM 1)"

section \<open>Contexts\<close>

definition set_context :: "TJSONContext \<Rightarrow> ('t TJSONProtocol, unit) M" where
  "set_context c = modifyM (\<lambda>s. s\<lparr>cur_context := c\<rparr>)"

definition pair_write :: "'t TTransport \<Rightarrow> bool \<Rightarrow> bool \<Rightarrow> ('t TJSONProtocol, uint32_t) M" where
  "pair_write T isFirst isColon =
     (if isFirst then bindM (set_context (PairContext False True)) (\<lambda>_. returnM 0)
      else
        bindM (trans_write T [if isColon then kJSONPairSeparator else kJSONElemSeparator]) (\<lambda>_.
        bindM (set_context (PairContext False (\<not> isColon))) (\<lambda>_. returnM 1)))"

definition pair_read :: "'t TTransport \<Rightarrow> bool \<Rightarrow> bool \<Rightarrow> ('t TJSONProtocol, uint32_t) M" where
  "pair_read T isFirst isColon =
     (if isFirst then bindM (set_context (PairContext False True)) (\<lambda>_. returnM 0)
      else
        (let ch = (if isColon then kJSONPairSeparator else kJSONElemSeparator) in
         bindM (set_context (PairContext False (\<not> isColon))) (\<lambda>_. readSyntaxChar T ch)))"

definition list_write :: "'t TTransport \<Rightarrow> bool \<Rightarrow> ('t TJSONProtocol, uint32_t) M" where
  "list_write T isFirst =
     (if isFirst then bindM (set_context (ListContext False)) (\<lambda>_. returnM 0)
      else bindM (trans_write T [kJSONElemSeparator]) (\<lambda>_. returnM 1))"

definition list_read :: "'t TTransport \<Rightarrow> bool \<Rightarrow> ('t TJSONProtocol, uint32_t) M" where
  "list_read T isFirst =
     (if isFirst then bindM (set_context (ListContext False)) (\<lambda>_. returnM 0)
      else readSyntaxChar T kJSONElemSeparator)"

text \<open>The virtual methods, dispatched on the class of the context.\<close>

definition context_write :: "'t TTransport \<Rightarrow> ('t TJSONProtocol, uint32_t) M" where
  "context_write T s = (case cur_context s of
       BaseContext \<Rightarrow> (Inr 0, s)
     | PairContext f c \<Rightarrow> pair_write T f c s
     | ListContext f \<Rightarrow> list_write T f s)"

definition context_read :: "'t TTransport \<Rightarrow> ('t TJSONProtocol, uint32_t) M" where
  "context_read T s = (case cur_context s of
       BaseContext \<Rightarrow> (Inr 0, s)
     | PairContext f c \<Rightarrow> pair_read T f c s
     | ListContext f \<Rightarrow> list_read T f s)"

fun escapeNum :: "TJSONContext \<Rightarrow> bool" where
  "escapeNum (PairContext f c) = c"
| "escapeNum c = False"

definition pushContext :: "TJSONContext \<Rightarrow> ('t TJSONProtocol, unit) M" where
  "pushContext c = modifyM (\<lambda>s. s\<lparr>contexts := cur_context s # contexts s, cur_context := c\<rparr>)"

definition popContext :: "('t TJSONProtocol, unit) M" where
  "popContext s = (case contexts s of
       [] \<Rightarrow> (Inl UndefinedBehaviour, s)
     | c # cs \<Rightarrow> (Inr (), s\<lparr>cur_context := c, contexts := cs\<rparr>))"

section \<open>Writing\<close>

definition writeJSONEscapeChar :: "'t TTransport \<Rightarrow> byte \<Rightarrow> ('t TJSONProtocol, uint32_t) M" where
  "writeJSONEscapeChar T ch =
     bindM (trans_write T kJSONEscapePrefix) (\<lambda>_.
     bindM (trans_write T [hexChar (drop_bit 4 ch)]) (\<lambda>_.
     bindM (trans_write T [hexChar ch]) (\<lambda>_. returnM 6)))"

definition writeJSONChar :: "'t TTransport \<Rightarrow> byte \<Rightarrow> ('t TJSONProtocol, uint32_t) M" where
  "writeJSONChar T ch =
     (if 0x30 \<le> ch then
        (if ch = kJSONBackslash then
           bindM (trans_write T [kJSONBackslash]) (\<lambda>_.
           bindM (trans_write T [kJSONBackslash]) (\<lambda>_. returnM 2))
         else bindM (trans_write T [ch]) (\<lambda>_. returnM 1))
      else
        (let outCh = kJSONCharTable ! unat ch in
         if outCh = 1 then bindM (trans_write T [ch]) (\<lambda>_. returnM 1)
         else if 1 < outCh then
           bindM (trans_write T [kJSONBackslash]) (\<lambda>_.
           bindM (trans_write T [outCh]) (\<lambda>_. returnM 2))
         else writeJSONEscapeChar T ch))"

text \<open>The loop over the characters.\<close>

primrec writeJSONChars :: "'t TTransport \<Rightarrow> byte list \<Rightarrow> ('t TJSONProtocol, uint32_t) M" where
  "writeJSONChars T [] = returnM 0"
| "writeJSONChars T (ch # str) =
     bindM (writeJSONChar T ch) (\<lambda>a. bindM (writeJSONChars T str) (\<lambda>b. returnM (a + b)))"

definition writeJSONString :: "'t TTransport \<Rightarrow> byte list \<Rightarrow> ('t TJSONProtocol, uint32_t) M" where
  "writeJSONString T str =
     bindM (context_write T) (\<lambda>a.
     bindM (trans_write T [kJSONStringDelimiter]) (\<lambda>_.
     bindM (writeJSONChars T str) (\<lambda>b.
     bindM (trans_write T [kJSONStringDelimiter]) (\<lambda>_.
     returnM (a + 2 + b)))))"

text \<open>The groups of three bytes and the remainder.\<close>

fun write_base64_groups :: "'t TTransport \<Rightarrow> byte list \<Rightarrow> ('t TJSONProtocol, uint32_t) M" where
  "write_base64_groups T (x # y # z # bytes) =
     bindM (trans_write T (base64_encode [x, y, z] 3)) (\<lambda>_.
     bindM (write_base64_groups T bytes) (\<lambda>n. returnM (4 + n)))"
| "write_base64_groups T [] = returnM 0"
| "write_base64_groups T bytes =
     bindM (trans_write T (base64_encode bytes (length bytes))) (\<lambda>_.
     returnM (word_of_nat (length bytes) + 1))"

definition writeJSONBase64 :: "'t TTransport \<Rightarrow> byte list \<Rightarrow> ('t TJSONProtocol, uint32_t) M" where
  "writeJSONBase64 T str =
     bindM (context_write T) (\<lambda>a.
     bindM (trans_write T [kJSONStringDelimiter]) (\<lambda>_.
     if length str > 2 ^ 32 - 1 then throwM (TProtocolException SIZE_LIMIT)
     else
       bindM (write_base64_groups T str) (\<lambda>b.
       bindM (trans_write T [kJSONStringDelimiter]) (\<lambda>_.
       returnM (a + 2 + b)))))"

text \<open>The end of \<open>writeJSONInteger\<close> and \<open>writeJSONDouble\<close>: the text, with quotes if asked for.\<close>

definition write_number_text :: "'t TTransport \<Rightarrow> bool \<Rightarrow> byte list \<Rightarrow> ('t TJSONProtocol, uint32_t) M" where
  "write_number_text T quoted val =
     bindM (if quoted then trans_write T [kJSONStringDelimiter] else returnM ()) (\<lambda>_.
     if length val > 2 ^ 32 - 1 then throwM (TProtocolException SIZE_LIMIT)
     else
       bindM (trans_write T val) (\<lambda>_.
       bindM (if quoted then trans_write T [kJSONStringDelimiter] else returnM ()) (\<lambda>_.
       returnM (word_of_nat (length val) + (if quoted then 2 else 0)))))"

definition writeJSONInteger :: "lexical \<Rightarrow> 't TTransport \<Rightarrow> int \<Rightarrow> ('t TJSONProtocol, uint32_t) M" where
  "writeJSONInteger lx T num =
     bindM (context_write T) (\<lambda>a.
     let val = text_of_int lx num in
     bindM (getM (\<lambda>s. escapeNum (cur_context s))) (\<lambda>quoted.
     bindM (write_number_text T quoted val) (\<lambda>b. returnM (a + b))))"

text \<open>Past the end of a string \<open>operator[]\<close> gives a null character.\<close>

definition char_at :: "byte list \<Rightarrow> nat \<Rightarrow> byte" where
  "char_at val i = (if i < length val then val ! i else 0)"

definition normalize_double :: "byte list \<Rightarrow> byte list \<times> bool" where
  "normalize_double val =
     (let c0 = char_at val 0; c1 = char_at val 1 in
      if c0 = of_char CHR ''N'' \<or> c0 = of_char CHR ''n'' then (kThriftNan, True)
      else if c0 = of_char CHR ''I'' \<or> c0 = of_char CHR ''i'' then (kThriftInfinity, True)
      else if c0 = of_char CHR ''-'' \<and> (c1 = of_char CHR ''I'' \<or> c1 = of_char CHR ''i'')
      then (kThriftNegativeInfinity, True)
      else (val, False))"

definition writeJSONDouble :: "lexical \<Rightarrow> 't TTransport \<Rightarrow> double \<Rightarrow> ('t TJSONProtocol, uint32_t) M" where
  "writeJSONDouble lx T num =
     bindM (context_write T) (\<lambda>a.
     case normalize_double (text_of_double lx num) of (val, special) \<Rightarrow>
     bindM (getM (\<lambda>s. special \<or> escapeNum (cur_context s))) (\<lambda>quoted.
     bindM (write_number_text T quoted val) (\<lambda>b. returnM (a + b))))"

definition writeJSONObjectStart :: "'t TTransport \<Rightarrow> ('t TJSONProtocol, uint32_t) M" where
  "writeJSONObjectStart T =
     bindM (context_write T) (\<lambda>a.
     bindM (trans_write T [kJSONObjectStart]) (\<lambda>_.
     bindM (pushContext (PairContext True True)) (\<lambda>_. returnM (a + 1))))"

definition writeJSONObjectEnd :: "'t TTransport \<Rightarrow> ('t TJSONProtocol, uint32_t) M" where
  "writeJSONObjectEnd T =
     bindM popContext (\<lambda>_. bindM (trans_write T [kJSONObjectEnd]) (\<lambda>_. returnM 1))"

definition writeJSONArrayStart :: "'t TTransport \<Rightarrow> ('t TJSONProtocol, uint32_t) M" where
  "writeJSONArrayStart T =
     bindM (context_write T) (\<lambda>a.
     bindM (trans_write T [kJSONArrayStart]) (\<lambda>_.
     bindM (pushContext (ListContext True)) (\<lambda>_. returnM (a + 1))))"

definition writeJSONArrayEnd :: "'t TTransport \<Rightarrow> ('t TJSONProtocol, uint32_t) M" where
  "writeJSONArrayEnd T =
     bindM popContext (\<lambda>_. bindM (trans_write T [kJSONArrayEnd]) (\<lambda>_. returnM 1))"

text \<open>\<open>writeJSONString(getTypeNameForTypeID(type))\<close>.\<close>

definition write_type_name :: "'t TTransport \<Rightarrow> TType \<Rightarrow> ('t TJSONProtocol, uint32_t) M" where
  "write_type_name T type = bindM (getTypeNameForTypeID type) (writeJSONString T)"

definition json_writeMessageBegin ::
  "lexical \<Rightarrow> 't TTransport \<Rightarrow> byte list \<Rightarrow> TMessageType \<Rightarrow> int32_t \<Rightarrow> ('t TJSONProtocol, uint32_t) M" where
  "json_writeMessageBegin lx T name messageType seqid =
     seqM [writeJSONArrayStart T, writeJSONInteger lx T (uint kThriftVersion1), writeJSONString T name,
           writeJSONInteger lx T (sint messageType), writeJSONInteger lx T (sint seqid)]"

definition json_writeMessageEnd :: "'t TTransport \<Rightarrow> ('t TJSONProtocol, uint32_t) M" where
  "json_writeMessageEnd T = writeJSONArrayEnd T"

definition json_writeStructBegin :: "'t TTransport \<Rightarrow> byte list \<Rightarrow> ('t TJSONProtocol, uint32_t) M" where
  "json_writeStructBegin T name = writeJSONObjectStart T"

definition json_writeStructEnd :: "'t TTransport \<Rightarrow> ('t TJSONProtocol, uint32_t) M" where
  "json_writeStructEnd T = writeJSONObjectEnd T"

definition json_writeFieldBegin ::
  "lexical \<Rightarrow> 't TTransport \<Rightarrow> byte list \<Rightarrow> TType \<Rightarrow> int16_t \<Rightarrow> ('t TJSONProtocol, uint32_t) M" where
  "json_writeFieldBegin lx T name fieldType fieldId =
     seqM [writeJSONInteger lx T (sint fieldId), writeJSONObjectStart T, write_type_name T fieldType]"

definition json_writeFieldEnd :: "'t TTransport \<Rightarrow> ('t TJSONProtocol, uint32_t) M" where
  "json_writeFieldEnd T = writeJSONObjectEnd T"

definition json_writeFieldStop :: "('t TJSONProtocol, uint32_t) M" where
  "json_writeFieldStop = returnM 0"

definition json_writeMapBegin ::
  "lexical \<Rightarrow> 't TTransport \<Rightarrow> TType \<Rightarrow> TType \<Rightarrow> uint32_t \<Rightarrow> ('t TJSONProtocol, uint32_t) M" where
  "json_writeMapBegin lx T keyType valType sz =
     seqM [writeJSONArrayStart T, write_type_name T keyType, write_type_name T valType,
           writeJSONInteger lx T (uint sz), writeJSONObjectStart T]"

text \<open>The operands of \<open>+\<close> are evaluated from left to right, as the compilers do here.\<close>

definition json_writeMapEnd :: "'t TTransport \<Rightarrow> ('t TJSONProtocol, uint32_t) M" where
  "json_writeMapEnd T = seqM [writeJSONObjectEnd T, writeJSONArrayEnd T]"

definition json_writeListBegin ::
  "lexical \<Rightarrow> 't TTransport \<Rightarrow> TType \<Rightarrow> uint32_t \<Rightarrow> ('t TJSONProtocol, uint32_t) M" where
  "json_writeListBegin lx T elemType sz =
     seqM [writeJSONArrayStart T, write_type_name T elemType, writeJSONInteger lx T (uint sz)]"

definition json_writeListEnd :: "'t TTransport \<Rightarrow> ('t TJSONProtocol, uint32_t) M" where
  "json_writeListEnd T = writeJSONArrayEnd T"

definition json_writeSetBegin ::
  "lexical \<Rightarrow> 't TTransport \<Rightarrow> TType \<Rightarrow> uint32_t \<Rightarrow> ('t TJSONProtocol, uint32_t) M" where
  "json_writeSetBegin lx T elemType sz =
     seqM [writeJSONArrayStart T, write_type_name T elemType, writeJSONInteger lx T (uint sz)]"

definition json_writeSetEnd :: "'t TTransport \<Rightarrow> ('t TJSONProtocol, uint32_t) M" where
  "json_writeSetEnd T = writeJSONArrayEnd T"

definition json_writeBool :: "lexical \<Rightarrow> 't TTransport \<Rightarrow> bool \<Rightarrow> ('t TJSONProtocol, uint32_t) M" where
  "json_writeBool lx T value = writeJSONInteger lx T (if value then 1 else 0)"

definition json_writeByte :: "lexical \<Rightarrow> 't TTransport \<Rightarrow> int8_t \<Rightarrow> ('t TJSONProtocol, uint32_t) M" where
  "json_writeByte lx T b = writeJSONInteger lx T (sint (scast b :: int16_t))"

definition json_writeI16 :: "lexical \<Rightarrow> 't TTransport \<Rightarrow> int16_t \<Rightarrow> ('t TJSONProtocol, uint32_t) M" where
  "json_writeI16 lx T i16 = writeJSONInteger lx T (sint i16)"

definition json_writeI32 :: "lexical \<Rightarrow> 't TTransport \<Rightarrow> int32_t \<Rightarrow> ('t TJSONProtocol, uint32_t) M" where
  "json_writeI32 lx T i32 = writeJSONInteger lx T (sint i32)"

definition json_writeI64 :: "lexical \<Rightarrow> 't TTransport \<Rightarrow> int64_t \<Rightarrow> ('t TJSONProtocol, uint32_t) M" where
  "json_writeI64 lx T i64 = writeJSONInteger lx T (sint i64)"

definition json_writeDouble :: "lexical \<Rightarrow> 't TTransport \<Rightarrow> double \<Rightarrow> ('t TJSONProtocol, uint32_t) M" where
  "json_writeDouble lx T dub = writeJSONDouble lx T dub"

definition json_writeString :: "'t TTransport \<Rightarrow> byte list \<Rightarrow> ('t TJSONProtocol, uint32_t) M" where
  "json_writeString T str = writeJSONString T str"

definition json_writeBinary :: "'t TTransport \<Rightarrow> byte list \<Rightarrow> ('t TJSONProtocol, uint32_t) M" where
  "json_writeBinary T str = writeJSONBase64 T str"

section \<open>Reading\<close>

definition readJSONSyntaxChar :: "'t TTransport \<Rightarrow> byte \<Rightarrow> ('t TJSONProtocol, uint32_t) M" where
  "readJSONSyntaxChar T ch = readSyntaxChar T ch"

definition readJSONEscapeChar :: "'t TTransport \<Rightarrow> ('t TJSONProtocol, byte \<times> uint32_t) M" where
  "readJSONEscapeChar T =
     bindM (readJSONSyntaxChar T kJSONZeroChar) (\<lambda>_.
     bindM (readJSONSyntaxChar T kJSONZeroChar) (\<lambda>_.
     bindM (lookahead_read T) (\<lambda>b0.
     bindM (lookahead_read T) (\<lambda>b1.
     bindM (hexVal b0) (\<lambda>h0.
     bindM (hexVal b1) (\<lambda>h1.
     returnM (push_bit 4 h0 + h1, 4)))))))"

text \<open>\<open>kEscapeChars.find\<close>; \<open>None\<close> is \<^verbatim>\<open>npos\<close>.\<close>

definition find_escape :: "byte \<Rightarrow> nat option" where
  "find_escape ch = find (\<lambda>i. kEscapeChars ! i = ch) [0..<length kEscapeChars]"

text \<open>The character after a backslash has been read into \<open>ch\<close>.\<close>

definition unescape :: "'t TTransport \<Rightarrow> byte \<Rightarrow> ('t TJSONProtocol, byte \<times> uint32_t) M" where
  "unescape T ch =
     (if ch = kJSONEscapeChar then readJSONEscapeChar T
      else case find_escape ch of
        None \<Rightarrow> throwM (TProtocolException INVALID_DATA)
      | Some pos \<Rightarrow> returnM (kEscapeCharVals ! pos, 0))"

primrec read_string_chars ::
  "nat \<Rightarrow> 't TTransport \<Rightarrow> byte list \<Rightarrow> ('t TJSONProtocol, byte list \<times> uint32_t) M" where
  "read_string_chars 0 T str = throwM NonTermination"
| "read_string_chars (Suc fuel) T str =
     bindM (lookahead_read T) (\<lambda>ch.
     if ch = kJSONStringDelimiter then returnM (str, 1)
     else
       bindM (if ch = kJSONBackslash then
           bindM (lookahead_read T) (\<lambda>ch. bindM (unescape T ch) (\<lambda>(ch, n). returnM (ch, n + 2)))
         else returnM (ch, 1)) (\<lambda>(ch, a).
       bindM (read_string_chars fuel T (str @ [ch])) (\<lambda>(str, b). returnM (str, a + b))))"

definition readJSONString ::
  "nat \<Rightarrow> 't TTransport \<Rightarrow> bool \<Rightarrow> ('t TJSONProtocol, byte list \<times> uint32_t) M" where
  "readJSONString fuel T skipContext =
     bindM (if skipContext then returnM 0 else context_read T) (\<lambda>a.
     bindM (readJSONSyntaxChar T kJSONStringDelimiter) (\<lambda>b.
     bindM (read_string_chars fuel T []) (\<lambda>(str, c). returnM (str, a + b + c))))"

text \<open>The groups of four, each decoded in place, and the remainder.\<close>

fun read_base64_groups :: "byte list \<Rightarrow> byte list" where
  "read_base64_groups (w # x # y # z # b) = take 3 (base64_decode_inplace [w, x, y, z] 4) @ read_base64_groups b"
| "read_base64_groups b =
     (if length b > 1 then take (length b - 1) (base64_decode_inplace b (length b)) else [])"

definition readJSONBase64 :: "nat \<Rightarrow> 't TTransport \<Rightarrow> ('t TJSONProtocol, byte list \<times> uint32_t) M" where
  "readJSONBase64 fuel T =
     bindM (readJSONString fuel T False) (\<lambda>(tmp, result).
     if length tmp > 2 ^ 32 - 1 then throwM (TProtocolException SIZE_LIMIT)
     else returnM (read_base64_groups tmp, result))"

primrec readJSONNumericChars ::
  "nat \<Rightarrow> 't TTransport \<Rightarrow> byte list \<Rightarrow> ('t TJSONProtocol, byte list \<times> uint32_t) M" where
  "readJSONNumericChars 0 T str = throwM NonTermination"
| "readJSONNumericChars (Suc fuel) T str =
     bindM (lookahead_peek T) (\<lambda>ch.
     if \<not> isJSONNumeric ch then returnM (str, 0)
     else
       bindM (lookahead_read T) (\<lambda>_.
       bindM (readJSONNumericChars fuel T (str @ [ch])) (\<lambda>(str, n). returnM (str, 1 + n))))"

text \<open>A failed conversion throws the address of a new exception object.\<close>

definition lexical_cast :: "(byte list \<Rightarrow> 'a option) \<Rightarrow> byte list \<Rightarrow> ('s, 'a) M" where
  "lexical_cast conv str = (case conv str of
       None \<Rightarrow> throwM (ThrownPointer INVALID_DATA)
     | Some num \<Rightarrow> returnM num)"

definition readJSONInteger ::
  "nat \<Rightarrow> 't TTransport \<Rightarrow> (byte list \<Rightarrow> 'a option) \<Rightarrow> ('t TJSONProtocol, 'a \<times> uint32_t) M" where
  "readJSONInteger fuel T conv =
     bindM (context_read T) (\<lambda>a.
     bindM (getM (\<lambda>s. escapeNum (cur_context s))) (\<lambda>quoted.
     bindM (if quoted then readJSONSyntaxChar T kJSONStringDelimiter else returnM 0) (\<lambda>b.
     bindM (readJSONNumericChars fuel T []) (\<lambda>(str, c).
     bindM (lexical_cast conv str) (\<lambda>num.
     bindM (getM (\<lambda>s. escapeNum (cur_context s))) (\<lambda>quoted.
     bindM (if quoted then readJSONSyntaxChar T kJSONStringDelimiter else returnM 0) (\<lambda>d.
     returnM (num, a + (b + (c + d))))))))))"

definition HUGE_VAL :: double where "HUGE_VAL = 0x7FF0000000000000"
definition minus_HUGE_VAL :: double where "minus_HUGE_VAL = 0xFFF0000000000000"

definition readJSONDouble :: "lexical \<Rightarrow> nat \<Rightarrow> 't TTransport \<Rightarrow> ('t TJSONProtocol, double \<times> uint32_t) M" where
  "readJSONDouble lx fuel T =
     bindM (context_read T) (\<lambda>a.
     bindM (lookahead_peek T) (\<lambda>ch.
     if ch = kJSONStringDelimiter then
       bindM (readJSONString fuel T True) (\<lambda>(str, b).
       bindM (if str = kThriftNan then returnM (quiet_nan lx)
              else if str = kThriftInfinity then returnM HUGE_VAL
              else if str = kThriftNegativeInfinity then returnM minus_HUGE_VAL
              else
                bindM (getM (\<lambda>s. escapeNum (cur_context s))) (\<lambda>quoted.
                if \<not> quoted then throwM (ThrownPointer INVALID_DATA)
                else lexical_cast (to_double lx) str)) (\<lambda>num.
       returnM (num, a + b)))
     else
       bindM (getM (\<lambda>s. escapeNum (cur_context s))) (\<lambda>quoted.
       bindM (if quoted then readJSONSyntaxChar T kJSONStringDelimiter else returnM 0) (\<lambda>_.
       bindM (readJSONNumericChars fuel T []) (\<lambda>(str, b).
       bindM (lexical_cast (to_double lx) str) (\<lambda>num.
       returnM (num, a + b)))))))"

definition readJSONObjectStart :: "'t TTransport \<Rightarrow> ('t TJSONProtocol, uint32_t) M" where
  "readJSONObjectStart T =
     bindM (context_read T) (\<lambda>a.
     bindM (readJSONSyntaxChar T kJSONObjectStart) (\<lambda>b.
     bindM (pushContext (PairContext True True)) (\<lambda>_. returnM (a + b))))"

definition readJSONObjectEnd :: "'t TTransport \<Rightarrow> ('t TJSONProtocol, uint32_t) M" where
  "readJSONObjectEnd T =
     bindM (readJSONSyntaxChar T kJSONObjectEnd) (\<lambda>n. bindM popContext (\<lambda>_. returnM n))"

definition readJSONArrayStart :: "'t TTransport \<Rightarrow> ('t TJSONProtocol, uint32_t) M" where
  "readJSONArrayStart T =
     bindM (context_read T) (\<lambda>a.
     bindM (readJSONSyntaxChar T kJSONArrayStart) (\<lambda>b.
     bindM (pushContext (ListContext True)) (\<lambda>_. returnM (a + b))))"

definition readJSONArrayEnd :: "'t TTransport \<Rightarrow> ('t TJSONProtocol, uint32_t) M" where
  "readJSONArrayEnd T =
     bindM (readJSONSyntaxChar T kJSONArrayEnd) (\<lambda>n. bindM popContext (\<lambda>_. returnM n))"

definition json_readMessageBegin :: "lexical \<Rightarrow> nat \<Rightarrow> 't TTransport \<Rightarrow>
    ('t TJSONProtocol, (byte list \<times> TMessageType \<times> int32_t) \<times> uint32_t) M" where
  "json_readMessageBegin lx fuel T =
     bindM (readJSONArrayStart T) (\<lambda>a.
     bindM (readJSONInteger fuel T (to_u64 lx)) (\<lambda>(version, b).
     if version \<noteq> ucast kThriftVersion1 then throwM (TProtocolException BAD_VERSION)
     else
       bindM (readJSONString fuel T False) (\<lambda>(name, c).
       bindM (readJSONInteger fuel T (to_u64 lx)) (\<lambda>(type, d).
       bindM (readJSONInteger fuel T (to_u64 lx)) (\<lambda>(tmpVal, e).
       if 2 ^ 31 - 1 < tmpVal then throwM (TProtocolException SIZE_LIMIT)
       else returnM ((name, ucast type, ucast tmpVal), a + (b + (c + (d + e)))))))))"

definition json_readMessageEnd :: "'t TTransport \<Rightarrow> ('t TJSONProtocol, uint32_t) M" where
  "json_readMessageEnd T = readJSONArrayEnd T"

definition json_readStructBegin :: "'t TTransport \<Rightarrow> ('t TJSONProtocol, byte list option \<times> uint32_t) M" where
  "json_readStructBegin T = bindM (readJSONObjectStart T) (\<lambda>n. returnM (None, n))"

definition json_readStructEnd :: "'t TTransport \<Rightarrow> ('t TJSONProtocol, uint32_t) M" where
  "json_readStructEnd T = readJSONObjectEnd T"

definition json_readFieldBegin :: "lexical \<Rightarrow> nat \<Rightarrow> 't TTransport \<Rightarrow>
    ('t TJSONProtocol, (byte list option \<times> TType \<times> int16_t) \<times> uint32_t) M" where
  "json_readFieldBegin lx fuel T =
     bindM (lookahead_peek T) (\<lambda>ch.
     if ch = kJSONObjectEnd then returnM ((None, T_STOP, 0), 0)
     else
       bindM (readJSONInteger fuel T (to_u64 lx)) (\<lambda>(tmpVal, a).
       if 2 ^ 15 - 1 < tmpVal then throwM (TProtocolException SIZE_LIMIT)
       else
         bindM (readJSONObjectStart T) (\<lambda>b.
         bindM (readJSONString fuel T False) (\<lambda>(tmpStr, c).
         bindM (getTypeIDForTypeName tmpStr) (\<lambda>fieldType.
         returnM ((None, fieldType, ucast tmpVal), a + (b + c)))))))"

definition json_readFieldEnd :: "'t TTransport \<Rightarrow> ('t TJSONProtocol, uint32_t) M" where
  "json_readFieldEnd T = readJSONObjectEnd T"

definition json_readMapBegin :: "lexical \<Rightarrow> nat \<Rightarrow> 't TTransport \<Rightarrow>
    ('t TJSONProtocol, (TType \<times> TType \<times> uint32_t) \<times> uint32_t) M" where
  "json_readMapBegin lx fuel T =
     bindM (readJSONArrayStart T) (\<lambda>a.
     bindM (readJSONString fuel T False) (\<lambda>(tmpStr, b).
     bindM (getTypeIDForTypeName tmpStr) (\<lambda>keyType.
     bindM (readJSONString fuel T False) (\<lambda>(tmpStr, c).
     bindM (getTypeIDForTypeName tmpStr) (\<lambda>valType.
     bindM (readJSONInteger fuel T (to_u64 lx)) (\<lambda>(tmpVal, d).
     if 2 ^ 32 - 1 < tmpVal then throwM (TProtocolException SIZE_LIMIT)
     else
       bindM (readJSONObjectStart T) (\<lambda>e.
       returnM ((keyType, valType, ucast tmpVal), a + (b + (c + (d + e)))))))))))"

definition json_readMapEnd :: "'t TTransport \<Rightarrow> ('t TJSONProtocol, uint32_t) M" where
  "json_readMapEnd T = seqM [readJSONObjectEnd T, readJSONArrayEnd T]"

definition json_readListBegin :: "lexical \<Rightarrow> nat \<Rightarrow> 't TTransport \<Rightarrow>
    ('t TJSONProtocol, (TType \<times> uint32_t) \<times> uint32_t) M" where
  "json_readListBegin lx fuel T =
     bindM (readJSONArrayStart T) (\<lambda>a.
     bindM (readJSONString fuel T False) (\<lambda>(tmpStr, b).
     bindM (getTypeIDForTypeName tmpStr) (\<lambda>elemType.
     bindM (readJSONInteger fuel T (to_u64 lx)) (\<lambda>(tmpVal, c).
     if 2 ^ 32 - 1 < tmpVal then throwM (TProtocolException SIZE_LIMIT)
     else returnM ((elemType, ucast tmpVal), a + (b + c))))))"

definition json_readListEnd :: "'t TTransport \<Rightarrow> ('t TJSONProtocol, uint32_t) M" where
  "json_readListEnd T = readJSONArrayEnd T"

definition json_readSetBegin :: "lexical \<Rightarrow> nat \<Rightarrow> 't TTransport \<Rightarrow>
    ('t TJSONProtocol, (TType \<times> uint32_t) \<times> uint32_t) M" where
  "json_readSetBegin lx fuel T =
     bindM (readJSONArrayStart T) (\<lambda>a.
     bindM (readJSONString fuel T False) (\<lambda>(tmpStr, b).
     bindM (getTypeIDForTypeName tmpStr) (\<lambda>elemType.
     bindM (readJSONInteger fuel T (to_u64 lx)) (\<lambda>(tmpVal, c).
     if 2 ^ 32 - 1 < tmpVal then throwM (TProtocolException SIZE_LIMIT)
     else returnM ((elemType, ucast tmpVal), a + (b + c))))))"

definition json_readSetEnd :: "'t TTransport \<Rightarrow> ('t TJSONProtocol, uint32_t) M" where
  "json_readSetEnd T = readJSONArrayEnd T"

definition json_readBool :: "lexical \<Rightarrow> nat \<Rightarrow> 't TTransport \<Rightarrow> ('t TJSONProtocol, bool \<times> uint32_t) M" where
  "json_readBool lx fuel T = readJSONInteger fuel T (to_bool lx)"

definition json_readByte :: "lexical \<Rightarrow> nat \<Rightarrow> 't TTransport \<Rightarrow> ('t TJSONProtocol, int8_t \<times> uint32_t) M" where
  "json_readByte lx fuel T =
     bindM (readJSONInteger fuel T (to_i16 lx)) (\<lambda>(tmp, result).
     bindM (assertM (\<lambda>s. sint tmp < 256)) (\<lambda>_. returnM (ucast tmp, result)))"

definition json_readI16 :: "lexical \<Rightarrow> nat \<Rightarrow> 't TTransport \<Rightarrow> ('t TJSONProtocol, int16_t \<times> uint32_t) M" where
  "json_readI16 lx fuel T = readJSONInteger fuel T (to_i16 lx)"

definition json_readI32 :: "lexical \<Rightarrow> nat \<Rightarrow> 't TTransport \<Rightarrow> ('t TJSONProtocol, int32_t \<times> uint32_t) M" where
  "json_readI32 lx fuel T = readJSONInteger fuel T (to_i32 lx)"

definition json_readI64 :: "lexical \<Rightarrow> nat \<Rightarrow> 't TTransport \<Rightarrow> ('t TJSONProtocol, int64_t \<times> uint32_t) M" where
  "json_readI64 lx fuel T = readJSONInteger fuel T (to_i64 lx)"

definition json_readDouble :: "lexical \<Rightarrow> nat \<Rightarrow> 't TTransport \<Rightarrow> ('t TJSONProtocol, double \<times> uint32_t) M" where
  "json_readDouble lx fuel T = readJSONDouble lx fuel T"

definition json_readString :: "nat \<Rightarrow> 't TTransport \<Rightarrow> ('t TJSONProtocol, byte list \<times> uint32_t) M" where
  "json_readString fuel T = readJSONString fuel T False"

definition json_readBinary :: "nat \<Rightarrow> 't TTransport \<Rightarrow> ('t TJSONProtocol, byte list \<times> uint32_t) M" where
  "json_readBinary fuel T = readJSONBase64 fuel T"

definition json_ops :: "lexical \<Rightarrow> nat \<Rightarrow> 't TTransport \<Rightarrow> 't TJSONProtocol TProtocol" where
  "json_ops lx fuel T = \<lparr>
     writeMessageBegin_virt = json_writeMessageBegin lx T, writeMessageEnd_virt = json_writeMessageEnd T,
     writeStructBegin_virt = json_writeStructBegin T, writeStructEnd_virt = json_writeStructEnd T,
     writeFieldBegin_virt = json_writeFieldBegin lx T, writeFieldEnd_virt = json_writeFieldEnd T,
     writeFieldStop_virt = json_writeFieldStop,
     writeMapBegin_virt = json_writeMapBegin lx T, writeMapEnd_virt = json_writeMapEnd T,
     writeListBegin_virt = json_writeListBegin lx T, writeListEnd_virt = json_writeListEnd T,
     writeSetBegin_virt = json_writeSetBegin lx T, writeSetEnd_virt = json_writeSetEnd T,
     writeBool_virt = json_writeBool lx T, writeByte_virt = json_writeByte lx T,
     writeI16_virt = json_writeI16 lx T, writeI32_virt = json_writeI32 lx T,
     writeI64_virt = json_writeI64 lx T, writeDouble_virt = json_writeDouble lx T,
     writeString_virt = json_writeString T, writeBinary_virt = json_writeBinary T,
     readMessageBegin_virt = json_readMessageBegin lx fuel T, readMessageEnd_virt = json_readMessageEnd T,
     readStructBegin_virt = json_readStructBegin T, readStructEnd_virt = json_readStructEnd T,
     readFieldBegin_virt = json_readFieldBegin lx fuel T, readFieldEnd_virt = json_readFieldEnd T,
     readMapBegin_virt = json_readMapBegin lx fuel T, readMapEnd_virt = json_readMapEnd T,
     readListBegin_virt = json_readListBegin lx fuel T, readListEnd_virt = json_readListEnd T,
     readSetBegin_virt = json_readSetBegin lx fuel T, readSetEnd_virt = json_readSetEnd T,
     readBool_virt = json_readBool lx fuel T, readByte_virt = json_readByte lx fuel T,
     readI16_virt = json_readI16 lx fuel T, readI32_virt = json_readI32 lx fuel T,
     readI64_virt = json_readI64 lx fuel T, readDouble_virt = json_readDouble lx fuel T,
     readString_virt = json_readString fuel T, readBinary_virt = json_readBinary fuel T\<rparr>"

end
