(* ===== verification/JSONText.thy ===== *)
theory JSONText
  imports JSONProtocol Double
begin

text \<open>
  The text that \<^verbatim>\<open>TJSONProtocol\<close> writes for a value, defined by recursion on the value and without
  contexts, and the proof that the writer emits exactly it. What is assumed of \<^verbatim>\<open>boost::lexical_cast\<close> is the locale \<open>json_lexical\<close>.
\<close>

section \<open>The text of a value\<close>

definition hex_digit :: "nat \<Rightarrow> byte" where
  "hex_digit n = ascii ''0123456789abcdef'' ! n"

text \<open>Quotes, backslashes and control characters are escaped; all other bytes stand for themselves.\<close>

definition json_char :: "byte \<Rightarrow> byte list" where
  "json_char ch =
     (if ch = 0x22 then [0x5c, 0x22]
      else if ch = 0x5c then [0x5c, 0x5c]
      else if ch = 0x08 then [0x5c, 0x62]
      else if ch = 0x09 then [0x5c, 0x74]
      else if ch = 0x0a then [0x5c, 0x6e]
      else if ch = 0x0c then [0x5c, 0x66]
      else if ch = 0x0d then [0x5c, 0x72]
      else if ch < 0x20 then [0x5c, 0x75, 0x30, 0x30, hex_digit (unat ch div 16), hex_digit (unat ch mod 16)]
      else [ch])"

definition quoted :: "byte list \<Rightarrow> byte list" where
  "quoted txt = [0x22] @ txt @ [0x22]"

definition json_string :: "byte list \<Rightarrow> byte list" where
  "json_string s = quoted (concat (map json_char s))"

definition json_number :: "bool \<Rightarrow> byte list \<Rightarrow> byte list" where
  "json_number q txt = (if q then quoted txt else txt)"

definition type_name :: "TType \<Rightarrow> byte list" where
  "type_name t = the (map_of [(T_BOOL, ascii ''tf''), (T_BYTE, ascii ''i8''), (T_I16, ascii ''i16''),
     (T_I32, ascii ''i32''), (T_I64, ascii ''i64''), (T_DOUBLE, ascii ''dbl''), (T_STRING, ascii ''str''),
     (T_STRUCT, ascii ''rec''), (T_MAP, ascii ''map''), (T_SET, ascii ''set''), (T_LIST, ascii ''lst'')] t)"

text \<open>Numbers that are keys of an object, and the special doubles, are quoted.\<close>

fun json_base :: "lexical \<Rightarrow> bool \<Rightarrow> tval \<Rightarrow> byte list" where
  "json_base lx q (VBool b) = json_number q (text_of_int lx (if b then 1 else 0))"
| "json_base lx q (VByte i) = json_number q (text_of_int lx (sint i))"
| "json_base lx q (VI16 i) = json_number q (text_of_int lx (sint i))"
| "json_base lx q (VI32 i) = json_number q (text_of_int lx (sint i))"
| "json_base lx q (VI64 i) = json_number q (text_of_int lx (sint i))"
| "json_base lx q (VDouble d) = (case normalize_double (text_of_double lx d) of
     (txt, special) \<Rightarrow> json_number (special \<or> q) txt)"
| "json_base lx q (VString s) = json_string s"
| "json_base lx q (VBinary s) = quoted (b64 s)"
| "json_base lx q v = []"

text \<open>
  \<open>q\<close> says that the value is a key of an object, \<open>fst\<close> that it is the first entry. A field is an entry
  with the id as its key and an object with the type name as its value.
\<close>

function (sequential) json_text :: "lexical \<Rightarrow> bool \<Rightarrow> tval \<Rightarrow> byte list"
  and json_fields :: "lexical \<Rightarrow> bool \<Rightarrow> ((byte list \<times> int16_t) \<times> tval) list \<Rightarrow> byte list"
  and json_elems :: "lexical \<Rightarrow> tval list \<Rightarrow> byte list"
  and json_pairs :: "lexical \<Rightarrow> bool \<Rightarrow> (tval \<times> tval) list \<Rightarrow> byte list" where
  "json_text lx q (VStruct nm fs) = [0x7b] @ json_fields lx True fs @ [0x7d]"
| "json_text lx q (VMap k v kvs) =
     [0x5b] @ json_string (type_name k) @ [0x2c] @ json_string (type_name v) @ [0x2c]
     @ text_of_int lx (int (length kvs)) @ [0x2c] @ [0x7b] @ json_pairs lx True kvs @ [0x7d] @ [0x5d]"
| "json_text lx q (VSet e vs) =
     [0x5b] @ json_string (type_name e) @ [0x2c] @ text_of_int lx (int (length vs)) @ json_elems lx vs @ [0x5d]"
| "json_text lx q (VList e vs) =
     [0x5b] @ json_string (type_name e) @ [0x2c] @ text_of_int lx (int (length vs)) @ json_elems lx vs @ [0x5d]"
| "json_text lx q v = json_base lx q v"
| "json_fields lx first [] = []"
| "json_fields lx first (((nm, fid), v) # fs) =
     (if first then [] else [0x2c]) @ quoted (text_of_int lx (sint fid)) @ [0x3a] @ [0x7b]
     @ json_string (type_name (ttype_of v)) @ [0x3a] @ json_text lx False v @ [0x7d] @ json_fields lx False fs"
| "json_elems lx [] = []"
| "json_elems lx (v # vs) = [0x2c] @ json_text lx False v @ json_elems lx vs"
| "json_pairs lx first [] = []"
| "json_pairs lx first ((x, y) # kvs) =
     (if first then [] else [0x2c]) @ json_text lx True x @ [0x3a] @ json_text lx False y @ json_pairs lx False kvs"
  by pat_completeness auto
termination
  by (relation "measure (case_sum (case_sum (\<lambda>(lx, q, v). size v) (\<lambda>(lx, first, fs). fields_size fs))
      (case_sum (\<lambda>(lx, vs). size_list size vs) (\<lambda>(lx, first, kvs). pairs_size kvs)))")
    simp_all

lemma json_text_base: "is_base v \<Longrightarrow> json_text lx q v = json_base lx q v"
  by (cases v) simp_all

section \<open>Contexts\<close>

text \<open>The separator a context writes or reads before the next value, and the context after it.\<close>

fun ctx_sep :: "TJSONContext \<Rightarrow> byte list" where
  "ctx_sep (PairContext False c) = (if c then [0x3a] else [0x2c])"
| "ctx_sep (ListContext False) = [0x2c]"
| "ctx_sep c = []"

fun ctx_next :: "TJSONContext \<Rightarrow> TJSONContext" where
  "ctx_next (PairContext f c) = PairContext False (f \<or> \<not> c)"
| "ctx_next (ListContext f) = ListContext False"
| "ctx_next BaseContext = BaseContext"

section \<open>The laws of the conversions\<close>

text \<open>
  What \<^verbatim>\<open>lexical_cast\<close> documents: integers have a decimal text that converts back as long as it is in
  the range of the target, and the \<open>finite\<close> doubles are printed with enough digits to be read back.
\<close>

definition numeric :: "byte list \<Rightarrow> bool" where
  "numeric txt \<longleftrightarrow> list_all isJSONNumeric txt \<and> length txt \<le> 30"

locale json_lexical =
  fixes lx :: lexical
    and finite :: "double \<Rightarrow> bool"
  assumes int_numeric: "- (2 ^ 63) \<le> n \<Longrightarrow> n < 2 ^ 64 \<Longrightarrow> numeric (text_of_int lx n)"
    and bool_back: "to_bool lx (text_of_int lx (if b then 1 else 0)) = Some b"
    and i16_back: "to_i16 lx (text_of_int lx (sint i16)) = Some i16"
    and i32_back: "to_i32 lx (text_of_int lx (sint i32)) = Some i32"
    and i64_back: "to_i64 lx (text_of_int lx (sint i64)) = Some i64"
    and u64_back: "to_u64 lx (text_of_int lx (uint u64)) = Some u64"
    and double_short: "length (text_of_double lx d) < 2 ^ 32"
    and double_numeric: "finite d \<Longrightarrow> numeric (text_of_double lx d) \<and> text_of_double lx d \<noteq> []"
    and double_back: "finite d \<Longrightarrow> to_double lx (text_of_double lx d) = Some d"
    and inf_text: "text_of_double lx HUGE_VAL = ascii ''inf''"
      "text_of_double lx minus_HUGE_VAL = ascii ''-inf''"

section \<open>The writer emits the text\<close>

text \<open>\<open>emits\<close> for operations with any kind of result, of which \<open>Q\<close> holds.\<close>

definition yields ::
  "('s, 'c) writing \<Rightarrow> 'c \<Rightarrow> ('s, 'a) M \<Rightarrow> byte list \<Rightarrow> ('a \<Rightarrow> bool) \<Rightarrow> 'c \<Rightarrow> bool" where
  "yields V c m bs Q c' \<longleftrightarrow> (\<forall>s. w_inv V s \<and> w_ctl V s = c \<and> length bs \<le> w_room V s \<longrightarrow>
     (\<exists>x s'. m s = (Inr x, s') \<and> Q x \<and> w_inv V s' \<and> w_ctl V s' = c'
        \<and> w_outp V s' = w_outp V s @ bs \<and> w_room V s = w_room V s' + length bs))"

lemma emits_yields: "emits V c m bs c' = yields V c m bs (\<lambda>n. n = word_of_nat (length bs)) c'"
  by (auto simp: emits_def yields_def)

lemma emits_if: "(b \<Longrightarrow> emits V c m bs c') \<Longrightarrow> (\<not> b \<Longrightarrow> emits V c m' bs' c') \<Longrightarrow>
    emits V c (if b then m else m') (if b then bs else bs') c'"
  by simp

lemma yieldsD:
  assumes "yields V c m bs Q c'" and "w_inv V s" and "w_ctl V s = c" and "length bs \<le> w_room V s"
  obtains x s' where "m s = (Inr x, s')" "Q x" "w_inv V s'" "w_ctl V s' = c'"
    "w_outp V s' = w_outp V s @ bs" "w_room V s = w_room V s' + length bs"
  using assms by (auto simp: yields_def)

lemma yields_bind:
  assumes a: "yields V c m a Q c'" and b: "\<And>x. Q x \<Longrightarrow> yields V c' (f x) b Q' c''"
  shows "yields V c (bindM m f) (a @ b) Q' c''"
  unfolding yields_def
proof (intro allI impI, elim conjE)
  fix s assume s: "w_inv V s" "w_ctl V s = c" "length (a @ b) \<le> w_room V s"
  obtain x s1 where s1: "m s = (Inr x, s1)" "Q x" "w_inv V s1" "w_ctl V s1 = c'"
    "w_outp V s1 = w_outp V s @ a" "w_room V s = w_room V s1 + length a"
    using s by (auto elim: yieldsD [OF a])
  obtain y s2 where s2: "f x s1 = (Inr y, s2)" "Q' y" "w_inv V s2" "w_ctl V s2 = c''"
    "w_outp V s2 = w_outp V s1 @ b" "w_room V s1 = w_room V s2 + length b"
    using s s1 by (auto elim: yieldsD [OF b [OF s1(2)]])
  show "\<exists>x s'. bindM m f s = (Inr x, s') \<and> Q' x \<and> w_inv V s' \<and> w_ctl V s' = c''
      \<and> w_outp V s' = w_outp V s @ a @ b \<and> w_room V s = w_room V s' + length (a @ b)"
    by (rule exI [of _ y], rule exI [of _ s2]) (use s1 s2 in \<open>simp add: bindM_def\<close>)
qed

lemma yields_return: "Q x \<Longrightarrow> yields V c (returnM x) [] Q c"
  by (simp add: yields_def returnM_def)

lemma yields_end: "yields V c m a Q c' \<Longrightarrow> (\<And>x. Q x \<Longrightarrow> Q' (g x)) \<Longrightarrow>
    yields V c (bindM m (\<lambda>x. returnM (g x))) a Q' c'"
  using yields_bind [of V c m a Q c' "\<lambda>x. returnM (g x)" "[]" Q' c'] by (simp add: yields_return)

lemma yields_get:
  assumes "\<And>s. w_ctl V s = c \<Longrightarrow> g s = x" and "yields V c (f x) bs Q c'"
  shows "yields V c (bindM (getM g) f) bs Q c'"
  using assms by (simp add: yields_def bindM_def getM_def)

definition json_writing ::
  "('t \<Rightarrow> bool) \<Rightarrow> ('t \<Rightarrow> byte list) \<Rightarrow> ('t \<Rightarrow> nat) \<Rightarrow> ('t TJSONProtocol, TJSONContext \<times> TJSONContext list) writing" where
  "json_writing ok outp room = \<lparr>w_inv = \<lambda>s. ok (json_trans s), w_ctl = \<lambda>s. (cur_context s, contexts s),
     w_outp = \<lambda>s. outp (json_trans s), w_room = \<lambda>s. room (json_trans s)\<rparr>"

text \<open>Characters: the two tables of the code against \<open>json_char\<close>.\<close>

lemma char_table:
  "list_all (\<lambda>n. let ch = word_of_nat n :: byte; out = kJSONCharTable ! n in
     json_char ch = (if out = 1 then [ch] else if 1 < out then [kJSONBackslash, out]
       else kJSONEscapePrefix @ [hexChar (drop_bit 4 ch), hexChar ch])) [0..<48]"
  by code_simp

lemma char_in_table: "ch < 0x30 \<Longrightarrow> json_char ch = (let out = kJSONCharTable ! unat ch in
     if out = 1 then [ch] else if 1 < out then [kJSONBackslash, out]
     else kJSONEscapePrefix @ [hexChar (drop_bit 4 ch), hexChar ch])"
proof -
  assume "ch < 0x30"
  then have "unat ch < 48" by (simp add: word_less_nat_alt)
  then have "unat ch \<in> set [0..<48]" by simp
  from bspec [OF char_table [unfolded list_all_iff] this] show ?thesis
    by (simp only: Let_def) (simp only: of_nat_unat ucast_id)
qed

lemma char_not_in_table:
  "\<not> ch < 0x30 \<Longrightarrow> json_char ch = (if ch = kJSONBackslash then [kJSONBackslash, kJSONBackslash] else [ch])"
proof -
  assume large: "\<not> ch < 0x30"
  then have neq: "ch \<noteq> b" if "b < 0x30" for b using that by blast
  have "(0x20 :: byte) < 0x30" by simp
  then have "\<not> ch < 0x20" using large order.strict_trans by blast
  then show ?thesis by (simp add: json_char_def kJSONBackslash_def neq)
qed

lemma length_json_char: "length (json_char ch) < 2 ^ 32"
  by (simp add: json_char_def)

lemma type_name_of: "valid_tag t \<Longrightarrow> getTypeNameForTypeID t = returnM (type_name t)"
  by (auto simp: valid_tag_def getTypeNameForTypeID_def type_name_def type_name_defs ttype_defs)

lemma sint_range:
  "- (2 ^ 63) \<le> sint (b :: byte)" "sint b < 2 ^ 64" "- (2 ^ 63) \<le> sint (i :: int16_t)" "sint i < 2 ^ 64"
  "- (2 ^ 63) \<le> sint (j :: int32_t)" "sint j < 2 ^ 64" "- (2 ^ 63) \<le> sint (l :: int64_t)" "sint l < 2 ^ 64"
  using sint_ge [of b] sint_lt [of b] sint_ge [of i] sint_lt [of i] sint_ge [of j] sint_lt [of j]
    sint_ge [of l] sint_lt [of l] by simp_all

locale json_sink = json_lexical lx finite + byte_sink T sok outp room
  for lx finite and T :: "'t TTransport" and sok :: "'t \<Rightarrow> bool" and outp :: "'t \<Rightarrow> byte list"
    and room :: "'t \<Rightarrow> nat"
begin

abbreviation V :: "('t TJSONProtocol, TJSONContext \<times> TJSONContext list) writing" where
  "V \<equiv> json_writing sok outp room"

lemma yields_write: "yields V c (trans_write T bs) bs (\<lambda>_. True) c"
  unfolding yields_def
proof (intro allI impI, elim conjE)
  fix s :: "'t TJSONProtocol"
  assume s: "w_inv V s" "w_ctl V s = c" "length bs \<le> w_room V s"
  then obtain t where "write_virt T bs (json_trans s) = (Inr (), t)" "sok t" "outp t = outp (json_trans s) @ bs"
    "room (json_trans s) = room t + length bs"
    using sink_write [of "json_trans s" bs] by (auto simp: json_writing_def)
  with s show "\<exists>x s'. trans_write T bs s = (Inr x, s') \<and> True \<and> w_inv V s' \<and> w_ctl V s' = c
      \<and> w_outp V s' = w_outp V s @ bs \<and> w_room V s = w_room V s' + length bs"
    by (simp add: trans_write_def onJSONTrans_def liftM_def json_writing_def)
qed

lemma yields_write_then: "(\<And>u. yields V c (f u) b Q c') \<Longrightarrow> yields V c (bindM (trans_write T bs) f) (bs @ b) Q c'"
  by (rule yields_bind [OF yields_write])

lemma yields_set: "yields V (c0, cs) (set_context c) [] (\<lambda>_. True) (c, cs)"
  by (simp add: yields_def set_context_def modifyM_def json_writing_def)

lemma yields_push: "yields V (c0, cs) (pushContext c) [] (\<lambda>_. True) (c, c0 # cs)"
  by (simp add: yields_def pushContext_def modifyM_def json_writing_def)

lemma yields_pop: "yields V (c0, c # cs) popContext [] (\<lambda>_. True) (c, cs)"
  by (simp add: yields_def popContext_def json_writing_def)

lemma emits_context: "emits V (c, cs) (context_write T) (ctx_sep c) (ctx_next c, cs)"
proof -
  have put: "emits V (c, cs) (bindM (trans_write T [b]) (\<lambda>_. bindM (set_context c') (\<lambda>_. returnM 1))) [b] (c', cs)"
    for b c c'
    unfolding emits_yields
    by (rule yields_write_then [where b = "[]", simplified], rule yields_end [OF yields_set]) simp
  have put1: "emits V (c, cs) (bindM (trans_write T [b]) (\<lambda>_. returnM 1)) [b] (c, cs)" for b c
    unfolding emits_yields by (rule yields_end [OF yields_write]) simp
  have put0: "emits V (c, cs) (bindM (set_context c') (\<lambda>_. returnM 0)) [] (c', cs)" for c c'
    unfolding emits_yields by (rule yields_end [OF yields_set]) simp
  have "emits V (c, cs) (\<lambda>s. (case c of BaseContext \<Rightarrow> returnM 0 | PairContext f b \<Rightarrow> pair_write T f b
      | ListContext f \<Rightarrow> list_write T f) s) (ctx_sep c) (ctx_next c, cs)"
    using put put1 put0
    by (cases c rule: ctx_sep.cases) (auto simp: pair_write_def list_write_def emits_return
        kJSONPairSeparator_def kJSONElemSeparator_def)
  then show ?thesis
    by (auto simp: emits_def context_write_def json_writing_def returnM_def split: TJSONContext.splits)
qed

lemma emits_char: "emits V c (writeJSONChar T ch) (json_char ch) c"
proof -
  have one: "emits V c (bindM (trans_write T [a]) (\<lambda>_. returnM 1)) [a] c" for a
    unfolding emits_yields by (rule yields_end [OF yields_write]) simp
  have two: "emits V c (bindM (trans_write T [a]) (\<lambda>_. bindM (trans_write T [b]) (\<lambda>_. returnM 2))) [a, b] c" for a b
  proof -
    have "yields V c (bindM (trans_write T [a]) (\<lambda>_. bindM (trans_write T [b]) (\<lambda>_. returnM 2))) ([a] @ [b])
        (\<lambda>n. n = 2) c"
      by (rule yields_write_then, rule yields_end [OF yields_write]) simp
    then show ?thesis by (simp add: emits_yields)
  qed
  have "emits V c (writeJSONEscapeChar T ch) (kJSONEscapePrefix @ [hexChar (drop_bit 4 ch)] @ [hexChar ch]) c"
    unfolding emits_yields writeJSONEscapeChar_def
    by (intro yields_write_then yields_end [OF yields_write]) (simp add: kJSONEscapePrefix_def)
  then have esc: "emits V c (writeJSONEscapeChar T ch) (kJSONEscapePrefix @ [hexChar (drop_bit 4 ch), hexChar ch]) c"
    by simp
  show ?thesis
  proof (cases "ch < 0x30")
    case True
    then have "\<not> 0x30 \<le> ch" by simp
    then have "writeJSONChar T ch = (let out = kJSONCharTable ! unat ch in
         if out = 1 then bindM (trans_write T [ch]) (\<lambda>_. returnM 1)
         else if 1 < out then
           bindM (trans_write T [kJSONBackslash]) (\<lambda>_. bindM (trans_write T [out]) (\<lambda>_. returnM 2))
         else writeJSONEscapeChar T ch)"
      by (simp only: writeJSONChar_def if_False)
    with one two esc show ?thesis by (simp only: char_in_table [OF True] Let_def) (intro emits_if)
  next
    case False
    then have "0x30 \<le> ch" by simp
    with one two show ?thesis
      by (simp only: writeJSONChar_def char_not_in_table [OF False] if_True) (intro emits_if)
  qed
qed

lemma emits_chars: "emits V c (writeJSONChars T str) (concat (map json_char str)) c"
proof (induction str)
  case Nil
  show ?case by (simp add: emits_return)
next
  case (Cons ch str)
  from emits_bind [OF emits_char Cons, where f = "\<lambda>a. bindM (writeJSONChars T str) (\<lambda>b. returnM (a + b))"]
  show ?case by simp
qed

text \<open>A separator and then something between two delimiters.\<close>

lemma emits_delimited:
  assumes "emits V c m a c1" and "emits V c1 m' bs c1"
    and "f (word_of_nat (length a)) = bindM (trans_write T d) (\<lambda>_. bindM m' (\<lambda>b. bindM (trans_write T e) (\<lambda>_.
      returnM (word_of_nat (length a) + 2 + b))))" and "length d = 1" and "length e = 1"
  shows "emits V c (bindM m f) (a @ (d @ bs @ e)) c1"
proof -
  have "yields V c1 (bindM (trans_write T d) (\<lambda>_. bindM m' (\<lambda>b. bindM (trans_write T e) (\<lambda>_.
      returnM (word_of_nat (length a) + 2 + b))))) (d @ bs @ e)
      (\<lambda>n. n = word_of_nat (length a) + word_of_nat (length (d @ bs @ e))) c1"
    by (intro yields_write_then yields_bind [OF assms(2) [unfolded emits_yields]] yields_end [OF yields_write])
      (use assms(4,5) in simp)
  then show ?thesis using assms(3) unfolding emits_yields
    by (intro yields_bind [OF assms(1) [unfolded emits_yields]]) simp
qed

lemma emits_string: "emits V (c, cs) (writeJSONString T str) (ctx_sep c @ json_string str) (ctx_next c, cs)"
  unfolding writeJSONString_def json_string_def quoted_def kJSONStringDelimiter_def
  by (rule emits_delimited [OF emits_context emits_chars]) simp_all

text \<open>Binary data: the reference coding of Base64 between quotes. What fits a transport is below 4 GiB.\<close>

lemma emits_base64_groups: "emits V c (write_base64_groups T str) (b64 str) c"
proof (induction str rule: b64.induct)
  case (1 x y z rest)
  have "yields V c (write_base64_groups T (x # y # z # rest)) (base64_encode [x, y, z] 3 @ b64 rest)
      (\<lambda>n. n = word_of_nat (length (b64 (x # y # z # rest)))) c"
    unfolding write_base64_groups.simps
    by (rule yields_write_then, rule yields_end [OF 1 [unfolded emits_yields]]) (simp add: length_base64_encode)
  then show ?case by (simp add: emits_yields)
next
  case (2 a b)
  have "yields V c (bindM (trans_write T (base64_encode [a, b] 2)) (\<lambda>_. returnM 3)) (base64_encode [a, b] 2) (\<lambda>n. n = 3) c"
    by (rule yields_end [OF yields_write]) simp
  then show ?case by (simp add: emits_yields length_base64_encode flip: numeral_2_eq_2)
next
  case (3 a)
  have "yields V c (bindM (trans_write T (base64_encode [a] 1)) (\<lambda>_. returnM 2)) (base64_encode [a] 1) (\<lambda>n. n = 2) c"
    by (rule yields_end [OF yields_write]) simp
  then show ?case by (simp add: emits_yields length_base64_encode)
next
  case 4
  show ?case by (simp add: emits_return)
qed

lemma length_b64_ge: "length s \<le> length (b64 s)"
  by (induction s rule: b64.induct) (simp_all add: length_base64_encode)

lemma emits_base64: "emits V (c, cs) (writeJSONBase64 T str) (ctx_sep c @ quoted (b64 str)) (ctx_next c, cs)"
proof (cases "length str > 2 ^ 32 - 1")
  case True
  then have "2 ^ 32 \<le> length (ctx_sep c @ quoted (b64 str))"
    using length_b64_ge [of str] by (simp add: quoted_def)
  moreover have "w_room V s < 2 ^ 32" if "w_inv V s" for s
    using that sink_room [of "json_trans s"] by (simp add: json_writing_def)
  ultimately show ?thesis by (fastforce simp: emits_def)
next
  case False
  show ?thesis unfolding writeJSONBase64_def quoted_def kJSONStringDelimiter_def if_not_P [OF False]
    by (rule emits_delimited [OF emits_context emits_base64_groups]) simp_all
qed

lemma emits_number_text:
  assumes "length txt < 2 ^ 32"
  shows "emits V c (write_number_text T q txt) (json_number q txt) c"
proof (cases q)
  case True
  have "yields V c (write_number_text T q txt) ([0x22] @ txt @ [0x22]) (\<lambda>n. n = word_of_nat (length txt) + 2) c"
    unfolding write_number_text_def using assms True
    by (simp only: if_True kJSONStringDelimiter_def) (intro yields_write_then, simp, intro yields_write_then yields_end [OF yields_write], simp)
  then show ?thesis using True by (simp add: emits_yields json_number_def quoted_def add.commute)
next
  case False
  have "yields V c (write_number_text T q txt) (txt @ []) (\<lambda>n. n = word_of_nat (length txt)) c"
    unfolding write_number_text_def using assms False
    by (simp del: append_Nil2) (intro yields_write_then yields_return, simp)
  then show ?thesis using False by (simp add: emits_yields json_number_def)
qed

lemma emits_number:
  assumes "length txt < 2 ^ 32"
  shows "emits V (c, cs) (bindM (context_write T) (\<lambda>a. bindM (getM (\<lambda>s. sp \<or> escapeNum (cur_context s))) (\<lambda>q.
      bindM (write_number_text T q txt) (\<lambda>b. returnM (a + b)))))
    (ctx_sep c @ json_number (sp \<or> escapeNum (ctx_next c)) txt) (ctx_next c, cs)"
proof -
  have "emits V (ctx_next c, cs) (bindM (getM (\<lambda>s. sp \<or> escapeNum (cur_context s))) (\<lambda>q. write_number_text T q txt))
      (json_number (sp \<or> escapeNum (ctx_next c)) txt) (ctx_next c, cs)"
    by (rule emits_get [where x = "sp \<or> escapeNum (ctx_next c)"])
      (use emits_number_text [OF assms] in \<open>auto simp: json_writing_def\<close>)
  from emits_bind [OF emits_context this] show ?thesis by (simp add: bindM_assoc)
qed

lemma emits_integer:
  assumes "- (2 ^ 63) \<le> n" and "n < 2 ^ 64"
  shows "emits V (c, cs) (writeJSONInteger lx T n) (ctx_sep c @ json_number (escapeNum (ctx_next c)) (text_of_int lx n))
    (ctx_next c, cs)"
proof -
  have "length (text_of_int lx n) < 2 ^ 32" using int_numeric [OF assms] by (simp add: numeric_def)
  from emits_number [OF this, of c cs False] show ?thesis by (simp add: writeJSONInteger_def Let_def)
qed

lemma emits_double:
  "emits V (c, cs) (writeJSONDouble lx T d) (ctx_sep c @ json_base lx (escapeNum (ctx_next c)) (VDouble d)) (ctx_next c, cs)"
proof -
  obtain t sp where n: "normalize_double (text_of_double lx d) = (t, sp)" by force
  then have "length t < 2 ^ 32" using double_short [of d]
    by (auto simp: normalize_double_def Let_def kThriftNan_def kThriftInfinity_def
        kThriftNegativeInfinity_def ascii_def split: if_splits)
  from emits_number [OF this, of c cs sp] n show ?thesis by (simp add: writeJSONDouble_def)
qed

text \<open>Brackets: the context is pushed after the opening one and popped before the closing one.\<close>

lemma emits_open:
  "emits V (c, cs) (bindM (context_write T) (\<lambda>a. bindM (trans_write T [b]) (\<lambda>_.
     bindM (pushContext c') (\<lambda>_. returnM (a + 1))))) (ctx_sep c @ [b]) (c', ctx_next c # cs)"
proof -
  have "yields V (ctx_next c, cs) (bindM (trans_write T [b]) (\<lambda>_. bindM (pushContext c') (\<lambda>_.
      returnM (word_of_nat (length (ctx_sep c)) + 1)))) ([b] @ []) (\<lambda>n. n = word_of_nat (length (ctx_sep c)) + 1)
      (c', ctx_next c # cs)"
    by (intro yields_write_then yields_end [OF yields_push]) simp
  then show ?thesis unfolding emits_yields
    by (intro yields_bind [OF emits_context [unfolded emits_yields]]) (simp add: add.commute)
qed

lemma emits_close:
  "emits V (c', c # cs) (bindM popContext (\<lambda>_. bindM (trans_write T [b]) (\<lambda>_. returnM 1))) [b] (c, cs)"
  using yields_bind [OF yields_pop yields_end [OF yields_write]] unfolding emits_yields by fastforce

lemmas emits_brackets =
  emits_open [of _ _ kJSONObjectStart "PairContext True True", folded writeJSONObjectStart_def, unfolded kJSONObjectStart_def]
  emits_open [of _ _ kJSONArrayStart "ListContext True", folded writeJSONArrayStart_def, unfolded kJSONArrayStart_def]
  emits_close [of _ _ _ kJSONObjectEnd, folded writeJSONObjectEnd_def, unfolded kJSONObjectEnd_def]
  emits_close [of _ _ _ kJSONArrayEnd, folded writeJSONArrayEnd_def, unfolded kJSONArrayEnd_def]

lemma emits_type_name:
  "valid_tag t \<Longrightarrow> emits V (c, cs) (write_type_name T t) (ctx_sep c @ json_string (type_name t)) (ctx_next c, cs)"
  by (simp add: write_type_name_def type_name_of emits_string)

text \<open>Whole values. The list of entries of an object or of fields leaves its context after a value.\<close>

lemma json_write_calls:
  "writeStructBegin_virt (json_ops lx fuel T) nm = writeJSONObjectStart T"
  "writeStructEnd_virt (json_ops lx fuel T) = writeJSONObjectEnd T"
  "writeFieldBegin_virt (json_ops lx fuel T) = json_writeFieldBegin lx T"
  "writeFieldEnd_virt (json_ops lx fuel T) = writeJSONObjectEnd T"
  "writeFieldStop_virt (json_ops lx fuel T) = returnM 0"
  "writeMapBegin_virt (json_ops lx fuel T) = json_writeMapBegin lx T"
  "writeMapEnd_virt (json_ops lx fuel T) = json_writeMapEnd T"
  "writeSetBegin_virt (json_ops lx fuel T) = json_writeListBegin lx T"
  "writeSetEnd_virt (json_ops lx fuel T) = writeJSONArrayEnd T"
  "writeListBegin_virt (json_ops lx fuel T) = json_writeListBegin lx T"
  "writeListEnd_virt (json_ops lx fuel T) = writeJSONArrayEnd T"
  by (simp_all add: json_ops_def json_writeStructBegin_def json_writeStructEnd_def json_writeFieldEnd_def
      json_writeFieldStop_def json_writeSetBegin_def json_writeListBegin_def json_writeSetEnd_def
      json_writeListEnd_def fun_eq_iff)

lemma emits_base:
  assumes "is_base v"
  shows "emits V (c, cs) (write_base (json_ops lx fuel T) v) (ctx_sep c @ json_base lx (escapeNum (ctx_next c)) v)
    (ctx_next c, cs)"
proof -
  have byte: "sint (scast b :: int16_t) = sint b" for b :: byte
    by (simp add: sint_up_scast is_up_def source_size_def target_size_def)
  have b: "- (2 ^ 63) \<le> (if x then 1 else 0 :: int)" "(if x then 1 else 0 :: int) < 2 ^ 64" for x by simp_all
  show ?thesis
    using assms emits_integer [OF sint_range(1,2)] emits_integer [OF sint_range(3,4)]
      emits_integer [OF sint_range(5,6)] emits_integer [OF sint_range(7,8)] emits_double emits_string emits_base64
      emits_integer [OF b]
    by (cases v) (simp_all add: json_ops_def json_writeBool_def json_writeByte_def json_writeI16_def json_writeI32_def
        json_writeI64_def json_writeDouble_def json_writeString_def json_writeBinary_def byte)
qed

lemma size_word [simp]: "n < 2 ^ 32 \<Longrightarrow> uint (word_of_nat n :: uint32_t) = int n"
  by (simp add: uint_nat unat_of_nat)

lemma emits_list_begin:
  assumes "valid_tag e" and "n < 2 ^ 32"
  shows "emits V (c, cs) (json_writeListBegin lx T e (word_of_nat n))
    (ctx_sep c @ [0x5b] @ json_string (type_name e) @ [0x2c] @ text_of_int lx (int n)) (ListContext False, ctx_next c # cs)"
proof -
  have "int n < 2 ^ 64" using assms(2) by simp
  then have n: "emits V (ListContext False, cs') (writeJSONInteger lx T (uint (word_of_nat n :: uint32_t)))
      ([0x2c] @ text_of_int lx (int n)) (ListContext False, cs')" for cs'
    using emits_integer [of "int n" "ListContext False" cs'] assms(2) by (simp add: json_number_def)
  from emits_seq [OF emits_brackets(2) [of c cs] emits_seq [OF emits_type_name [OF assms(1), of "ListContext True"]
      emits_last [OF n [of "ctx_next c # cs", folded ctx_next.simps(2) [of True]]]]]
  show ?thesis by (simp add: json_writeListBegin_def del: seqM.simps)
qed

lemma emits_map_begin:
  assumes "valid_tag k" and "valid_tag v" and "n < 2 ^ 32"
  shows "emits V (c, cs) (json_writeMapBegin lx T k v (word_of_nat n))
    (ctx_sep c @ [0x5b] @ json_string (type_name k) @ [0x2c] @ json_string (type_name v) @ [0x2c] @ text_of_int lx (int n)
      @ [0x2c] @ [0x7b]) (PairContext True True, ListContext False # ctx_next c # cs)"
proof -
  have "int n < 2 ^ 64" using assms(3) by simp
  then have n: "emits V (ListContext False, cs') (writeJSONInteger lx T (uint (word_of_nat n :: uint32_t)))
      ([0x2c] @ text_of_int lx (int n)) (ListContext False, cs')" for cs'
    using emits_integer [of "int n" "ListContext False" cs'] assms(3) by (simp add: json_number_def)
  have t: "emits V (ListContext f, cs') (write_type_name T t) ((if f then [] else [0x2c]) @ json_string (type_name t))
      (ListContext False, cs')" if "valid_tag t" for f t cs'
    using emits_type_name [OF that, of "ListContext f" cs'] by (cases f) simp_all
  from emits_seq [OF emits_brackets(2) [of c cs] emits_seq [OF t [OF assms(1)] emits_seq [OF t [OF assms(2)]
      emits_seq [OF n emits_last [OF emits_brackets(1)]]]]]
  show ?thesis by (simp add: json_writeMapBegin_def del: seqM.simps)
qed

lemma emits_field_begin:
  assumes "valid_tag t"
  shows "emits V (PairContext f f, cs) (json_writeFieldBegin lx T nm t fid)
    ((if f then [] else [0x2c]) @ quoted (text_of_int lx (sint fid)) @ [0x3a] @ [0x7b] @ json_string (type_name t))
    (PairContext False True, PairContext False False # cs)"
proof -
  have i: "emits V (PairContext f f, cs) (writeJSONInteger lx T (sint fid))
      ((if f then [] else [0x2c]) @ quoted (text_of_int lx (sint fid))) (PairContext False True, cs)"
    using emits_integer [OF sint_range(3,4), of "PairContext f f" cs fid] by (cases f) (simp_all add: json_number_def)
  have o: "emits V (PairContext False True, cs) (writeJSONObjectStart T) ([0x3a] @ [0x7b])
      (PairContext True True, PairContext False False # cs)"
    using emits_brackets(1) [of "PairContext False True" cs] by simp
  have t: "emits V (PairContext True True, cs') (write_type_name T t) (json_string (type_name t)) (PairContext False True, cs')"
    for cs' using emits_type_name [OF assms, of "PairContext True True" cs'] by simp
  from emits_seq [OF i emits_seq [OF o emits_last [OF t]]]
  show ?thesis by (simp add: json_writeFieldBegin_def del: seqM.simps)
qed

lemma emits_value:
    "\<And>c cs. wf_value (\<lambda>_. True) (\<lambda>n. n < 2 ^ 32) v \<Longrightarrow>
      emits V (c, cs) (write_value (json_ops lx fuel T) v) (ctx_sep c @ json_text lx (escapeNum (ctx_next c)) v) (ctx_next c, cs)"
  and emits_fields: "\<And>f cs. wf_fields (\<lambda>_. True) (\<lambda>n. n < 2 ^ 32) fs \<Longrightarrow>
      \<exists>f'. emits V (PairContext f f, cs) (write_fields (json_ops lx fuel T) fs) (json_fields lx f fs) (PairContext f' f', cs)"
  and emits_elems: "\<And>cs e. wf_elems (\<lambda>_. True) (\<lambda>n. n < 2 ^ 32) e vs \<Longrightarrow>
      emits V (ListContext False, cs) (write_elems (json_ops lx fuel T) vs) (json_elems lx vs) (ListContext False, cs)"
  and emits_pairs: "\<And>f cs k v. wf_pairs (\<lambda>_. True) (\<lambda>n. n < 2 ^ 32) k v kvs \<Longrightarrow>
      \<exists>f'. emits V (PairContext f f, cs) (write_pairs (json_ops lx fuel T) kvs) (json_pairs lx f kvs) (PairContext f' f', cs)"
proof (induction v and fs and vs and kvs rule: tval_induct)
  case (base v)
  then show ?case using emits_base [of v c cs fuel] json_text_base [of v] by (cases v) simp_all
next
  case (struct nm fs)
  then obtain f' where f: "emits V (PairContext True True, ctx_next c # cs) (write_fields (json_ops lx fuel T) fs)
      (json_fields lx True fs) (PairContext f' f', ctx_next c # cs)" by auto
  from emits_seq [OF emits_brackets(1) [of c cs] emits_seq [OF f emits_seq [OF emits_return emits_last [OF emits_brackets(3)]]]]
  show ?case by (simp add: json_write_calls del: seqM.simps)
next
  case (map k v kvs)
  have wf: "valid_tag k" "valid_tag v" "length kvs < 2 ^ 32" using map.prems by simp_all
  obtain f' where f: "emits V (PairContext True True, ListContext False # ctx_next c # cs)
      (write_pairs (json_ops lx fuel T) kvs) (json_pairs lx True kvs) (PairContext f' f', ListContext False # ctx_next c # cs)"
    using map.IH [of k v True "ListContext False # ctx_next c # cs"] map.prems by auto
  have close: "emits V (PairContext f' f', ListContext False # ctx_next c # cs) (json_writeMapEnd T) ([0x7d] @ [0x5d])
      (ctx_next c, cs)"
    unfolding json_writeMapEnd_def by (rule emits_seq [OF emits_brackets(3) emits_last [OF emits_brackets(4)]])
  from emits_seq [OF emits_map_begin [OF wf, of c cs] emits_seq [OF f emits_last [OF close]]]
  show ?case by (simp add: json_write_calls del: seqM.simps)
next
  case (set e vs)
  have wf: "valid_tag e" "length vs < 2 ^ 32" using set.prems by simp_all
  have "emits V (ListContext False, ctx_next c # cs) (write_elems (json_ops lx fuel T) vs) (json_elems lx vs)
      (ListContext False, ctx_next c # cs)" using set.IH [of e] set.prems by simp
  from emits_seq [OF emits_list_begin [OF wf, of c cs] emits_seq [OF this emits_last [OF emits_brackets(4)]]]
  show ?case by (simp add: json_write_calls del: seqM.simps)
next
  case (list e vs)
  have wf: "valid_tag e" "length vs < 2 ^ 32" using list.prems by simp_all
  have "emits V (ListContext False, ctx_next c # cs) (write_elems (json_ops lx fuel T) vs) (json_elems lx vs)
      (ListContext False, ctx_next c # cs)" using list.IH [of e] list.prems by simp
  from emits_seq [OF emits_list_begin [OF wf, of c cs] emits_seq [OF this emits_last [OF emits_brackets(4)]]]
  show ?case by (simp add: json_write_calls del: seqM.simps)
next
  case no_field
  then show ?case using emits_return by fastforce
next
  case (field nm fid v fs)
  have v: "emits V (PairContext False True, PairContext False False # cs) (write_value (json_ops lx fuel T) v)
      ([0x3a] @ json_text lx False v) (PairContext False False, PairContext False False # cs)"
    using field.IH(1) [of "PairContext False True" "PairContext False False # cs"] field.prems by simp
  obtain f' where "emits V (PairContext False False, cs) (write_fields (json_ops lx fuel T) fs) (json_fields lx False fs)
      (PairContext f' f', cs)" using field by force
  from emits_seq [OF emits_field_begin [OF valid_tag_ttype_of [of v], of f cs nm fid] emits_seq [OF v emits_seq [OF emits_brackets(3)
      emits_last [OF this]]]] show ?case
    by (auto simp: json_write_calls simp del: seqM.simps)
next
  case no_elem
  then show ?case by (simp add: emits_return)
next
  case (elem v vs)
  have "emits V (ListContext False, cs) (write_value (json_ops lx fuel T) v) ([0x2c] @ json_text lx False v)
      (ListContext False, cs)"
    using elem.IH(1) [of "ListContext False" cs] elem.prems by simp
  moreover have "emits V (ListContext False, cs) (write_elems (json_ops lx fuel T) vs) (json_elems lx vs)
      (ListContext False, cs)"
    using elem.IH(2) [of e cs] elem.prems by simp
  ultimately show ?case using emits_seq [OF _ emits_last] by (fastforce simp del: seqM.simps)
next
  case no_pair
  then show ?case using emits_return by fastforce
next
  case (pair x y kvs)
  have x: "emits V (PairContext f f, cs) (write_value (json_ops lx fuel T) x)
      ((if f then [] else [0x2c]) @ json_text lx True x) (PairContext False True, cs)"
    using pair.IH(1) [of "PairContext f f" cs] pair.prems by (cases f) simp_all
  have y: "emits V (PairContext False True, cs) (write_value (json_ops lx fuel T) y)
      ([0x3a] @ json_text lx False y) (PairContext False False, cs)"
    using pair.IH(2) [of "PairContext False True" cs] pair.prems by simp
  obtain f' where "emits V (PairContext False False, cs) (write_pairs (json_ops lx fuel T) kvs) (json_pairs lx False kvs)
      (PairContext f' f', cs)" using pair by force
  from emits_seq [OF x emits_seq [OF y emits_last [OF this]]] show ?case by (auto simp del: seqM.simps)
qed

end

end
