(* ===== verification/JSONReading.thy ===== *)
theory JSONReading
  imports JSONText
begin

text \<open>
  The reader of \<^verbatim>\<open>TJSONProtocol\<close>, driven by the generated \<open>read\<close> methods, takes the text of a value apart
  again: one lemma per reading operation, each about the bytes it consumes and what may follow them, and
  an induction over values.
\<close>

section \<open>The reader accepts the text\<close>

text \<open>
  \<open>obeys R c m bs rest Q c'\<close>: on input \<open>bs\<close> followed by \<open>rest\<close>, \<open>m\<close> consumes \<open>bs\<close> and returns a result of
  which \<open>Q\<close> holds. What follows matters, because a number ends at the first byte that is not a part of one.
\<close>

definition obeys ::
  "('s, 'c) reading \<Rightarrow> 'c \<Rightarrow> ('s, 'a) M \<Rightarrow> byte list \<Rightarrow> byte list \<Rightarrow> ('a \<Rightarrow> bool) \<Rightarrow> 'c \<Rightarrow> bool" where
  "obeys R c m bs rest Q c' \<longleftrightarrow> (\<forall>s. r_inv R s \<and> r_ctl R s = c \<and> r_inp R s = bs @ rest \<longrightarrow>
     (\<exists>x s'. m s = (Inr x, s') \<and> Q x \<and> r_inv R s' \<and> r_ctl R s' = c' \<and> r_inp R s' = rest))"

lemma obeysD:
  assumes "obeys R c m bs rest Q c'" and "r_inv R s" and "r_ctl R s = c" and "r_inp R s = bs @ rest"
  obtains x s' where "m s = (Inr x, s')" "Q x" "r_inv R s'" "r_ctl R s' = c'" "r_inp R s' = rest"
  using assms by (auto simp: obeys_def)

lemma obeys_bind:
  assumes a: "obeys R c m a (b @ rest) Q c'" and b: "\<And>x. Q x \<Longrightarrow> obeys R c' (f x) b rest Q' c''"
  shows "obeys R c (bindM m f) (a @ b) rest Q' c''"
  unfolding obeys_def
proof (intro allI impI, elim conjE)
  fix s assume s: "r_inv R s" "r_ctl R s = c" "r_inp R s = (a @ b) @ rest"
  then have "r_inp R s = a @ (b @ rest)" by simp
  with s obtain x s1 where s1: "m s = (Inr x, s1)" "Q x" "r_inv R s1" "r_ctl R s1 = c'" "r_inp R s1 = b @ rest"
    by (auto elim: obeysD [OF a])
  obtain y s2 where s2: "f x s1 = (Inr y, s2)" "Q' y" "r_inv R s2" "r_ctl R s2 = c''" "r_inp R s2 = rest"
    using s1 by (auto elim: obeysD [OF b [OF s1(2)]])
  show "\<exists>x s'. bindM m f s = (Inr x, s') \<and> Q' x \<and> r_inv R s' \<and> r_ctl R s' = c'' \<and> r_inp R s' = rest"
    by (rule exI [of _ y], rule exI [of _ s2]) (use s1 s2 in \<open>simp add: bindM_def\<close>)
qed

lemma obeys_return: "Q x \<Longrightarrow> obeys R c (returnM x) [] rest Q c"
  by (simp add: obeys_def returnM_def)

lemma obeys_peek:
  assumes "obeys R c m [] (bs @ rest) Q c'" and "\<And>x. Q x \<Longrightarrow> obeys R c' (f x) bs rest Q' c''"
  shows "obeys R c (bindM m f) bs rest Q' c''"
  using obeys_bind [OF assms(1), of f Q' c''] assms(2) by simp

lemma obeys_end: "obeys R c m a rest Q c' \<Longrightarrow> (\<And>x. Q x \<Longrightarrow> Q' (g x)) \<Longrightarrow>
    obeys R c (bindM m (\<lambda>x. returnM (g x))) a rest Q' c'"
  using obeys_bind [of R c m a "[]" rest Q c' "\<lambda>x. returnM (g x)" Q' c'] by (simp add: obeys_return)

lemma obeys_then:
  "obeys R c m a rest Q c' \<Longrightarrow> (\<And>x. Q x \<Longrightarrow> obeys R c' (f x) [] rest Q' c'') \<Longrightarrow> obeys R c (bindM m f) a rest Q' c''"
  using obeys_bind [of R c m a "[]" rest Q c' f Q' c''] by simp

lemma obeys_mono: "obeys R c m a rest Q c' \<Longrightarrow> (\<And>x. Q x \<Longrightarrow> Q' x) \<Longrightarrow> obeys R c m a rest Q' c'"
  by (fastforce simp: obeys_def)

lemma obeys_get:
  assumes "\<And>s. r_ctl R s = c \<Longrightarrow> g s = x" and "obeys R c (f x) bs rest Q c'"
  shows "obeys R c (bindM (getM g) f) bs rest Q c'"
  using assms by (simp add: obeys_def bindM_def getM_def)

lemma obeys_cong: "(\<And>s. r_ctl R s = c \<Longrightarrow> m s = m' s) \<Longrightarrow> obeys R c m bs rest Q c' = obeys R c m' bs rest Q c'"
  by (auto simp: obeys_def)

definition json_reading ::
  "('t \<Rightarrow> bool) \<Rightarrow> ('t \<Rightarrow> byte list) \<Rightarrow> ('t TJSONProtocol, TJSONContext \<times> TJSONContext list) reading" where
  "json_reading ok inp = \<lparr>r_inv = \<lambda>s. ok (json_trans s), r_ctl = \<lambda>s. (cur_context s, contexts s),
     r_inp = \<lambda>s. (if hasData s then [data s] else []) @ inp (json_trans s)\<rparr>"

text \<open>What must follow a number, and what follows the values inside an object or an array.\<close>

definition delim :: "byte list \<Rightarrow> bool" where
  "delim rest \<longleftrightarrow> rest \<noteq> [] \<and> \<not> isJSONNumeric (hd rest)"

lemma delim_syntax [simp]: "delim (0x22 # bs)" "delim (0x2c # bs)" "delim (0x3a # bs)" "delim (0x5d # bs)" "delim (0x7d # bs)"
  by (simp_all add: delim_def isJSONNumeric_def ascii_def)

text \<open>Characters that \<open>json_char\<close> has escaped.\<close>

lemma hex_table:
  "list_all (\<lambda>n. let c = hex_digit n in
     if 0x30 \<le> c \<and> c \<le> 0x39 then c - 0x30 = word_of_nat n
     else 0x61 \<le> c \<and> c \<le> 0x66 \<and> c - 0x61 + 10 = word_of_nat n) [0..<16]"
  by code_simp

lemma hexVal_digit: "n < 16 \<Longrightarrow> hexVal (hex_digit n) = returnM (word_of_nat n)"
  using bspec [OF hex_table [unfolded list_all_iff], of n] by (auto simp: hexVal_def Let_def split: if_splits)

lemma hex_split: "(push_bit 4 (word_of_nat (unat ch div 16)) :: byte) + word_of_nat (unat ch mod 16) = ch"
proof -
  have "(push_bit 4 (word_of_nat a) :: byte) + word_of_nat b = word_of_nat (16 * a + b)" for a b
    by (simp add: push_bit_eq_mult)
  from this [of "unat ch div 16" "unat ch mod 16"] show ?thesis by (simp only: mult_div_mod_eq) simp
qed

lemma json_char_cases:
  obtains (plain) "json_char ch = [ch]" "ch \<noteq> 0x22" "ch \<noteq> 0x5c"
    | (short) b i where "json_char ch = [0x5c, b]" "b \<noteq> 0x75" "find_escape b = Some i" "kEscapeCharVals ! i = ch"
    | (hex) "json_char ch = [0x5c, 0x75, 0x30, 0x30, hex_digit (unat ch div 16), hex_digit (unat ch mod 16)]"
proof -
  have esc: "find_escape 0x22 = Some 0" "find_escape 0x5c = Some 1" "find_escape 0x62 = Some 2"
    "find_escape 0x66 = Some 3" "find_escape 0x6e = Some 4" "find_escape 0x72 = Some 5" "find_escape 0x74 = Some 6"
    by code_simp+
  show thesis
  proof (cases "ch \<in> {0x22, 0x5c, 0x08, 0x09, 0x0a, 0x0c, 0x0d}")
    case True
    then have "\<exists>b i. json_char ch = [0x5c, b] \<and> b \<noteq> 0x75 \<and> find_escape b = Some i \<and> kEscapeCharVals ! i = ch"
      by (auto simp: json_char_def esc kEscapeCharVals_def)
    then show thesis using short by blast
  next
    case False
    then show thesis using plain hex by (cases "ch < 0x20") (simp_all add: json_char_def)
  qed
qed

lemma not_numeric:
  "list_all (\<lambda>ch. \<not> isJSONNumeric ch \<and> ch \<noteq> 0)
    [of_char CHR ''N'', of_char CHR ''n'', of_char CHR ''I'', of_char CHR ''i'', 0x22, 0x5c]"
  by code_simp

lemma normalize_numeric:
  assumes "list_all isJSONNumeric ds"
  shows "normalize_double ds = (ds, False)"
proof -
  have "char_at ds i = 0 \<or> isJSONNumeric (char_at ds i)" for i
    using assms by (simp add: char_at_def list_all_length)
  then have "char_at ds i \<noteq> b" if "\<not> isJSONNumeric b" "b \<noteq> 0" for i b
    using that by metis
  with not_numeric show ?thesis by (simp add: normalize_double_def Let_def)
qed

text \<open>Doubles: a text between quotes is read as a string first.\<close>

definition plain :: "byte list \<Rightarrow> bool" where
  "plain ds \<longleftrightarrow> list_all (\<lambda>ch. json_char ch = [ch]) ds"

lemma plain_string: "plain ds \<Longrightarrow> json_string ds = quoted ds"
  by (induction ds) (simp_all add: plain_def json_string_def quoted_def)

lemma plain_numeric: "list_all isJSONNumeric ds \<Longrightarrow> plain ds"
proof -
  have "list_all (\<lambda>ch. json_char ch = [ch]) (ascii ''+-.0123456789Ee'')" by code_simp
  then show "list_all isJSONNumeric ds \<Longrightarrow> plain ds" by (simp add: plain_def list_all_iff isJSONNumeric_def)
qed

lemma special_texts:
  "plain kThriftInfinity" "plain kThriftNegativeInfinity" "\<not> list_all isJSONNumeric kThriftNan"
  "\<not> list_all isJSONNumeric kThriftInfinity" "\<not> list_all isJSONNumeric kThriftNegativeInfinity"
  "kThriftInfinity \<noteq> kThriftNan" "kThriftNegativeInfinity \<noteq> kThriftNan" "kThriftNegativeInfinity \<noteq> kThriftInfinity"
  "normalize_double (ascii ''inf'') = (kThriftInfinity, True)"
  "normalize_double (ascii ''-inf'') = (kThriftNegativeInfinity, True)"
  by code_simp+

text \<open>The doubles that a text in quotes stands for where \<open>q\<close> says whether numbers are quoted.\<close>

definition quoted_double :: "lexical \<Rightarrow> bool \<Rightarrow> byte list \<Rightarrow> double \<Rightarrow> bool" where
  "quoted_double lx q ds d \<longleftrightarrow> (ds = kThriftInfinity \<and> d = HUGE_VAL) \<or> (ds = kThriftNegativeInfinity \<and> d = minus_HUGE_VAL)
     \<or> (q \<and> list_all isJSONNumeric ds \<and> to_double lx ds = Some d)"

lemma type_id_of: "valid_tag t \<Longrightarrow> getTypeIDForTypeName (type_name t) = returnM t"
proof -
  have "list_all (\<lambda>t. type_id_of_name (type_name t) = t \<and> t \<noteq> T_STOP)
      [T_BOOL, T_BYTE, T_DOUBLE, T_I16, T_I32, T_I64, T_STRING, T_STRUCT, T_MAP, T_SET, T_LIST]" by code_simp
  moreover assume "valid_tag t"
  ultimately have "type_id_of_name (type_name t) = t" "t \<noteq> T_STOP" by (auto simp: valid_tag_def)
  then show ?thesis by (simp add: getTypeIDForTypeName_def)
qed

lemma length_type_name: "valid_tag t \<Longrightarrow> length (type_name t) \<le> 3"
proof -
  have "list_all (\<lambda>t. length (type_name t) \<le> 3)
      [T_BOOL, T_BYTE, T_DOUBLE, T_I16, T_I32, T_I64, T_STRING, T_STRUCT, T_MAP, T_SET, T_LIST]" by code_simp
  then show "valid_tag t \<Longrightarrow> length (type_name t) \<le> 3" by (auto simp: valid_tag_def)
qed

text \<open>
  Values the reader can give back: field ids are not negative, and doubles satisfy \<open>okD\<close>. A schema is
  \<open>textual\<close> if it has no binary fields, which are base64 on the wire.
\<close>

function (sequential) json_ok :: "(double \<Rightarrow> bool) \<Rightarrow> tval \<Rightarrow> bool"
  and json_ok_fields :: "(double \<Rightarrow> bool) \<Rightarrow> ((byte list \<times> int16_t) \<times> tval) list \<Rightarrow> bool"
  and json_ok_elems :: "(double \<Rightarrow> bool) \<Rightarrow> tval list \<Rightarrow> bool"
  and json_ok_pairs :: "(double \<Rightarrow> bool) \<Rightarrow> (tval \<times> tval) list \<Rightarrow> bool" where
  "json_ok okD (VDouble d) = okD d"
| "json_ok okD (VStruct nm fs) = json_ok_fields okD fs"
| "json_ok okD (VMap k v kvs) = json_ok_pairs okD kvs"
| "json_ok okD (VSet e vs) = json_ok_elems okD vs"
| "json_ok okD (VList e vs) = json_ok_elems okD vs"
| "json_ok okD v = True"
| "json_ok_fields okD [] = True"
| "json_ok_fields okD (((nm, fid), v) # fs) = (0 \<le> sint fid \<and> json_ok okD v \<and> json_ok_fields okD fs)"
| "json_ok_elems okD [] = True"
| "json_ok_elems okD (v # vs) = (json_ok okD v \<and> json_ok_elems okD vs)"
| "json_ok_pairs okD [] = True"
| "json_ok_pairs okD ((x, y) # kvs) = (json_ok okD x \<and> json_ok okD y \<and> json_ok_pairs okD kvs)"
  by pat_completeness auto
termination
  by (relation "measure (case_sum (case_sum (\<lambda>(okD, v). size v) (\<lambda>(okD, fs). fields_size fs))
      (case_sum (\<lambda>(okD, vs). size_list size vs) (\<lambda>(okD, kvs). pairs_size kvs)))")
    simp_all

fun textual :: "t_type \<Rightarrow> bool" where
  "textual TyBinary = False"
| "textual (TyStruct nm flds) = list_all (\<lambda>f. textual (snd f)) flds"
| "textual (TyMap k v) = (textual k \<and> textual v)"
| "textual (TySet e) = textual e"
| "textual (TyList e) = textual e"
| "textual ty = True"

lemma textual_field: "find_field fid flds = Some ((nm, key, req), ty) \<Longrightarrow> list_all (\<lambda>f. textual (snd f)) flds \<Longrightarrow> textual ty"
  by (induction flds) (auto simp: find_field_def split: if_splits)

lemma valid_type: "valid_tag (type_to_enum ty)"
  by (cases ty) (simp_all add: valid_tag_def)

lemma u64_of_nonneg:
  assumes "0 \<le> sint (fid :: int16_t)"
  obtains w :: uint64_t where "uint w = sint fid" "\<not> 2 ^ 15 - 1 < w" "ucast w = fid"
proof -
  have lt: "sint fid < 2 ^ 15" using sint_lt [of fid] by simp
  have "uint (word_of_int n :: uint64_t) = n" if "0 \<le> n" "n < 2 ^ 15" for n
    using that by (simp add: uint_word_of_int)
  from this [OF assms lt] have u: "uint (word_of_int (sint fid) :: uint64_t) = sint fid" .
  moreover have "ucast (word_of_int (sint fid) :: uint64_t) = fid"
    by (rule trans [OF ucast_eq], unfold u) simp
  moreover have "\<not> 2 ^ 15 - 1 < (word_of_int (sint fid) :: uint64_t)"
    using lt unfolding word_less_def u by simp
  ultimately show thesis using that by blast
qed

locale json_source = json_lexical lx finite + byte_source T sok inp
  for lx finite and T :: "'t TTransport" and sok :: "'t \<Rightarrow> bool" and inp :: "'t \<Rightarrow> byte list"
begin

abbreviation R :: "('t TJSONProtocol, TJSONContext \<times> TJSONContext list) reading" where
  "R \<equiv> json_reading sok inp"

lemma obeys_lookahead: "obeys R c (lookahead_read T) [b] rest (\<lambda>x. x = b) c"
  unfolding obeys_def
proof (intro allI impI, elim conjE)
  fix s :: "'t TJSONProtocol"
  assume s: "r_inv R s" "r_ctl R s = c" "r_inp R s = [b] @ rest"
  show "\<exists>x s'. lookahead_read T s = (Inr x, s') \<and> x = b \<and> r_inv R s' \<and> r_ctl R s' = c \<and> r_inp R s' = rest"
  proof (cases "hasData s")
    case True
    with s show ?thesis by (auto simp: json_reading_def lookahead_read_def)
  next
    case False
    with s source_readAll_append [of "json_trans s" "[b]" rest 1] show ?thesis
      by (auto simp: json_reading_def lookahead_read_def onJSONTrans_def monad_simps)
  qed
qed

lemma obeys_lookahead_peek: "obeys R c (lookahead_peek T) [] (b # rest) (\<lambda>x. x = b) c"
  unfolding obeys_def
proof (intro allI impI, elim conjE)
  fix s :: "'t TJSONProtocol"
  assume s: "r_inv R s" "r_ctl R s = c" "r_inp R s = [] @ b # rest"
  show "\<exists>x s'. lookahead_peek T s = (Inr x, s') \<and> x = b \<and> r_inv R s' \<and> r_ctl R s' = c \<and> r_inp R s' = b # rest"
  proof (cases "hasData s")
    case True
    with s show ?thesis by (auto simp: json_reading_def lookahead_peek_def monad_simps)
  next
    case False
    with s source_readAll_append [of "json_trans s" "[b]" rest 1] show ?thesis
      by (auto simp: json_reading_def lookahead_peek_def onJSONTrans_def monad_simps)
  qed
qed

lemma obeys_peek_at: "bs @ rest = b # r \<Longrightarrow> obeys R c (lookahead_peek T) [] (bs @ rest) (\<lambda>x. x = b) c"
  using obeys_lookahead_peek [of c b r] by simp

lemma obeys_syntax: "obeys R c (readJSONSyntaxChar T b) [b] rest (\<lambda>_. True) c"
proof -
  have "obeys R c (readSyntaxChar T b) ([b] @ []) rest (\<lambda>_. True) c"
    unfolding readSyntaxChar_def by (rule obeys_bind [OF obeys_lookahead]) (simp add: obeys_return)
  then show ?thesis by (simp add: readJSONSyntaxChar_def)
qed

lemma obeys_set: "obeys R (c0, cs) (set_context c) [] rest (\<lambda>_. True) (c, cs)"
  by (simp add: obeys_def set_context_def modifyM_def json_reading_def)

lemma obeys_push: "obeys R (c0, cs) (pushContext c) [] rest (\<lambda>_. True) (c, c0 # cs)"
  by (simp add: obeys_def pushContext_def modifyM_def json_reading_def)

lemma obeys_pop: "obeys R (c0, c # cs) popContext [] rest (\<lambda>_. True) (c, cs)"
  by (simp add: obeys_def popContext_def json_reading_def)

lemma obeys_context: "obeys R (c, cs) (context_read T) (ctx_sep c) rest (\<lambda>_. True) (ctx_next c, cs)"
proof -
  have get: "obeys R (c, cs) (bindM (set_context c') (\<lambda>_. readSyntaxChar T b)) [b] rest (\<lambda>_. True) (c', cs)" for b c c'
    using obeys_peek [OF obeys_set obeys_syntax] by (simp add: readJSONSyntaxChar_def)
  have get1: "obeys R (c, cs) (readSyntaxChar T b) [b] rest (\<lambda>_. True) (c, cs)" for b c
    using obeys_syntax by (simp add: readJSONSyntaxChar_def)
  have get0: "obeys R (c, cs) (bindM (set_context c') (\<lambda>_. returnM 0)) [] rest (\<lambda>_. True) (c', cs)" for c c'
    by (rule obeys_end [OF obeys_set]) simp
  have "obeys R (c, cs) (case c of BaseContext \<Rightarrow> returnM 0 | PairContext f b \<Rightarrow> pair_read T f b
      | ListContext f \<Rightarrow> list_read T f) (ctx_sep c) rest (\<lambda>_. True) (ctx_next c, cs)"
    using get get1 get0
    by (cases c rule: ctx_sep.cases) (auto simp: pair_read_def list_read_def obeys_return Let_def
        kJSONPairSeparator_def kJSONElemSeparator_def)
  then show ?thesis
    by (rule obeys_cong [THEN iffD1, rotated])
      (auto simp: context_read_def json_reading_def returnM_def split: TJSONContext.splits)
qed

lemma obeys_unescape:
  assumes "json_char ch = 0x5c # e"  and "ch \<noteq> 0x5c \<or> e \<noteq> []"
  shows "obeys R c (bindM (lookahead_read T) (\<lambda>x. bindM (unescape T x) (\<lambda>(x, n). returnM (x, n + 2)))) e rest
    (\<lambda>x. fst x = ch) c"
proof (cases ch rule: json_char_cases)
  case plain
  with assms show ?thesis by simp
next
  case (short b i)
  have "obeys R c (bindM (lookahead_read T) (\<lambda>x. bindM (unescape T x) (\<lambda>(x, n). returnM (x, n + 2)))) ([b] @ []) rest
      (\<lambda>x. fst x = ch) c"
    by (rule obeys_bind [OF obeys_lookahead])
      (use short in \<open>simp add: unescape_def kJSONEscapeChar_def obeys_return\<close>)
  with short assms show ?thesis by simp
next
  case hex
  let ?h = "hex_digit (unat ch div 16)" and ?l = "hex_digit (unat ch mod 16)"
  have "unat ch < 2 ^ LENGTH(8)" by (rule unsigned_less)
  then have "unat ch div 16 < 16" by (simp add: less_mult_imp_div_less)
  then have v: "hexVal ?h = returnM (word_of_nat (unat ch div 16))" "hexVal ?l = returnM (word_of_nat (unat ch mod 16))"
    by (simp_all add: hexVal_digit)
  have "obeys R c (readJSONEscapeChar T) ([0x30] @ ([0x30] @ ([?h] @ ([?l] @ [])))) rest (\<lambda>x. fst x = ch) c"
    unfolding readJSONEscapeChar_def kJSONZeroChar_def
    by (intro obeys_bind [OF obeys_syntax] obeys_bind [OF obeys_lookahead]) (simp add: v hex_split obeys_return)
  then have "obeys R c (bindM (unescape T 0x75) (\<lambda>(x, n). returnM (x, n + 2))) [0x30, 0x30, ?h, ?l] rest
      (\<lambda>x. fst x = ch) c"
    unfolding unescape_def kJSONEscapeChar_def split_def by (intro obeys_end) simp_all
  then have "obeys R c (bindM (lookahead_read T) (\<lambda>x. bindM (unescape T x) (\<lambda>(x, n). returnM (x, n + 2))))
      ([0x75] @ [0x30, 0x30, ?h, ?l]) rest (\<lambda>x. fst x = ch) c"
    by (intro obeys_bind [OF obeys_lookahead]) simp
  with hex assms show ?thesis by simp
qed

lemma obeys_chars:
  "length str < fuel \<Longrightarrow> obeys R c (read_string_chars fuel T acc) (concat (map json_char str) @ [0x22]) rest
    (\<lambda>x. fst x = acc @ str) c"
proof (induction str arbitrary: fuel acc)
  case Nil
  then obtain f where f: "fuel = Suc f" by (cases fuel) auto
  have "obeys R c (read_string_chars (Suc f) T acc) ([0x22] @ []) rest (\<lambda>x. fst x = acc @ []) c"
    unfolding read_string_chars.simps
    by (rule obeys_bind [OF obeys_lookahead]) (simp add: kJSONStringDelimiter_def obeys_return)
  then show ?case by (simp add: f)
next
  case (Cons ch str)
  then obtain f where f: "fuel = Suc f" "length str < f" by (cases fuel) auto
  let ?tail = "concat (map json_char str) @ [0x22]"
  have rest: "obeys R c (bindM (read_string_chars f T (acc @ [ch])) (\<lambda>(s, b). returnM (s, a + b))) ?tail rest
      (\<lambda>x. fst x = acc @ (ch # str)) c" for a
    unfolding split_def by (rule obeys_end [OF Cons.IH [OF f(2)]]) simp
  have "obeys R c (read_string_chars (Suc f) T acc) (json_char ch @ ?tail) rest (\<lambda>x. fst x = acc @ (ch # str)) c"
  proof (cases "ch \<noteq> 0x22 \<and> json_char ch = [ch] \<and> ch \<noteq> 0x5c")
    case True
    have "obeys R c (read_string_chars (Suc f) T acc) ([ch] @ ?tail) rest (\<lambda>x. fst x = acc @ (ch # str)) c"
      unfolding read_string_chars.simps
      by (rule obeys_bind [OF obeys_lookahead])
        (use True rest in \<open>simp add: kJSONStringDelimiter_def kJSONBackslash_def\<close>)
    with True show ?thesis by simp
  next
    case False
    then obtain e where e: "json_char ch = 0x5c # e" "e \<noteq> []" by (cases ch rule: json_char_cases) auto
    have bs: "((0x5c :: byte) = 0x22) = False" by simp
    have "obeys R c (read_string_chars (Suc f) T acc) ([0x5c] @ (e @ ?tail)) rest (\<lambda>x. fst x = acc @ (ch # str)) c"
      unfolding read_string_chars.simps
    proof (rule obeys_bind [OF obeys_lookahead], simp only: kJSONStringDelimiter_def kJSONBackslash_def)
      fix x :: byte
      assume "x = 0x5c"
      show "obeys R c (if (0x5c :: byte) = 0x22 then returnM (acc, 1)
          else bindM (if (0x5c :: byte) = 0x5c then bindM (lookahead_read T) (\<lambda>ch. bindM (unescape T ch) (\<lambda>(ch, n). returnM (ch, n + 2)))
              else returnM (0x5c, 1)) (\<lambda>(ch, a). bindM (read_string_chars f T (acc @ [ch])) (\<lambda>(str, b). returnM (str, a + b))))
          (e @ ?tail) rest (\<lambda>x. fst x = acc @ (ch # str)) c"
        unfolding bs if_False if_P [OF refl]
        by (rule obeys_bind [OF obeys_unescape [OF e(1) disjI2 [OF e(2)]]]) (use rest in \<open>auto simp: split_def\<close>)
    qed
    with e show ?thesis by simp
  qed
  then show ?case by (simp add: f)
qed

lemma obeys_string_body:
  "length str < fuel \<Longrightarrow> obeys R c (bindM (readJSONSyntaxChar T kJSONStringDelimiter) (\<lambda>b.
     bindM (read_string_chars fuel T []) (\<lambda>(str, c). returnM (str, a + b + c)))) (json_string str) rest (\<lambda>x. fst x = str) c"
  unfolding json_string_def quoted_def kJSONStringDelimiter_def split_def
  by (rule obeys_bind [OF obeys_syntax], rule obeys_end [OF obeys_chars]) simp_all

lemma obeys_string:
  assumes "length str < fuel"
  shows "obeys R (c, cs) (readJSONString fuel T False) (ctx_sep c @ json_string str) rest (\<lambda>x. fst x = str) (ctx_next c, cs)"
  unfolding readJSONString_def if_False by (rule obeys_bind [OF obeys_context obeys_string_body [OF assms]])

lemma obeys_numeric_chars:
  "length ds < fuel \<Longrightarrow> list_all isJSONNumeric ds \<Longrightarrow> delim rest \<Longrightarrow>
    obeys R c (readJSONNumericChars fuel T acc) ds rest (\<lambda>x. fst x = acc @ ds) c"
proof (induction ds arbitrary: fuel acc)
  case Nil
  then obtain f b r where f: "fuel = Suc f" "rest = b # r" "\<not> isJSONNumeric b"
    by (cases fuel; cases rest) (auto simp: delim_def)
  show ?case unfolding f(1,2) readJSONNumericChars.simps
    by (rule obeys_peek [OF obeys_peek_at [where b = b]]) (simp_all add: f(3) obeys_return)
next
  case (Cons ch ds)
  then obtain f where f: "fuel = Suc f" "length ds < f" by (cases fuel) auto
  have "obeys R c (bindM (lookahead_read T) (\<lambda>_. bindM (readJSONNumericChars f T (acc @ [ch])) (\<lambda>(str, n).
      returnM (str, 1 + n)))) ([ch] @ ds) rest (\<lambda>x. fst x = acc @ ch # ds) c"
    unfolding split_def
    by (rule obeys_bind [OF obeys_lookahead], rule obeys_end [OF Cons.IH]) (use f Cons.prems in simp_all)
  then have body: "obeys R c (bindM (lookahead_read T) (\<lambda>_. bindM (readJSONNumericChars f T (acc @ [ch])) (\<lambda>(str, n).
      returnM (str, 1 + n)))) (ch # ds) rest (\<lambda>x. fst x = acc @ ch # ds) c" by simp
  show ?case unfolding f(1) readJSONNumericChars.simps
    by (rule obeys_peek [OF obeys_peek_at [where b = ch]]) (use body Cons.prems in simp_all)
qed

lemma obeys_convert: "conv txt = Some n \<Longrightarrow> obeys R c (lexical_cast conv txt) [] rest (\<lambda>x. x = n) c"
  by (simp add: lexical_cast_def obeys_return)

text \<open>A number with or without quotes, as \<open>readJSONInteger\<close> reads it.\<close>

lemma json_number_eq: "json_number q ds = (if q then [0x22] else []) @ ds @ (if q then [0x22] else []) @ []"
  by (simp add: json_number_def quoted_def)

lemma obeys_quote:
  "(\<And>x. obeys R c (f x) bs rest Q c') \<Longrightarrow>
    obeys R c (bindM (if q then readJSONSyntaxChar T kJSONStringDelimiter else returnM 0) f)
      ((if q then [0x22] else []) @ bs) rest Q c'"
  using obeys_bind [OF obeys_syntax [where b = "0x22"], where f = f]
  by (cases q) (simp_all add: kJSONStringDelimiter_def)

lemma obeys_escapeNum:
  "obeys R (c, cs) (f (escapeNum c)) bs rest Q c' \<Longrightarrow>
    obeys R (c, cs) (bindM (getM (\<lambda>s. escapeNum (cur_context s))) f) bs rest Q c'"
  by (rule obeys_get [where x = "escapeNum c"]) (auto simp: json_reading_def)

lemma obeys_integer:
  assumes conv: "conv ds = Some n" and num: "numeric ds" and fuel: "30 < fuel"
    and rest: "escapeNum (ctx_next c) \<or> delim rest"
  shows "obeys R (c, cs) (readJSONInteger fuel T conv) (ctx_sep c @ json_number (escapeNum (ctx_next c)) ds) rest
    (\<lambda>x. fst x = n) (ctx_next c, cs)"
proof -
  have *: "length ds < fuel" "list_all isJSONNumeric ds" using num fuel by (simp_all add: numeric_def)
  have delim: "delim ((if escapeNum (ctx_next c) then [0x22] else []) @ [] @ rest)" using rest by auto
  show ?thesis unfolding readJSONInteger_def split_def json_number_eq
  proof (rule obeys_bind [OF obeys_context], rule obeys_escapeNum, rule obeys_quote, rule obeys_bind)
    show "obeys R (ctx_next c, cs) (readJSONNumericChars fuel T []) ds
        (((if escapeNum (ctx_next c) then [0x22] else []) @ []) @ rest) (\<lambda>x. fst x = ds) (ctx_next c, cs)"
      using obeys_numeric_chars [OF * delim, of "(ctx_next c, cs)" "[]"] by simp
  next
    fix a b :: uint32_t and x :: "byte list \<times> uint32_t"
    assume "fst x = ds"
    then show "obeys R (ctx_next c, cs) (bindM (lexical_cast conv (fst x)) (\<lambda>num.
        bindM (getM (\<lambda>s. escapeNum (cur_context s))) (\<lambda>quoted.
        bindM (if quoted then readJSONSyntaxChar T kJSONStringDelimiter else returnM 0) (\<lambda>d.
        returnM (num, a + (b + (snd x + d))))))) ((if escapeNum (ctx_next c) then [0x22] else []) @ []) rest
        (\<lambda>x. fst x = n) (ctx_next c, cs)"
      using conv by (intro obeys_peek [OF obeys_convert] obeys_escapeNum obeys_quote obeys_return) auto
  qed
qed

lemma obeys_quoted_double:
  assumes "plain ds" and "length ds < fuel" and "quoted_double lx (escapeNum (ctx_next c)) ds d"
  shows "obeys R (c, cs) (readJSONDouble lx fuel T) (ctx_sep c @ quoted ds) rest (\<lambda>x. fst x = d) (ctx_next c, cs)"
proof -
  have str: "obeys R (ctx_next c, cs) (readJSONString fuel T True) (quoted ds) rest (\<lambda>x. fst x = ds) (ctx_next c, cs)"
    for rest using obeys_string_body [OF assms(2), of "(ctx_next c, cs)" 0 rest] plain_string [OF assms(1)]
    by (simp add: readJSONString_def)
  have num: "obeys R (ctx_next c, cs) (if ds = kThriftNan then returnM (quiet_nan lx)
        else if ds = kThriftInfinity then returnM HUGE_VAL
        else if ds = kThriftNegativeInfinity then returnM minus_HUGE_VAL
        else bindM (getM (\<lambda>s. escapeNum (cur_context s))) (\<lambda>quoted.
          if \<not> quoted then throwM (ThrownPointer INVALID_DATA) else lexical_cast (to_double lx) ds)) [] rest
      (\<lambda>x. x = d) (ctx_next c, cs)"
    using assms(3) special_texts unfolding quoted_double_def
    by (auto simp: obeys_return intro!: obeys_escapeNum obeys_convert)
  have "obeys R (ctx_next c, cs) (bindM (lookahead_peek T) (\<lambda>ch. if ch = kJSONStringDelimiter then
      bindM (readJSONString fuel T True) (\<lambda>x. bindM (if fst x = kThriftNan then returnM (quiet_nan lx)
        else if fst x = kThriftInfinity then returnM HUGE_VAL
        else if fst x = kThriftNegativeInfinity then returnM minus_HUGE_VAL
        else bindM (getM (\<lambda>s. escapeNum (cur_context s))) (\<lambda>quoted.
          if \<not> quoted then throwM (ThrownPointer INVALID_DATA) else lexical_cast (to_double lx) (fst x)))
        (\<lambda>num. returnM (num, a + snd x))) else m)) (quoted ds @ []) rest (\<lambda>x. fst x = d) (ctx_next c, cs)" for a m
  proof (rule obeys_peek [OF obeys_peek_at [where b = "0x22"]])
    fix x :: byte assume "x = 0x22"
    then have x: "(x = kJSONStringDelimiter) = True" by (simp add: kJSONStringDelimiter_def)
    show "obeys R (ctx_next c, cs) (if x = kJSONStringDelimiter then
      bindM (readJSONString fuel T True) (\<lambda>x. bindM (if fst x = kThriftNan then returnM (quiet_nan lx)
        else if fst x = kThriftInfinity then returnM HUGE_VAL
        else if fst x = kThriftNegativeInfinity then returnM minus_HUGE_VAL
        else bindM (getM (\<lambda>s. escapeNum (cur_context s))) (\<lambda>quoted.
          if \<not> quoted then throwM (ThrownPointer INVALID_DATA) else lexical_cast (to_double lx) (fst x)))
        (\<lambda>num. returnM (num, a + snd x))) else m) (quoted ds @ []) rest (\<lambda>x. fst x = d) (ctx_next c, cs)"
      unfolding x if_True by (rule obeys_bind [OF str], simp only:, rule obeys_end [OF num], simp)
  qed (simp add: quoted_def)
  then show ?thesis unfolding readJSONDouble_def split_def
    by (intro obeys_bind [OF obeys_context]) simp
qed

lemma obeys_plain_double:
  assumes conv: "to_double lx ds = Some d" and ds: "numeric ds" "ds \<noteq> []" and fuel: "30 < fuel"
    and q: "\<not> escapeNum (ctx_next c)" and rest: "delim rest"
  shows "obeys R (c, cs) (readJSONDouble lx fuel T) (ctx_sep c @ ds) rest (\<lambda>x. fst x = d) (ctx_next c, cs)"
proof -
  obtain b r where b: "ds = b # r" "isJSONNumeric b" using ds by (cases ds) (auto simp: numeric_def)
  have len: "length ds < fuel" "list_all isJSONNumeric ds" using ds fuel by (simp_all add: numeric_def)
  have "obeys R (ctx_next c, cs) (bindM (getM (\<lambda>s. escapeNum (cur_context s))) (\<lambda>quoted.
       bindM (if quoted then readJSONSyntaxChar T kJSONStringDelimiter else returnM 0) (\<lambda>_.
       bindM (readJSONNumericChars fuel T []) (\<lambda>x. bindM (lexical_cast (to_double lx) (fst x)) (\<lambda>num.
       returnM (num, a + snd x)))))) (ds @ []) rest (\<lambda>x. fst x = d) (ctx_next c, cs)" for a :: uint32_t
  proof (rule obeys_escapeNum, simp only: q if_False bindM_return, rule obeys_bind)
    show "obeys R (ctx_next c, cs) (readJSONNumericChars fuel T []) ds ([] @ rest) (\<lambda>x. fst x = ds) (ctx_next c, cs)"
      using obeys_numeric_chars [OF len rest, of "(ctx_next c, cs)" "[]"] by simp
  next
    fix x :: "byte list \<times> uint32_t" assume "fst x = ds"
    then show "obeys R (ctx_next c, cs) (bindM (lexical_cast (to_double lx) (fst x)) (\<lambda>num. returnM (num, a + snd x)))
        [] rest (\<lambda>x. fst x = d) (ctx_next c, cs)"
      using conv by (intro obeys_end [OF obeys_convert]) auto
  qed
  moreover have "b \<noteq> kJSONStringDelimiter" using b(2) not_numeric by (auto simp: kJSONStringDelimiter_def)
  ultimately show ?thesis unfolding readJSONDouble_def split_def
    by (intro obeys_bind [OF obeys_context] obeys_peek [OF obeys_peek_at [where b = b]]) (simp_all add: b(1))
qed

lemma obeys_double:
  assumes d: "finite d \<or> d = HUGE_VAL \<or> d = minus_HUGE_VAL" and fuel: "30 < fuel"
    and rest: "escapeNum (ctx_next c) \<or> delim rest"
  shows "obeys R (c, cs) (readJSONDouble lx fuel T) (ctx_sep c @ json_base lx (escapeNum (ctx_next c)) (VDouble d)) rest
    (\<lambda>x. fst x = d) (ctx_next c, cs)"
proof (cases "finite d")
  case True
  let ?ds = "text_of_double lx d"
  from True have ds: "numeric ?ds" "?ds \<noteq> []" "to_double lx ?ds = Some d" "list_all isJSONNumeric ?ds" "length ?ds < fuel"
    using double_numeric [OF True] double_back [OF True] fuel by (auto simp: numeric_def)
  show ?thesis
  proof (cases "escapeNum (ctx_next c)")
    case True
    then show ?thesis using obeys_quoted_double [OF plain_numeric [OF ds(4)] ds(5), of c d cs rest] ds
      by (simp add: quoted_double_def normalize_numeric json_number_def)
  next
    case False
    with rest show ?thesis using obeys_plain_double [OF ds(3,1,2) fuel False, of rest cs] ds
      by (simp add: normalize_numeric json_number_def)
  qed
next
  case False
  have len: "length kThriftInfinity < fuel" "length kThriftNegativeInfinity < fuel"
    using fuel by (simp_all add: kThriftInfinity_def kThriftNegativeInfinity_def ascii_def)
  from False d show ?thesis
    using obeys_quoted_double [OF special_texts(1) len(1), of c d cs rest]
      obeys_quoted_double [OF special_texts(2) len(2), of c d cs rest]
    by (auto simp: quoted_double_def inf_text special_texts(9,10) json_number_def)
qed

text \<open>Brackets, type names and headers.\<close>

lemma obeys_open:
  "obeys R (c, cs) (bindM (context_read T) (\<lambda>a. bindM (readJSONSyntaxChar T b) (\<lambda>n.
     bindM (pushContext c') (\<lambda>_. returnM (a + n))))) (ctx_sep c @ [b]) rest (\<lambda>_. True) (c', ctx_next c # cs)"
proof -
  have "obeys R (c, cs) (bindM (context_read T) (\<lambda>a. bindM (readJSONSyntaxChar T b) (\<lambda>n.
     bindM (pushContext c') (\<lambda>_. returnM (a + n))))) (ctx_sep c @ ([b] @ [])) rest (\<lambda>_. True) (c', ctx_next c # cs)"
    by (rule obeys_bind [OF obeys_context], rule obeys_bind [OF obeys_syntax], rule obeys_end [OF obeys_push], rule TrueI)
  then show ?thesis by simp
qed

lemma obeys_close:
  "obeys R (c', c # cs) (bindM (readJSONSyntaxChar T b) (\<lambda>n. bindM popContext (\<lambda>_. returnM n))) [b] rest (\<lambda>_. True) (c, cs)"
proof -
  have "obeys R (c', c # cs) (bindM (readJSONSyntaxChar T b) (\<lambda>n. bindM popContext (\<lambda>_. returnM n))) ([b] @ []) rest
      (\<lambda>_. True) (c, cs)"
    by (rule obeys_bind [OF obeys_syntax], rule obeys_end [OF obeys_pop], rule TrueI)
  then show ?thesis by simp
qed

lemmas obeys_brackets =
  obeys_open [of _ _ kJSONObjectStart "PairContext True True", folded readJSONObjectStart_def, unfolded kJSONObjectStart_def]
  obeys_open [of _ _ kJSONArrayStart "ListContext True", folded readJSONArrayStart_def, unfolded kJSONArrayStart_def]
  obeys_close [of _ _ _ kJSONObjectEnd, folded readJSONObjectEnd_def, unfolded kJSONObjectEnd_def]
  obeys_close [of _ _ _ kJSONArrayEnd, folded readJSONArrayEnd_def, unfolded kJSONArrayEnd_def]

lemma obeys_type_name:
  assumes "valid_tag t" and "3 < fuel" and "\<And>n. obeys R (ctx_next c, cs) (f t n) bs rest Q c'"
  shows "obeys R (c, cs) (bindM (readJSONString fuel T False) (\<lambda>x. bindM (getTypeIDForTypeName (fst x)) (\<lambda>t. f t (snd x))))
    (ctx_sep c @ json_string (type_name t) @ bs) rest Q c'"
proof -
  have "length (type_name t) < fuel" using length_type_name [OF assms(1)] assms(2) by simp
  have "obeys R (c, cs) (bindM (readJSONString fuel T False) (\<lambda>x. bindM (getTypeIDForTypeName (fst x)) (\<lambda>t. f t (snd x))))
      ((ctx_sep c @ json_string (type_name t)) @ bs) rest Q c'"
    by (rule obeys_bind [OF obeys_string])
      (use \<open>length (type_name t) < fuel\<close> assms(3) in \<open>simp_all add: type_id_of [OF assms(1)]\<close>)
  then show ?thesis by simp
qed

lemma obeys_size:
  assumes "n < 2 ^ 32" and "30 < fuel" and "delim (bs @ rest)"
    and "\<And>k. obeys R (ListContext False, cs) (f (word_of_nat n :: uint32_t) k) bs rest Q c'"
  shows "obeys R (ListContext False, cs) (bindM (readJSONInteger fuel T (to_u64 lx)) (\<lambda>x.
      if 2 ^ 32 - 1 < fst x then throwM (TProtocolException SIZE_LIMIT) else f (ucast (fst x)) (snd x)))
    ([0x2c] @ text_of_int lx (int n) @ bs) rest Q c'"
proof -
  have u: "uint (word_of_nat n :: uint64_t) = int n" "unat (word_of_nat n :: uint64_t) = n"
    using assms(1) by (simp_all add: uint_nat unat_of_nat)
  have small: "\<not> 2 ^ 32 - 1 < (word_of_nat n :: uint64_t)" using assms(1) u(2) by (simp add: word_less_nat_alt)
  have cast: "(ucast (word_of_nat n :: uint64_t) :: uint32_t) = word_of_nat n"
    by (simp add: ucast_eq u(1))
  have "numeric (text_of_int lx (int n))" using assms(1) by (intro int_numeric) simp_all
  moreover have "to_u64 lx (text_of_int lx (int n)) = Some (word_of_nat n)" using u64_back [of "word_of_nat n"] u by simp
  ultimately have num: "obeys R (ListContext False, cs) (readJSONInteger fuel T (to_u64 lx)) ([0x2c] @ text_of_int lx (int n))
      (bs @ rest) (\<lambda>x. fst x = word_of_nat n) (ListContext False, cs)"
    using obeys_integer [of "to_u64 lx" "text_of_int lx (int n)" "word_of_nat n" fuel "ListContext False" "bs @ rest" cs] assms(2,3)
    by (simp add: json_number_def)
  have "obeys R (ListContext False, cs) (bindM (readJSONInteger fuel T (to_u64 lx)) (\<lambda>x.
      if 2 ^ 32 - 1 < fst x then throwM (TProtocolException SIZE_LIMIT) else f (ucast (fst x)) (snd x)))
    (([0x2c] @ text_of_int lx (int n)) @ bs) rest Q c'"
    by (rule obeys_bind [OF num]) (use assms(4) small cast in simp)
  then show ?thesis by simp
qed

lemma obeys_list_begin:
  assumes "valid_tag e" and "n < 2 ^ 32" and "30 < fuel" and "delim rest"
  shows "obeys R (c, cs) (json_readListBegin lx fuel T)
    (ctx_sep c @ [0x5b] @ json_string (type_name e) @ [0x2c] @ text_of_int lx (int n)) rest
    (\<lambda>x. fst x = (e, word_of_nat n)) (ListContext False, ctx_next c # cs)"
proof -
  have "obeys R (c, cs) (json_readListBegin lx fuel T) ((ctx_sep c @ [0x5b]) @ (ctx_sep (ListContext True) @
      json_string (type_name e) @ ([0x2c] @ text_of_int lx (int n) @ []))) rest
      (\<lambda>x. fst x = (e, word_of_nat n)) (ListContext False, ctx_next c # cs)"
    unfolding json_readListBegin_def split_def
  proof (rule obeys_bind [OF obeys_brackets(2)], rule obeys_type_name)
    fix a k :: uint32_t
    show "obeys R (ctx_next (ListContext True), ctx_next c # cs) (bindM (readJSONInteger fuel T (to_u64 lx)) (\<lambda>x.
        if 2 ^ 32 - 1 < fst x then throwM (TProtocolException SIZE_LIMIT)
        else returnM ((e, ucast (fst x) :: uint32_t), a + (k + snd x)))) ([0x2c] @ text_of_int lx (int n) @ []) rest
        (\<lambda>x. fst x = (e, word_of_nat n)) (ListContext False, ctx_next c # cs)"
      unfolding ctx_next.simps
      by (rule obeys_size [of n fuel "[]" rest "ctx_next c # cs" "\<lambda>w m. returnM ((e, w), a + (k + m))"])
        (use assms in \<open>simp_all add: obeys_return\<close>)
  qed (use assms in simp_all)
  then show ?thesis by simp
qed

lemma obeys_map_begin:
  assumes "valid_tag k" and "valid_tag v" and "n < 2 ^ 32" and "30 < fuel"
  shows "obeys R (c, cs) (json_readMapBegin lx fuel T)
    (ctx_sep c @ [0x5b] @ json_string (type_name k) @ [0x2c] @ json_string (type_name v) @ [0x2c] @ text_of_int lx (int n)
      @ [0x2c] @ [0x7b]) rest
    (\<lambda>x. fst x = (k, v, word_of_nat n)) (PairContext True True, ListContext False # ctx_next c # cs)"
proof -
  let ?c = "(PairContext True True, ListContext False # ctx_next c # cs)"
  have "obeys R (c, cs) (json_readMapBegin lx fuel T) ((ctx_sep c @ [0x5b]) @ (ctx_sep (ListContext True) @
      json_string (type_name k) @ (ctx_sep (ListContext False) @ json_string (type_name v) @
      ([0x2c] @ text_of_int lx (int n) @ ([0x2c] @ [0x7b]))))) rest (\<lambda>x. fst x = (k, v, word_of_nat n)) ?c"
    unfolding json_readMapBegin_def split_def
  proof (rule obeys_bind [OF obeys_brackets(2)], rule obeys_type_name [OF assms(1)], use assms(4) in simp,
      unfold ctx_next.simps, rule obeys_type_name [OF assms(2)], use assms(4) in simp, unfold ctx_next.simps)
    fix a b d :: uint32_t
    have "obeys R (ListContext False, ctx_next c # cs) (bindM (readJSONObjectStart T) (\<lambda>e.
        returnM ((k, v, word_of_nat n :: uint32_t), a + (b + (d + (m + e)))))) ([0x2c] @ [0x7b]) rest
        (\<lambda>x. fst x = (k, v, word_of_nat n)) ?c" for m
      using obeys_brackets(1) [of "ListContext False" "ctx_next c # cs" rest] by (intro obeys_end) simp_all
    then show "obeys R (ListContext False, ctx_next c # cs)
        (bindM (readJSONInteger fuel T (to_u64 lx)) (\<lambda>x.
        if 2 ^ 32 - 1 < fst x then throwM (TProtocolException SIZE_LIMIT)
        else bindM (readJSONObjectStart T) (\<lambda>e. returnM ((k, v, ucast (fst x) :: uint32_t), a + (b + (d + (snd x + e)))))))
        ([0x2c] @ text_of_int lx (int n) @ [0x2c] @ [0x7b]) rest (\<lambda>x. fst x = (k, v, word_of_nat n)) ?c"
      by (intro obeys_size [where f = "\<lambda>w m. bindM (readJSONObjectStart T) (\<lambda>e. returnM ((k, v, w), a + (b + (d + (m + e)))))"])
        (use assms in simp_all)
  qed
  then show ?thesis by simp
qed

lemma obeys_field_begin:
  assumes "valid_tag t" and "0 \<le> sint fid" and "30 < fuel"
  shows "obeys R (PairContext g g, cs) (json_readFieldBegin lx fuel T)
    ((if g then [] else [0x2c]) @ quoted (text_of_int lx (sint fid)) @ [0x3a] @ [0x7b] @ json_string (type_name t)) rest
    (\<lambda>x. fst x = (None, t, fid)) (PairContext False True, PairContext False False # cs)"
proof -
  obtain w :: uint64_t where w: "uint w = sint fid" "\<not> 2 ^ 15 - 1 < w" "ucast w = fid"
    using u64_of_nonneg [OF assms(2)] by blast
  let ?id = "(if g then [] else [0x2c]) @ quoted (text_of_int lx (sint fid))"
    and ?c = "(PairContext False True, PairContext False False # cs)"
  obtain b bs where b: "?id = b # bs" "b \<noteq> 0x7d" by (cases g) (simp_all add: quoted_def)
  have "numeric (text_of_int lx (sint fid))" by (intro int_numeric sint_range)
  then have id: "obeys R (PairContext g g, cs) (readJSONInteger fuel T (to_u64 lx)) ?id rest (\<lambda>x. fst x = w)
      (PairContext False True, cs)" for rest
    using obeys_integer [of "to_u64 lx" "text_of_int lx (sint fid)" w fuel "PairContext g g" rest cs] u64_back [of w] w(1) assms(3)
    by (cases g) (simp_all add: json_number_def)
  have str: "obeys R (PairContext False True, cs) (bindM (readJSONObjectStart T) (\<lambda>b.
       bindM (readJSONString fuel T False) (\<lambda>x. bindM (getTypeIDForTypeName (fst x)) (\<lambda>fieldType.
       returnM ((None :: byte list option, fieldType, fid), a + (b + snd x)))))) (([0x3a] @ [0x7b]) @ (json_string (type_name t) @ [])) rest
       (\<lambda>x. fst x = (None, t, fid)) ?c" for a
  proof (rule obeys_bind)
    show "obeys R (PairContext False True, cs) (readJSONObjectStart T) ([0x3a] @ [0x7b]) ((json_string (type_name t) @ []) @ rest)
        (\<lambda>_. True) (PairContext True True, PairContext False False # cs)"
      using obeys_brackets(1) [of "PairContext False True" cs] by simp
  next
    fix b
    have "3 < fuel" using assms(3) by simp
    from obeys_type_name [OF assms(1) this, of "PairContext True True" "PairContext False False # cs"
        "\<lambda>t n. returnM ((None, t, fid), a + (b + n))" "[]" rest "\<lambda>x. fst x = (None, t, fid)" ?c]
    show "obeys R (PairContext True True, PairContext False False # cs) (bindM (readJSONString fuel T False) (\<lambda>x.
       bindM (getTypeIDForTypeName (fst x)) (\<lambda>fieldType.
       returnM ((None :: byte list option, fieldType, fid), a + (b + snd x))))) (json_string (type_name t) @ []) rest
       (\<lambda>x. fst x = (None, t, fid)) ?c" by (simp add: obeys_return)
  qed
  have "obeys R (PairContext g g, cs) (json_readFieldBegin lx fuel T)
      (?id @ (([0x3a] @ [0x7b]) @ (json_string (type_name t) @ []))) rest (\<lambda>x. fst x = (None, t, fid)) ?c"
    unfolding json_readFieldBegin_def split_def
  proof (rule obeys_peek [OF obeys_peek_at [where b = b]])
    fix ch :: byte assume "ch = b"
    with b(2) have ch: "(ch = kJSONObjectEnd) = False" by (simp add: kJSONObjectEnd_def)
    show "obeys R (PairContext g g, cs) (if ch = kJSONObjectEnd then returnM ((None, T_STOP, 0), 0) else
        bindM (readJSONInteger fuel T (to_u64 lx)) (\<lambda>x. if 2 ^ 15 - 1 < fst x then throwM (TProtocolException SIZE_LIMIT)
        else bindM (readJSONObjectStart T) (\<lambda>b. bindM (readJSONString fuel T False) (\<lambda>y.
         bindM (getTypeIDForTypeName (fst y)) (\<lambda>fieldType.
         returnM ((None :: byte list option, fieldType, ucast (fst x)), snd x + (b + snd y))))))) (?id @ (([0x3a] @ [0x7b]) @ (json_string (type_name t) @ []))) rest
        (\<lambda>x. fst x = (None, t, fid)) ?c"
      unfolding ch if_False by (rule obeys_bind [OF id]) (use str w in simp)
  qed (simp only: b(1) append_Cons)
  then show ?thesis by simp
qed

lemma obeys_stop:
  "obeys R (c, cs) (json_readFieldBegin lx fuel T) [] (0x7d # rest) (\<lambda>x. fst x = (None, T_STOP, 0)) (c, cs)"
  unfolding json_readFieldBegin_def
  by (rule obeys_peek [OF obeys_peek_at [where b = "0x7d"]]) (simp_all add: kJSONObjectEnd_def obeys_return)

text \<open>Whole values.\<close>

abbreviation okD :: "double \<Rightarrow> bool" where
  "okD d \<equiv> finite d \<or> d = HUGE_VAL \<or> d = minus_HUGE_VAL"

lemma json_read_calls:
  "readStructBegin_virt (json_ops lx n T) = bindM (readJSONObjectStart T) (\<lambda>k. returnM (None, k))"
  "readStructEnd_virt (json_ops lx n T) = readJSONObjectEnd T"
  "readFieldBegin_virt (json_ops lx n T) = json_readFieldBegin lx n T"
  "readFieldEnd_virt (json_ops lx n T) = readJSONObjectEnd T"
  "readMapBegin_virt (json_ops lx n T) = json_readMapBegin lx n T"
  "readMapEnd_virt (json_ops lx n T) = seqM [readJSONObjectEnd T, readJSONArrayEnd T]"
  "readSetBegin_virt (json_ops lx n T) = json_readListBegin lx n T"
  "readSetEnd_virt (json_ops lx n T) = readJSONArrayEnd T"
  "readListBegin_virt (json_ops lx n T) = json_readListBegin lx n T"
  "readListEnd_virt (json_ops lx n T) = readJSONArrayEnd T"
  by (simp_all add: json_ops_def json_readStructBegin_def json_readStructEnd_def json_readFieldEnd_def
      json_readMapEnd_def json_readSetBegin_def json_readListBegin_def json_readSetEnd_def json_readListEnd_def)

lemma obeys_mapM: "obeys R c m bs rest (\<lambda>x. fst x = v) c' \<Longrightarrow> obeys R c (mapM f m) bs rest (\<lambda>x. fst x = f v) c'"
  unfolding mapM_def split_def by (erule obeys_end) simp

lemma obeys_byte:
  assumes "numeric (text_of_int lx (sint b))" and "30 < n" and "escapeNum (ctx_next c) \<or> delim rest"
  shows "obeys R (c, cs) (json_readByte lx n T) (ctx_sep c @ json_number (escapeNum (ctx_next c)) (text_of_int lx (sint b)))
    rest (\<lambda>x. fst x = b) (ctx_next c, cs)"
proof -
  let ?w = "scast b :: int16_t"
  have s: "sint ?w = sint b" by (simp add: sint_up_scast is_up_def source_size_def target_size_def)
  then have "to_i16 lx (text_of_int lx (sint b)) = Some ?w" using i16_back [of ?w] by simp
  from obeys_integer [of "to_i16 lx", OF this assms] have i: "obeys R (c, cs) (readJSONInteger n T (to_i16 lx))
      (ctx_sep c @ json_number (escapeNum (ctx_next c)) (text_of_int lx (sint b))) rest (\<lambda>x. fst x = ?w) (ctx_next c, cs)" .
  have "sint ?w < 256" using sint_lt [of b] s by simp
  moreover have "ucast ?w = b"
  proof (rule bit_word_eqI)
    fix k assume "k < LENGTH(8)"
    then show "bit (ucast ?w :: byte) k = bit b k"
      by (cases "k = 7") (auto simp: bit_unsigned_iff bit_signed_iff min_def)
  qed
  ultimately show ?thesis
    unfolding json_readByte_def split_def
    by (intro obeys_then [OF i]) (simp add: obeys_def assertM_def bindM_def returnM_def)
qed

lemma obeys_base:
  assumes v: "is_base v" and "conforms ty v" and "textual ty" and "wf_base (\<lambda>k. k < n) v" and "json_ok okD v"
    and n: "30 < n" and rest: "delim rest"
  shows "obeys R (c, cs) (read_type (Suc fuel) (json_ops lx n T) ty) (ctx_sep c @ json_base lx (escapeNum (ctx_next c)) v)
    rest (\<lambda>x. fst x = v) (ctx_next c, cs)"
proof -
  have num: "numeric (text_of_int lx (sint b))" "numeric (text_of_int lx (sint i))" "numeric (text_of_int lx (sint j))"
    "numeric (text_of_int lx (sint l))" "numeric (text_of_int lx (if t then 1 else 0))"
    for b :: byte and i :: int16_t and j :: int32_t and l :: int64_t and t
    by (intro int_numeric sint_range; simp)+
  have rest': "escapeNum (ctx_next c) \<or> delim rest" using rest by simp
  have bool: "obeys R (c, cs) (readJSONInteger n T (to_bool lx))
      (ctx_sep c @ json_number (escapeNum (ctx_next c)) (text_of_int lx (if b then 1 else 0))) rest (\<lambda>x. fst x = b)
      (ctx_next c, cs)" for b
    by (rule obeys_integer [of "to_bool lx", OF bool_back num(5) n rest'])
  note I = bool [of True] bool [of False] obeys_byte [OF num(1) n rest']
    obeys_integer [of "to_i16 lx", OF i16_back num(2) n rest'] obeys_integer [of "to_i32 lx", OF i32_back num(3) n rest']
    obeys_integer [of "to_i64 lx", OF i64_back num(4) n rest'] obeys_double [OF _ n rest'] obeys_string
  show ?thesis
    using assms(2-5) I by (cases v; cases ty)
      (use v in \<open>auto simp: json_ops_def json_readBool_def json_readI16_def json_readI32_def json_readI64_def
         json_readDouble_def json_readString_def ttype_defs intro!: obeys_mapM\<close>)
qed

text \<open>The closing of a map.\<close>

lemma obeys_map_end:
  "obeys R (c'', c' # c # cs) (seqM [readJSONObjectEnd T, readJSONArrayEnd T]) ([0x7d] @ [0x5d]) rest (\<lambda>_. True) (c, cs)"
proof -
  have "obeys R (c'', c' # c # cs) (seqM [readJSONObjectEnd T, readJSONArrayEnd T]) ([0x7d] @ ([0x5d] @ [])) rest
      (\<lambda>_. True) (c, cs)"
    unfolding seqM.simps bindM_assoc bindM_return
    by (rule obeys_bind [OF obeys_brackets(3)], rule obeys_bind [OF obeys_brackets(4)], rule obeys_return, rule TrueI)
  then show ?thesis by simp
qed

lemma obeys_element:
  assumes "obeys R c rd a (b @ rest) (\<lambda>x. fst x = v) c'"
    and "obeys R c' (read_loop k (read_element rd add) (add v acc)) b rest (\<lambda>x. fst x = vs) c''"
  shows "obeys R c (read_loop (Suc k) (read_element rd add) acc) (a @ b) rest (\<lambda>x. fst x = vs) c''"
proof -
  have "obeys R c (read_element rd add acc) a (b @ rest) (\<lambda>x. fst x = add v acc) c'"
    unfolding read_element_def split_def by (rule obeys_end [OF assms(1)]) simp
  then show ?thesis unfolding read_loop.simps split_def
    by (rule obeys_bind) (auto intro!: obeys_end [OF assms(2)])
qed

lemma obeys_entry:
  assumes "obeys R c rdk a (b @ d @ rest) (\<lambda>x. fst x = u) c1" and "obeys R c1 (rdv (map_of acc u)) b (d @ rest) (\<lambda>x. fst x = v) c2"
    and "obeys R c2 (read_loop k (read_entry rdk rdv) (map_put u v acc)) d rest (\<lambda>x. fst x = kvs) c3"
  shows "obeys R c (read_loop (Suc k) (read_entry rdk rdv) acc) (a @ b @ d) rest (\<lambda>x. fst x = kvs) c3"
proof -
  have "obeys R c (read_entry rdk rdv acc) (a @ b) (d @ rest) (\<lambda>x. fst x = map_put u v acc) c2"
    unfolding read_entry_def split_def
    by (rule obeys_bind [OF assms(1)]) (auto intro!: obeys_end [OF assms(2)])
  then have "obeys R c (read_loop (Suc k) (read_entry rdk rdv) acc) ((a @ b) @ d) rest (\<lambda>x. fst x = kvs) c3"
    unfolding read_loop.simps split_def
    by (rule obeys_bind) (auto intro!: obeys_end [OF assms(3)])
  then show ?thesis by simp
qed

text \<open>A known field: header, value, closing bracket, and the rest of the fields.\<close>

lemma obeys_known_field:
  assumes hdr: "obeys R c (readFieldBegin_virt P) a (b @ d @ e @ rest) (\<lambda>x. fst x = (None, t, fid)) c1"
    and "t \<noteq> T_STOP" and "find_field fid flds = Some ((nm, key, req), ty)" and "t = type_to_enum ty"
    and val: "obeys R c1 (rd ty (current fid old acc)) b (d @ e @ rest) (\<lambda>x. fst x = v) c2"
    and fin: "obeys R c2 (readFieldEnd_virt P) d (e @ rest) (\<lambda>_. True) c3"
    and tl: "obeys R c3 (read_fields k P rd sk flds old (set_field (nm, key) v acc)) e rest (\<lambda>x. fst x = fs) c4"
  shows "obeys R c (read_fields (Suc k) P rd sk flds old acc) (a @ (b @ (d @ e))) rest (\<lambda>x. fst x = fs) c4"
proof -
  have "obeys R c1 (read_one_field rd sk flds old t fid acc) b ((d @ e) @ rest) (\<lambda>x. fst x = set_field (nm, key) v acc) c2"
    using assms(3,4) obeys_end [OF val, of "\<lambda>x. fst x = set_field (nm, key) v acc" "\<lambda>x. (set_field (nm, key) (fst x) acc, snd x)"]
    by (simp add: read_one_field_def split_def)
  then have body: "obeys R c1 (bindM (read_one_field rd sk flds old t fid acc) (\<lambda>x. bindM (readFieldEnd_virt P) (\<lambda>c.
       bindM (read_fields k P rd sk flds old (fst x)) (\<lambda>y. returnM (fst y, m + (snd x + (c + snd y))))))) (b @ (d @ e)) rest
      (\<lambda>x. fst x = fs) c4" for m
    by (rule obeys_bind) (auto intro!: obeys_bind [OF fin] obeys_end [OF tl])
  have "obeys R c (readFieldBegin_virt P) a ((b @ (d @ e)) @ rest) (\<lambda>x. fst x = (None, t, fid)) c1"
    using hdr by simp
  from obeys_bind [OF this, of "\<lambda>p. if fst (snd (fst p)) = T_STOP then returnM (acc, snd p) else
      bindM (read_one_field rd sk flds old (fst (snd (fst p))) (snd (snd (fst p))) acc) (\<lambda>x. bindM (readFieldEnd_virt P) (\<lambda>c.
      bindM (read_fields k P rd sk flds old (fst x)) (\<lambda>y. returnM (fst y, snd p + (snd x + (c + snd y))))))"
      "\<lambda>x. fst x = fs" c4] body assms(2)
  show ?thesis unfolding read_fields.simps split_def by simp
qed

lemma obeys_array:
  assumes "valid_tag e" and "length vs < 2 ^ 32" and "30 < n"
    and "obeys R (ListContext False, ctx_next c # cs) (read_loop (length vs) step []) (json_elems lx vs) ([0x5d] @ rest)
      (\<lambda>x. fst x = vs) (ListContext False, ctx_next c # cs)"
  shows "obeys R (c, cs) (bindM (json_readListBegin lx n T) (\<lambda>a. bindM (read_loop (unat (snd (fst a))) step []) (\<lambda>x.
      bindM (readJSONArrayEnd T) (\<lambda>k. returnM (f (fst x), snd a + (snd x + k))))))
    ((ctx_sep c @ [0x5b] @ json_string (type_name e) @ [0x2c] @ text_of_int lx (int (length vs))) @ (json_elems lx vs @ [0x5d]))
    rest (\<lambda>x. fst x = f vs) (ctx_next c, cs)"
proof (rule obeys_bind [OF obeys_list_begin [OF assms(1-3)]])
  show "delim ((json_elems lx vs @ [0x5d]) @ rest)" by (cases vs) simp_all
next
  fix a :: "(TType \<times> uint32_t) \<times> uint32_t" assume "fst a = (e, word_of_nat (length vs))"
  then have sz: "unat (snd (fst a)) = length vs" using assms(2) by (simp add: unat_of_nat)
  show "obeys R (ListContext False, ctx_next c # cs) (bindM (read_loop (unat (snd (fst a))) step []) (\<lambda>x.
      bindM (readJSONArrayEnd T) (\<lambda>k. returnM (f (fst x), snd a + (snd x + k))))) (json_elems lx vs @ [0x5d]) rest
      (\<lambda>x. fst x = f vs) (ctx_next c, cs)"
    unfolding sz by (rule obeys_bind [OF assms(4)], rule obeys_end [OF obeys_brackets(4)]) simp
qed

lemma reads_value:
    "\<And>c cs fuel ty rest. conforms ty v \<Longrightarrow> textual ty \<Longrightarrow> wf_value (\<lambda>k. k < n) (\<lambda>k. k < 2 ^ 32) v \<Longrightarrow> json_ok okD v \<Longrightarrow>
      30 < n \<Longrightarrow> size v + 2 \<le> fuel \<Longrightarrow> (is_base v \<Longrightarrow> delim rest) \<Longrightarrow>
      obeys R (c, cs) (read_type fuel (json_ops lx n T) ty) (ctx_sep c @ json_text lx (escapeNum (ctx_next c)) v) rest
        (\<lambda>x. fst x = v) (ctx_next c, cs)"
  and reads_fields: "\<And>g cs fuel k flds acc rest. conforms_fields flds fs \<Longrightarrow> list_all (\<lambda>f. textual (snd f)) flds \<Longrightarrow>
      distinct (map (\<lambda>f. snd (fst f)) (acc @ fs)) \<Longrightarrow>
      wf_fields (\<lambda>k. k < n) (\<lambda>k. k < 2 ^ 32) fs \<Longrightarrow> json_ok_fields okD fs \<Longrightarrow> 30 < n \<Longrightarrow> fields_size fs \<le> fuel \<Longrightarrow>
      length fs < k \<Longrightarrow>
      \<exists>g'. obeys R (PairContext g g, cs) (read_fields k (json_ops lx n T) (read_into fuel (json_ops lx n T))
        (skip fuel (json_ops lx n T)) flds [] acc) (json_fields lx g fs) (0x7d # rest) (\<lambda>x. fst x = acc @ fs)
        (PairContext g' g', cs)"
  and reads_elems: "\<And>cs fuel e add acc rest. conforms_elems e vs \<Longrightarrow> textual e \<Longrightarrow>
      (add = (\<lambda>v vs. vs @ [v]) \<or> add = set_insert \<and> distinct (acc @ vs)) \<Longrightarrow>
      wf_elems (\<lambda>k. k < n) (\<lambda>k. k < 2 ^ 32) (type_to_enum e) vs \<Longrightarrow> json_ok_elems okD vs \<Longrightarrow> 30 < n \<Longrightarrow>
      size_list size vs + 1 \<le> fuel \<Longrightarrow>
      obeys R (ListContext False, cs) (read_loop (length vs) (read_element (read_type fuel (json_ops lx n T) e) add) acc)
        (json_elems lx vs) (0x5d # rest) (\<lambda>x. fst x = acc @ vs) (ListContext False, cs)"
  and reads_pairs: "\<And>g cs fuel kt vt acc rest. conforms_pairs kt vt kvs \<Longrightarrow> textual kt \<Longrightarrow> textual vt \<Longrightarrow>
      distinct (map fst (acc @ kvs)) \<Longrightarrow>
      wf_pairs (\<lambda>k. k < n) (\<lambda>k. k < 2 ^ 32) (type_to_enum kt) (type_to_enum vt) kvs \<Longrightarrow> json_ok_pairs okD kvs \<Longrightarrow>
      30 < n \<Longrightarrow> pairs_size kvs \<le> fuel \<Longrightarrow>
      \<exists>g'. obeys R (PairContext g g, cs) (read_loop (length kvs) (read_entry (read_type fuel (json_ops lx n T) kt)
        (read_into fuel (json_ops lx n T) vt)) acc) (json_pairs lx g kvs) (0x7d # rest) (\<lambda>x. fst x = acc @ kvs)
        (PairContext g' g', cs)"
proof (induction v and fs and vs and kvs rule: tval_induct)
  case (base v)
  then obtain f where f: "fuel = Suc f" by (cases fuel) auto
  show ?case unfolding f json_text_base [OF base(1)]
    by (rule obeys_base) (use base in \<open>auto simp: wf_value_base\<close>)
next
  case (struct nm fs)
  then obtain f where f: "fuel = Suc f" "fields_size fs + 2 \<le> f" by (cases fuel) auto
  obtain flds where ty: "ty = TyStruct nm flds" using struct.prems(1) by (cases ty) auto
  have "length fs \<le> fields_size fs" by (induction fs) simp_all
  then obtain g' where fs: "obeys R (PairContext True True, ctx_next c # cs) (read_fields f (json_ops lx n T)
      (read_into f (json_ops lx n T)) (skip f (json_ops lx n T)) flds [] []) (json_fields lx True fs) ([0x7d] @ rest)
      (\<lambda>x. fst x = fs) (PairContext g' g', ctx_next c # cs)"
    using struct.IH [of flds "[]" f f True "ctx_next c # cs" rest] struct.prems ty f by auto
  have req: "required_set flds fs" "overlay [] fs = fs" using struct.prems(1) ty by (simp_all add: overlay_new)
  have begin': "obeys R (c, cs) (bindM (readJSONObjectStart T) (\<lambda>k. returnM (None :: byte list option, k))) (ctx_sep c @ [0x7b]) r
      (\<lambda>x. True) (PairContext True True, ctx_next c # cs)" for r
    by (rule obeys_end [OF obeys_brackets(1)]) simp
  have "obeys R (c, cs) (read_type (Suc f) (json_ops lx n T) (TyStruct nm flds))
      ((ctx_sep c @ [0x7b]) @ (json_fields lx True fs @ [0x7d])) rest (\<lambda>x. fst x = VStruct nm fs) (ctx_next c, cs)"
    unfolding read_into.simps t_type.case members_of.simps json_read_calls split_def
  proof (rule obeys_bind [OF begin'], rule obeys_bind [OF fs])
    fix a x :: "_ \<times> uint32_t" assume "fst x = fs"
    with req show "obeys R (PairContext g' g', ctx_next c # cs) (bindM (readJSONObjectEnd T) (\<lambda>e.
        if required_set flds (fst x) then returnM (VStruct nm (overlay [] (fst x)), snd a + (snd x + e))
        else throwM (TProtocolException INVALID_DATA))) [0x7d] rest (\<lambda>x. fst x = VStruct nm fs) (ctx_next c, cs)"
      by (intro obeys_then [OF obeys_brackets(3)]) (simp add: obeys_return)
  qed
  then show ?case by (simp add: f ty del: read_into.simps)
next
  case (map kt vt kvs)
  then obtain f where f: "fuel = Suc f" "pairs_size kvs \<le> f" by (cases fuel) auto
  obtain k v where ty: "ty = TyMap k v" using map.prems(1) by (cases ty) auto
  have t: "kt = type_to_enum k" "vt = type_to_enum v" "valid_tag kt" "valid_tag vt" "length kvs < 2 ^ 32"
    using map.prems ty by simp_all
  obtain g' where kvs: "obeys R (PairContext True True, ListContext False # ctx_next c # cs) (read_loop (length kvs)
      (read_entry (read_type f (json_ops lx n T) k) (read_into f (json_ops lx n T) v)) []) (json_pairs lx True kvs)
      (([0x7d] @ [0x5d]) @ rest) (\<lambda>x. fst x = kvs) (PairContext g' g', ListContext False # ctx_next c # cs)"
    using map.IH [of k v "[]" f True "ListContext False # ctx_next c # cs" "0x5d # rest"] map.prems ty f t by auto
  note hdr = obeys_map_begin [OF t(3,4,5) map.prems(5), of c cs]
  have "obeys R (c, cs) (read_type (Suc f) (json_ops lx n T) (TyMap k v))
      ((ctx_sep c @ [0x5b] @ json_string (type_name kt) @ [0x2c] @ json_string (type_name vt) @ [0x2c]
        @ text_of_int lx (int (length kvs)) @ [0x2c] @ [0x7b]) @ (json_pairs lx True kvs @ ([0x7d] @ [0x5d]))) rest
      (\<lambda>x. fst x = VMap kt vt kvs) (ctx_next c, cs)"
    unfolding read_into.simps t_type.case json_read_calls split_def
  proof (rule obeys_bind [OF hdr])
    fix a :: "(TType \<times> TType \<times> uint32_t) \<times> uint32_t" assume a: "fst a = (kt, vt, word_of_nat (length kvs))"
    have sz: "unat (snd (snd (fst a))) = length kvs" using a t(5) by (simp add: unat_of_nat)
    show "obeys R (PairContext True True, ListContext False # ctx_next c # cs) (bindM (read_loop (unat (snd (snd (fst a))))
        (read_entry (read_type f (json_ops lx n T) k) (read_into f (json_ops lx n T) v)) []) (\<lambda>x.
        bindM (seqM [readJSONObjectEnd T, readJSONArrayEnd T]) (\<lambda>e. returnM (VMap (type_to_enum k) (type_to_enum v) (fst x),
          snd a + (snd x + e))))) (json_pairs lx True kvs @ ([0x7d] @ [0x5d])) rest (\<lambda>x. fst x = VMap kt vt kvs) (ctx_next c, cs)"
      unfolding sz t(1,2) by (rule obeys_bind [OF kvs], rule obeys_end [OF obeys_map_end]) simp
  qed
  then show ?case by (simp add: f ty del: read_into.simps)
next
  case (set et vs)
  then obtain f where f: "fuel = Suc f" "size_list size vs + 1 \<le> f" by (cases fuel) auto
  obtain e where ty: "ty = TySet e" using set.prems(1) by (cases ty) auto
  have t: "et = type_to_enum e" "valid_tag et" "length vs < 2 ^ 32" using set.prems ty by simp_all
  have vs: "obeys R (ListContext False, ctx_next c # cs) (read_loop (length vs)
      (read_element (read_type f (json_ops lx n T) e) set_insert) []) (json_elems lx vs) ([0x5d] @ rest)
      (\<lambda>x. fst x = vs) (ListContext False, ctx_next c # cs)"
    using set.IH [of e set_insert "[]" f "ctx_next c # cs" rest] set.prems ty f t by auto
  have "obeys R (c, cs) (read_type (Suc f) (json_ops lx n T) (TySet e))
      ((ctx_sep c @ [0x5b] @ json_string (type_name et) @ [0x2c] @ text_of_int lx (int (length vs)))
        @ (json_elems lx vs @ [0x5d])) rest (\<lambda>x. fst x = VSet et vs) (ctx_next c, cs)"
    unfolding read_into.simps t_type.case json_read_calls split_def t(1)
    by (rule obeys_array [OF t(2,3) set.prems(5) vs, unfolded t(1), of "VSet (type_to_enum e)"])
  then show ?case by (simp add: f ty del: read_into.simps)
next
  case (list et vs)
  then obtain f where f: "fuel = Suc f" "size_list size vs + 1 \<le> f" by (cases fuel) auto
  obtain e where ty: "ty = TyList e" using list.prems(1) by (cases ty) auto
  have t: "et = type_to_enum e" "valid_tag et" "length vs < 2 ^ 32" using list.prems ty by simp_all
  have vs: "obeys R (ListContext False, ctx_next c # cs) (read_loop (length vs)
      (read_element (read_type f (json_ops lx n T) e) (\<lambda>v vs. vs @ [v])) []) (json_elems lx vs) ([0x5d] @ rest)
      (\<lambda>x. fst x = vs) (ListContext False, ctx_next c # cs)"
    using list.IH [of e "\<lambda>v vs. vs @ [v]" "[]" f "ctx_next c # cs" rest] list.prems ty f t by auto
  have "obeys R (c, cs) (read_type (Suc f) (json_ops lx n T) (TyList e))
      ((ctx_sep c @ [0x5b] @ json_string (type_name et) @ [0x2c] @ text_of_int lx (int (length vs)))
        @ (json_elems lx vs @ [0x5d])) rest (\<lambda>x. fst x = VList et vs) (ctx_next c, cs)"
    unfolding read_into.simps t_type.case json_read_calls split_def t(1)
    by (rule obeys_array [OF t(2,3) list.prems(5) vs, unfolded t(1), of "VList (type_to_enum e)"])
  then show ?case by (simp add: f ty del: read_into.simps)
next
  case no_field
  then obtain j where k: "k = Suc j" by (cases k) auto
  have "obeys R (PairContext g g, cs) (read_fields (Suc j) (json_ops lx n T) (read_into fuel (json_ops lx n T))
      (skip fuel (json_ops lx n T)) flds [] acc) [] (0x7d # rest) (\<lambda>x. fst x = acc) (PairContext g g, cs)"
    unfolding read_fields.simps json_read_calls by (rule obeys_then [OF obeys_stop]) (auto simp: obeys_return)
  then show ?case by (auto simp: k)
next
  case (field nm fid v fs)
  then obtain j where k: "k = Suc j" "length fs < j" by (cases k) auto
  from field.prems(1) obtain key req ty where fd: "find_field fid flds = Some ((nm, key, req), ty)" "conforms ty v"
    "conforms_fields flds fs" by (auto split: option.splits prod.splits)
  have ty: "textual ty" "ttype_of v = type_to_enum ty" "key = fid"
    using textual_field [OF fd(1) field.prems(2)] conforms_tag [OF fd(2)] find_field_key [OF fd(1)] by simp_all
  have new: "set_field (nm, fid) v acc = acc @ [((nm, fid), v)]" using field.prems(3) by (intro set_field_new) auto
  have dist: "distinct (map (\<lambda>f. snd (fst f)) ((acc @ [((nm, fid), v)]) @ fs))" using field.prems(3) by auto
  obtain g' where fs: "obeys R (PairContext False False, cs) (read_fields j (json_ops lx n T) (read_into fuel (json_ops lx n T))
      (skip fuel (json_ops lx n T)) flds [] (set_field (nm, key) v acc)) (json_fields lx False fs) (0x7d # rest)
      (\<lambda>x. fst x = acc @ ((nm, fid), v) # fs) (PairContext g' g', cs)"
    using field.IH(2) [OF fd(3) field.prems(2) dist _ _ field.prems(6), of fuel j False cs rest] field.prems k new ty(3) by auto
  let ?r = "json_fields lx False fs @ 0x7d # rest"
  have none: "current fid [] acc = None" using field.prems(3) by (intro current_new) auto
  have val: "obeys R (PairContext False True, PairContext False False # cs) (read_into fuel (json_ops lx n T) ty (current fid [] acc))
      ([0x3a] @ json_text lx False v) ([0x7d] @ ?r) (\<lambda>x. fst x = v) (PairContext False False, PairContext False False # cs)"
    using field.IH(1) [OF fd(2) ty(1), of fuel "[0x7d] @ ?r" "PairContext False True" "PairContext False False # cs"] field.prems
    by (simp add: none)
  have sid: "0 \<le> sint fid" using field.prems(5) by simp
  have hdr: "obeys R (PairContext g g, cs) (readFieldBegin_virt (json_ops lx n T))
      ((if g then [] else [0x2c]) @ quoted (text_of_int lx (sint fid)) @ [0x3a] @ [0x7b] @ json_string (type_name (ttype_of v)))
      r (\<lambda>x. fst x = (None, ttype_of v, fid)) (PairContext False True, PairContext False False # cs)" for r
    unfolding json_read_calls by (rule obeys_field_begin [OF valid_tag_ttype_of sid field.prems(6)])
  have fin: "obeys R (PairContext False False, PairContext False False # cs) (readFieldEnd_virt (json_ops lx n T)) [0x7d] r
      (\<lambda>_. True) (PairContext False False, cs)" for r
    unfolding json_read_calls by (rule obeys_brackets(3))
  have "obeys R (PairContext g g, cs) (read_fields (Suc j) (json_ops lx n T) (read_into fuel (json_ops lx n T))
      (skip fuel (json_ops lx n T)) flds [] acc)
      (((if g then [] else [0x2c]) @ quoted (text_of_int lx (sint fid)) @ [0x3a] @ [0x7b] @ json_string (type_name (ttype_of v)))
        @ (([0x3a] @ json_text lx False v) @ ([0x7d] @ json_fields lx False fs))) (0x7d # rest)
      (\<lambda>x. fst x = acc @ ((nm, fid), v) # fs) (PairContext g' g', cs)"
    by (rule obeys_known_field [OF hdr valid_tag_not_stop [OF valid_tag_ttype_of] fd(1) ty(2) val fin fs])
  then show ?case by (auto simp: k)
next
  case no_elem
  then show ?case by (simp add: obeys_return)
next
  case (elem v vs)
  have "obeys R (ListContext False, cs) (read_type fuel (json_ops lx n T) e) ([0x2c] @ json_text lx False v)
      (json_elems lx vs @ 0x5d # rest) (\<lambda>x. fst x = v) (ListContext False, cs)"
  proof -
    have "delim (json_elems lx vs @ 0x5d # rest)" by (cases vs) simp_all
    then show ?thesis
      using elem.IH(1) [of e fuel "json_elems lx vs @ 0x5d # rest" "ListContext False" cs] elem.prems by simp
  qed
  moreover have "add v acc = acc @ [v]" using elem.prems(3) by (auto simp: set_insert_def)
  moreover have "add = (\<lambda>v vs. vs @ [v]) \<or> add = set_insert \<and> distinct ((acc @ [v]) @ vs)"
    using elem.prems(3) by auto
  then have "obeys R (ListContext False, cs) (read_loop (length vs) (read_element (read_type fuel (json_ops lx n T) e) add)
      (acc @ [v])) (json_elems lx vs) (0x5d # rest) (\<lambda>x. fst x = acc @ v # vs) (ListContext False, cs)"
    using elem.IH(2) [of e add "acc @ [v]" fuel cs rest] elem.prems by simp
  ultimately show ?case
    using obeys_element [of "(ListContext False, cs)" "read_type fuel (json_ops lx n T) e" "[0x2c] @ json_text lx False v"
      "json_elems lx vs" "0x5d # rest" v "(ListContext False, cs)" "length vs" add acc] by simp
next
  case no_pair
  then show ?case by (auto intro!: exI obeys_return)
next
  case (pair x y kvs)
  have new: "map_put x y acc = acc @ [(x, y)]" using pair.prems(4) by (intro map_put_new) auto
  have dist: "distinct (map fst ((acc @ [(x, y)]) @ kvs))" using pair.prems(4) by auto
  obtain g' where kvs: "obeys R (PairContext False False, cs) (read_loop (length kvs) (read_entry (read_type fuel (json_ops lx n T) kt)
      (read_into fuel (json_ops lx n T) vt)) (map_put x y acc)) (json_pairs lx False kvs) (0x7d # rest)
      (\<lambda>z. fst z = acc @ (x, y) # kvs) (PairContext g' g', cs)"
    using pair.IH(3) [OF _ pair.prems(2,3) dist _ _ pair.prems(7), of fuel False cs rest] pair.prems new by auto
  let ?r = "json_pairs lx False kvs @ 0x7d # rest"
  have "delim ?r" by (cases kvs; cases "hd kvs") auto
  moreover have none: "map_of acc x = None" using pair.prems(4) by (auto simp: map_of_eq_None_iff)
  ultimately have y: "obeys R (PairContext False True, cs) (read_into fuel (json_ops lx n T) vt (map_of acc x)) ([0x3a] @ json_text lx False y) ?r
      (\<lambda>z. fst z = y) (PairContext False False, cs)"
    using pair.IH(2) [of vt fuel ?r "PairContext False True" cs] pair.prems by simp
  have x: "obeys R (PairContext g g, cs) (read_type fuel (json_ops lx n T) kt) ((if g then [] else [0x2c]) @ json_text lx True x)
      (([0x3a] @ json_text lx False y) @ ?r) (\<lambda>z. fst z = x) (PairContext False True, cs)"
    using pair.IH(1) [of kt fuel "([0x3a] @ json_text lx False y) @ ?r" "PairContext g g" cs] pair.prems by (cases g) simp_all
  from obeys_entry [OF x y kvs] show ?case by auto
qed

end

end
