(* ===== verification/JSONRoundTrip.thy ===== *)
theory JSONRoundTrip
  imports JSONReading
begin

text \<open>
  \<^verbatim>\<open>TJSONProtocol\<close> over a memory buffer: what is written, that it is read back, and what happens to
  numbers the reader refuses. The laws of the conversions are shown to be consistent by decimal
  conversions of integers and of the doubles that are integers.
\<close>

section \<open>Decimal conversions\<close>

fun digits :: "nat \<Rightarrow> byte list" where
  "digits n = (if n < 10 then [0x30 + word_of_nat n] else digits (n div 10) @ [0x30 + word_of_nat (n mod 10)])"

declare digits.simps [simp del]

definition decimal :: "int \<Rightarrow> byte list" where
  "decimal i = (if i < 0 then 0x2d # digits (nat (- i)) else digits (nat i))"

definition digits_value :: "byte list \<Rightarrow> nat" where
  "digits_value ds = foldl (\<lambda>a b. 10 * a + unat (b - 0x30)) 0 ds"

definition decimal_value :: "byte list \<Rightarrow> int" where
  "decimal_value ds = (case ds of b # bs \<Rightarrow> if b = 0x2d then - int (digits_value bs) else int (digits_value ds) | [] \<Rightarrow> 0)"

lemma digit: "k < 10 \<Longrightarrow> unat ((0x30 + word_of_nat k :: byte) - 0x30) = k \<and> isJSONNumeric (0x30 + word_of_nat k)
    \<and> (0x30 + word_of_nat k :: byte) \<noteq> 0x2d"
proof -
  have "list_all (\<lambda>k. unat ((0x30 + word_of_nat k :: byte) - 0x30) = k \<and> isJSONNumeric (0x30 + word_of_nat k)
    \<and> (0x30 + word_of_nat k :: byte) \<noteq> 0x2d) [0..<10]" by code_simp
  moreover assume "k < 10"
  then have "k \<in> set [0..<10]" by simp
  ultimately show ?thesis unfolding list_all_iff by (rule bspec)
qed

lemma digits_value_digits: "digits_value (digits n) = n"
proof (induction n rule: digits.induct)
  case (1 n)
  show ?case
  proof (cases "n < 10")
    case True
    then show ?thesis by (subst digits.simps) (simp add: digits_value_def unat_of_nat)
  next
    case False
    then have "digits_value (digits (n div 10)) = n div 10" using 1 by simp
    moreover have "unat ((0x30 + word_of_nat (n mod 10) :: byte) - 0x30) = n mod 10" using digit by simp
    ultimately show ?thesis using False by (subst digits.simps) (simp add: digits_value_def del: add_diff_cancel_left')
  qed
qed

lemma digits_numeric: "list_all isJSONNumeric (digits n)"
proof (induction n rule: digits.induct)
  case (1 n)
  then show ?case by (subst digits.simps) (simp add: digit)
qed

lemma digits_Cons: "\<exists>b bs. digits n = b # bs \<and> b \<noteq> 0x2d"
proof (induction n rule: digits.induct)
  case (1 n)
  show ?case
  proof (cases "n < 10")
    case True
    then show ?thesis by (subst digits.simps) (simp add: digit)
  next
    case False
    with 1 obtain b bs where "digits (n div 10) = b # bs" "b \<noteq> 0x2d" by auto
    with False show ?thesis by (subst digits.simps) simp
  qed
qed

lemma length_digits: "n < 10 ^ Suc k \<Longrightarrow> length (digits n) \<le> Suc k"
proof (induction k arbitrary: n)
  case 0
  then show ?case by (subst digits.simps) simp
next
  case (Suc k)
  then have "length (digits (n div 10)) \<le> Suc k" by (intro Suc.IH) (simp add: less_mult_imp_div_less)
  then show ?case by (subst digits.simps) simp
qed

lemma decimal_back: "decimal_value (decimal i) = i"
proof -
  obtain b bs where "digits (nat i) = b # bs" "b \<noteq> 0x2d" using digits_Cons by blast
  then show ?thesis using digits_value_digits [of "nat i"] digits_value_digits [of "nat (- i)"]
    by (auto simp: decimal_def decimal_value_def)
qed

lemma decimal_numeric:
  assumes "\<bar>i\<bar> < 10 ^ 20"
  shows "numeric (decimal i)" and "decimal i \<noteq> []"
proof -
  have "nat i < 10 ^ Suc 19" "nat (- i) < 10 ^ Suc 19" using assms by simp_all
  then have "length (digits (nat i)) \<le> Suc 19" "length (digits (nat (- i))) \<le> Suc 19" by (intro length_digits; simp)+
  moreover have "isJSONNumeric 0x2d" by (simp add: isJSONNumeric_def ascii_def)
  ultimately show "numeric (decimal i)" using digits_numeric by (auto simp: numeric_def decimal_def)
  show "decimal i \<noteq> []" using digits_Cons [of "nat i"] by (auto simp: decimal_def)
qed

text \<open>The doubles that are integers of at most \<open>2^53\<close> in magnitude.\<close>

definition integral :: "double \<Rightarrow> bool" where
  "integral d \<longleftrightarrow> (case double_integer d of None \<Rightarrow> False | Some i \<Rightarrow> \<bar>i\<bar> \<le> 2 ^ 53 \<and> double_of_int i = d)"

definition text_of_integral :: "double \<Rightarrow> byte list" where
  "text_of_integral d = (if d = HUGE_VAL then ascii ''inf'' else if d = minus_HUGE_VAL then ascii ''-inf''
     else case double_integer d of None \<Rightarrow> ascii ''nan'' | Some i \<Rightarrow> if \<bar>i\<bar> \<le> 2 ^ 53 then decimal i else ascii ''nan'')"

definition in_range :: "int \<Rightarrow> int \<Rightarrow> byte list \<Rightarrow> 'a::len word option" where
  "in_range lo hi ds = (let i = decimal_value ds in if lo \<le> i \<and> i < hi then Some (word_of_int i) else None)"

definition decimal_lexical :: lexical where
  "decimal_lexical = \<lparr>text_of_int = decimal, text_of_double = text_of_integral,
     to_bool = (\<lambda>ds. let i = decimal_value ds in if i = 0 then Some False else if i = 1 then Some True else None),
     to_i16 = in_range (- (2 ^ 15)) (2 ^ 15), to_i32 = in_range (- (2 ^ 31)) (2 ^ 31),
     to_i64 = in_range (- (2 ^ 63)) (2 ^ 63), to_u64 = in_range (- (2 ^ 64)) (2 ^ 64),
     to_double = (\<lambda>ds. Some (double_of_int (decimal_value ds))), quiet_nan = 0x7FF8000000000000\<rparr>"

lemma in_range_sint: "in_range lo hi (decimal (sint w)) = Some w" if "lo \<le> sint w" and "sint w < hi"
  using that by (simp add: in_range_def decimal_back)

interpretation decimal: json_lexical decimal_lexical integral
proof
  fix d
  show "length (text_of_double decimal_lexical d) < 2 ^ 32"
  proof -
    have l: "length (decimal i) < 2 ^ 32" if "\<bar>i\<bar> \<le> 2 ^ 53" for i
      using decimal_numeric(1) [of i] that by (simp add: numeric_def)
    have "length (ascii ''inf'') < 2 ^ 32" "length (ascii ''-inf'') < 2 ^ 32" "length (ascii ''nan'') < 2 ^ 32"
      by (simp_all add: ascii_def)
    then have "length (text_of_integral d) < 2 ^ 32"
      unfolding text_of_integral_def by (simp only: split: if_split option.split) (blast intro: l)
    then show ?thesis by (simp only: decimal_lexical_def lexical.simps)
  qed
  assume d: "integral d"
  then obtain i where i: "double_integer d = Some i" "\<bar>i\<bar> \<le> 2 ^ 53" "double_of_int i = d"
    by (auto simp: integral_def split: option.splits)
  have "double_integer HUGE_VAL = None" "double_integer minus_HUGE_VAL = None"
    by (simp_all add: double_integer_def HUGE_VAL_def minus_HUGE_VAL_def Let_def)
  then have "d \<noteq> HUGE_VAL" "d \<noteq> minus_HUGE_VAL" using i(1) by (metis option.distinct(1))+
  then have t: "text_of_integral d = decimal i"
    unfolding text_of_integral_def using i(1,2) by (simp only: if_False option.case if_True)
  show "numeric (text_of_double decimal_lexical d) \<and> text_of_double decimal_lexical d \<noteq> []"
    using t decimal_numeric [of i] order.strict_trans1 [OF i(2), of "10 ^ 20"] by (simp add: decimal_lexical_def)
  show "to_double decimal_lexical (text_of_double decimal_lexical d) = Some d"
    using t i(3) by (simp add: decimal_lexical_def decimal_back)
next
  fix n :: int assume "- (2 ^ 63) \<le> n" "n < 2 ^ 64"
  then show "numeric (text_of_int decimal_lexical n)" using decimal_numeric(1) [of n] by (simp add: decimal_lexical_def)
next
  fix b show "to_bool decimal_lexical (text_of_int decimal_lexical (if b then 1 else 0)) = Some b"
    by (simp add: decimal_lexical_def decimal_back)
next
  fix w :: int16_t
  show "to_i16 decimal_lexical (text_of_int decimal_lexical (sint w)) = Some w"
    using sint_ge [of w] sint_lt [of w] by (simp add: decimal_lexical_def in_range_sint)
next
  fix w :: int32_t
  show "to_i32 decimal_lexical (text_of_int decimal_lexical (sint w)) = Some w"
    using sint_ge [of w] sint_lt [of w] by (simp add: decimal_lexical_def in_range_sint)
next
  fix w :: int64_t
  show "to_i64 decimal_lexical (text_of_int decimal_lexical (sint w)) = Some w"
    using sint_ge [of w] sint_lt [of w] by (simp add: decimal_lexical_def in_range_sint)
next
  fix w :: uint64_t
  have "uint w < 2 ^ 64" using uint_bounded [of w] by simp
  moreover have "- (2 ^ 64) \<le> uint w" by (rule order_trans [of _ 0]) simp_all
  ultimately show "to_u64 decimal_lexical (text_of_int decimal_lexical (uint w)) = Some w"
    by (simp add: decimal_lexical_def in_range_def decimal_back Let_def)
next
  show "text_of_double decimal_lexical HUGE_VAL = ascii ''inf''"
    "text_of_double decimal_lexical minus_HUGE_VAL = ascii ''-inf''"
    by (simp_all add: decimal_lexical_def text_of_integral_def HUGE_VAL_def minus_HUGE_VAL_def)
qed

text \<open>
  \<^verbatim>\<open>lexical_cast\<close> to an unsigned type accepts a minus sign and negates in that type; field ids and sequence
  ids go through such a conversion.
\<close>

locale json_lexical_wraps = json_lexical +
  assumes u64_wraps: "- (2 ^ 63) \<le> n \<Longrightarrow> n < 0 \<Longrightarrow> to_u64 lx (text_of_int lx n) = Some (word_of_int n)"

interpretation decimal_wraps: json_lexical_wraps decimal_lexical integral
  by unfold_locales (simp add: decimal_lexical_def in_range_def decimal_back Let_def)

section \<open>Over a memory buffer\<close>

lemma json_memory_sink:
  "json_lexical lx fin \<Longrightarrow> json_sink lx fin memory_ops (\<lambda>s. memory_inv s \<and> owner s) unread (\<lambda>s. 2 ^ 31 - wBase s)"
  by (rule json_sink.intro [OF _ memory_sink.byte_sink_axioms])

lemma json_memory_source: "json_lexical lx fin \<Longrightarrow> json_source lx fin memory_ops memory_inv unread"
  by (rule json_source.intro [OF _ memory_source.byte_source_axioms])

interpretation json_memory_out: json_sink decimal_lexical integral memory_ops "\<lambda>s. memory_inv s \<and> owner s" unread
  "\<lambda>s. 2 ^ 31 - wBase s"
  by (rule json_memory_sink [OF decimal.json_lexical_axioms])

interpretation json_memory: json_source decimal_lexical integral memory_ops memory_inv unread
  by (rule json_memory_source [OF decimal.json_lexical_axioms])

text \<open>A protocol object between two values, over a buffer it may write to.\<close>

definition json_ready :: "TMemoryBuffer TJSONProtocol \<Rightarrow> bool" where
  "json_ready s \<longleftrightarrow> memory_inv (json_trans s) \<and> owner (json_trans s) \<and> cur_context s = BaseContext"

lemma json_write_memory:
  assumes "json_lexical lx fin" and "json_ready s" and "wf_value (\<lambda>_. True) (\<lambda>n. n < 2 ^ 32) v"
    and "wBase (json_trans s) + length (json_text lx False v) \<le> 2 ^ 31"
  obtains s' where "write_value (json_ops lx fuel memory_ops) v s = (Inr (word_of_nat (length (json_text lx False v))), s')"
    "unread (json_trans s') = unread (json_trans s) @ json_text lx False v" "json_ready s'" "contexts s' = contexts s"
proof -
  have "emits (json_writing (\<lambda>s. memory_inv s \<and> owner s) unread (\<lambda>s. 2 ^ 31 - wBase s)) (BaseContext, contexts s)
      (write_value (json_ops lx fuel memory_ops) v) (json_text lx False v) (BaseContext, contexts s)"
    using json_sink.emits_value [OF json_memory_sink [OF assms(1)], where v = v and c = BaseContext and cs = "contexts s" and fuel = fuel]
      assms(3) by simp
  moreover have "length (json_text lx False v) \<le> 2 ^ 31 - wBase (json_trans s)" using assms(4) by simp
  ultimately show thesis using that assms(2) by (auto simp: emits_def json_writing_def json_ready_def)
qed

lemma json_read_memory:
  assumes "json_lexical lx fin" and "memory_inv t" and "unread t = json_text lx False (VStruct nm fs) @ rest"
    and "conforms ty (VStruct nm fs)" and "textual ty" and "wf_value (\<lambda>k. k < n) (\<lambda>k. k < 2 ^ 32) (VStruct nm fs)"
    and "json_ok (\<lambda>d. fin d \<or> d = HUGE_VAL \<or> d = minus_HUGE_VAL) (VStruct nm fs)" and "30 < n"
    and "size (VStruct nm fs) + 2 \<le> fuel"
  obtains k s' where "read_type fuel (json_ops lx n memory_ops) ty (newTJSONProtocol t) = (Inr (VStruct nm fs, k), s')"
    "(if hasData s' then [data s'] else []) @ unread (json_trans s') = rest" "cur_context s' = BaseContext" "contexts s' = []"
proof -
  have "obeys (json_reading memory_inv unread) (BaseContext, []) (read_type fuel (json_ops lx n memory_ops) ty)
      (json_text lx False (VStruct nm fs)) rest (\<lambda>x. fst x = VStruct nm fs) (BaseContext, [])"
    using json_source.reads_value [OF json_memory_source [OF assms(1)], where c = BaseContext and cs = "[]" and v = "VStruct nm fs"]
      assms(4-9) by simp
  then obtain x s' where x: "read_type fuel (json_ops lx n memory_ops) ty (newTJSONProtocol t) = (Inr x, s')"
    "fst x = VStruct nm fs" "r_ctl (json_reading memory_inv unread) s' = (BaseContext, [])"
    "r_inp (json_reading memory_inv unread) s' = rest"
    by (rule obeysD [where s = "newTJSONProtocol t"]) (use assms(2,3) in \<open>simp_all add: json_reading_def newTJSONProtocol_def\<close>)
  show thesis by (rule that [of "snd x" s']) (use x in \<open>auto simp: json_reading_def simp flip: x(2)\<close>)
qed

section \<open>Refused input\<close>

text \<open>\<open>fails R c m bs e\<close>: on input that starts with \<open>bs\<close>, \<open>m\<close> throws \<open>e\<close>.\<close>

definition fails :: "('s, 'c) reading \<Rightarrow> 'c \<Rightarrow> ('s, 'a) M \<Rightarrow> byte list \<Rightarrow> exn \<Rightarrow> bool" where
  "fails R c m bs e \<longleftrightarrow> (\<forall>s rest. r_inv R s \<and> r_ctl R s = c \<and> r_inp R s = bs @ rest \<longrightarrow> fst (m s) = Inl e)"

lemma fails_throw: "fails R c (throwM e) bs e"
  by (simp add: fails_def throwM_def)

lemma fails_bind:
  assumes "\<And>rest. obeys R c m a (b @ rest) Q c'" and "\<And>x. Q x \<Longrightarrow> fails R c' (f x) b e"
  shows "fails R c (bindM m f) (a @ b) e"
  unfolding fails_def
proof (intro allI impI, elim conjE)
  fix s rest assume s: "r_inv R s" "r_ctl R s = c" "r_inp R s = (a @ b) @ rest"
  then have "r_inp R s = a @ b @ rest" by simp
  with s obtain x s' where "m s = (Inr x, s')" "Q x" "r_inv R s'" "r_ctl R s' = c'" "r_inp R s' = b @ rest"
    by (auto elim: obeysD [OF assms(1) [of rest]])
  with assms(2) [of x] show "fst (bindM m f s) = Inl e" by (auto simp: fails_def bindM_def)
qed

lemma fails_first: "fails R c m bs e \<Longrightarrow> fails R c (bindM m f) bs e"
  by (fastforce simp: fails_def bindM_def split: sum.splits prod.splits)

context json_source
begin

lemma fails_escapeNum:
  "fails R (c, cs) (f (escapeNum c)) bs e \<Longrightarrow> fails R (c, cs) (bindM (getM (\<lambda>s. escapeNum (cur_context s))) f) bs e"
  by (auto simp: fails_def json_reading_def bindM_def getM_def)

text \<open>A number that does not convert, in a value that is not a key.\<close>

lemma integer_fails:
  assumes "conv ds = None" and "numeric ds" and "30 < fuel" and "\<not> escapeNum (ctx_next c)" and "\<not> isJSONNumeric b"
  shows "fails R (c, cs) (readJSONInteger fuel T conv) (ctx_sep c @ ds @ [b]) (ThrownPointer INVALID_DATA)"
proof -
  have ds: "length ds < fuel" "list_all isJSONNumeric ds" "delim ([b] @ rest)" for rest
    using assms(2,3,5) by (simp_all add: numeric_def delim_def)
  have chars: "obeys R (ctx_next c, cs) (readJSONNumericChars fuel T []) ds ([b] @ rest) (\<lambda>x. fst x = ds) (ctx_next c, cs)" for rest
    using obeys_numeric_chars [OF ds, of "(ctx_next c, cs)" "[]"] by simp
  have "fails R (c, cs) (readJSONInteger fuel T conv) (ctx_sep c @ (ds @ [b])) (ThrownPointer INVALID_DATA)"
    unfolding readJSONInteger_def split_def
  proof (rule fails_bind [OF obeys_context], rule fails_escapeNum, unfold if_not_P [OF assms(4)] bindM_return, rule fails_bind [OF chars])
    fix a x :: uint32_t and y :: "byte list \<times> uint32_t" assume "fst y = ds"
    with assms(1) show "fails R (ctx_next c, cs) (bindM (lexical_cast conv (fst y)) g) [b] (ThrownPointer INVALID_DATA)" for g
      by (simp add: lexical_cast_def fails_throw)
  qed
  then show ?thesis by simp
qed

text \<open>A field whose id is negative.\<close>

lemma negative_field_fails:
  assumes "to_u64 lx (text_of_int lx (sint fid)) = Some (word_of_int (sint fid))" and "sint (fid :: int16_t) < 0" and "30 < fuel"
  shows "fails R (PairContext True True, cs) (json_readFieldBegin lx fuel T) (quoted (text_of_int lx (sint fid)))
    (TProtocolException SIZE_LIMIT)"
proof -
  have num: "numeric (text_of_int lx (sint fid))" by (intro int_numeric sint_range)
  have big: "2 ^ 15 - 1 < (word_of_int (sint fid) :: uint64_t)"
  proof -
    have "uint (word_of_int n :: uint64_t) = n + 2 ^ 64" if "n < 0" "- (2 ^ 15) \<le> n" for n
    proof -
      have "n mod 2 ^ 64 = (n + 2 ^ 64) mod 2 ^ 64" by simp
      also have "\<dots> = n + 2 ^ 64" using that by (intro mod_pos_pos_trivial) simp_all
      finally show ?thesis by (simp add: uint_word_of_int)
    qed
    moreover have ge: "- (2 ^ 15) \<le> sint fid" using sint_ge [of fid] by simp
    ultimately have u: "uint (word_of_int (sint fid) :: uint64_t) = sint fid + 2 ^ 64" using assms(2) by blast
    show ?thesis unfolding word_less_def u using ge by simp
  qed
  have id: "obeys R (PairContext True True, cs) (readJSONInteger fuel T (to_u64 lx)) (quoted (text_of_int lx (sint fid))) rest
      (\<lambda>x. fst x = word_of_int (sint fid)) (PairContext False True, cs)" for rest
    using obeys_integer [of "to_u64 lx", OF assms(1) num assms(3), of "PairContext True True" rest cs]
    by (simp add: json_number_def)
  have "fails R (PairContext True True, cs) (json_readFieldBegin lx fuel T) ([] @ quoted (text_of_int lx (sint fid)) @ [])
      (TProtocolException SIZE_LIMIT)"
    unfolding json_readFieldBegin_def
  proof (rule fails_bind [where Q = "\<lambda>x. x = 0x22"])
    show "obeys R (PairContext True True, cs) (lookahead_peek T) [] ((quoted (text_of_int lx (sint fid)) @ []) @ rest)
        (\<lambda>x. x = 0x22) (PairContext True True, cs)" for rest
      by (rule obeys_peek_at) (simp add: quoted_def)
  next
    fix ch :: byte assume "ch = 0x22"
    then have ch: "(ch = kJSONObjectEnd) = False" by (simp add: kJSONObjectEnd_def)
    show "fails R (PairContext True True, cs) (if ch = kJSONObjectEnd then returnM ((None, T_STOP, 0), 0)
        else bindM (readJSONInteger fuel T (to_u64 lx)) (\<lambda>(tmpVal, a).
          if 2 ^ 15 - 1 < tmpVal then throwM (TProtocolException SIZE_LIMIT)
          else bindM (readJSONObjectStart T) (\<lambda>b. bindM (readJSONString fuel T False) (\<lambda>(tmpStr, c).
            bindM (getTypeIDForTypeName tmpStr) (\<lambda>fieldType.
            returnM ((None, fieldType, ucast tmpVal), a + (b + c))))))) (quoted (text_of_int lx (sint fid)) @ [])
        (TProtocolException SIZE_LIMIT)"
      unfolding ch if_False split_def by (rule fails_bind [OF id]) (use big in \<open>simp add: fails_throw\<close>)
  qed
  then show ?thesis by simp
qed

end

section \<open>Properties\<close>

definition json_sample :: tval where
  "json_sample = VStruct [83] [(([97], 1), VI32 (- 5)), (([98], 2), VString [0x22, 0x0a]),
     (([99], 3), VMap T_I32 T_BOOL [(VI32 7, VBool True)]), (([100], 4), VList T_DOUBLE [VDouble HUGE_VAL])]"

definition json_sample_type :: t_type where
  "json_sample_type = TyStruct [83] [(([97], 1, T_REQUIRED), TyI32), (([98], 2, T_OPTIONAL), TyString),
     (([99], 3, T_OPTIONAL), TyMap TyI32 TyBool), (([100], 4, T_OPTIONAL), TyList TyDouble)]"

definition json_sample_text :: "byte list" where
  "json_sample_text = [123, 34, 49, 34, 58, 123, 34, 105, 51, 50, 34, 58, 45, 53, 125, 44, 34, 50, 34, 58, 123, 34, 115, 116,
    114, 34, 58, 34, 92, 34, 92, 110, 34, 125, 44, 34, 51, 34, 58, 123, 34, 109, 97, 112, 34, 58, 91, 34,
    105, 51, 50, 34, 44, 34, 116, 102, 34, 44, 49, 44, 123, 34, 55, 34, 58, 49, 125, 93, 125, 44, 34, 52, 34,
    58, 123, 34, 108, 115, 116, 34, 58, 91, 34, 100, 98, 108, 34, 44, 49, 44, 34, 73, 110, 102, 105, 110,
    105, 116, 121, 34, 93, 125, 125]"

lemma json_sample_text: "json_text decimal_lexical False json_sample = json_sample_text"
  by code_simp

lemma json_sample_facts:
  "conforms json_sample_type json_sample" "textual json_sample_type"
  "wf_value (\<lambda>_. True) (\<lambda>n. n < 2 ^ 32) json_sample" "wf_value (\<lambda>k. k < 100) (\<lambda>k. k < 2 ^ 32) json_sample"
  "json_ok (\<lambda>d. integral d \<or> d = HUGE_VAL \<or> d = minus_HUGE_VAL) json_sample" "size json_sample + 2 \<le> 100"
  by (simp_all add: json_sample_def json_sample_type_def find_field_def required_set_def valid_tag_def)

lemma json_sample_ready:
  "json_ready (newTJSONProtocol (newTMemoryBuffer 8))" "unread (json_trans (newTJSONProtocol (newTMemoryBuffer 8))) = []"
  "wBase (json_trans (newTJSONProtocol (newTMemoryBuffer 8))) = 0" "contexts (newTJSONProtocol (newTMemoryBuffer 8)) = []"
  using memory_inv_init [of 0 8 None True]
  by (simp_all add: json_ready_def newTJSONProtocol_def newTMemoryBuffer_def initCommon_def unread_def)

lemma json_sample_fits:
  "wBase (json_trans (newTJSONProtocol (newTMemoryBuffer 8))) + length (json_text decimal_lexical False json_sample) \<le> 2 ^ 31"
  by (simp only: json_sample_ready(3) json_sample_text) (simp add: json_sample_text_def)

text \<open>
  C13. The JSON writer appends exactly the JSON text of the value and reports its length; separators, quotes
  around keys and escapes come from the stack of contexts, which is back where it was. Binary data is
  written as Base64.
\<close>

theorem json_writes_text:
  assumes "json_lexical lx fin" and "json_ready s" and "wf_value (\<lambda>_. True) (\<lambda>n. n < 2 ^ 32) v"
    and "wBase (json_trans s) + length (json_text lx False v) \<le> 2 ^ 31"
  shows "\<exists>s'. write_value (json_ops lx fuel memory_ops) v s = (Inr (word_of_nat (length (json_text lx False v))), s')
    \<and> unread (json_trans s') = unread (json_trans s) @ json_text lx False v
    \<and> contexts s' = contexts s \<and> cur_context s' = BaseContext"
  by (rule json_write_memory [OF assms]) (auto simp: json_ready_def)

theorem json_writes_text_witness:
  "\<exists>s'. write_value (json_ops decimal_lexical 0 memory_ops) json_sample (newTJSONProtocol (newTMemoryBuffer 8)) = (Inr 103, s')
    \<and> unread (json_trans s') = json_sample_text \<and> contexts s' = [] \<and> cur_context s' = BaseContext"
proof -
  have "word_of_nat (length json_sample_text) = (103 :: uint32_t)" by (simp add: json_sample_text_def)
  with json_writes_text [OF decimal.json_lexical_axioms json_sample_ready(1) json_sample_facts(3) json_sample_fits, of 0]
  show ?thesis by (simp only: json_sample_text json_sample_ready append_Nil)
qed

text \<open>
  C4. Round trip: a struct that \<open>TJSONProtocol\<close> has written is read back unchanged by the generated reader
  of its schema on another protocol object, which leaves nothing unread. Field ids may not be negative, and
  there may be no NaN and no binary field; \<open>n\<close> bounds the length of one string or number.
\<close>

theorem json_roundtrip:
  assumes "json_lexical lx fin" and "json_ready s" and "unread (json_trans s) = []"
    and "conforms ty (VStruct nm fs)" and "textual ty" and "wf_value (\<lambda>k. k < n) (\<lambda>k. k < 2 ^ 32) (VStruct nm fs)"
    and "json_ok (\<lambda>d. fin d \<or> d = HUGE_VAL \<or> d = minus_HUGE_VAL) (VStruct nm fs)" and "30 < n"
    and "size (VStruct nm fs) + 2 \<le> fuel" and "wBase (json_trans s) + length (json_text lx False (VStruct nm fs)) \<le> 2 ^ 31"
  shows "\<exists>k s' k' s''. write_value (json_ops lx n memory_ops) (VStruct nm fs) s = (Inr k, s')
    \<and> read_type fuel (json_ops lx n memory_ops) ty (newTJSONProtocol (json_trans s')) = (Inr (VStruct nm fs, k'), s'')
    \<and> unread (json_trans s'') = []"
proof -
  have "wf_value (\<lambda>_. True) (\<lambda>k. k < 2 ^ 32) (VStruct nm fs)" by (rule wf_value_mono(1) [OF _ _ assms(6)]) simp_all
  from json_write_memory [OF assms(1,2) this assms(10)] obtain k s' where
    w: "write_value (json_ops lx n memory_ops) (VStruct nm fs) s = (Inr k, s')"
    "unread (json_trans s') = json_text lx False (VStruct nm fs) @ []" "json_ready s'" using assms(3) by (metis append_Nil append_Nil2)
  then have "memory_inv (json_trans s')" by (simp add: json_ready_def)
  from json_read_memory [OF assms(1) this w(2) assms(4-9)] obtain k' s'' where
    "read_type fuel (json_ops lx n memory_ops) ty (newTJSONProtocol (json_trans s')) = (Inr (VStruct nm fs, k'), s'')"
    "(if hasData s'' then [data s''] else []) @ unread (json_trans s'') = []" by metis
  with w(1) show ?thesis by auto
qed

theorem json_roundtrip_witness:
  "\<exists>k s' k' s''. write_value (json_ops decimal_lexical 100 memory_ops) json_sample (newTJSONProtocol (newTMemoryBuffer 8)) = (Inr k, s')
    \<and> read_type 100 (json_ops decimal_lexical 100 memory_ops) json_sample_type (newTJSONProtocol (json_trans s'))
      = (Inr (json_sample, k'), s'') \<and> unread (json_trans s'') = []"
  unfolding json_sample_def
  by (rule json_roundtrip [OF decimal.json_lexical_axioms json_sample_ready(1,2) json_sample_facts(1) [unfolded json_sample_def]
      json_sample_facts(2) json_sample_facts(4,5) [unfolded json_sample_def] _ json_sample_facts(6) [unfolded json_sample_def]
      json_sample_fits [unfolded json_sample_def]]) simp

text \<open>
  C25. A struct with a negative field id is written without an error, but the reader refuses it: the id is
  read as an unsigned number and then exceeds the largest \<^verbatim>\<open>int16_t\<close>.
\<close>

theorem json_negative_field_id:
  assumes "json_lexical_wraps lx fin" and "json_ready s" and "unread (json_trans s) = []"
    and "wf_value (\<lambda>_. True) (\<lambda>k. k < 2 ^ 32) v" and "sint fid < 0" and "30 < n"
    and "wBase (json_trans s) + length (json_text lx False (VStruct nm [((fn, fid), v)])) \<le> 2 ^ 31"
  shows "\<exists>k s'. write_value (json_ops lx n memory_ops) (VStruct nm [((fn, fid), v)]) s = (Inr k, s')
    \<and> fst (read_type (Suc (Suc fuel)) (json_ops lx n memory_ops) (TyStruct nm flds) (newTJSONProtocol (json_trans s')))
      = Inl (TProtocolException SIZE_LIMIT)"
proof -
  have lx: "json_lexical lx fin" using assms(1) by (rule json_lexical_wraps.axioms)
  note src = json_memory_source [OF lx]
  let ?v = "VStruct nm [((fn, fid), v)]" and ?id = "quoted (text_of_int lx (sint fid))"
    and ?R = "json_reading memory_inv unread" and ?P = "json_ops lx n memory_ops"
  have "wf_value (\<lambda>_. True) (\<lambda>k. k < 2 ^ 32) ?v" using assms(4) by simp
  from json_write_memory [OF lx assms(2) this assms(7)] obtain k s' where
    w: "write_value ?P ?v s = (Inr k, s')" "unread (json_trans s') = json_text lx False ?v" "json_ready s'"
    using assms(3) by (metis append_Nil)
  have "to_u64 lx (text_of_int lx (sint fid)) = Some (word_of_int (sint fid))"
    using sint_ge [of fid] by (intro json_lexical_wraps.u64_wraps [OF assms(1)] assms(5)) simp
  note hdr = json_source.negative_field_fails [OF src this assms(5,6)]
  have "fails ?R (BaseContext, []) (read_type (Suc (Suc fuel)) ?P (TyStruct nm flds)) ([0x7b] @ ?id) (TProtocolException SIZE_LIMIT)"
    unfolding read_into.simps(2) [of "Suc fuel"] t_type.case members_of.simps
  proof (rule fails_bind [where Q = "\<lambda>_. True"])
    show "obeys ?R (BaseContext, []) (readStructBegin_virt ?P) [0x7b] (?id @ rest) (\<lambda>_. True) (PairContext True True, [BaseContext])" for rest
      unfolding json_source.json_read_calls [OF src] using json_source.obeys_brackets(1) [OF src, of BaseContext "[]"]
      by (intro obeys_end) simp_all
  next
    fix x :: "byte list option \<times> uint32_t"
    show "fails ?R (PairContext True True, [BaseContext]) (case x of (sname, a) \<Rightarrow>
        bindM (read_fields (Suc fuel) ?P (read_into (Suc fuel) ?P) (skip (Suc fuel) ?P) flds [] []) (\<lambda>(fs, b).
        bindM (readStructEnd_virt ?P) (\<lambda>c. if required_set flds fs then returnM (VStruct nm (overlay [] fs), a + (b + c))
        else throwM (TProtocolException INVALID_DATA)))) ?id (TProtocolException SIZE_LIMIT)"
      unfolding split_def read_fields.simps(2) json_source.json_read_calls(3) [OF src]
      by (intro fails_first hdr)
  qed
  moreover have "memory_inv (json_trans s')" using w(3) by (simp add: json_ready_def)
  moreover have "json_text lx False ?v = ([0x7b] @ ?id) @ [0x3a] @ [0x7b] @ json_string (type_name (ttype_of v)) @ [0x3a]
      @ json_text lx False v @ [0x7d] @ [0x7d]" by simp
  then have "unread (json_trans s') = ([0x7b] @ ?id) @ [0x3a] @ [0x7b] @ json_string (type_name (ttype_of v)) @ [0x3a]
      @ json_text lx False v @ [0x7d] @ [0x7d]" using w(2) by simp
  ultimately have "fst (read_type (Suc (Suc fuel)) ?P (TyStruct nm flds) (newTJSONProtocol (json_trans s')))
      = Inl (TProtocolException SIZE_LIMIT)"
    unfolding fails_def by (simp add: json_reading_def newTJSONProtocol_def)
  with w(1) show ?thesis by blast
qed

theorem json_negative_field_id_witness:
  "\<exists>k s'. write_value (json_ops decimal_lexical 100 memory_ops) (VStruct [] [(([97], - 1), VBool True)])
      (newTJSONProtocol (newTMemoryBuffer 8)) = (Inr k, s')
    \<and> fst (read_type 2 (json_ops decimal_lexical 100 memory_ops) (TyStruct [] [(([97], - 1, T_OPTIONAL), TyBool)])
      (newTJSONProtocol (json_trans s'))) = Inl (TProtocolException SIZE_LIMIT)"
proof -
  have "length (json_text decimal_lexical False (VStruct [] [(([97], - 1), VBool True)])) = 15" by code_simp
  then have fits: "wBase (json_trans (newTJSONProtocol (newTMemoryBuffer 8)))
      + length (json_text decimal_lexical False (VStruct [] [(([97], - 1), VBool True)])) \<le> 2 ^ 31"
    by (simp only: json_sample_ready(3)) simp
  show ?thesis unfolding numeral_2_eq_2
    by (rule json_negative_field_id [OF decimal_wraps.json_lexical_wraps_axioms json_sample_ready(1,2) _ _ _ fits]) simp_all
qed

text \<open>
  C26. A number that does not convert (out of range, say) makes the reader throw a pointer to an exception
  object, which the handlers for \<^verbatim>\<open>TProtocolException\<close> do not catch, instead of the exception.
\<close>

theorem json_bad_number_throws_pointer:
  assumes "json_lexical lx fin" and "memory_inv t" and "unread t = ds @ [b] @ rest"
    and "to_i32 lx ds = None" and "numeric ds" and "30 < n" and "\<not> isJSONNumeric b"
  shows "fst (json_readI32 lx n memory_ops (newTJSONProtocol t)) = Inl (ThrownPointer INVALID_DATA)"
proof -
  have "fails (json_reading memory_inv unread) (BaseContext, []) (readJSONInteger n memory_ops (to_i32 lx)) (ctx_sep BaseContext @ ds @ [b])
      (ThrownPointer INVALID_DATA)"
    using json_source.integer_fails [where conv = "to_i32 lx", OF json_memory_source [OF assms(1)] assms(4-6), of BaseContext b] assms(7) by simp
  then show ?thesis using assms(2,3) by (simp add: fails_def json_reading_def newTJSONProtocol_def json_readI32_def)
qed

text \<open>2147483648 and a comma.\<close>

theorem json_bad_number_throws_pointer_witness:
  "fst (json_readI32 decimal_lexical 31 memory_ops (newTJSONProtocol
     (initCommon (Some [50, 49, 52, 55, 52, 56, 51, 54, 52, 56, 44]) 11 True 11))) = Inl (ThrownPointer INVALID_DATA)"
proof (rule json_bad_number_throws_pointer [OF decimal.json_lexical_axioms, where ds = "[50, 49, 52, 55, 52, 56, 51, 54, 52, 56]" and rest = "[]"])
  show "memory_inv (initCommon (Some [50, 49, 52, 55, 52, 56, 51, 54, 52, 56, 44]) 11 True 11)" by (rule memory_inv_init) simp_all
  show "unread (initCommon (Some [50, 49, 52, 55, 52, 56, 51, 54, 52, 56, 44]) 11 True 11)
      = [50, 49, 52, 55, 52, 56, 51, 54, 52, 56] @ [44] @ []" by (simp add: initCommon_def unread_def mslice_def)
  show "to_i32 decimal_lexical [50, 49, 52, 55, 52, 56, 51, 54, 52, 56] = None"
    by (simp add: decimal_lexical_def in_range_def decimal_value_def digits_value_def)
  show "numeric [50, 49, 52, 55, 52, 56, 51, 54, 52, 56]" "\<not> isJSONNumeric 44" by code_simp+
qed simp

end
