(* ===== verification/Socket.thy ===== *)
theory Socket
  imports Transport
begin

text \<open>
  \<^verbatim>\<open>TSocket\<close> (\<^verbatim>\<open>transport/TSocket.cpp\<close>): the stream socket under the other transports. The
  operating system is a parameter, the record \<open>syscalls\<close> of the calls the class makes on the
  descriptor; the theory holds the reading loop with its retries, the writing loop, and the
  contract under which a socket is a \<open>reader\<close> and a \<open>byte_source\<close>, so that the buffering
  transports and the protocols run over it.
\<close>

section \<open>System calls\<close>

text \<open>
  \<open>'k\<close> is the kernel's side of one descriptor. A call fails with an \<open>errno\<close> (on Linux
  \<^verbatim>\<open>EWOULDBLOCK\<close> is \<open>EAGAIN\<close>); \<open>recv\<close> returns the bytes it stored, none at the end of the
  stream, and \<open>send\<close> the number of bytes it took. \<open>gettimeofday\<close> gives seconds and
  microseconds. \<open>connect_to\<close> stands for \<^verbatim>\<open>TSocket::open\<close>, whose name lookup and connection set-up
  are not modelled.
\<close>

datatype errno = EAGAIN | EINTR | ECONNRESET | ENOTCONN | ETIMEDOUT | EPIPE | OtherError nat

record 'k syscalls =
  recv :: "nat \<Rightarrow> 'k \<Rightarrow> (errno + byte list) \<times> 'k"
  recv_peek :: "'k \<Rightarrow> (errno + byte list) \<times> 'k"
  send :: "byte list \<Rightarrow> 'k \<Rightarrow> (errno + nat) \<times> 'k"
  gettimeofday :: "'k \<Rightarrow> (int \<times> int) \<times> 'k"
  usleep :: "nat \<Rightarrow> 'k \<Rightarrow> 'k"
  shutdown_close :: "'k \<Rightarrow> 'k"
  connect_to :: "'k \<Rightarrow> (exn + nat) \<times> 'k"

text \<open>\<open>None\<close> is \<^verbatim>\<open>THRIFT_INVALID_SOCKET\<close>; the timeout is in milliseconds, 0 for none.\<close>

record 'k TSocket =
  socketFD :: "nat option"
  recvTimeout :: int
  maxRecvRetries :: int
  kernel :: 'k

section \<open>Operations\<close>

definition newTSocket :: "'k \<Rightarrow> 'k TSocket" where
  "newTSocket k = \<lparr>socketFD = None, recvTimeout = 0, maxRecvRetries = 5, kernel = k\<rparr>"

definition socket_isOpen :: "'k TSocket \<Rightarrow> bool" where
  "socket_isOpen s \<longleftrightarrow> socketFD s \<noteq> None"

definition socket_peek :: "'k syscalls \<Rightarrow> ('k TSocket, bool) M" where
  "socket_peek sys s =
     (if \<not> socket_isOpen s then (Inr False, s)
      else case recv_peek sys (kernel s) of
        (Inl e, k) \<Rightarrow> (Inl (TTransportException TT_UNKNOWN), s\<lparr>kernel := k\<rparr>)
      | (Inr got, k) \<Rightarrow> (Inr (got \<noteq> []), s\<lparr>kernel := k\<rparr>))"

definition socket_close :: "'k syscalls \<Rightarrow> ('k TSocket, unit) M" where
  "socket_close sys s =
     (Inr (), if socketFD s \<noteq> None then s\<lparr>kernel := shutdown_close sys (kernel s), socketFD := None\<rparr>
              else s\<lparr>socketFD := None\<rparr>)"

text \<open>The new descriptor comes with its own kernel state.\<close>

definition setSocketFD :: "'k syscalls \<Rightarrow> nat option \<Rightarrow> 'k \<Rightarrow> ('k TSocket, unit) M" where
  "setSocketFD sys fd k =
     bindM (getM (\<lambda>s. socketFD s \<noteq> None)) (\<lambda>opened.
     bindM (if opened then socket_close sys else returnM ()) (\<lambda>_.
     modifyM (\<lambda>s. s\<lparr>socketFD := fd, kernel := k\<rparr>)))"

definition setRecvTimeout :: "int \<Rightarrow> ('k TSocket, unit) M" where
  "setRecvTimeout ms s = (Inr (), if ms < 0 then s else s\<lparr>recvTimeout := ms\<rparr>)"

text \<open>
  Below this many microseconds \<^verbatim>\<open>EAGAIN\<close> is taken for a lack of resources, from there on for a
  timeout.
\<close>

definition eagainThresholdMicros :: "'k TSocket \<Rightarrow> nat" where
  "eagainThresholdMicros s =
     (if recvTimeout s \<noteq> 0
      then nat ((recvTimeout s * 1000) div (if maxRecvRetries s > 0 then maxRecvRetries s else 2) mod 2 ^ 32)
      else 0)"

definition readElapsedMicros :: "int \<times> int \<Rightarrow> int \<times> int \<Rightarrow> nat" where
  "readElapsedMicros before after =
     nat (((fst after - fst before) * 1000 * 1000 + (snd after - snd before)) mod 2 ^ 32)"

definition recv_exception :: "errno \<Rightarrow> exn" where
  "recv_exception e = TTransportException (case e of
     ECONNRESET \<Rightarrow> NOT_OPEN | ENOTCONN \<Rightarrow> NOT_OPEN | ETIMEDOUT \<Rightarrow> TIMED_OUT | _ \<Rightarrow> TT_UNKNOWN)"

text \<open>The code from the label \<^verbatim>\<open>try_again\<close> on.\<close>

function try_again :: "'k syscalls \<Rightarrow> nat \<Rightarrow> nat \<Rightarrow> int \<Rightarrow> ('k TSocket, byte list) M" where
  "try_again sys len threshold retries s =
     (let (before, k0) = (if recvTimeout s > 0 then gettimeofday sys (kernel s) else ((0, 0), kernel s)) in
      case recv sys len k0 of
        (Inr got, k1) \<Rightarrow> (Inr got, s\<lparr>kernel := k1\<rparr>)
      | (Inl e, k1) \<Rightarrow>
          if e = EAGAIN
          then if recvTimeout s = 0 then (Inl (TTransportException TIMED_OUT), s\<lparr>kernel := k1\<rparr>)
               else (let (after, k2) = gettimeofday sys k1 in
                 if (threshold = 0 \<or> readElapsedMicros before after < threshold) \<and> retries < maxRecvRetries s
                 then try_again sys len threshold (retries + 1) (s\<lparr>kernel := usleep sys 50 k2\<rparr>)
                 else (Inl (TTransportException TIMED_OUT), s\<lparr>kernel := k2\<rparr>))
          else if e = EINTR \<and> retries < maxRecvRetries s
          then try_again sys len threshold (retries + 1) (s\<lparr>kernel := k1\<rparr>)
          else (Inl (recv_exception e), s\<lparr>kernel := k1\<rparr>))"
  by pat_completeness auto
termination
  by (relation "measure (\<lambda>(sys, len, threshold, retries, s). nat (maxRecvRetries s - retries))") auto

declare try_again.simps [simp del]

text \<open>
  \<^verbatim>\<open>recvTimeout_*1000\<close> is an \<^verbatim>\<open>int\<close> product: a timeout of 2147484 milliseconds or more overflows.
\<close>

definition socket_read :: "'k syscalls \<Rightarrow> nat \<Rightarrow> ('k TSocket, byte list) M" where
  "socket_read sys len s =
     (if socketFD s = None then (Inl (TTransportException NOT_OPEN), s)
      else if 2 ^ 31 \<le> recvTimeout s * 1000 then (Inl UndefinedBehaviour, s)
      else try_again sys len (eagainThresholdMicros s) 0 s)"

definition write_partial :: "'k syscalls \<Rightarrow> byte list \<Rightarrow> ('k TSocket, nat) M" where
  "write_partial sys buf s =
     (if socketFD s = None then (Inl (TTransportException NOT_OPEN), s)
      else case send sys buf (kernel s) of
        (Inl e, k) \<Rightarrow> (let s' = s\<lparr>kernel := k\<rparr> in
          if e = EAGAIN then (Inr 0, s')
          else if e \<in> {EPIPE, ECONNRESET, ENOTCONN}
          then (Inl (TTransportException NOT_OPEN), snd (socket_close sys s'))
          else (Inl (TTransportException TT_UNKNOWN), s'))
      | (Inr b, k) \<Rightarrow>
          if b = 0 then (Inl (TTransportException NOT_OPEN), s\<lparr>kernel := k\<rparr>)
          else (Inr b, s\<lparr>kernel := k\<rparr>))"

text \<open>The loop of \<^verbatim>\<open>write\<close>, on the bytes still to be sent.\<close>

function socket_write :: "'k syscalls \<Rightarrow> byte list \<Rightarrow> ('k TSocket, unit) M" where
  "socket_write sys buf s =
     (if buf = [] then (Inr (), s)
      else case write_partial sys buf s of
        (Inl e, s') \<Rightarrow> (Inl e, s')
      | (Inr b, s') \<Rightarrow>
          if b = 0 then (Inl (TTransportException TIMED_OUT), s')
          else socket_write sys (drop b buf) s')"
  by pat_completeness auto
termination
  by (relation "measure (\<lambda>(sys, buf, s). length buf)") auto

declare socket_write.simps [simp del]

definition socket_open :: "'k syscalls \<Rightarrow> ('k TSocket, unit) M" where
  "socket_open sys s =
     (if socket_isOpen s then (Inr (), s)
      else case connect_to sys (kernel s) of
        (Inl e, k) \<Rightarrow> (Inl e, s\<lparr>kernel := k\<rparr>)
      | (Inr fd, k) \<Rightarrow> (Inr (), s\<lparr>socketFD := Some fd, kernel := k\<rparr>))"

definition socket_ops :: "'k syscalls \<Rightarrow> 'k TSocket TTransport" where
  "socket_ops sys = \<lparr>isOpen_virt = socket_isOpen, peek_virt = socket_peek sys,
     open_virt = socket_open sys, close_virt = socket_close sys,
     read_virt = socket_read sys, readAll_virt = readAll (socket_read sys),
     readEnd_virt = base_readEnd, write_virt = socket_write sys,
     writeEnd_virt = base_writeEnd, flush_virt = base_flush,
     borrow_virt = base_borrow_virt, consume_virt = base_consume_virt\<rparr>"

section \<open>A connected stream\<close>

text \<open>
  What \<^verbatim>\<open>recv\<close> and \<^verbatim>\<open>send\<close> promise on a connected stream socket that neither fails nor would
  block: \<open>recv\<close> returns a non-empty part of what the peer has sent, or nothing at the end of the
  stream, \<open>send\<close> takes at least one byte, and neither reorders anything.
\<close>

locale kernel_stream =
  fixes sys :: "'k syscalls"
    and kinv :: "'k \<Rightarrow> bool"
    and incoming :: "'k \<Rightarrow> byte list"
    and outgoing :: "'k \<Rightarrow> byte list"
  assumes recv_stream: "kinv k \<Longrightarrow> 0 < n \<Longrightarrow> incoming k \<noteq> [] \<Longrightarrow>
      \<exists>bs k'. recv sys n k = (Inr bs, k') \<and> kinv k' \<and> bs \<noteq> [] \<and> length bs \<le> n
        \<and> incoming k = bs @ incoming k' \<and> outgoing k' = outgoing k"
    and recv_end: "kinv k \<Longrightarrow> n = 0 \<or> incoming k = [] \<Longrightarrow>
      \<exists>k'. recv sys n k = (Inr [], k') \<and> kinv k' \<and> incoming k' = incoming k \<and> outgoing k' = outgoing k"
    and clock: "kinv k \<Longrightarrow> \<exists>t k'. gettimeofday sys k = (t, k') \<and> kinv k' \<and> incoming k' = incoming k
        \<and> outgoing k' = outgoing k"
    and send_stream: "kinv k \<Longrightarrow> bs \<noteq> [] \<Longrightarrow>
      \<exists>n k'. send sys bs k = (Inr n, k') \<and> kinv k' \<and> 0 < n \<and> n \<le> length bs
        \<and> outgoing k' = outgoing k @ take n bs \<and> incoming k' = incoming k"
begin

definition socket_inv :: "'k TSocket \<Rightarrow> bool" where
  "socket_inv s \<longleftrightarrow> socketFD s \<noteq> None \<and> recvTimeout s * 1000 < 2 ^ 31 \<and> kinv (kernel s)"

lemma recv_cases:
  assumes "kinv k"
  obtains bs k' where "recv sys n k = (Inr bs, k')" "kinv k'" "length bs \<le> n"
    "incoming k = bs @ incoming k'" "outgoing k' = outgoing k" "bs = [] \<longleftrightarrow> n = 0 \<or> incoming k = []"
  using recv_stream [OF assms, of n] recv_end [OF assms, of n] that
  by (cases "n = 0 \<or> incoming k = []") fastforce+

lemma socket_read_stream:
  assumes "socket_inv s"
  shows "\<exists>bs k'. socket_read sys n s = (Inr bs, s\<lparr>kernel := k'\<rparr>) \<and> kinv k' \<and> length bs \<le> n
    \<and> incoming (kernel s) = bs @ incoming k' \<and> outgoing k' = outgoing (kernel s)
    \<and> (bs = [] \<longleftrightarrow> n = 0 \<or> incoming (kernel s) = [])"
proof -
  have k: "kinv (kernel s)" using assms by (simp add: socket_inv_def)
  obtain t k0 where c: "gettimeofday sys (kernel s) = (t, k0)" "kinv k0"
    "incoming k0 = incoming (kernel s)" "outgoing k0 = outgoing (kernel s)"
    using clock [OF k] by blast
  show ?thesis
  proof (cases "recvTimeout s > 0")
    case True
    obtain bs k' where "recv sys n k0 = (Inr bs, k')" "kinv k'" "length bs \<le> n"
      "incoming k0 = bs @ incoming k'" "outgoing k' = outgoing k0" "bs = [] \<longleftrightarrow> n = 0 \<or> incoming k0 = []"
      by (rule recv_cases [OF c(2)])
    with True c assms show ?thesis
      by (intro exI [of _ bs] exI [of _ k'])
        (simp add: socket_read_def try_again.simps [of sys n _ 0 s] socket_inv_def)
  next
    case False
    obtain bs k' where "recv sys n (kernel s) = (Inr bs, k')" "kinv k'" "length bs \<le> n"
      "incoming (kernel s) = bs @ incoming k'" "outgoing k' = outgoing (kernel s)"
      "bs = [] \<longleftrightarrow> n = 0 \<or> incoming (kernel s) = []"
      by (rule recv_cases [OF k])
    with False assms show ?thesis
      by (intro exI [of _ bs] exI [of _ k'])
        (simp add: socket_read_def try_again.simps [of sys n _ 0 s] socket_inv_def)
  qed
qed

lemma write_partial_stream:
  assumes "socket_inv s" and "bs \<noteq> []"
  shows "\<exists>n k'. write_partial sys bs s = (Inr n, s\<lparr>kernel := k'\<rparr>) \<and> kinv k' \<and> 0 < n \<and> n \<le> length bs
    \<and> outgoing k' = outgoing (kernel s) @ take n bs \<and> incoming k' = incoming (kernel s)"
proof -
  obtain n k' where "send sys bs (kernel s) = (Inr n, k')" "kinv k'" "0 < n" "n \<le> length bs"
    "outgoing k' = outgoing (kernel s) @ take n bs" "incoming k' = incoming (kernel s)"
    using send_stream [OF _ assms(2), of "kernel s"] assms(1) by (auto simp: socket_inv_def)
  with assms(1) show ?thesis
    by (intro exI [of _ n] exI [of _ k']) (simp add: write_partial_def socket_inv_def)
qed

lemma socket_inv_kernel [simp]: "socket_inv s \<Longrightarrow> kinv k \<Longrightarrow> socket_inv (s\<lparr>kernel := k\<rparr>)"
  by (simp add: socket_inv_def)

lemma socket_write_stream:
  assumes "socket_inv s"
  shows "\<exists>k'. socket_write sys bs s = (Inr (), s\<lparr>kernel := k'\<rparr>) \<and> kinv k'
    \<and> outgoing k' = outgoing (kernel s) @ bs \<and> incoming k' = incoming (kernel s)"
  using assms
proof (induction bs arbitrary: s rule: length_induct)
  case (1 bs)
  show ?case
  proof (cases "bs = []")
    case True
    with 1(2) show ?thesis
      by (intro exI [of _ "kernel s"]) (simp add: socket_write.simps [of sys "[]"] socket_inv_def)
  next
    case False
    obtain n k' where w: "write_partial sys bs s = (Inr n, s\<lparr>kernel := k'\<rparr>)" "kinv k'" "0 < n"
      "n \<le> length bs" "outgoing k' = outgoing (kernel s) @ take n bs" "incoming k' = incoming (kernel s)"
      using write_partial_stream [OF 1(2) False] by blast
    have "length (drop n bs) < length bs" using w(3) False by simp
    moreover have "socket_inv (s\<lparr>kernel := k'\<rparr>)" using 1(2) w(2) by simp
    ultimately obtain k'' where
      "socket_write sys (drop n bs) (s\<lparr>kernel := k'\<rparr>) = (Inr (), s\<lparr>kernel := k''\<rparr>)" "kinv k''"
      "outgoing k'' = outgoing k' @ drop n bs" "incoming k'' = incoming k'"
      using 1(1) by fastforce
    with w False show ?thesis
      by (intro exI [of _ k'']) (simp add: socket_write.simps [of sys bs])
  qed
qed

end

sublocale kernel_stream \<subseteq> socket: reader "read_virt (socket_ops sys)" socket_inv "\<lambda>s. incoming (kernel s)"
proof
  fix s n
  assume "socket_inv s"
  then show "\<exists>bs s'. read_virt (socket_ops sys) n s = (Inr bs, s') \<and> socket_inv s'
      \<and> incoming (kernel s) = bs @ incoming (kernel s')
      \<and> length bs \<le> n \<and> (bs = [] \<longrightarrow> n = 0 \<or> incoming (kernel s) = [])"
    using socket_read_stream [of s n] by (fastforce simp: socket_ops_def)
qed

sublocale kernel_stream \<subseteq> socket: byte_source "socket_ops sys" socket_inv "\<lambda>s. incoming (kernel s)"
proof
  have eq: "readAll_virt (socket_ops sys) = readAll (read_virt (socket_ops sys))"
    by (simp add: socket_ops_def)
  fix s n
  assume inv: "socket_inv s"
  show "\<exists>s'. readAll_virt (socket_ops sys) n s = (Inr (take n (incoming (kernel s))), s') \<and> socket_inv s'
      \<and> incoming (kernel s') = drop n (incoming (kernel s))" if "n \<le> length (incoming (kernel s))"
    unfolding eq using socket.readAll_complete [OF inv that] .
  show "\<exists>s'. readAll_virt (socket_ops sys) n s = (Inl (TTransportException END_OF_FILE), s') \<and> socket_inv s'"
    if "length (incoming (kernel s)) < n"
    unfolding eq using socket.readAll_eof [OF inv that] by blast
  show "\<exists>r s'. borrow_virt (socket_ops sys) n s = (Inr r, s') \<and> socket_inv s'
      \<and> incoming (kernel s') = incoming (kernel s)
      \<and> (\<forall>bs. r = Some bs \<longrightarrow> n \<le> length bs \<and> bs = take (length bs) (incoming (kernel s))
        \<and> (\<forall>k\<le>n. \<exists>s''. consume_virt (socket_ops sys) k s' = (Inr (), s'') \<and> socket_inv s''
              \<and> incoming (kernel s'') = drop k (incoming (kernel s))))"
    using inv by (simp add: socket_ops_def base_borrow_virt_def returnM_def)
qed

text \<open>
  A concrete kernel: what the peer sends arrives in the chunks \<open>arriving\<close>, and the sizes
  \<open>accepts\<close> bound what successive calls of \<open>send\<close> take.
\<close>

record pipe =
  arriving :: "byte list list"
  accepts :: "nat list"
  delivered :: "byte list"
  closed :: bool

fun pipe_recv :: "nat \<Rightarrow> pipe \<Rightarrow> (errno + byte list) \<times> pipe" where
  "pipe_recv n k = (case arriving k of
     [] \<Rightarrow> (Inr [], k)
   | c # cs \<Rightarrow> if length c \<le> n then (Inr c, k\<lparr>arriving := cs\<rparr>)
       else (Inr (take n c), k\<lparr>arriving := drop n c # cs\<rparr>))"

fun pipe_send :: "byte list \<Rightarrow> pipe \<Rightarrow> (errno + nat) \<times> pipe" where
  "pipe_send bs k = (case accepts k of
     [] \<Rightarrow> (Inr (length bs), k\<lparr>delivered := delivered k @ bs\<rparr>)
   | a # as \<Rightarrow> (Inr (min a (length bs)), k\<lparr>accepts := as, delivered := delivered k @ take a bs\<rparr>))"

definition pipe_sys :: "pipe syscalls" where
  "pipe_sys = \<lparr>recv = pipe_recv, recv_peek = (\<lambda>k. (fst (pipe_recv 1 k), k)), send = pipe_send,
     gettimeofday = (\<lambda>k. ((0, 0), k)), usleep = (\<lambda>_ k. k), shutdown_close = (\<lambda>k. k\<lparr>closed := True\<rparr>),
     connect_to = (\<lambda>k. (Inr 3, k))\<rparr>"

definition pipe_inv :: "pipe \<Rightarrow> bool" where
  "pipe_inv k \<longleftrightarrow> (\<forall>c\<in>set (arriving k). c \<noteq> []) \<and> (\<forall>a\<in>set (accepts k). 0 < a)"

interpretation pipe: kernel_stream pipe_sys pipe_inv "\<lambda>k. concat (arriving k)" delivered
proof
  fix k :: pipe and n :: nat and bs :: "byte list"
  assume inv: "pipe_inv k"
  show "\<exists>bs k'. recv pipe_sys n k = (Inr bs, k') \<and> pipe_inv k' \<and> bs \<noteq> [] \<and> length bs \<le> n
      \<and> concat (arriving k) = bs @ concat (arriving k') \<and> delivered k' = delivered k"
    if "0 < n" "concat (arriving k) \<noteq> []"
    using inv that by (cases "arriving k") (auto simp: pipe_sys_def pipe_inv_def)
  show "\<exists>k'. recv pipe_sys n k = (Inr [], k') \<and> pipe_inv k' \<and> concat (arriving k') = concat (arriving k)
      \<and> delivered k' = delivered k" if "n = 0 \<or> concat (arriving k) = []"
    using inv that by (cases "arriving k") (auto simp: pipe_sys_def pipe_inv_def)
  show "\<exists>t k'. gettimeofday pipe_sys k = (t, k') \<and> pipe_inv k' \<and> concat (arriving k') = concat (arriving k)
      \<and> delivered k' = delivered k"
    using inv by (simp add: pipe_sys_def)
  show "\<exists>n k'. send pipe_sys bs k = (Inr n, k') \<and> pipe_inv k' \<and> 0 < n \<and> n \<le> length bs
      \<and> delivered k' = delivered k @ take n bs \<and> concat (arriving k') = concat (arriving k)"
    if "bs \<noteq> []"
    using inv that by (cases "accepts k") (auto simp: pipe_sys_def pipe_inv_def min_def)
qed

section \<open>Writing everything, or failing\<close>

text \<open>
  Whatever the kernel does, \<open>send\<close> transmits the bytes it says it took, and closing the socket
  transmits nothing.
\<close>

definition send_takes_prefix :: "'k syscalls \<Rightarrow> ('k \<Rightarrow> byte list) \<Rightarrow> bool" where
  "send_takes_prefix sys outgoing \<longleftrightarrow>
     (\<forall>bs k k' n. send sys bs k = (Inr n, k') \<longrightarrow> outgoing k' = outgoing k @ take n bs)
     \<and> (\<forall>bs k k' e. send sys bs k = (Inl e, k') \<longrightarrow> outgoing k' = outgoing k)
     \<and> (\<forall>k. outgoing (shutdown_close sys k) = outgoing k)"

lemma write_partial_prefix:
  assumes "send_takes_prefix sys outgoing" and "write_partial sys buf s = (r, s')"
  shows "outgoing (kernel s') = outgoing (kernel s) @ (case r of Inl _ \<Rightarrow> [] | Inr n \<Rightarrow> take n buf)
    \<and> (\<forall>e. r = Inl e \<longrightarrow> e \<in> TTransportException ` {NOT_OPEN, TT_UNKNOWN})"
proof -
  have law: "\<And>bs k k' n. send sys bs k = (Inr n, k') \<Longrightarrow> outgoing k' = outgoing k @ take n bs"
    "\<And>bs k k' e. send sys bs k = (Inl e, k') \<Longrightarrow> outgoing k' = outgoing k"
    "\<And>k. outgoing (shutdown_close sys k) = outgoing k"
    using assms(1) unfolding send_takes_prefix_def by blast+
  show ?thesis using assms(2)
    by (auto simp: write_partial_def socket_close_def Let_def law(3) dest: law(1,2)
        split: if_splits sum.splits prod.splits)
qed

text \<open>
  C39. \<open>TSocket::write\<close> either transmits the whole buffer, in order and however the kernel cuts it
  up, or throws a \<open>TTransportException\<close>, having transmitted a proper prefix of it.
\<close>

theorem socket_write_all_or_throws:
  assumes "send_takes_prefix sys outgoing" and "socket_write sys buf s = (r, s')"
  shows "\<exists>n\<le>length buf. outgoing (kernel s') = outgoing (kernel s) @ take n buf
    \<and> (case r of Inr _ \<Rightarrow> n = length buf
       | Inl e \<Rightarrow> n < length buf \<and> e \<in> TTransportException ` {NOT_OPEN, TIMED_OUT, TT_UNKNOWN})"
  using assms(2)
proof (induction buf arbitrary: s rule: length_induct)
  case (1 buf)
  show ?case
  proof (cases "buf = []")
    case True
    with 1(2) show ?thesis by (auto simp: socket_write.simps [of sys "[]"])
  next
    case False
    obtain w t where w: "write_partial sys buf s = (w, t)" by (cases "write_partial sys buf s")
    note pre = write_partial_prefix [OF assms(1) w]
    consider e where "w = Inl e" | "w = Inr 0" | b where "w = Inr b" "0 < b" by (cases w) auto
    then show ?thesis
    proof cases
      case 3
      with 1(2) w False have "socket_write sys (drop b buf) t = (r, s')"
        by (simp add: socket_write.simps [of sys buf])
      moreover have "length (drop b buf) < length buf" using 3(2) False by simp
      ultimately obtain n where n: "n \<le> length (drop b buf)"
        "outgoing (kernel s') = outgoing (kernel t) @ take n (drop b buf)"
        "case r of Inr _ \<Rightarrow> n = length (drop b buf)
         | Inl e \<Rightarrow> n < length (drop b buf) \<and> e \<in> TTransportException ` {NOT_OPEN, TIMED_OUT, TT_UNKNOWN}"
        using 1(1) by blast
      show ?thesis
      proof (intro exI [of _ "min b (length buf) + n"] conjI)
        show "outgoing (kernel s') = outgoing (kernel s) @ take (min b (length buf) + n) buf"
          using n(1,2) pre 3(1) by (simp add: take_add min_def)
        show "case r of Inr _ \<Rightarrow> min b (length buf) + n = length buf
          | Inl e \<Rightarrow> min b (length buf) + n < length buf
              \<and> e \<in> TTransportException ` {NOT_OPEN, TIMED_OUT, TT_UNKNOWN}"
          using n(1,3) by (cases r) auto
      qed (use n(1) in auto)
    qed (use 1(2) w False pre in \<open>auto simp: socket_write.simps [of sys buf] intro!: exI [of _ 0]\<close>)
  qed
qed

theorem socket_write_all_or_throws_witness:
  "socket_write pipe_sys [1, 2, 3, 4] ((newTSocket \<lparr>arriving = [], accepts = [1, 2], delivered = [9], closed = False\<rparr>)
      \<lparr>socketFD := Some 3\<rparr>)
    = (Inr (), (newTSocket \<lparr>arriving = [], accepts = [], delivered = [9, 1, 2, 3, 4], closed = False\<rparr>)\<lparr>socketFD := Some 3\<rparr>)
   \<and> (\<exists>n\<le>4. [9, 1, 2, 3, 4] = [9] @ take n [1, 2, 3, 4 :: byte] \<and> n = 4)"
proof -
  let ?s = "(newTSocket \<lparr>arriving = [], accepts = [1, 2], delivered = [9], closed = False\<rparr>)\<lparr>socketFD := Some 3\<rparr>"
  have law: "send_takes_prefix pipe_sys delivered"
    by (auto simp: send_takes_prefix_def pipe_sys_def min_def split: list.splits)
  have run: "socket_write pipe_sys [1, 2, 3, 4] ?s
    = (Inr (), (newTSocket \<lparr>arriving = [], accepts = [], delivered = [9, 1, 2, 3, 4], closed = False\<rparr>)\<lparr>socketFD := Some 3\<rparr>)"
    by (simp add: socket_write.simps write_partial_def newTSocket_def pipe_sys_def)
  from socket_write_all_or_throws [OF law run] run show ?thesis
    by (simp add: newTSocket_def)
qed

end
