(* ===== verification/NonblockingServer.thy ===== *)
theory NonblockingServer
  imports Socket FramedTransport
begin

text \<open>
  The connection state machine of \<^verbatim>\<open>TNonblockingServer\<close> (\<^verbatim>\<open>server/TNonblockingServer.cpp\<close>): how a
  connection collects a frame over several socket events, hands it to the processor, directly or
  through the thread manager, sends the answer in pieces and is reused or freed when it closes.
  Workers run tasks and notify the IO thread of the connection through its pipe. This theory holds
  the state and the operations; the properties are in ServerInvariant and ServerLiveness.
\<close>

section \<open>State\<close>

datatype TSocketState = SOCKET_RECV_FRAMING | SOCKET_RECV | SOCKET_SEND

datatype TAppState = APP_INIT | APP_READ_FRAME_SIZE | APP_READ_REQUEST | APP_WAIT_TASK
  | APP_SEND_RESULT | APP_CLOSE_CONNECTION

text \<open>The flags of libevent; a \<^verbatim>\<open>short\<close> of or-ed flags is the set of them, 0 the empty set.\<close>

datatype event_flag = EV_READ | EV_WRITE | EV_PERSIST

text \<open>
  \<open>eventAdded\<close> tells whether libevent watches the connection's socket (\<^verbatim>\<open>event_add\<close> and
  \<^verbatim>\<open>event_del\<close> are taken to succeed; the code only logs a failure). \<open>writeBuffer\<close> points into the
  buffer of \<open>outputTransport\<close>, as an offset; a \<^verbatim>\<open>NULL\<close> read buffer is the empty list. The transport
  factories are the default ones, which return the transport itself, and there is no event
  handler.
\<close>

record 'k TConnection =
  tSocket :: "'k TSocket"
  ioThread :: "nat option"
  eventFlags :: "event_flag set"
  eventAdded :: bool
  socketState :: TSocketState
  appState :: TAppState
  readWant :: uint32_t
  readBufferPos :: nat
  readBuffer :: "byte list"
  readBufferSize :: nat
  writeBuffer :: "nat option"
  writeBufferSize :: nat
  writeBufferPos :: nat
  largestWriteBufferSize :: nat
  callsForResize :: int32_t
  inputTransport :: TMemoryBuffer
  outputTransport :: TMemoryBuffer

text \<open>
  The server: its \<^verbatim>\<open>TConnection\<close> objects by address (a freed one has none), the list of active
  ones and the stack of idle ones (top first), its counters and settings. \<open>tasks\<close> is the queue of the
  thread manager, as the connections its tasks belong to, \<open>managerStarted\<close> whether it accepts
  tasks, \<open>handler\<close> the state of the processor. \<open>notified\<close> holds the connection pointers in the
  notification pipes, each with the number of the IO thread whose pipe it is in, in the order of
  their arrival: the pipe of a thread is the sublist with its number.
\<close>

record ('k, 'h) TNonblockingServer =
  connections :: "nat \<Rightarrow> 'k TConnection option"
  activeConnections :: "nat list"
  connectionStack :: "nat list"
  numTConnections :: nat
  numActiveProcessors :: nat
  nextIOThread :: nat
  numIOThreads :: nat
  connectionStackLimit :: nat
  maxFrameSize :: nat
  threadPoolProcessing :: bool
  writeBufferDefaultSize :: nat
  idleReadBufferLimit :: nat
  idleWriteBufferLimit :: nat
  resizeBufferEveryN :: int32_t
  tasks :: "nat list"
  managerStarted :: bool
  notified :: "(nat \<times> nat) list"
  handler :: 'h

text \<open>
  What the server calls: the operating system and \<^verbatim>\<open>TProcessor::process\<close>, which works on the
  input and the output transport.
\<close>

record ('k, 'h) environment =
  system_calls :: "'k syscalls"
  process :: "('h \<times> TMemoryBuffer \<times> TMemoryBuffer, bool) M"

section \<open>Running the operations of one connection\<close>

definition onConn :: "nat \<Rightarrow> ('k TConnection, 'a) M \<Rightarrow> (('k, 'h) TNonblockingServer, 'a) M" where
  "onConn i m s =
     (case connections s i of
        None \<Rightarrow> (Inl UndefinedBehaviour, s)
      | Some c \<Rightarrow> (case m c of (r, c') \<Rightarrow> (r, s\<lparr>connections := (connections s)(i \<mapsto> c')\<rparr>)))"

definition onSocket :: "('k TSocket, 'a) M \<Rightarrow> ('k TConnection, 'a) M" where
  "onSocket = liftM tSocket (\<lambda>k. tSocket_update (\<lambda>_. k))"

definition onInput :: "(TMemoryBuffer, 'a) M \<Rightarrow> ('k TConnection, 'a) M" where
  "onInput = liftM inputTransport (\<lambda>t. inputTransport_update (\<lambda>_. t))"

definition onOutput :: "(TMemoryBuffer, 'a) M \<Rightarrow> ('k TConnection, 'a) M" where
  "onOutput = liftM outputTransport (\<lambda>t. outputTransport_update (\<lambda>_. t))"

text \<open>
  \<^verbatim>\<open>try\<close> and \<^verbatim>\<open>catch\<close>: \<open>h\<close> handles the exceptions in \<open>P\<close>. A C++ handler sees neither a failed
  assertion nor undefined behaviour.
\<close>

definition catchM :: "(exn \<Rightarrow> bool) \<Rightarrow> ('s, 'a) M \<Rightarrow> (exn \<Rightarrow> ('s, 'a) M) \<Rightarrow> ('s, 'a) M" where
  "catchM P m h s = (case m s of (Inl e, s') \<Rightarrow> if P e then h e s' else (Inl e, s') | (Inr a, s') \<Rightarrow> (Inr a, s'))"

fun is_TTransportException :: "exn \<Rightarrow> bool" where
  "is_TTransportException (TTransportException _) = True"
| "is_TTransportException _ = False"

fun is_thrown :: "exn \<Rightarrow> bool" where
  "is_thrown AssertionFailure = False"
| "is_thrown UndefinedBehaviour = False"
| "is_thrown NonTermination = False"
| "is_thrown _ = True"

section \<open>The connection\<close>

definition setFlags :: "event_flag set \<Rightarrow> ('k TConnection, unit) M" where
  "setFlags flags c =
     (Inr (),
      if eventFlags c = flags then c
      else (let c1 = (if eventFlags c \<noteq> {} then c\<lparr>eventAdded := False\<rparr> else c);
                c2 = c1\<lparr>eventFlags := flags\<rparr>
            in if flags = {} then c2 else c2\<lparr>eventAdded := True\<rparr>))"

definition setRead :: "('k TConnection, unit) M" where
  "setRead = setFlags {EV_READ, EV_PERSIST}"

definition setWrite :: "('k TConnection, unit) M" where
  "setWrite = setFlags {EV_WRITE, EV_PERSIST}"

definition setIdle :: "('k TConnection, unit) M" where
  "setIdle = setFlags {}"

definition checkIdleBufferMemLimit :: "nat \<Rightarrow> nat \<Rightarrow> nat \<Rightarrow> ('k TConnection, unit) M" where
  "checkIdleBufferMemLimit defaultSize readLimit writeLimit =
     bindM (modifyM (\<lambda>c. if readLimit > 0 \<and> readBufferSize c > readLimit
       then c\<lparr>readBuffer := [], readBufferSize := 0\<rparr> else c)) (\<lambda>_.
     bindM (getM largestWriteBufferSize) (\<lambda>largest.
     if writeLimit > 0 \<and> largest > writeLimit
     then bindM (onOutput (resetBuffer_size (u32 defaultSize))) (\<lambda>_.
          modifyM (\<lambda>c. c\<lparr>largestWriteBufferSize := 0\<rparr>))
     else returnM ()))"

text \<open>\<open>init\<close>; the descriptor of the accepted socket comes with the kernel's state for it.\<close>

definition init_connection :: "'k syscalls \<Rightarrow> nat \<Rightarrow> 'k \<Rightarrow> nat \<Rightarrow> ('k TConnection, unit) M" where
  "init_connection sys socket k thread =
     bindM (onSocket (setSocketFD sys (Some socket) k)) (\<lambda>_.
     modifyM (\<lambda>c. c\<lparr>ioThread := Some thread, appState := APP_INIT, eventFlags := {},
       readBufferPos := 0, readWant := 0, writeBuffer := None, writeBufferSize := 0, writeBufferPos := 0,
       largestWriteBufferSize := 0, socketState := SOCKET_RECV_FRAMING, callsForResize := 0\<rparr>))"

text \<open>
  The constructor; what it leaves uninitialised is set by \<open>init\<close>. The input transport observes
  the (empty) read buffer.
\<close>

definition newTConnection :: "'k syscalls \<Rightarrow> nat \<Rightarrow> 'k \<Rightarrow> nat \<Rightarrow> nat \<Rightarrow> 'k TConnection" where
  "newTConnection sys socket k thread defaultSize =
     snd (init_connection sys socket k thread
       \<lparr>tSocket = newTSocket k, ioThread = Some thread, eventFlags = {}, eventAdded = False,
        socketState = SOCKET_RECV_FRAMING, appState = APP_INIT, readWant = 0, readBufferPos = 0,
        readBuffer = [], readBufferSize = 0, writeBuffer = None, writeBufferSize = 0, writeBufferPos = 0,
        largestWriteBufferSize = 0, callsForResize = 0, inputTransport = initCommon (Some []) 0 False 0,
        outputTransport = newTMemoryBuffer (u32 defaultSize)\<rparr>)"

text \<open>The cases of \<open>transition\<close>. \<open>LABEL_APP_INIT\<close>:\<close>

definition app_init :: "('k TConnection, unit) M" where
  "app_init =
     bindM (modifyM (\<lambda>c. c\<lparr>writeBuffer := None, writeBufferPos := 0, writeBufferSize := 0,
       socketState := SOCKET_RECV_FRAMING, appState := APP_READ_FRAME_SIZE, readBufferPos := 0\<rparr>)) (\<lambda>_.
     setRead)"

text \<open>The doubling loop of \<open>APP_READ_FRAME_SIZE\<close>, on \<^verbatim>\<open>uint32_t\<close>; \<open>None\<close> if it never exits.\<close>

definition double_until :: "nat \<Rightarrow> nat \<Rightarrow> nat option" where
  "double_until want sz = while_option (\<lambda>newSize. want > newSize) (\<lambda>newSize. u32 (newSize * 2)) sz"

definition app_read_frame_size :: "('k TConnection, unit) M" where
  "app_read_frame_size c =
     (let want = unat (readWant c);
          enter = (\<lambda>c. (Inr (), c\<lparr>readBufferPos := 0, socketState := SOCKET_RECV, appState := APP_READ_REQUEST\<rparr>))
      in if want > readBufferSize c
         then (let sz = (if readBufferSize c = 0 then 1 else readBufferSize c) in
           case double_until want sz of
             None \<Rightarrow> (Inl NonTermination, c\<lparr>readBufferSize := sz\<rparr>)
           | Some newSize \<Rightarrow> enter (c\<lparr>readBuffer := readBuffer c @ replicate (newSize - length (readBuffer c)) 0,
                                     readBufferSize := newSize\<rparr>))
         else enter c)"

text \<open>\<open>APP_SEND_RESULT\<close>: housekeeping, then on to \<open>LABEL_APP_INIT\<close>.\<close>

definition app_send_result :: "int32_t \<Rightarrow> nat \<Rightarrow> nat \<Rightarrow> nat \<Rightarrow> ('k TConnection, unit) M" where
  "app_send_result everyN defaultSize readLimit writeLimit =
     bindM (modifyM (\<lambda>c. if writeBufferSize c > largestWriteBufferSize c
       then c\<lparr>largestWriteBufferSize := writeBufferSize c\<rparr> else c)) (\<lambda>_.
     bindM (if 0 <s everyN
       then bindM (modifyM (\<lambda>c. c\<lparr>callsForResize := callsForResize c + 1\<rparr>)) (\<lambda>_.
            bindM (getM callsForResize) (\<lambda>calls.
            if everyN \<le>s calls
            then bindM (checkIdleBufferMemLimit defaultSize readLimit writeLimit) (\<lambda>_.
                 modifyM (\<lambda>c. c\<lparr>callsForResize := 0\<rparr>))
            else returnM ()))
       else returnM ()) (\<lambda>_.
     app_init))"

text \<open>The part of \<open>APP_WAIT_TASK\<close> on the connection: fetch the result and start sending it.\<close>

definition fetch_result :: "('k TConnection, unit) M" where
  "fetch_result =
     bindM (modifyM (\<lambda>c. case getBuffer (outputTransport c) of
       (buf, sz) \<Rightarrow> c\<lparr>writeBuffer := Some buf, writeBufferSize := sz\<rparr>)) (\<lambda>_.
     bindM (getM (\<lambda>c. (writeBuffer c, writeBufferSize c))) (\<lambda>(buf, sz).
     if sz > 4
     then bindM (modifyM (\<lambda>c. c\<lparr>writeBufferPos := 0, socketState := SOCKET_SEND\<rparr>)) (\<lambda>_.
          bindM (onOutput (clientStore (the buf) (mem32 (htonl (word_of_nat (sz - 4)))))) (\<lambda>_.
          bindM (modifyM (\<lambda>c. c\<lparr>appState := APP_SEND_RESULT\<rparr>)) (\<lambda>_.
          setWrite)))
     else app_init))"

text \<open>The start of \<open>APP_READ_REQUEST\<close>: the request becomes the input, four bytes are kept free.\<close>

definition prepare_request :: "('k TConnection, unit) M" where
  "prepare_request =
     bindM (getM (\<lambda>c. (if readBufferSize c = 0 then None else Some (readBuffer c), readBufferPos c))) (\<lambda>(buf, pos).
     bindM (onInput (resetBuffer_from buf pos OBSERVE)) (\<lambda>_.
     bindM (onOutput resetBuffer) (\<lambda>_.
     bindM (onOutput (getWritePtr 4)) (\<lambda>_.
     onOutput (wroteBytes 4)))))"

section \<open>The server\<close>

definition incrementActiveProcessors :: "(('k, 'h) TNonblockingServer, unit) M" where
  "incrementActiveProcessors = modifyM (\<lambda>s. s\<lparr>numActiveProcessors := numActiveProcessors s + 1\<rparr>)"

definition decrementActiveProcessors :: "(('k, 'h) TNonblockingServer, unit) M" where
  "decrementActiveProcessors = modifyM (\<lambda>s.
     if numActiveProcessors s > 0 then s\<lparr>numActiveProcessors := numActiveProcessors s - 1\<rparr> else s)"

definition returnConnection :: "nat \<Rightarrow> (('k, 'h) TNonblockingServer, unit) M" where
  "returnConnection i =
     bindM (modifyM (\<lambda>s. s\<lparr>activeConnections := removeAll i (activeConnections s)\<rparr>)) (\<lambda>_.
     bindM (getM (\<lambda>s. connectionStackLimit s \<noteq> 0 \<and> length (connectionStack s) \<ge> connectionStackLimit s)) (\<lambda>full.
     if full
     then modifyM (\<lambda>s. s\<lparr>connections := (connections s)(i := None), numTConnections := numTConnections s - 1\<rparr>)
     else bindM (getM (\<lambda>s. (writeBufferDefaultSize s, idleReadBufferLimit s, idleWriteBufferLimit s))) (\<lambda>(d, r, w).
          bindM (onConn i (checkIdleBufferMemLimit d r w)) (\<lambda>_.
          modifyM (\<lambda>s. s\<lparr>connectionStack := i # connectionStack s\<rparr>)))))"

text \<open>\<open>close\<close>; closing the memory buffers does nothing.\<close>

definition close_connection :: "('k, 'h) environment \<Rightarrow> nat \<Rightarrow> (('k, 'h) TNonblockingServer, unit) M" where
  "close_connection env i =
     bindM (onConn i (modifyM (\<lambda>c. c\<lparr>eventAdded := False, ioThread := None\<rparr>))) (\<lambda>_.
     bindM (onConn i (onSocket (socket_close (system_calls env)))) (\<lambda>_.
     returnConnection i))"

definition run_process :: "('k, 'h) environment \<Rightarrow> nat \<Rightarrow> (('k, 'h) TNonblockingServer, bool) M" where
  "run_process env i s =
     (case connections s i of
        None \<Rightarrow> (Inl UndefinedBehaviour, s)
      | Some c \<Rightarrow> (case process env (handler s, inputTransport c, outputTransport c) of
          (r, (h, inp, out)) \<Rightarrow> (r, s\<lparr>handler := h,
             connections := (connections s)(i \<mapsto> c\<lparr>inputTransport := inp, outputTransport := out\<rparr>)\<rparr>)))"

text \<open>
  \<open>addTask\<close>: the thread manager queues the task, or throws its \<^verbatim>\<open>IllegalStateException\<close> (a subclass
  of \<open>TException\<close>) when it is not running.
\<close>

definition addTask :: "nat \<Rightarrow> (('k, 'h) TNonblockingServer, unit) M" where
  "addTask i s = (if managerStarted s then (Inr (), s\<lparr>tasks := tasks s @ [i]\<rparr>) else (Inl TException, s))"

definition app_wait_task :: "nat \<Rightarrow> (('k, 'h) TNonblockingServer, unit) M" where
  "app_wait_task i = bindM decrementActiveProcessors (\<lambda>_. onConn i fetch_result)"

definition app_read_request :: "('k, 'h) environment \<Rightarrow> nat \<Rightarrow> (('k, 'h) TNonblockingServer, unit) M" where
  "app_read_request env i =
     bindM (onConn i prepare_request) (\<lambda>_.
     bindM incrementActiveProcessors (\<lambda>_.
     bindM (getM threadPoolProcessing) (\<lambda>pool.
     if pool
     then bindM (onConn i (modifyM (\<lambda>c. c\<lparr>appState := APP_WAIT_TASK\<rparr>))) (\<lambda>_.
          bindM (catchM (\<lambda>e. e = TException) (addTask i) (\<lambda>e. close_connection env i)) (\<lambda>_.
          onConn i setIdle))
     else bindM (catchM is_thrown (bindM (run_process env i) (\<lambda>_. returnM True)) (\<lambda>e.
            bindM decrementActiveProcessors (\<lambda>_.
            bindM (close_connection env i) (\<lambda>_. returnM False)))) (\<lambda>processed.
          if processed then app_wait_task i else returnM ()))))"

definition transition :: "('k, 'h) environment \<Rightarrow> nat \<Rightarrow> (('k, 'h) TNonblockingServer, unit) M" where
  "transition env i =
     bindM (onConn i (assertM (\<lambda>c. ioThread c \<noteq> None))) (\<lambda>_.
     bindM (onConn i (getM appState)) (\<lambda>st.
     case st of
       APP_READ_REQUEST \<Rightarrow> app_read_request env i
     | APP_WAIT_TASK \<Rightarrow> app_wait_task i
     | APP_SEND_RESULT \<Rightarrow>
         bindM (getM (\<lambda>s. (resizeBufferEveryN s, writeBufferDefaultSize s, idleReadBufferLimit s, idleWriteBufferLimit s)))
           (\<lambda>(n, d, r, w). onConn i (app_send_result n d r w))
     | APP_INIT \<Rightarrow> onConn i app_init
     | APP_READ_FRAME_SIZE \<Rightarrow> onConn i app_read_frame_size
     | APP_CLOSE_CONNECTION \<Rightarrow> bindM decrementActiveProcessors (\<lambda>_. close_connection env i)))"

text \<open>
  \<open>workSocket\<close>, by socket state. (It is called by \<open>eventHandler\<close>, which asserts that the descriptor it
  is given is the one of the connection's socket, as it was registered with libevent.) The bytes of a frame size collected so far are kept in the memory
  image of \<open>readWant\<close>. Each case returns \<^verbatim>\<open>None\<close> to stop, or what to do next.
\<close>

datatype next_action = STOP | CLOSE | TRANSITION

definition catch_close :: "('k TConnection, next_action) M \<Rightarrow> ('k TConnection, next_action) M" where
  "catch_close m = catchM is_TTransportException m (\<lambda>e. returnM CLOSE)"

definition work_framing :: "'k syscalls \<Rightarrow> nat \<Rightarrow> ('k TConnection, next_action) M" where
  "work_framing sys maxFrame =
     bindM (getM (\<lambda>c. (readBufferPos c, mem32 (readWant c)))) (\<lambda>(pos, buf).
     catch_close (bindM (onSocket (socket_read sys (4 - pos))) (\<lambda>got.
     if got = [] then returnM CLOSE
     else bindM (modifyM (\<lambda>c. c\<lparr>readBufferPos := readBufferPos c + length got\<rparr>)) (\<lambda>_.
          bindM (getM readBufferPos) (\<lambda>pos'.
          let sz = load32 (memcpy buf pos got) in
          if pos' < 4 then bindM (modifyM (\<lambda>c. c\<lparr>readWant := sz\<rparr>)) (\<lambda>_. returnM STOP)
          else bindM (modifyM (\<lambda>c. c\<lparr>readWant := htonl sz\<rparr>)) (\<lambda>_.
               returnM (if unat (htonl sz) > maxFrame then CLOSE else TRANSITION)))))))"

definition work_recv :: "'k syscalls \<Rightarrow> ('k TConnection, next_action) M" where
  "work_recv sys =
     bindM (assertM (\<lambda>c. readBufferPos c < unat (readWant c))) (\<lambda>_.
     bindM (getM (\<lambda>c. (readBufferPos c, unat (readWant c)))) (\<lambda>(pos, want).
     catch_close (bindM (onSocket (socket_read sys (want - pos))) (\<lambda>bytes.
     bindM (modifyM (\<lambda>c. c\<lparr>readBuffer := memcpy (readBuffer c) pos bytes\<rparr>)) (\<lambda>_.
     let got = word_of_nat (length bytes) :: int32_t in
     if 0 <s got
     then bindM (modifyM (\<lambda>c. c\<lparr>readBufferPos := readBufferPos c + unat got\<rparr>)) (\<lambda>_.
          bindM (assertM (\<lambda>c. readBufferPos c \<le> want)) (\<lambda>_.
          getM (\<lambda>c. if readBufferPos c = want then TRANSITION else STOP)))
     else returnM CLOSE)))))"

definition work_send :: "'k syscalls \<Rightarrow> ('k TConnection, next_action) M" where
  "work_send sys =
     bindM (assertM (\<lambda>c. writeBufferPos c \<le> writeBufferSize c)) (\<lambda>_.
     bindM (getM (\<lambda>c. (writeBufferPos c, writeBufferSize c))) (\<lambda>(pos, sz).
     if pos = sz then returnM TRANSITION
     else bindM (getM (\<lambda>c. mslice (buffer (outputTransport c)) (the (writeBuffer c) + pos) (sz - pos))) (\<lambda>left.
          catch_close (bindM (onSocket (write_partial sys left)) (\<lambda>sent.
          bindM (modifyM (\<lambda>c. c\<lparr>writeBufferPos := writeBufferPos c + sent\<rparr>)) (\<lambda>_.
          bindM (assertM (\<lambda>c. writeBufferPos c \<le> writeBufferSize c)) (\<lambda>_.
          getM (\<lambda>c. if writeBufferPos c = writeBufferSize c then TRANSITION else STOP))))))))"

definition workSocket :: "('k, 'h) environment \<Rightarrow> nat \<Rightarrow> (('k, 'h) TNonblockingServer, unit) M" where
  "workSocket env i =
     bindM (getM maxFrameSize) (\<lambda>maxFrame.
     bindM (onConn i (getM socketState)) (\<lambda>st.
     bindM (onConn i (case st of
         SOCKET_RECV_FRAMING \<Rightarrow> work_framing (system_calls env) maxFrame
       | SOCKET_RECV \<Rightarrow> work_recv (system_calls env)
       | SOCKET_SEND \<Rightarrow> work_send (system_calls env))) (\<lambda>act.
     case act of
       STOP \<Rightarrow> returnM ()
     | CLOSE \<Rightarrow> close_connection env i
     | TRANSITION \<Rightarrow> transition env i)))"

section \<open>Tasks, notifications and new connections\<close>

text \<open>
  \<open>Task::run\<close>: requests are processed until the processor declines, throws, or the input is used
  up. An exception ends the loop, except \<^verbatim>\<open>bad_alloc\<close>, which ends the program. The state of the loop
  is the outcome of the last request (\<open>Inr True\<close>: go on) and the server; \<open>None\<close> if it never ends.
\<close>

definition task_body :: "('k, 'h) environment \<Rightarrow> nat \<Rightarrow> (('k, 'h) TNonblockingServer, bool) M" where
  "task_body env i =
     bindM (run_process env i) (\<lambda>again.
     if \<not> again then returnM False else onConn i (onInput memory_peek))"

definition task_loop :: "('k, 'h) environment \<Rightarrow> nat \<Rightarrow> ('k, 'h) TNonblockingServer \<Rightarrow>
    ((exn + bool) \<times> ('k, 'h) TNonblockingServer) option" where
  "task_loop env i s = while_option (\<lambda>(r, s). r = Inr True) (\<lambda>(r, s). task_body env i s) (Inr True, s)"

text \<open>The pointer goes into the pipe of the connection's own IO thread; writing to a pipe succeeds.\<close>

definition notifyIOThread :: "nat \<Rightarrow> (('k, 'h) TNonblockingServer, unit) M" where
  "notifyIOThread i =
     bindM (onConn i (getM ioThread)) (\<lambda>thread.
     case thread of
       None \<Rightarrow> throwM UndefinedBehaviour
     | Some t \<Rightarrow> modifyM (\<lambda>s. s\<lparr>notified := notified s @ [(t, i)]\<rparr>))"

definition run_task :: "('k, 'h) environment \<Rightarrow> nat \<Rightarrow> (('k, 'h) TNonblockingServer, unit) M" where
  "run_task env i s =
     (case task_loop env i s of
        None \<Rightarrow> (Inl NonTermination, s)
      | Some (r, s') \<Rightarrow> (case r of
          Inl e \<Rightarrow> if is_thrown e \<and> e \<noteq> BadAlloc then notifyIOThread i s' else (Inl e, s')
        | Inr _ \<Rightarrow> notifyIOThread i s'))"

definition forceClose :: "nat \<Rightarrow> (('k, 'h) TNonblockingServer, unit) M" where
  "forceClose i =
     bindM (onConn i (modifyM (\<lambda>c. c\<lparr>appState := APP_CLOSE_CONNECTION\<rparr>))) (\<lambda>_. notifyIOThread i)"

definition expireClose :: "nat \<Rightarrow> (('k, 'h) TNonblockingServer, unit) M" where
  "expireClose i =
     bindM (onConn i (assertM (\<lambda>c. appState c = APP_WAIT_TASK))) (\<lambda>_. forceClose i)"

text \<open>A stopped thread manager throws instead of giving out its next task.\<close>

definition drainPendingTask :: "(('k, 'h) TNonblockingServer, bool) M" where
  "drainPendingTask s =
     (if threadPoolProcessing s \<and> \<not> managerStarted s then (Inl TException, s)
      else case tasks s of
        [] \<Rightarrow> (Inr False, s)
      | i # is \<Rightarrow> bindM (onConn i (assertM (\<lambda>c. appState c = APP_WAIT_TASK))) (\<lambda>_.
          bindM (forceClose i) (\<lambda>_. returnM True)) (s\<lparr>tasks := is\<rparr>))"

text \<open>\<open>createConnection\<close>; a new object gets the address \<open>a\<close>.\<close>

definition createConnection :: "'k syscalls \<Rightarrow> nat \<Rightarrow> 'k \<Rightarrow> nat \<Rightarrow> (('k, 'h) TNonblockingServer, nat) M" where
  "createConnection sys socket k a =
     bindM (assertM (\<lambda>s. nextIOThread s < numIOThreads s)) (\<lambda>_.
     bindM (getM nextIOThread) (\<lambda>thread.
     bindM (modifyM (\<lambda>s. s\<lparr>nextIOThread := (nextIOThread s + 1) mod numIOThreads s\<rparr>)) (\<lambda>_.
     bindM (getM connectionStack) (\<lambda>stack.
     bindM (case stack of
         [] \<Rightarrow> bindM (modifyM (\<lambda>s. s\<lparr>
                 connections := (connections s)(a \<mapsto> newTConnection sys socket k thread (writeBufferDefaultSize s)),
                 numTConnections := numTConnections s + 1\<rparr>)) (\<lambda>_. returnM a)
       | i # is \<Rightarrow> bindM (modifyM (\<lambda>s. s\<lparr>connectionStack := is\<rparr>)) (\<lambda>_.
                 bindM (onConn i (init_connection sys socket k thread)) (\<lambda>_. returnM i))) (\<lambda>result.
     bindM (modifyM (\<lambda>s. s\<lparr>activeConnections := activeConnections s @ [result]\<rparr>)) (\<lambda>_.
     returnM result))))))"

text \<open>
  The part of \<open>handleEvent\<close> from a successful \<^verbatim>\<open>accept\<close> without overload to the end of the loop body.
\<close>

definition accept_connection :: "('k, 'h) environment \<Rightarrow> nat \<Rightarrow> 'k \<Rightarrow> nat \<Rightarrow> (('k, 'h) TNonblockingServer, unit) M" where
  "accept_connection env socket k a =
     bindM (createConnection (system_calls env) socket k a) (\<lambda>i.
     bindM (onConn i (getM ioThread)) (\<lambda>thread.
     if thread = Some 0 then transition env i else notifyIOThread i))"

text \<open>
  What \<^verbatim>\<open>recv\<close> makes of the notification pipe: a whole pointer to a connection, the \<^verbatim>\<open>NULL\<close> that tells
  the thread to stop, fewer bytes, the end of the pipe, nothing at the moment, or an error. The pipe
  gives out the pointers of its thread in the order in which they were sent.
\<close>

datatype pipe_read = POINTER | NULL_POINTER | SHORT_READ | END_OF_PIPE | WOULD_BLOCK | PIPE_ERROR

definition next_notification :: "('k, 'h) environment \<Rightarrow> nat \<Rightarrow> (('k, 'h) TNonblockingServer, unit) M" where
  "next_notification env t s =
     (case find (\<lambda>p. fst p = t) (notified s) of
        None \<Rightarrow> (Inr (), s)
      | Some p \<Rightarrow> transition env (snd p) (s\<lparr>notified := remove1 p (notified s)\<rparr>))"

text \<open>
  \<open>notifyHandler\<close> on IO thread \<open>t\<close>, for the outcomes of its reads. A bad read or an error aborts the
  process (\<open>breakLoop\<close>), as a failed assertion does.
\<close>

primrec notifyHandler :: "('k, 'h) environment \<Rightarrow> nat \<Rightarrow> pipe_read list \<Rightarrow> (('k, 'h) TNonblockingServer, unit) M" where
  "notifyHandler env t [] = returnM ()"
| "notifyHandler env t (r # rs) =
     (case r of
        POINTER \<Rightarrow> bindM (next_notification env t) (\<lambda>_. notifyHandler env t rs)
      | NULL_POINTER \<Rightarrow> returnM ()
      | SHORT_READ \<Rightarrow> throwM AssertionFailure
      | END_OF_PIPE \<Rightarrow> returnM ()
      | WOULD_BLOCK \<Rightarrow> returnM ()
      | PIPE_ERROR \<Rightarrow> throwM AssertionFailure)"

text \<open>
  The server after its constructor, with the default settings, and \<open>numIOThreads\<close> threads registered;
  \<open>pool\<close> tells whether a thread manager is set.
\<close>

definition newTNonblockingServer :: "nat \<Rightarrow> bool \<Rightarrow> 'h \<Rightarrow> ('k, 'h) TNonblockingServer" where
  "newTNonblockingServer threads pool h =
     \<lparr>connections = Map.empty, activeConnections = [], connectionStack = [], numTConnections = 0,
      numActiveProcessors = 0, nextIOThread = 0, numIOThreads = threads, connectionStackLimit = 1024,
      maxFrameSize = 256 * 1024 * 1024, threadPoolProcessing = pool, writeBufferDefaultSize = 1024,
      idleReadBufferLimit = 1024, idleWriteBufferLimit = 1024, resizeBufferEveryN = 512, tasks = [],
      managerStarted = True, notified = [], handler = h\<rparr>"

end
