(* ===== verification/ServerConnection.thy ===== *)
theory ServerConnection
  imports NonblockingServer
begin

text \<open>
  One connection of \<^verbatim>\<open>TNonblockingServer\<close>: what holds in each of its states (\<open>conn_ok\<close>) and what
  each piece of \<open>transition\<close> and \<open>workSocket\<close> does to it, whatever the system calls return.
\<close>

section \<open>Connections\<close>

text \<open>The buffers of a connection, active or idle; the server never sets a receive timeout.\<close>

definition buffers_ok :: "'k TConnection \<Rightarrow> bool" where
  "buffers_ok c \<longleftrightarrow> memory_inv (outputTransport c) \<and> owner (outputTransport c)
     \<and> length (readBuffer c) = readBufferSize c \<and> readBufferSize c < 2 ^ 32
     \<and> recvTimeout (tSocket c) = 0"

text \<open>An active connection belongs to an IO thread, and libevent watches it if it has flags.\<close>

definition open_ok :: "'k TConnection \<Rightarrow> bool" where
  "open_ok c \<longleftrightarrow> buffers_ok c \<and> ioThread c \<noteq> None \<and> eventAdded c = (eventFlags c \<noteq> {})"

text \<open>
  What holds between two events, by application state. While a request is read, the socket is
  watched and bytes are missing, unless the frame is empty.
\<close>

definition conn_ok :: "'k TConnection \<Rightarrow> bool" where
  "conn_ok c \<longleftrightarrow> open_ok c \<and> (case appState c of
     APP_READ_FRAME_SIZE \<Rightarrow> socketState c = SOCKET_RECV_FRAMING \<and> eventFlags c = {EV_READ, EV_PERSIST}
       \<and> readBufferPos c < 4
   | APP_READ_REQUEST \<Rightarrow> socketState c = SOCKET_RECV \<and> eventFlags c = {EV_READ, EV_PERSIST}
       \<and> unat (readWant c) \<le> readBufferSize c
       \<and> (readBufferPos c < unat (readWant c) \<or> readWant c = 0 \<and> readBufferPos c = 0)
   | APP_SEND_RESULT \<Rightarrow> socketState c = SOCKET_SEND \<and> eventFlags c = {EV_WRITE, EV_PERSIST}
       \<and> writeBufferPos c < writeBufferSize c
       \<and> (\<exists>p. writeBuffer c = Some p \<and> p + writeBufferSize c \<le> length (buffer (outputTransport c)))
   | _ \<Rightarrow> eventFlags c = {})"

lemma double_until_some:
  assumes "want \<le> 2 ^ 31" and "0 < sz" and "sz < 2 ^ 32"
  shows "\<exists>n. double_until want sz = Some n \<and> want \<le> n \<and> sz \<le> n \<and> n < 2 ^ 32"
proof -
  let ?P = "\<lambda>n :: nat. sz \<le> n \<and> n < 2 ^ 32"
  have step: "?P (u32 (n * 2)) \<and> want - u32 (n * 2) < want - n" if "?P n" "want > n" for n
  proof -
    have "n * 2 < 2 ^ 32" using that assms(1) by simp
    then have "u32 (n * 2) = n * 2" by simp
    with that assms show ?thesis by auto
  qed
  obtain n where n: "while_option (\<lambda>n. want > n) (\<lambda>n. u32 (n * 2)) sz = Some n"
    using measure_while_option_Some [of ?P "\<lambda>n. want > n" "\<lambda>n. u32 (n * 2)" "\<lambda>n. want - n" sz] step assms
    by auto
  have "?P n" by (rule while_option_rule [where P = ?P, OF _ n]) (use step assms in blast)+
  moreover have "\<not> want > n" by (rule while_option_stop [OF n])
  ultimately show ?thesis using n by (auto simp: double_until_def)
qed

lemma setFlags_eq:
  "eventAdded c = (eventFlags c \<noteq> {}) \<Longrightarrow>
    setFlags f c = (Inr (), c\<lparr>eventFlags := f, eventAdded := (f \<noteq> {})\<rparr>)"
  by (cases c) (auto simp: setFlags_def Let_def)

lemma clientStore_eq: "clientStore p bs s = (Inr (), s\<lparr>buffer := memcpy (buffer s) p bs\<rparr>)"
  by (simp add: clientStore_def modifyM_def buffer_update_eq [of "\<lambda>m. memcpy m p bs"])

lemma app_init_ok:
  assumes "open_ok c"
  shows "\<exists>c'. app_init c = (Inr (), c') \<and> conn_ok c' \<and> appState c' = APP_READ_FRAME_SIZE
    \<and> readBufferPos c' = 0 \<and> tSocket c' = tSocket c \<and> ioThread c' = ioThread c"
  using assms
  by (auto simp: app_init_def setRead_def setFlags_def monad_simps conn_ok_def open_ok_def
      buffers_ok_def Let_def)

lemma app_read_frame_size_ok:
  assumes "open_ok c" and "eventFlags c = {EV_READ, EV_PERSIST}" and "unat (readWant c) \<le> 2 ^ 31"
  shows "\<exists>c'. app_read_frame_size c = (Inr (), c') \<and> conn_ok c' \<and> appState c' = APP_READ_REQUEST
    \<and> readBufferPos c' = 0 \<and> readWant c' = readWant c \<and> tSocket c' = tSocket c
    \<and> ioThread c' = ioThread c"
proof -
  let ?enter = "\<lambda>c. c\<lparr>readBufferPos := 0, socketState := SOCKET_RECV, appState := APP_READ_REQUEST\<rparr>"
  have enter: "conn_ok (?enter d)"
    if "open_ok d" "eventFlags d = {EV_READ, EV_PERSIST}" "unat (readWant d) \<le> readBufferSize d"
    for d :: "'a TConnection"
    using that by (auto simp: conn_ok_def open_ok_def buffers_ok_def unat_gt_0)
  show ?thesis
  proof (cases "unat (readWant c) > readBufferSize c")
    case True
    let ?sz = "if readBufferSize c = 0 then 1 else readBufferSize c"
    have "0 < ?sz" "?sz < 2 ^ 32" using assms(1) by (auto simp: open_ok_def buffers_ok_def)
    from double_until_some [OF assms(3) this] obtain n where n: "double_until (unat (readWant c)) ?sz = Some n"
      "unat (readWant c) \<le> n" "?sz \<le> n" "n < 2 ^ 32" by blast
    let ?d = "c\<lparr>readBuffer := readBuffer c @ replicate (n - length (readBuffer c)) 0, readBufferSize := n\<rparr>"
    have "length (readBuffer c) \<le> n"
      using n(3) assms(1) by (auto simp: open_ok_def buffers_ok_def split: if_splits)
    then have "open_ok ?d" using assms(1) n(4) by (simp add: open_ok_def buffers_ok_def)
    then have "conn_ok (?enter ?d)" using assms(2) n(2) by (intro enter) simp_all
    moreover have "app_read_frame_size c = (Inr (), ?enter ?d)"
      using True n(1) by (simp add: app_read_frame_size_def Let_def)
    ultimately show ?thesis by (intro exI [of _ "?enter ?d"]) simp
  next
    case False
    with assms enter [of c] show ?thesis by (simp add: app_read_frame_size_def Let_def)
  qed
qed

lemma checkIdle_ok:
  assumes "buffers_ok c"
  shows "\<exists>c'. checkIdleBufferMemLimit d r w c = (Inr (), c') \<and> buffers_ok c'
    \<and> ioThread c' = ioThread c \<and> eventFlags c' = eventFlags c \<and> eventAdded c' = eventAdded c
    \<and> tSocket c' = tSocket c"
  using assms memory_reachable_inv [OF memory_reachable.new, of "u32 d"]
  by (auto simp: checkIdleBufferMemLimit_def monad_simps onOutput_def resetBuffer_size_def
      newTMemoryBuffer_def initCommon_def buffers_ok_def split: prod.splits)

lemma app_send_result_ok:
  assumes "open_ok c"
  shows "\<exists>c'. app_send_result n d r w c = (Inr (), c') \<and> conn_ok c' \<and> appState c' = APP_READ_FRAME_SIZE
    \<and> readBufferPos c' = 0 \<and> tSocket c' = tSocket c"
proof -
  define c1 where "c1 = (if writeBufferSize c > largestWriteBufferSize c
       then c\<lparr>largestWriteBufferSize := writeBufferSize c\<rparr> else c)"
  define c2 where "c2 = c1\<lparr>callsForResize := callsForResize c1 + 1\<rparr>"
  have o: "open_ok c1" "open_ok c2" "tSocket c1 = tSocket c" "tSocket c2 = tSocket c"
    using assms by (auto simp: c1_def c2_def open_ok_def buffers_ok_def)
  obtain c3 where c3: "checkIdleBufferMemLimit d r w c2 = (Inr (), c3)" "buffers_ok c3"
    "ioThread c3 = ioThread c2" "eventFlags c3 = eventFlags c2" "eventAdded c3 = eventAdded c2" "tSocket c3 = tSocket c"
    using checkIdle_ok [of c2 d r w] o by (auto simp: open_ok_def)
  have o3: "open_ok (c3\<lparr>callsForResize := 0\<rparr>)" using c3 o(2) by (auto simp: open_ok_def buffers_ok_def)
  show ?thesis
    using app_init_ok [OF o(1)] app_init_ok [OF o(2)] app_init_ok [OF o3] c3(1,6) o(3,4)
    by (cases "0 <s n"; cases "n \<le>s callsForResize c2")
      (auto simp: app_send_result_def bindM_def modifyM_def getM_def returnM_def
        c1_def [symmetric] c2_def [symmetric])
qed

lemma fetch_result_ok:
  assumes "open_ok c"
  shows "\<exists>c'. fetch_result c = (Inr (), c') \<and> conn_ok c' \<and> tSocket c' = tSocket c \<and> ioThread c' = ioThread c
    \<and> (if length (unread (outputTransport c)) \<le> 4 then appState c' = APP_READ_FRAME_SIZE \<and> readBufferPos c' = 0
       else appState c' = APP_SEND_RESULT \<and> writeBufferPos c' = 0
         \<and> writeBufferSize c' = length (unread (outputTransport c))
         \<and> mslice (buffer (outputTransport c')) (the (writeBuffer c')) (writeBufferSize c')
             = be32 (word_of_nat (length (unread (outputTransport c)) - 4)) @ drop 4 (unread (outputTransport c)))"
proof -
  let ?o = "outputTransport c"
  have inv: "memory_inv ?o" using assms by (simp add: open_ok_def buffers_ok_def)
  then have len: "length (unread ?o) = wBase ?o - rBase ?o" by simp
  have gb: "getBuffer ?o = (rBase ?o, wBase ?o - rBase ?o)"
    using inv by (auto simp: getBuffer_def memory_inv_def)
  let ?c1 = "c\<lparr>writeBuffer := Some (rBase ?o), writeBufferSize := wBase ?o - rBase ?o\<rparr>"
  have o1: "open_ok ?c1" using assms by (simp add: open_ok_def buffers_ok_def)
  show ?thesis
  proof (cases "wBase ?o - rBase ?o > 4")
    case False
    with app_init_ok [OF o1] show ?thesis
      by (auto simp: fetch_result_def bindM_def modifyM_def getM_def gb len)
  next
    case True
    let ?h = "mem32 (htonl (word_of_nat (wBase ?o - rBase ?o - 4)))"
    define b where "b = memcpy (buffer ?o) (rBase ?o) ?h"
    have bound: "rBase ?o + (wBase ?o - rBase ?o) \<le> length (buffer ?o)" "rBase ?o + 4 \<le> length (buffer ?o)"
      using inv True by (auto simp: memory_inv_def)
    have sl: "mslice b (rBase ?o) (wBase ?o - rBase ?o) = ?h @ drop 4 (unread ?o)"
      using bound True
      by (auto simp: b_def mslice_def memcpy_def unread_def drop_take min_def) (simp add: add.commute)
    have lb: "length b = length (buffer ?o)" using bound by (simp add: b_def)
    have inv': "memory_inv (?o\<lparr>buffer := b\<rparr>)" "owner (?o\<lparr>buffer := b\<rparr>)"
      using assms inv lb by (auto simp: memory_inv_def open_ok_def buffers_ok_def)
    let ?d = "?c1\<lparr>writeBufferPos := 0, socketState := SOCKET_SEND, outputTransport := ?o\<lparr>buffer := b\<rparr>,
      appState := APP_SEND_RESULT\<rparr>"
    let ?e = "?d\<lparr>eventFlags := {EV_WRITE, EV_PERSIST}, eventAdded := True\<rparr>"
    have "eventAdded ?d = (eventFlags ?d \<noteq> {})" using assms by (simp add: open_ok_def)
    from setFlags_eq [OF this, of "{EV_WRITE, EV_PERSIST}"] True
    have "fetch_result c = (Inr (), ?e)"
      by (simp add: fetch_result_def bindM_def modifyM_def getM_def gb onOutput_def liftM_def clientStore_eq
          setWrite_def b_def)
    moreover have "conn_ok ?e"
      using True inv' assms bound(1) lb by (simp add: conn_ok_def open_ok_def buffers_ok_def)
    ultimately show ?thesis using True sl len by (intro exI [of _ ?e]) simp
  qed
qed

lemma prepare_request_ok:
  assumes "open_ok c" and "readBufferPos c \<le> readBufferSize c"
  shows "\<exists>inp out. prepare_request c = (Inr (), c\<lparr>inputTransport := inp, outputTransport := out\<rparr>)
    \<and> memory_inv inp \<and> unread inp = take (readBufferPos c) (readBuffer c)
    \<and> memory_inv out \<and> owner out \<and> rBase out = 0 \<and> length (unread out) = 4"
proof -
  let ?o = "outputTransport c"
  have inv: "memory_inv ?o" "owner ?o" using assms by (auto simp: open_ok_def buffers_ok_def)
  define o1 where "o1 = snd (resetBuffer ?o)"
  have r1: "resetBuffer ?o = (Inr (), o1)" by (simp add: o1_def resetBuffer_def modifyM_def Let_def)
  have o1: "memory_inv o1" "owner o1" "wBase o1 = 0" "rBase o1 = 0"
    using inv memory_inv_reset [OF inv(1)] by (auto simp: o1_def resetBuffer_def modifyM_def Let_def)
  obtain o2 where o2: "ensureCanWrite 4 o1 = (Inr (), o2)" "memory_inv o2" "owner o2"
    "wBase o2 + 4 \<le> bufferSize o2" "wBase o2 = 0" "rBase o2 = 0"
    using ensureCanWrite_ok [OF o1(1,2), of 4] o1(3,4) by auto
  let ?o3 = "o2\<lparr>wBase := wBase o2 + 4\<rparr>"
  have w: "wroteBytes 4 o2 = (Inr (), ?o3)" using o2 by (simp add: wroteBytes_def Let_def)
  have o3: "memory_inv ?o3" using o2 by (auto simp: memory_inv_def)
  define inp where "inp = initCommon (Some (if readBufferSize c = 0 then [] else readBuffer c)) (readBufferPos c) False (readBufferPos c)"
  have i: "newTMemoryBuffer_from (if readBufferSize c = 0 then None else Some (readBuffer c)) (readBufferPos c) OBSERVE = Inr inp"
    using assms(2) by (simp add: newTMemoryBuffer_from_def inp_def)
  have ii: "memory_inv inp" "unread inp = take (readBufferPos c) (readBuffer c)"
    using assms by (auto simp: inp_def initCommon_def memory_inv_def unread_def mslice_def open_ok_def buffers_ok_def)
  have "prepare_request c = (Inr (), c\<lparr>inputTransport := inp, outputTransport := ?o3\<rparr>)"
    using r1 o2(1) w i
    by (simp add: prepare_request_def bindM_def getM_def onInput_def onOutput_def liftM_def resetBuffer_from_def
        getWritePtr_def)
  with ii o3 o2 show ?thesis by (intro exI [of _ inp] exI [of _ ?o3]) simp
qed

text \<open>
  The kernel stores at most as many bytes as there is room for and takes at most as many as it is
  given.
\<close>

definition bounded_transfers :: "'k syscalls \<Rightarrow> bool" where
  "bounded_transfers sys \<longleftrightarrow>
     (\<forall>n k bs k'. recv sys n k = (Inr bs, k') \<longrightarrow> length bs \<le> n)
     \<and> (\<forall>bs k n k'. send sys bs k = (Inr n, k') \<longrightarrow> n \<le> length bs)"

lemma try_again_outcome:
  assumes "bounded_transfers sys" and "recvTimeout s = 0"
  shows "\<exists>r k. try_again sys n thr m s = (r, s\<lparr>kernel := k\<rparr>)
    \<and> (\<forall>e. r = Inl e \<longrightarrow> is_TTransportException e) \<and> (\<forall>bs. r = Inr bs \<longrightarrow> length bs \<le> n)"
  using assms
proof (induction sys n thr m s rule: try_again.induct)
  case (1 sys n thr m s)
  obtain r1 k1 where r: "recv sys n (kernel s) = (r1, k1)" by (cases "recv sys n (kernel s)")
  have bound: "length bs \<le> n" if "r1 = Inr bs" for bs
    using r that 1(3) by (auto simp: bounded_transfers_def)
  show ?case
  proof (cases "r1 = Inl EINTR \<and> m < maxRecvRetries s")
    case True
    with r 1(4) have "try_again sys n thr m s = try_again sys n thr (m + 1) (s\<lparr>kernel := k1\<rparr>)"
      by (simp add: try_again.simps [of sys n thr m s])
    moreover have "\<exists>r' k'. try_again sys n thr (m + 1) (s\<lparr>kernel := k1\<rparr>) = (r', (s\<lparr>kernel := k1\<rparr>)\<lparr>kernel := k'\<rparr>)
        \<and> (\<forall>e. r' = Inl e \<longrightarrow> is_TTransportException e) \<and> (\<forall>bs. r' = Inr bs \<longrightarrow> length bs \<le> n)"
      using 1 True r by (intro 1(2)) auto
    ultimately show ?thesis by auto
  next
    case False
    with r 1(4) bound show ?thesis
      by (cases r1) (auto simp: try_again.simps [of sys n thr m s] recv_exception_def)
  qed
qed

section \<open>Socket events of a connection\<close>

lemma socket_read_outcome:
  assumes "bounded_transfers sys" and "recvTimeout s = 0"
  shows "\<exists>r k. socket_read sys n s = (r, s\<lparr>kernel := k\<rparr>)
    \<and> (\<forall>e. r = Inl e \<longrightarrow> is_TTransportException e) \<and> (\<forall>bs. r = Inr bs \<longrightarrow> length bs \<le> n)"
proof (cases "socketFD s")
  case None
  then show ?thesis by (intro exI [of _ "Inl (TTransportException NOT_OPEN)"] exI [of _ "kernel s"])
      (simp add: socket_read_def)
next
  case (Some fd)
  with try_again_outcome [OF assms, of n "eagainThresholdMicros s" 0] assms(2) show ?thesis
    by (simp add: socket_read_def)
qed

lemma write_partial_outcome:
  assumes "bounded_transfers sys"
  shows "\<exists>r k fd. write_partial sys bs s = (r, s\<lparr>kernel := k, socketFD := fd\<rparr>)
    \<and> (\<forall>e. r = Inl e \<longrightarrow> is_TTransportException e) \<and> (\<forall>n. r = Inr n \<longrightarrow> n \<le> length bs)"
proof (cases "socketFD s")
  case None
  then show ?thesis by (intro exI [of _ "Inl (TTransportException NOT_OPEN)"] exI [of _ "kernel s"] exI [of _ None], cases s)
      (simp add: write_partial_def)
next
  case (Some fd)
  obtain r k where s: "send sys bs (kernel s) = (r, k)" by (cases "send sys bs (kernel s)")
  have same: "s\<lparr>kernel := k\<rparr> = s\<lparr>kernel := k, socketFD := Some fd\<rparr>" using Some by (cases s) simp
  have bound: "\<And>n. r = Inr n \<Longrightarrow> n \<le> length bs"
    using s assms unfolding bounded_transfers_def by blast
  consider n where "r = Inr n" | "r = Inl EAGAIN" | e where "r = Inl e" "e \<in> {EPIPE, ECONNRESET, ENOTCONN}"
    | e where "r = Inl e" "e \<noteq> EAGAIN" "e \<notin> {EPIPE, ECONNRESET, ENOTCONN}"
    by (cases r) blast+
  then show ?thesis
  proof cases
    case 3
    with s Some show ?thesis
      by (intro exI [of _ "Inl (TTransportException NOT_OPEN)"] exI [of _ "shutdown_close sys k"] exI [of _ None])
        (auto simp: write_partial_def socket_close_def Let_def)
  next
    case (1 n)
    with s Some bound have "write_partial sys bs s = (if n = 0 then Inl (TTransportException NOT_OPEN) else Inr n, s\<lparr>kernel := k\<rparr>)"
      by (simp add: write_partial_def)
    with bound [OF 1] show ?thesis
      by (intro exI [of _ "if n = 0 then Inl (TTransportException NOT_OPEN) else Inr n"] exI [of _ k] exI [of _ "Some fd"])
        (simp add: same [symmetric])
  next
    case 2
    with s Some have "write_partial sys bs s = (Inr 0, s\<lparr>kernel := k\<rparr>)"
      by (simp add: write_partial_def Let_def)
    then show ?thesis
      by (intro exI [of _ "Inr 0"] exI [of _ k] exI [of _ "Some fd"]) (simp add: same [symmetric])
  next
    case (4 e)
    with s Some have "write_partial sys bs s = (Inl (TTransportException TT_UNKNOWN), s\<lparr>kernel := k\<rparr>)"
      by (simp add: write_partial_def Let_def)
    then show ?thesis
      by (intro exI [of _ "Inl (TTransportException TT_UNKNOWN)"] exI [of _ k] exI [of _ "Some fd"])
        (simp add: same [symmetric])
  qed
qed

lemmas work_simps = onSocket_def catch_close_def catchM_def monad_simps

lemma work_framing_step:
  assumes "socket_read sys (4 - readBufferPos c) (tSocket c) = (r, t)"
  shows "work_framing sys m c = (case r of
      Inl e \<Rightarrow> (if is_TTransportException e then Inr CLOSE else Inl e, c\<lparr>tSocket := t\<rparr>)
    | Inr bs \<Rightarrow> if bs = [] then (Inr CLOSE, c\<lparr>tSocket := t\<rparr>)
        else (let c1 = c\<lparr>tSocket := t, readBufferPos := readBufferPos c + length bs\<rparr>;
                  w = load32 (memcpy (mem32 (readWant c)) (readBufferPos c) bs)
              in if readBufferPos c + length bs < 4 then (Inr STOP, c1\<lparr>readWant := w\<rparr>)
                 else (Inr (if unat (htonl w) > m then CLOSE else TRANSITION), c1\<lparr>readWant := htonl w\<rparr>)))"
  using assms by (simp add: work_framing_def work_simps Let_def split: sum.splits)

lemma work_recv_step:
  assumes "socket_read sys (unat (readWant c) - readBufferPos c) (tSocket c) = (r, t)"
    and "readBufferPos c < unat (readWant c)"
    and "\<And>bs. r = Inr bs \<Longrightarrow> length bs \<le> unat (readWant c) - readBufferPos c"
  shows "work_recv sys c = (case r of
      Inl e \<Rightarrow> (if is_TTransportException e then Inr CLOSE else Inl e, c\<lparr>tSocket := t\<rparr>)
    | Inr bs \<Rightarrow> (let c1 = c\<lparr>tSocket := t, readBuffer := memcpy (readBuffer c) (readBufferPos c) bs\<rparr>
        in if 0 <s (word_of_nat (length bs) :: int32_t)
           then (Inr (if readBufferPos c + length bs = unat (readWant c) then TRANSITION else STOP),
                 c1\<lparr>readBufferPos := readBufferPos c + length bs\<rparr>)
           else (Inr CLOSE, c1)))"
proof (cases r)
  case (Inr bs)
  have "unat (readWant c) < 2 ^ 32" using unsigned_less [of "readWant c"] by simp
  then have "length bs < 2 ^ 32" using assms(3) [OF Inr] by linarith
  then have "unat (word_of_nat (length bs) :: int32_t) = length bs" by (simp add: unat_of_nat)
  with Inr assms show ?thesis
    by (auto simp: work_recv_def work_simps Let_def)
qed (use assms in \<open>simp add: work_recv_def work_simps Let_def\<close>)

lemma work_send_step:
  assumes "write_partial sys (mslice (buffer (outputTransport c)) (the (writeBuffer c) + writeBufferPos c)
      (writeBufferSize c - writeBufferPos c)) (tSocket c) = (r, t)"
    and "writeBufferPos c < writeBufferSize c"
    and "\<And>n. r = Inr n \<Longrightarrow> n \<le> writeBufferSize c - writeBufferPos c"
  shows "work_send sys c = (case r of
      Inl e \<Rightarrow> (if is_TTransportException e then Inr CLOSE else Inl e, c\<lparr>tSocket := t\<rparr>)
    | Inr n \<Rightarrow> (Inr (if writeBufferPos c + n = writeBufferSize c then TRANSITION else STOP),
                c\<lparr>tSocket := t, writeBufferPos := writeBufferPos c + n\<rparr>))"
  using assms by (cases r) (auto simp: work_send_def work_simps)

lemma work_framing_ok:
  assumes "bounded_transfers sys" and "conn_ok c" and "appState c = APP_READ_FRAME_SIZE"
  shows "\<exists>act c'. work_framing sys m c = (Inr act, c') \<and> open_ok c'
    \<and> (act = STOP \<longrightarrow> conn_ok c' \<and> appState c' = APP_READ_FRAME_SIZE)
    \<and> (act = TRANSITION \<longrightarrow> eventFlags c' = {EV_READ, EV_PERSIST} \<and> appState c' = APP_READ_FRAME_SIZE
         \<and> unat (readWant c') \<le> m)"
proof -
  have c: "open_ok c" "eventFlags c = {EV_READ, EV_PERSIST}" "socketState c = SOCKET_RECV_FRAMING"
    "recvTimeout (tSocket c) = 0"
    using assms(2,3) by (auto simp: conn_ok_def open_ok_def buffers_ok_def)
  obtain r k where r: "socket_read sys (4 - readBufferPos c) (tSocket c) = (r, (tSocket c)\<lparr>kernel := k\<rparr>)"
    "\<forall>e. r = Inl e \<longrightarrow> is_TTransportException e" "\<forall>bs. r = Inr bs \<longrightarrow> length bs \<le> 4 - readBufferPos c"
    using socket_read_outcome [OF assms(1) c(4)] by blast
  have *: "open_ok (c\<lparr>tSocket := (tSocket c)\<lparr>kernel := k\<rparr>, readBufferPos := p, readWant := w\<rparr>)" for p w
    using c(1) by (simp add: open_ok_def buffers_ok_def)
  have **: "open_ok (c\<lparr>tSocket := (tSocket c)\<lparr>kernel := k\<rparr>\<rparr>)"
    using c(1) by (simp add: open_ok_def buffers_ok_def)
  show ?thesis
    using r(2,3) * ** c(2,3) assms(3)
    by (cases r) (simp_all add: work_framing_step [OF r(1)] Let_def conn_ok_def)
qed

lemma work_recv_ok:
  assumes "bounded_transfers sys" and "conn_ok c" and "appState c = APP_READ_REQUEST" and "readWant c \<noteq> 0"
  shows "\<exists>act c'. work_recv sys c = (Inr act, c') \<and> open_ok c'
    \<and> (act = STOP \<longrightarrow> conn_ok c' \<and> appState c' = APP_READ_REQUEST)
    \<and> (act = TRANSITION \<longrightarrow> appState c' = APP_READ_REQUEST \<and> eventFlags c' = {EV_READ, EV_PERSIST}
         \<and> readBufferPos c' \<le> readBufferSize c')"
proof -
  have c: "open_ok c" "eventFlags c = {EV_READ, EV_PERSIST}" "socketState c = SOCKET_RECV"
    "recvTimeout (tSocket c) = 0" "readBufferPos c < unat (readWant c)" "unat (readWant c) \<le> readBufferSize c"
    "length (readBuffer c) = readBufferSize c"
    using assms(2-4) by (auto simp: conn_ok_def open_ok_def buffers_ok_def)
  obtain r k where r: "socket_read sys (unat (readWant c) - readBufferPos c) (tSocket c) = (r, (tSocket c)\<lparr>kernel := k\<rparr>)"
    "\<forall>e. r = Inl e \<longrightarrow> is_TTransportException e" "\<forall>bs. r = Inr bs \<longrightarrow> length bs \<le> unat (readWant c) - readBufferPos c"
    using socket_read_outcome [OF assms(1) c(4)] by blast
  have *: "open_ok (c\<lparr>tSocket := (tSocket c)\<lparr>kernel := k\<rparr>, readBuffer := m, readBufferPos := p\<rparr>)"
    "open_ok (c\<lparr>tSocket := (tSocket c)\<lparr>kernel := k\<rparr>, readBuffer := m\<rparr>)"
    if "length m = readBufferSize c" for p m
    using c(1) that by (simp_all add: open_ok_def buffers_ok_def)
  have **: "open_ok (c\<lparr>tSocket := (tSocket c)\<lparr>kernel := k\<rparr>\<rparr>)"
    using c(1) by (simp add: open_ok_def buffers_ok_def)
  note step = work_recv_step [OF r(1) c(5)]
  show ?thesis
  proof (cases r)
    case (Inl e)
    with r(2) ** step show ?thesis by simp
  next
    case (Inr bs)
    with r(3) have len: "length bs \<le> unat (readWant c) - readBufferPos c" by simp
    then have "readBufferPos c + length bs \<le> unat (readWant c)" using c(5) by linarith
    moreover from this have "length (memcpy (readBuffer c) (readBufferPos c) bs) = readBufferSize c"
      using c(6,7) by simp
    ultimately show ?thesis
      using Inr step len * c assms(3) by (auto simp: Let_def conn_ok_def)
  qed
qed

lemma work_send_ok:
  assumes "bounded_transfers sys" and "conn_ok c" and "appState c = APP_SEND_RESULT"
  shows "\<exists>act c'. work_send sys c = (Inr act, c') \<and> open_ok c' \<and> appState c' = APP_SEND_RESULT
    \<and> (act = STOP \<longrightarrow> conn_ok c')"
proof -
  obtain p where c: "open_ok c" "eventFlags c = {EV_WRITE, EV_PERSIST}" "socketState c = SOCKET_SEND"
    "writeBufferPos c < writeBufferSize c" "writeBuffer c = Some p"
    "p + writeBufferSize c \<le> length (buffer (outputTransport c))"
    using assms(2,3) by (auto simp: conn_ok_def)
  let ?left = "mslice (buffer (outputTransport c)) (the (writeBuffer c) + writeBufferPos c) (writeBufferSize c - writeBufferPos c)"
  have "length ?left = writeBufferSize c - writeBufferPos c" using c(4-6) by simp
  then obtain r k fd where r: "write_partial sys ?left (tSocket c) = (r, (tSocket c)\<lparr>kernel := k, socketFD := fd\<rparr>)"
    "\<forall>e. r = Inl e \<longrightarrow> is_TTransportException e" "\<forall>n. r = Inr n \<longrightarrow> n \<le> writeBufferSize c - writeBufferPos c"
    using write_partial_outcome [OF assms(1), of ?left "tSocket c"] by auto
  have *: "open_ok (c\<lparr>tSocket := (tSocket c)\<lparr>kernel := k, socketFD := fd\<rparr>, writeBufferPos := n\<rparr>)"
    "open_ok (c\<lparr>tSocket := (tSocket c)\<lparr>kernel := k, socketFD := fd\<rparr>\<rparr>)" for n
    using c(1) by (simp_all add: open_ok_def buffers_ok_def)
  show ?thesis
    using r(2,3) * c assms(3) work_send_step [OF r(1) c(4)]
    by (cases r) (auto simp: conn_ok_def)
qed

end
