(* ===== verification/ServerInvariant.thy ===== *)
theory ServerInvariant
  imports ServerConnection
begin

text \<open>
  Consistency of \<^verbatim>\<open>TNonblockingServer\<close> (\<open>sinv\<close>): its connections are exactly the active and the idle
  ones, a connection that waits for a task or a notification is in exactly one queue, and the count
  of active processors is right as long as the thread manager takes tasks, and never too low. A
  handler works on one connection that is taken in hand and released (or queued, or closed) at the
  end. The theory ends with the step relation and the invariant of all reachable states.
\<close>

section \<open>The invariant of the server\<close>

text \<open>
  A \<open>pending\<close> connection waits for its task or for a notification, a \<open>busy\<close> one counts as an
  active processor, and \<open>held\<close> says that an active connection is in order with the queues.
\<close>

definition pending :: "'k TConnection \<Rightarrow> bool" where
  "pending c \<longleftrightarrow> appState c \<in> {APP_INIT, APP_WAIT_TASK, APP_CLOSE_CONNECTION}"

definition busy :: "('k, 'h) TNonblockingServer \<Rightarrow> nat \<Rightarrow> bool" where
  "busy s i \<longleftrightarrow> (\<exists>c. connections s i = Some c \<and> appState c \<in> {APP_WAIT_TASK, APP_CLOSE_CONNECTION})"

text \<open>The connections in the task queue and in the notification pipes.\<close>

definition waiting :: "('k, 'h) TNonblockingServer \<Rightarrow> nat list" where
  "waiting s = tasks s @ map snd (notified s)"

definition held :: "('k, 'h) TNonblockingServer \<Rightarrow> nat \<Rightarrow> bool" where
  "held s j \<longleftrightarrow> (\<exists>c. connections s j = Some c \<and> conn_ok c
     \<and> (pending c \<longleftrightarrow> j \<in> set (waiting s)) \<and> (j \<in> set (tasks s) \<longrightarrow> appState c = APP_WAIT_TASK)
     \<and> (\<forall>t. (t, j) \<in> set (notified s) \<longrightarrow> ioThread c = Some t))"

definition lists_ok :: "('k, 'h) TNonblockingServer \<Rightarrow> bool" where
  "lists_ok s \<longleftrightarrow> distinct (activeConnections s @ connectionStack s)
     \<and> dom (connections s) = set (activeConnections s @ connectionStack s)
     \<and> numTConnections s = length (activeConnections s @ connectionStack s)
     \<and> (\<forall>j\<in>set (connectionStack s). \<exists>c. connections s j = Some c \<and> buffers_ok c \<and> \<not> eventAdded c)
     \<and> maxFrameSize s \<le> 2 ^ 31 \<and> nextIOThread s < numIOThreads s"

text \<open>
  The count of active processors: never too low, and exact while the thread manager takes tasks (a
  task it refuses stays counted).
\<close>

definition counted :: "nat \<Rightarrow> ('k, 'h) TNonblockingServer \<Rightarrow> bool" where
  "counted n s \<longleftrightarrow> n \<le> numActiveProcessors s \<and> (managerStarted s \<longrightarrow> numActiveProcessors s = n)"

definition stack_full :: "('k, 'h) TNonblockingServer \<Rightarrow> bool" where
  "stack_full s \<longleftrightarrow> connectionStackLimit s \<noteq> 0 \<and> connectionStackLimit s \<le> length (connectionStack s)"

text \<open>
  The invariant while a handler has the connections in \<open>cur\<close> in hand, \<open>d\<close> of the active
  processors being theirs.
\<close>

definition sinv :: "nat set \<Rightarrow> nat \<Rightarrow> ('k, 'h) TNonblockingServer \<Rightarrow> bool" where
  "sinv cur d s \<longleftrightarrow> lists_ok s \<and> (\<forall>j\<in>set (activeConnections s) - cur. held s j)
     \<and> distinct (waiting s) \<and> set (waiting s) \<subseteq> set (activeConnections s) - cur
     \<and> cur \<subseteq> set (activeConnections s)
     \<and> counted (card {j \<in> set (activeConnections s) - cur. busy s j} + d) s"

lemma lists_ok_update [simp]:
  "lists_ok (s\<lparr>tasks := q\<rparr>) = lists_ok s" "lists_ok (s\<lparr>notified := p\<rparr>) = lists_ok s"
  "lists_ok (s\<lparr>managerStarted := b\<rparr>) = lists_ok s"
  "lists_ok (s\<lparr>numActiveProcessors := n\<rparr>) = lists_ok s" "lists_ok (s\<lparr>handler := h\<rparr>) = lists_ok s"
  by (simp_all add: lists_ok_def)

lemma busy_update [simp]:
  "busy (s\<lparr>tasks := q\<rparr>) = busy s" "busy (s\<lparr>notified := p\<rparr>) = busy s" "busy (s\<lparr>managerStarted := b\<rparr>) = busy s"
  "busy (s\<lparr>numActiveProcessors := n\<rparr>) = busy s" "busy (s\<lparr>handler := h\<rparr>) = busy s"
  by (simp_all add: busy_def fun_eq_iff)

lemma waiting_update [simp]:
  "waiting (s\<lparr>tasks := q\<rparr>) = q @ map snd (notified s)" "waiting (s\<lparr>notified := p\<rparr>) = tasks s @ map snd p"
  "waiting (s\<lparr>connections := m\<rparr>) = waiting s" "waiting (s\<lparr>handler := h\<rparr>) = waiting s"
  "waiting (s\<lparr>numActiveProcessors := n\<rparr>) = waiting s" "waiting (s\<lparr>managerStarted := b\<rparr>) = waiting s"
  by (simp_all add: waiting_def)

lemma counted_cong:
  "numActiveProcessors s' = numActiveProcessors s \<Longrightarrow> managerStarted s' = managerStarted s \<Longrightarrow> counted n s' = counted n s"
  by (simp add: counted_def)

lemma counted_update [simp]:
  "counted n (s\<lparr>tasks := q\<rparr>) = counted n s" "counted n (s\<lparr>notified := p\<rparr>) = counted n s"
  "counted n (s\<lparr>connections := m\<rparr>) = counted n s" "counted n (s\<lparr>handler := h\<rparr>) = counted n s"
  by (simp_all add: counted_def)

lemma waiting_iff: "j \<in> set (waiting s) \<longleftrightarrow> j \<in> set (tasks s) \<or> (\<exists>t. (t, j) \<in> set (notified s))"
  by (force simp: waiting_def)

lemma find_fst: "find (\<lambda>p. fst p = t) xs = Some p \<Longrightarrow> \<exists>i. p = (t, i) \<and> (t, i) \<in> set xs"
  by (induction xs) (auto split: if_splits)

lemma remove1_snd:
  assumes "distinct (map snd xs)" and "p \<in> set xs"
  shows "distinct (map snd (remove1 p xs))" and "set (map snd (remove1 p xs)) = set (map snd xs) - {snd p}"
  using assms by (induction xs) (auto dest: notin_set_remove1 in_set_remove1 [THEN iffD1])

lemma busy_count_insert:
  assumes "finite A" and "i \<in> A" and "\<And>j. j \<in> A \<Longrightarrow> j \<noteq> i \<Longrightarrow> busy s' j = busy s j"
  shows "card {j \<in> A. busy s' j} = card {j \<in> A - {i}. busy s j} + (if busy s' i then 1 else 0)"
proof -
  have "{j \<in> A. busy s' j} = (if busy s' i then insert i {j \<in> A - {i}. busy s j} else {j \<in> A - {i}. busy s j})"
    using assms(2,3) by auto
  then show ?thesis using assms(1) by simp
qed

lemma sinv_put:
  assumes "sinv {i} d s"
  shows "sinv {i} d (s\<lparr>connections := (connections s)(i \<mapsto> c)\<rparr>)"
proof -
  let ?s = "s\<lparr>connections := (connections s)(i \<mapsto> c)\<rparr>"
  have i: "i \<in> set (activeConnections s)" "i \<notin> set (connectionStack s)"
    using assms by (auto simp: sinv_def lists_ok_def)
  have "{j \<in> set (activeConnections s) - {i}. busy ?s j} = {j \<in> set (activeConnections s) - {i}. busy s j}"
    by (auto simp: busy_def)
  moreover have "dom (connections ?s) = dom (connections s)"
    using assms i by (auto simp: sinv_def lists_ok_def)
  then have "lists_ok ?s" using assms i unfolding sinv_def lists_ok_def by (auto split: if_splits)
  moreover have "held ?s j = held s j" if "j \<noteq> i" for j using that by (simp add: held_def)
  ultimately show ?thesis using assms unfolding sinv_def by auto
qed

lemma sinv_handler [simp]: "sinv cur d (s\<lparr>handler := h\<rparr>) = sinv cur d s"
  by (simp add: sinv_def held_def)

lemma sinv_increment: "sinv cur d s \<Longrightarrow> \<exists>s'. incrementActiveProcessors s = (Inr (), s') \<and> sinv cur (Suc d) s'
    \<and> connections s' = connections s \<and> threadPoolProcessing s' = threadPoolProcessing s
    \<and> managerStarted s' = managerStarted s \<and> stack_full s' = stack_full s"
  by (simp add: sinv_def held_def counted_def stack_full_def incrementActiveProcessors_def modifyM_def)

lemma sinv_decrement: "sinv cur (Suc d) s \<Longrightarrow> \<exists>s'. decrementActiveProcessors s = (Inr (), s') \<and> sinv cur d s'
    \<and> connections s' = connections s"
  by (auto simp: sinv_def held_def counted_def decrementActiveProcessors_def modifyM_def)

text \<open>A processor that stays counted although its connection is gone.\<close>

lemma sinv_uncounted: "sinv cur (Suc d) s \<Longrightarrow> \<not> managerStarted s \<Longrightarrow> sinv cur d s"
  by (simp add: sinv_def counted_def)

lemma sinv_take:
  assumes "sinv {} 0 s" and "i \<in> set (activeConnections s)" and "connections s i = Some c" and "\<not> pending c"
  shows "sinv {i} 0 s"
proof -
  have "held s i" using assms(1,2) by (simp add: sinv_def)
  then have i: "i \<notin> set (waiting s)" "\<not> busy s i"
    using assms(3,4) by (auto simp: held_def busy_def pending_def)
  with busy_count_insert [OF finite_set assms(2), of s s]
  show ?thesis using assms(1,2) by (auto simp: sinv_def)
qed

lemma sinv_release:
  assumes "sinv {i} 0 s" and "connections s i = Some c" and "conn_ok c" and "\<not> pending c"
  shows "sinv {} 0 s"
proof -
  have i: "i \<in> set (activeConnections s)" "i \<notin> set (waiting s)"
    using assms(1) by (auto simp: sinv_def)
  have "held s i" "\<not> busy s i" using assms i by (auto simp: held_def busy_def pending_def waiting_iff)
  with busy_count_insert [OF finite_set i(1), of s s]
  show ?thesis using assms(1) unfolding sinv_def by auto
qed

text \<open>Handing the connection to the task queue or to the pipe, and taking it back.\<close>

lemma sinv_queue:
  assumes "sinv {i} d s" and "connections s i = Some c" and "conn_ok c" and "pending c"
    and "d = (if appState c = APP_INIT then 0 else 1)"
    and "appState c = APP_WAIT_TASK \<and> s' = s\<lparr>tasks := tasks s @ [i]\<rparr>
      \<or> ioThread c = Some t \<and> s' = s\<lparr>notified := notified s @ [(t, i)]\<rparr>"
  shows "sinv {} 0 s'"
proof -
  have i: "i \<in> set (activeConnections s)" "i \<notin> set (waiting s)"
    using assms(1) by (auto simp: sinv_def)
  have same: "busy s' = busy s" "lists_ok s' = lists_ok s" "activeConnections s' = activeConnections s"
    "numActiveProcessors s' = numActiveProcessors s" "managerStarted s' = managerStarted s"
    using assms(6) by auto
  have q: "set (waiting s') = insert i (set (waiting s))" "distinct (waiting s')"
  proof -
    have d: "distinct (waiting s)" using assms(1) by (simp add: sinv_def)
    have "set (waiting s') = insert i (set (waiting s)) \<and> distinct (waiting s')"
      using assms(6)
    proof
      assume "appState c = APP_WAIT_TASK \<and> s' = s\<lparr>tasks := tasks s @ [i]\<rparr>"
      then have "waiting s' = tasks s @ i # map snd (notified s)" by simp
      with d i(2) show ?thesis unfolding waiting_def by (simp only: distinct_append set_append) auto
    next
      assume "ioThread c = Some t \<and> s' = s\<lparr>notified := notified s @ [(t, i)]\<rparr>"
      then have "waiting s' = waiting s @ [i]" by (simp add: waiting_def)
      with d i(2) show ?thesis by simp
    qed
    then show "set (waiting s') = insert i (set (waiting s))" "distinct (waiting s')" by simp_all
  qed
  have "held s' j" if "j \<in> set (activeConnections s)" for j
  proof (cases "j = i")
    case True
    with assms(2-4,6) q(1) i(2) show ?thesis by (auto simp: held_def waiting_iff)
  next
    case False
    with that have "held s j" using assms(1) by (simp add: sinv_def)
    moreover have "j \<in> set (waiting s') \<longleftrightarrow> j \<in> set (waiting s)" using q(1) False by simp
    ultimately show ?thesis using False assms(6) unfolding held_def by auto
  qed
  moreover have "d = (if busy s i then 1 else 0)" using assms(2,4,5) by (auto simp: busy_def pending_def)
  then have "counted (card {j \<in> set (activeConnections s'). busy s' j}) s'"
    using assms(1) same busy_count_insert [OF finite_set i(1), of s s] by (simp add: sinv_def counted_def)
  moreover have "lists_ok s'" "set (waiting s) \<subseteq> set (activeConnections s)"
    using assms(1) same by (auto simp: sinv_def)
  ultimately show ?thesis using i(1) q by (simp only: sinv_def same(3)) simp
qed

lemma sinv_unqueue:
  assumes "sinv {} 0 s"
    and "tasks s = i # rest \<and> s' = s\<lparr>tasks := rest\<rparr>
      \<or> (t, i) \<in> set (notified s) \<and> s' = s\<lparr>notified := remove1 (t, i) (notified s)\<rparr>"
  shows "\<exists>c. connections s' i = Some c \<and> conn_ok c \<and> pending c \<and> ((t, i) \<in> set (notified s) \<longrightarrow> ioThread c = Some t)
    \<and> (i \<in> set (tasks s) \<longrightarrow> appState c = APP_WAIT_TASK)
    \<and> sinv {i} (if appState c = APP_INIT then 0 else 1) s'"
proof -
  have i: "i \<in> set (activeConnections s)" "i \<in> set (waiting s)"
    using assms(1) assms(2) waiting_iff [of i s] by (auto simp: sinv_def)
  then have "held s i" using assms(1) by (simp add: sinv_def)
  then obtain c where c: "connections s i = Some c" "conn_ok c" "pending c" "(t, i) \<in> set (notified s) \<longrightarrow> ioThread c = Some t"
    "i \<in> set (tasks s) \<longrightarrow> appState c = APP_WAIT_TASK"
    using i(2) by (auto simp: held_def)
  have same: "busy s' = busy s" "lists_ok s' = lists_ok s" "activeConnections s' = activeConnections s"
    "numActiveProcessors s' = numActiveProcessors s" "connections s' = connections s"
    "managerStarted s' = managerStarted s"
    using assms(2) by auto
  have d: "distinct (tasks s)" "distinct (map snd (notified s))" "set (tasks s) \<inter> set (map snd (notified s)) = {}"
    using assms(1) by (auto simp: sinv_def waiting_def)
  have q: "set (waiting s') = set (waiting s) - {i} \<and> distinct (waiting s')"
    using assms(2)
  proof
    assume n: "tasks s = i # rest \<and> s' = s\<lparr>tasks := rest\<rparr>"
    then have w: "waiting s = i # waiting s'" by (simp add: waiting_def)
    then have "distinct (i # waiting s')" using assms(1) by (simp add: sinv_def)
    then show ?thesis unfolding w by simp
  next
    assume n: "(t, i) \<in> set (notified s) \<and> s' = s\<lparr>notified := remove1 (t, i) (notified s)\<rparr>"
    then have i: "i \<notin> set (tasks s)" using d(3) by force
    have w: "waiting s' = tasks s @ map snd (remove1 (t, i) (notified s))" using n by simp
    note rm = remove1_snd [OF d(2), of "(t, i)"]
    have "set (waiting s') = set (waiting s) - {i}" using n rm(2) i unfolding w waiting_def set_append by auto
    moreover have "distinct (waiting s')" using n rm d(1,3) unfolding w by (simp only: distinct_append) blast
    ultimately show ?thesis ..
  qed
  have "held s' j" if "j \<in> set (activeConnections s) - {i}" for j
  proof -
    have "held s j" using that assms(1) by (simp add: sinv_def)
    moreover have "j \<in> set (waiting s') \<longleftrightarrow> j \<in> set (waiting s)" using q that by simp
    ultimately show ?thesis using that assms(2) by (auto simp: held_def dest: notin_set_remove1 set_remove1_subset [THEN subsetD])
  qed
  moreover define d :: nat where "d = (if appState c = APP_INIT then 0 else 1)"
  have "d = (if busy s i then 1 else 0)" using c by (auto simp: busy_def pending_def d_def)
  then have "counted (card {j \<in> set (activeConnections s') - {i}. busy s' j} + d) s'"
    using assms(1) same busy_count_insert [OF finite_set i(1), of s s] by (simp add: sinv_def counted_def)
  moreover have "lists_ok s'" "set (waiting s) \<subseteq> set (activeConnections s)"
    using assms(1) same by (auto simp: sinv_def)
  ultimately have "sinv {i} d s'" using i(1) q by (simp only: sinv_def same(3)) auto
  with c same show ?thesis by (auto simp: d_def)
qed

lemma onConn_eq:
  "connections s i = Some c \<Longrightarrow> m c = (r, c') \<Longrightarrow>
    onConn i m s = (r, s\<lparr>connections := (connections s)(i \<mapsto> c')\<rparr>)"
  by (simp add: onConn_def)

lemma close_ok:
  assumes "sinv {i} 0 s" and "connections s i = Some c" and "buffers_ok c"
  shows "\<exists>s'. close_connection env i s = (Inr (), s') \<and> sinv {} 0 s' \<and> managerStarted s' = managerStarted s
    \<and> (if stack_full s then connections s' i = None else i \<in> set (connectionStack s')
         \<and> (\<exists>c'. connections s' i = Some c' \<and> buffers_ok c' \<and> \<not> eventAdded c'))"
proof -
  have i: "i \<in> set (activeConnections s)" "i \<notin> set (connectionStack s)" "i \<notin> set (waiting s)"
    using assms(1) by (auto simp: sinv_def lists_ok_def)
  define k where "k = snd (socket_close (system_calls env) (tSocket c))"
  have k: "socket_close (system_calls env) (tSocket c) = (Inr (), k)" "recvTimeout k = recvTimeout (tSocket c)"
    by (simp_all add: k_def socket_close_def)
  define c1 where "c1 = c\<lparr>eventAdded := False, ioThread := None, tSocket := k\<rparr>"
  have ok: "buffers_ok c1" "\<not> eventAdded c1" using assms(3) k(2) by (simp_all add: buffers_ok_def c1_def)
  define rest where "rest = removeAll i (activeConnections s)"
  define s1 where "s1 = s\<lparr>connections := (connections s)(i \<mapsto> c1)\<rparr>"
  have start: "close_connection env i s = returnConnection i s1"
    using assms(2) k(1) by (simp add: close_connection_def onConn_def onSocket_def monad_simps s1_def c1_def)
  have inv: "sinv {i} 0 s1" unfolding s1_def by (rule sinv_put) fact
  have acts: "activeConnections s1 = activeConnections s" "connectionStack s1 = connectionStack s"
    "connections s1 i = Some c1" "tasks s1 = tasks s" "notified s1 = notified s"
    "managerStarted s1 = managerStarted s" "stack_full s1 = stack_full s"
    by (simp_all add: s1_def stack_full_def)
  have len: "length (activeConnections s) = Suc (length rest)"
    using i(1) inv length_pos_if_in_set [OF i(1)]
    by (simp add: rest_def sinv_def lists_ok_def acts distinct_remove1_removeAll [symmetric] length_remove1)
  have set_rest: "set rest = set (activeConnections s) - {i}" by (simp add: rest_def)
  have fin: "sinv {} 0 s'"
    if "activeConnections s' = rest" "tasks s' = tasks s1" "notified s' = notified s1"
      "\<And>j. j \<in> set rest \<Longrightarrow> connections s' j = connections s1 j" "lists_ok s'"
      "numActiveProcessors s' = numActiveProcessors s1" "managerStarted s' = managerStarted s1"
    for s' :: "('a, 'b) TNonblockingServer"
  proof -
    have "held s' j = held s1 j" "busy s' j = busy s1 j" if "j \<in> set rest" for j
      using that \<open>\<And>j. j \<in> set rest \<Longrightarrow> connections s' j = connections s1 j\<close> [OF that]
        \<open>tasks s' = tasks s1\<close> \<open>notified s' = notified s1\<close> by (simp_all add: held_def busy_def waiting_def)
    then have "{j \<in> set rest. busy s' j} = {j \<in> set rest. busy s1 j}" "\<forall>j\<in>set rest. held s' j"
      using inv by (auto simp: sinv_def acts set_rest)
    moreover have "waiting s' = waiting s1" using that by (simp add: waiting_def)
    ultimately show ?thesis using that inv by (auto simp: sinv_def counted_def acts set_rest)
  qed
  show ?thesis
  proof (cases "stack_full s1")
    case True
    let ?s' = "s1\<lparr>activeConnections := rest, connections := (connections s1)(i := None),
      numTConnections := numTConnections s1 - 1\<rparr>"
    have "lists_ok ?s'" using inv len i(2) by (auto simp: sinv_def lists_ok_def acts rest_def distinct_removeAll)
    then have "sinv {} 0 ?s'" by (intro fin) (auto simp: set_rest)
    moreover have "close_connection env i s = (Inr (), ?s')"
      using True by (simp add: start returnConnection_def monad_simps rest_def acts stack_full_def)
    ultimately show ?thesis using True by (intro exI [of _ ?s']) (simp add: acts)
  next
    case False
    obtain c2 where c2: "checkIdleBufferMemLimit (writeBufferDefaultSize s1) (idleReadBufferLimit s1)
        (idleWriteBufferLimit s1) c1 = (Inr (), c2)" "buffers_ok c2" "\<not> eventAdded c2"
      using checkIdle_ok [OF ok(1)] ok(2) by metis
    let ?s' = "s1\<lparr>activeConnections := rest, connections := (connections s1)(i \<mapsto> c2),
      connectionStack := i # connectionStack s1\<rparr>"
    have "lists_ok ?s'" using inv len i c2(2,3)
      by (auto simp: sinv_def lists_ok_def acts rest_def distinct_removeAll)
    then have "sinv {} 0 ?s'" by (intro fin) (auto simp: set_rest)
    moreover have "close_connection env i s = (Inr (), ?s')"
      using False c2(1) acts(3)
      by (auto simp: start returnConnection_def monad_simps rest_def acts onConn_def stack_full_def)
    ultimately show ?thesis using False c2(2,3) by (intro exI [of _ ?s']) (simp add: acts)
  qed
qed

section \<open>Transitions\<close>

text \<open>
  What the server relies on in a processor: it leaves a well-formed output buffer and fails, if at
  all, by throwing.
\<close>

definition sound_process :: "('k, 'h) environment \<Rightarrow> bool" where
  "sound_process env \<longleftrightarrow> (\<forall>h inp out r h' inp' out'. memory_inv out \<longrightarrow> owner out
     \<longrightarrow> process env (h, inp, out) = (r, (h', inp', out'))
     \<longrightarrow> memory_inv out' \<and> owner out' \<and> (\<forall>e. r = Inl e \<longrightarrow> is_thrown e))"

lemma onConn_hand:
  assumes "sinv {i} d s" and "connections s i = Some c" and "m c = (Inr a, c')"
  shows "\<exists>s'. onConn i m s = (Inr a, s') \<and> sinv {i} d s' \<and> connections s' i = Some c'
    \<and> threadPoolProcessing s' = threadPoolProcessing s \<and> maxFrameSize s' = maxFrameSize s
    \<and> managerStarted s' = managerStarted s \<and> stack_full s' = stack_full s"
  using sinv_put [OF assms(1), of c'] onConn_eq [of s i c m, OF assms(2,3)] by (auto simp: stack_full_def)

text \<open>An idle connection may be changed as long as its buffers stay in order.\<close>

lemma sinv_put_idle:
  assumes "sinv {} 0 s" and "i \<in> set (connectionStack s)" and "buffers_ok c" and "\<not> eventAdded c"
  shows "sinv {} 0 (s\<lparr>connections := (connections s)(i \<mapsto> c)\<rparr>)"
proof -
  let ?s = "s\<lparr>connections := (connections s)(i \<mapsto> c)\<rparr>"
  have "i \<notin> set (activeConnections s)" "i \<in> dom (connections s)" using assms(1,2) by (auto simp: sinv_def lists_ok_def)
  then have same: "connections ?s j = connections s j" if "j \<in> set (activeConnections s)" for j using that by auto
  have "lists_ok ?s" using assms \<open>i \<in> dom (connections s)\<close> by (auto simp: sinv_def lists_ok_def)
  moreover have "held ?s j = held s j" "busy ?s j = busy s j" if "j \<in> set (activeConnections s)" for j
    using same [OF that] by (simp_all only: held_def busy_def waiting_update TNonblockingServer.simps TNonblockingServer.update_convs TNonblockingServer.select_convs)
      (simp_all add: waiting_def)
  then have "{j \<in> set (activeConnections s). busy ?s j} = {j \<in> set (activeConnections s). busy s j}"
    "\<forall>j\<in>set (activeConnections s). held ?s j" using assms(1) by (auto simp: sinv_def)
  ultimately show ?thesis using assms(1) by (simp add: sinv_def)
qed

text \<open>A connection in hand that has reached a resting state is released.\<close>

lemma onConn_release:
  assumes "sinv {i} 0 s" and "connections s i = Some c" and "m c = (Inr (), c')" and "conn_ok c'" and "\<not> pending c'"
  shows "\<exists>s'. onConn i m s = (Inr (), s') \<and> sinv {} 0 s'"
  using onConn_hand [of i 0 s c m, OF assms(1-3)] sinv_release [OF _ _ assms(4,5)] by blast

lemma app_wait_task_ok:
  assumes "sinv {i} 1 s" and "connections s i = Some c" and "open_ok c"
  shows "\<exists>s'. app_wait_task i s = (Inr (), s') \<and> sinv {} 0 s'"
proof -
  obtain s1 where s1: "decrementActiveProcessors s = (Inr (), s1)" "sinv {i} 0 s1" "connections s1 = connections s"
    using sinv_decrement [of "{i}" 0 s] assms(1) by auto
  obtain c' where c': "fetch_result c = (Inr (), c')" "conn_ok c'" "\<not> pending c'"
    using fetch_result_ok [OF assms(3)] by (auto simp: pending_def split: if_splits)
  with onConn_release [OF s1(2), of c fetch_result c'] s1 assms(2) show ?thesis
    by (simp add: app_wait_task_def bindM_def)
qed

lemma close_after_decrement:
  assumes "sinv {i} 1 s" and "connections s i = Some c" and "buffers_ok c"
  shows "\<exists>s1 s'. decrementActiveProcessors s = (Inr (), s1) \<and> close_connection env i s1 = (Inr (), s') \<and> sinv {} 0 s'"
proof -
  obtain s1 where s1: "decrementActiveProcessors s = (Inr (), s1)" "sinv {i} 0 s1" "connections s1 = connections s"
    using sinv_decrement [of "{i}" 0 s] assms(1) by auto
  with close_ok [OF s1(2), of c env] assms(2,3) show ?thesis by auto
qed

text \<open>
  A task that the thread manager refuses: the connection is closed, but stays counted; if the stack
  of idle connections is full, \<open>close\<close> has freed the connection that is then set idle.
\<close>

lemma refused_ok:
  assumes "sinv {i} 1 s" and "\<not> managerStarted s" and "connections s i = Some c" and "open_ok c"
  shows "\<exists>r s'. bindM (catchM (\<lambda>e. e = TException) (addTask i) (\<lambda>e. close_connection env i)) (\<lambda>_. onConn i setIdle) s = (r, s')
    \<and> (if stack_full s then r = Inl UndefinedBehaviour else r = Inr () \<and> sinv {} 0 s')"
proof -
  have "sinv {i} 0 s" using sinv_uncounted [of "{i}" 0 s] assms(1,2) by simp
  from close_ok [OF this assms(3), of env] assms(4) obtain s1 where
    s1: "close_connection env i s = (Inr (), s1)" "sinv {} 0 s1"
      "if stack_full s then connections s1 i = None else i \<in> set (connectionStack s1)
         \<and> (\<exists>c'. connections s1 i = Some c' \<and> buffers_ok c' \<and> \<not> eventAdded c')"
    by (auto simp: open_ok_def)
  have run: "bindM (catchM (\<lambda>e. e = TException) (addTask i) (\<lambda>e. close_connection env i)) (\<lambda>_. onConn i setIdle) s
      = onConn i setIdle s1"
    using assms(2) s1(1) by (simp add: bindM_def catchM_def addTask_def)
  show ?thesis
  proof (cases "stack_full s")
    case True
    with s1(3) show ?thesis unfolding run by (simp add: onConn_def)
  next
    case False
    then obtain c' where c': "i \<in> set (connectionStack s1)" "connections s1 i = Some c'" "buffers_ok c'" "\<not> eventAdded c'"
      using s1(3) by auto
    define d where "d = snd (setIdle c')"
    have d: "setIdle c' = (Inr (), d)" "buffers_ok d" "\<not> eventAdded d"
      using c'(3,4) by (auto simp: d_def setIdle_def setFlags_def buffers_ok_def Let_def)
    show ?thesis unfolding run
      using False onConn_eq [of s1 i c' setIdle, OF c'(2) d(1)] sinv_put_idle [OF s1(2) c'(1) d(2,3)] by simp
  qed
qed

lemma run_process_ok:
  assumes "sound_process env" and "sinv {i} d s" and "connections s i = Some c" and "open_ok c"
  shows "\<exists>r s' inp out. run_process env i s = (r, s') \<and> sinv {i} d s'
    \<and> connections s' i = Some (c\<lparr>inputTransport := inp, outputTransport := out\<rparr>)
    \<and> open_ok (c\<lparr>inputTransport := inp, outputTransport := out\<rparr>) \<and> (\<forall>e. r = Inl e \<longrightarrow> is_thrown e)"
proof -
  obtain r h inp out where p: "process env (handler s, inputTransport c, outputTransport c) = (r, (h, inp, out))"
    by (metis prod_cases4)
  have o: "memory_inv out" "owner out" "\<forall>e. r = Inl e \<longrightarrow> is_thrown e"
    using assms(1,4) p unfolding sound_process_def open_ok_def buffers_ok_def by blast+
  let ?c = "c\<lparr>inputTransport := inp, outputTransport := out\<rparr>"
  have "open_ok ?c" using assms(4) o by (simp add: open_ok_def buffers_ok_def)
  moreover have "sinv {i} d ((s\<lparr>connections := (connections s)(i \<mapsto> ?c)\<rparr>)\<lparr>handler := h\<rparr>)"
    using sinv_put [OF assms(2), of ?c] by simp
  moreover have "run_process env i s = (r, (s\<lparr>connections := (connections s)(i \<mapsto> ?c)\<rparr>)\<lparr>handler := h\<rparr>)"
    using assms(3) p by (simp add: run_process_def)
  ultimately show ?thesis using o(3)
    by (intro exI [of _ r] exI [of _ "(s\<lparr>connections := (connections s)(i \<mapsto> ?c)\<rparr>)\<lparr>handler := h\<rparr>"] exI [of _ inp] exI [of _ out])
      simp
qed

text \<open>The state in which a complete request ends in undefined behaviour.\<close>

definition refused :: "('k, 'h) TNonblockingServer \<Rightarrow> bool" where
  "refused s \<longleftrightarrow> threadPoolProcessing s \<and> \<not> managerStarted s \<and> stack_full s"

lemma app_read_request_ok:
  assumes "sound_process env" and "sinv {i} 0 s" and "connections s i = Some c" and "open_ok c"
    and "readBufferPos c \<le> readBufferSize c"
  shows "\<exists>r s'. app_read_request env i s = (r, s') \<and> (if refused s then r = Inl UndefinedBehaviour else r = Inr () \<and> sinv {} 0 s')"
proof -
  obtain inp out where p: "prepare_request c = (Inr (), c\<lparr>inputTransport := inp, outputTransport := out\<rparr>)"
    "memory_inv out" "owner out"
    using prepare_request_ok [OF assms(4,5)] by blast
  define c1 where "c1 = c\<lparr>inputTransport := inp, outputTransport := out\<rparr>"
  have o1: "open_ok c1" using assms(4) p(2,3) by (simp add: c1_def open_ok_def buffers_ok_def)
  obtain s1 where s1: "onConn i prepare_request s = (Inr (), s1)" "sinv {i} 0 s1" "connections s1 i = Some c1"
    "threadPoolProcessing s1 = threadPoolProcessing s" "managerStarted s1 = managerStarted s" "stack_full s1 = stack_full s"
    using onConn_hand [of i 0 s c prepare_request, OF assms(2,3) p(1)] by (auto simp: c1_def)
  obtain s2 where s2: "incrementActiveProcessors s1 = (Inr (), s2)" "sinv {i} 1 s2" "connections s2 i = Some c1"
    "refused s2 = refused s" "managerStarted s2 = managerStarted s" "threadPoolProcessing s2 = threadPoolProcessing s"
    using sinv_increment [OF s1(2)] s1(3-6) by (auto simp: refused_def)
  have start: "app_read_request env i s = (if threadPoolProcessing s2
     then bindM (onConn i (modifyM (\<lambda>c. c\<lparr>appState := APP_WAIT_TASK\<rparr>))) (\<lambda>_.
          bindM (catchM (\<lambda>e. e = TException) (addTask i) (\<lambda>e. close_connection env i)) (\<lambda>_.
          onConn i setIdle)) s2
     else bindM (catchM is_thrown (bindM (run_process env i) (\<lambda>_. returnM True)) (\<lambda>e.
            bindM decrementActiveProcessors (\<lambda>_.
            bindM (close_connection env i) (\<lambda>_. returnM False)))) (\<lambda>processed.
          if processed then app_wait_task i else returnM ()) s2)"
    using s1(1) s2(1) by (simp add: app_read_request_def bindM_def getM_def)
  show ?thesis
  proof (cases "threadPoolProcessing s2")
    case True
    define c2 where "c2 = c1\<lparr>appState := APP_WAIT_TASK\<rparr>"
    define c3 where "c3 = c2\<lparr>eventFlags := {}, eventAdded := False\<rparr>"
    have idle: "setIdle c2 = (Inr (), c3)"
      using o1 setFlags_eq [of c2 "{}"] by (simp add: setIdle_def c2_def c3_def open_ok_def)
    have c3: "conn_ok c3" "pending c3" "appState c3 = APP_WAIT_TASK"
      using o1 by (simp_all add: c3_def c2_def conn_ok_def open_ok_def buffers_ok_def pending_def)
    have wait: "onConn i (modifyM (\<lambda>c. c\<lparr>appState := APP_WAIT_TASK\<rparr>)) s2
        = (Inr (), s2\<lparr>connections := (connections s2)(i \<mapsto> c2)\<rparr>)"
      using s2(3) by (simp add: onConn_def modifyM_def c2_def)
    show ?thesis
    proof (cases "managerStarted s2")
      case started: True
      let ?t = "s2\<lparr>connections := (connections s2)(i \<mapsto> c3)\<rparr>"
      let ?s' = "?t\<lparr>tasks := tasks ?t @ [i]\<rparr>"
      have "app_read_request env i s = (Inr (), ?s')"
        using True started s2(3) idle wait by (simp add: start bindM_def onConn_def catchM_def addTask_def)
      moreover have "sinv {i} 1 ?t" by (rule sinv_put) fact
      then have "sinv {} 0 ?s'"
        by (rule sinv_queue [where c = c3]) (use c3 in simp_all)
      moreover have "\<not> refused s" using started s2(5) by (simp add: refused_def)
      ultimately show ?thesis by simp
    next
      case stopped: False
      let ?t = "s2\<lparr>connections := (connections s2)(i \<mapsto> c2)\<rparr>"
      have "sinv {i} 1 ?t" by (rule sinv_put) fact
      moreover have "open_ok c2" using o1 by (simp add: c2_def open_ok_def buffers_ok_def)
      ultimately have "\<exists>r s'. bindM (catchM (\<lambda>e. e = TException) (addTask i) (\<lambda>e. close_connection env i)) (\<lambda>_. onConn i setIdle) ?t
          = (r, s') \<and> (if stack_full ?t then r = Inl UndefinedBehaviour else r = Inr () \<and> sinv {} 0 s')"
        using stopped by (intro refused_ok) auto
      moreover have "stack_full ?t = refused s" using s2(4) True stopped by (simp add: refused_def stack_full_def)
      moreover have "app_read_request env i s
          = bindM (catchM (\<lambda>e. e = TException) (addTask i) (\<lambda>e. close_connection env i)) (\<lambda>_. onConn i setIdle) ?t"
        using True wait by (simp add: start bindM_def)
      ultimately show ?thesis by simp
    qed
  next
    case False
    obtain r s3 inp' out' where r: "run_process env i s2 = (r, s3)" "sinv {i} 1 s3"
      "connections s3 i = Some (c1\<lparr>inputTransport := inp', outputTransport := out'\<rparr>)"
      "open_ok (c1\<lparr>inputTransport := inp', outputTransport := out'\<rparr>)" "\<forall>e. r = Inl e \<longrightarrow> is_thrown e"
      using run_process_ok [OF assms(1) s2(2,3) o1] by blast
    have nr: "\<not> refused s" using False s2(6) by (simp add: refused_def)
    show ?thesis
    proof (cases r)
      case (Inl e)
      with nr r close_after_decrement [OF r(2,3), of env] False show ?thesis
        by (auto simp: start bindM_def catchM_def returnM_def open_ok_def)
    next
      case (Inr b)
      with nr r app_wait_task_ok [OF r(2,3,4)] False show ?thesis
        by (simp add: start bindM_def catchM_def returnM_def)
    qed
  qed
qed

lemma transition_app:
  assumes "connections s i = Some c" and "ioThread c \<noteq> None"
  shows "transition env i s = (case appState c of
       APP_READ_REQUEST \<Rightarrow> app_read_request env i s
     | APP_WAIT_TASK \<Rightarrow> app_wait_task i s
     | APP_SEND_RESULT \<Rightarrow> onConn i (app_send_result (resizeBufferEveryN s) (writeBufferDefaultSize s)
         (idleReadBufferLimit s) (idleWriteBufferLimit s)) s
     | APP_INIT \<Rightarrow> onConn i app_init s
     | APP_READ_FRAME_SIZE \<Rightarrow> onConn i app_read_frame_size s
     | APP_CLOSE_CONNECTION \<Rightarrow> bindM decrementActiveProcessors (\<lambda>_. close_connection env i) s)"
proof -
  have id: "s\<lparr>connections := (connections s)(i \<mapsto> c)\<rparr> = s" using assms(1) by (cases s) (simp add: fun_upd_idem)
  show ?thesis
    using assms id
    by (cases "appState c") (simp_all add: transition_def bindM_def onConn_eq [OF assms(1)] assertM_def getM_def)
qed

lemma transition_notified_ok:
  assumes "sinv {i} (if appState c = APP_INIT then 0 else 1) s" and "connections s i = Some c" and "conn_ok c"
    and "pending c"
  shows "\<exists>s'. transition env i s = (Inr (), s') \<and> sinv {} 0 s'"
proof -
  have o: "open_ok c" "ioThread c \<noteq> None" "buffers_ok c" using assms(3) by (auto simp: conn_ok_def open_ok_def)
  note t = transition_app [OF assms(2) o(2), of env]
  consider "appState c = APP_INIT" | "appState c = APP_WAIT_TASK" | "appState c = APP_CLOSE_CONNECTION"
    using assms(4) by (auto simp: pending_def)
  then show ?thesis
  proof cases
    case 1
    obtain c' where "app_init c = (Inr (), c')" "conn_ok c'" "\<not> pending c'"
      using app_init_ok [OF o(1)] by (auto simp: pending_def)
    with onConn_release [of i s c app_init c'] assms(1,2) 1 t show ?thesis by simp
  next
    case 2
    with app_wait_task_ok [OF _ assms(2) o(1)] assms(1) t show ?thesis by simp
  next
    case 3
    with close_after_decrement [OF _ assms(2) o(3), of env] assms(1) t show ?thesis
      by (auto simp: bindM_def)
  qed
qed

section \<open>Events, tasks and notifications\<close>

text \<open>The case of \<open>workSocket\<close> for the state of the connection.\<close>

definition work_connection :: "'k syscalls \<Rightarrow> nat \<Rightarrow> 'k TConnection \<Rightarrow> ('k TConnection, next_action) M" where
  "work_connection sys maxFrame c = (case socketState c of
      SOCKET_RECV_FRAMING \<Rightarrow> work_framing sys maxFrame
    | SOCKET_RECV \<Rightarrow> work_recv sys
    | SOCKET_SEND \<Rightarrow> work_send sys)"

lemma workSocket_unfold:
  assumes "connections s i = Some c"
  shows "workSocket env i s = bindM (onConn i (work_connection (system_calls env) (maxFrameSize s) c)) (\<lambda>act. case act of
       STOP \<Rightarrow> returnM () | CLOSE \<Rightarrow> close_connection env i | TRANSITION \<Rightarrow> transition env i) s"
proof -
  have "s\<lparr>connections := (connections s)(i \<mapsto> c)\<rparr> = s" using assms by (cases s) (simp add: fun_upd_idem)
  then show ?thesis
    by (cases "socketState c")
      (simp_all add: workSocket_def work_connection_def bindM_def getM_def onConn_eq [OF assms])
qed

lemma workSocket_ok:
  assumes "bounded_transfers (system_calls env)" and "sound_process env" and "sinv {} 0 s"
    and "i \<in> set (activeConnections s)" and "connections s i = Some c" and "eventAdded c"
    and "\<not> (appState c = APP_READ_REQUEST \<and> readWant c = 0)"
  shows "\<exists>r s'. workSocket env i s = (r, s') \<and> (r = Inr () \<and> sinv {} 0 s'
    \<or> r = Inl UndefinedBehaviour \<and> refused s \<and> appState c = APP_READ_REQUEST)"
proof -
  let ?sys = "system_calls env"
  define work where "work = work_connection ?sys (maxFrameSize s) c"
  have ok: "conn_ok c" using assms(3-5) by (auto simp: sinv_def held_def)
  then have np: "\<not> pending c" using assms(6) by (auto simp: conn_ok_def open_ok_def pending_def)
  note hand = sinv_take [OF assms(3-5) np]
  have max: "maxFrameSize s \<le> 2 ^ 31" using assms(3) by (simp add: sinv_def lists_ok_def)
  note go = workSocket_unfold [OF assms(5), of env, folded work_def]
  have fin: ?thesis
    if w: "work c = (Inr act, c')" "open_ok c'" "act = STOP \<longrightarrow> conn_ok c' \<and> \<not> pending c'"
      and tr: "act = TRANSITION \<longrightarrow>
        appState c' = APP_READ_FRAME_SIZE \<and> eventFlags c' = {EV_READ, EV_PERSIST} \<and> unat (readWant c') \<le> 2 ^ 31
        \<or> appState c' = APP_READ_REQUEST \<and> appState c = APP_READ_REQUEST \<and> readBufferPos c' \<le> readBufferSize c'
        \<or> appState c' = APP_SEND_RESULT" for act c'
  proof -
    obtain s1 where s1: "onConn i work s = (Inr act, s1)" "sinv {i} 0 s1" "connections s1 i = Some c'" "refused s1 = refused s"
      using onConn_hand [of i 0 s c work, OF hand assms(5) w(1)] unfolding refused_def by metis
    have io: "ioThread c' \<noteq> None" using w(2) by (simp add: open_ok_def)
    show ?thesis
    proof (cases act)
      case STOP
      with s1 w(3) sinv_release [OF s1(2,3)] show ?thesis by (simp add: go bindM_def returnM_def)
    next
      case CLOSE
      with s1 w(2) close_ok [OF s1(2,3), of env] show ?thesis by (auto simp: go bindM_def open_ok_def)
    next
      case TRANSITION
      note t = transition_app [OF s1(3) io, of env]
      have res: "\<exists>r s'. transition env i s1 = (r, s') \<and> (r = Inr () \<and> sinv {} 0 s'
        \<or> r = Inl UndefinedBehaviour \<and> refused s \<and> appState c = APP_READ_REQUEST)"
      proof -
        consider (frame) "appState c' = APP_READ_FRAME_SIZE" "eventFlags c' = {EV_READ, EV_PERSIST}" "unat (readWant c') \<le> 2 ^ 31"
          | (request) "appState c' = APP_READ_REQUEST" "appState c = APP_READ_REQUEST" "readBufferPos c' \<le> readBufferSize c'"
          | (sent) "appState c' = APP_SEND_RESULT" using tr TRANSITION by blast
        then show ?thesis
        proof cases
          case frame
          obtain c'' where "app_read_frame_size c' = (Inr (), c'')" "conn_ok c''" "\<not> pending c''"
            using app_read_frame_size_ok [OF w(2) frame(2,3)] by (auto simp: pending_def)
          with onConn_release [of i s1 c' app_read_frame_size c''] s1 t frame(1) show ?thesis by auto
        next
          case request
          with app_read_request_ok [OF assms(2) s1(2,3) w(2)] t s1(4) show ?thesis by (auto split: if_splits)
        next
          case sent
          let ?m = "app_send_result (resizeBufferEveryN s1) (writeBufferDefaultSize s1) (idleReadBufferLimit s1) (idleWriteBufferLimit s1)"
          obtain c'' where "?m c' = (Inr (), c'')" "conn_ok c''" "\<not> pending c''"
            using app_send_result_ok [OF w(2)] by (fastforce simp: pending_def)
          with onConn_release [of i s1 c' ?m c''] s1 t sent show ?thesis by auto
        qed
      qed
      with TRANSITION s1(1) show ?thesis by (simp add: go bindM_def)
    qed
  qed
  consider "appState c = APP_READ_FRAME_SIZE" "socketState c = SOCKET_RECV_FRAMING"
    | "appState c = APP_READ_REQUEST" "socketState c = SOCKET_RECV" "readWant c \<noteq> 0"
    | "appState c = APP_SEND_RESULT" "socketState c = SOCKET_SEND"
    using ok np assms(7) by (cases "appState c") (auto simp: conn_ok_def pending_def)
  then show ?thesis
  proof cases
    case 1
    obtain act c' where w: "work_framing ?sys (maxFrameSize s) c = (Inr act, c')" "open_ok c'"
      "act = STOP \<longrightarrow> conn_ok c' \<and> appState c' = APP_READ_FRAME_SIZE"
      "act = TRANSITION \<longrightarrow> eventFlags c' = {EV_READ, EV_PERSIST} \<and> appState c' = APP_READ_FRAME_SIZE
         \<and> unat (readWant c') \<le> maxFrameSize s"
      using work_framing_ok [OF assms(1) ok 1(1), of "maxFrameSize s"] by auto
    have "work c = (Inr act, c')" using w(1) 1(2) by (simp add: work_def work_connection_def)
    then show ?thesis
    proof (rule fin [OF _ w(2)])
      show "act = STOP \<longrightarrow> conn_ok c' \<and> \<not> pending c'" using w(3) by (simp add: pending_def)
      show "act = TRANSITION \<longrightarrow>
        appState c' = APP_READ_FRAME_SIZE \<and> eventFlags c' = {EV_READ, EV_PERSIST} \<and> unat (readWant c') \<le> 2 ^ 31
        \<or> appState c' = APP_READ_REQUEST \<and> appState c = APP_READ_REQUEST \<and> readBufferPos c' \<le> readBufferSize c'
        \<or> appState c' = APP_SEND_RESULT"
        using w(4) order_trans [OF _ max] by blast
    qed
  next
    case 2
    obtain act c' where w: "work_recv ?sys c = (Inr act, c')" "open_ok c'"
      "act = STOP \<longrightarrow> conn_ok c' \<and> appState c' = APP_READ_REQUEST"
      "act = TRANSITION \<longrightarrow> appState c' = APP_READ_REQUEST \<and> readBufferPos c' \<le> readBufferSize c'"
      using work_recv_ok [OF assms(1) ok 2(1,3)] by blast
    show ?thesis by (rule fin [of act c']) (use w 2(1,2) in \<open>auto simp: work_def work_connection_def pending_def\<close>)
  next
    case 3
    obtain act c' where w: "work_send ?sys c = (Inr act, c')" "open_ok c'" "appState c' = APP_SEND_RESULT"
      "act = STOP \<longrightarrow> conn_ok c'"
      using work_send_ok [OF assms(1) ok 3(1)] by blast
    show ?thesis by (rule fin [of act c']) (use w 3(2) in \<open>auto simp: work_def work_connection_def pending_def\<close>)
  qed
qed

lemma next_notification_ok:
  assumes "sinv {} 0 s"
  shows "\<exists>s'. next_notification env t s = (Inr (), s') \<and> sinv {} 0 s'"
proof (cases "find (\<lambda>p. fst p = t) (notified s)")
  case None
  with assms show ?thesis by (simp add: next_notification_def)
next
  case (Some p)
  then obtain i where p: "p = (t, i)" "(t, i) \<in> set (notified s)" using find_fst [of t "notified s" p] by blast
  let ?s = "s\<lparr>notified := remove1 (t, i) (notified s)\<rparr>"
  obtain c where "connections ?s i = Some c" "conn_ok c" "pending c" "sinv {i} (if appState c = APP_INIT then 0 else 1) ?s"
    using sinv_unqueue [OF assms, of i _ ?s t] p(2) by auto
  with transition_notified_ok [of i c ?s env] Some p(1) show ?thesis by (simp add: next_notification_def)
qed

lemma notifyHandler_ok:
  "sinv {} 0 s \<Longrightarrow> notifyHandler env t rs s = (Inr (), s') \<Longrightarrow> sinv {} 0 s'"
proof (induction rs arbitrary: s)
  case Nil
  then show ?case by (simp add: returnM_def)
next
  case (Cons r rs)
  obtain s1 where "next_notification env t s = (Inr (), s1)" "sinv {} 0 s1"
    using next_notification_ok [OF Cons.prems(1)] by blast
  with Cons show ?case by (cases r) (auto simp: bindM_def returnM_def throwM_def)
qed

text \<open>A connection in hand is put into the pipe of its thread.\<close>

lemma notifyIOThread_ok:
  assumes "sinv {i} (if appState c = APP_INIT then 0 else 1) s" and "connections s i = Some c" and "conn_ok c" and "pending c"
  shows "\<exists>s'. notifyIOThread i s = (Inr (), s') \<and> sinv {} 0 s'"
proof -
  obtain t where t: "ioThread c = Some t" using assms(3) by (auto simp: conn_ok_def open_ok_def)
  have id: "s\<lparr>connections := (connections s)(i \<mapsto> c)\<rparr> = s" using assms(2) by (cases s) (simp add: fun_upd_idem)
  have "notifyIOThread i s = (Inr (), s\<lparr>notified := notified s @ [(t, i)]\<rparr>)"
    using assms(2) t id by (simp add: notifyIOThread_def bindM_def onConn_def getM_def modifyM_def)
  moreover have "sinv {} 0 (s\<lparr>notified := notified s @ [(t, i)]\<rparr>)"
    by (rule sinv_queue [OF assms, of _ t]) (use t in simp_all)
  ultimately show ?thesis by blast
qed

lemma forceClose_ok:
  assumes "sinv {i} 1 s" and "connections s i = Some c" and "conn_ok c" and "appState c = APP_WAIT_TASK"
  shows "\<exists>s'. expireClose i s = (Inr (), s') \<and> forceClose i s = (Inr (), s') \<and> sinv {} 0 s'"
proof -
  let ?c = "c\<lparr>appState := APP_CLOSE_CONNECTION\<rparr>"
  let ?t = "s\<lparr>connections := (connections s)(i \<mapsto> ?c)\<rparr>"
  have "conn_ok ?c" using assms(3,4) by (simp add: conn_ok_def open_ok_def buffers_ok_def)
  moreover have "sinv {i} 1 ?t" by (rule sinv_put) fact
  ultimately obtain s' where "notifyIOThread i ?t = (Inr (), s')" "sinv {} 0 s'"
    using notifyIOThread_ok [of i ?c ?t] by (auto simp: pending_def)
  moreover have "s\<lparr>connections := (connections s)(i \<mapsto> c)\<rparr> = s" using assms(2) by (cases s) (simp add: fun_upd_idem)
  ultimately show ?thesis using assms(2,4)
    by (simp add: expireClose_def forceClose_def bindM_def onConn_def assertM_def modifyM_def)
qed

lemma drain_ok:
  assumes "sinv {} 0 s" and "threadPoolProcessing s \<longrightarrow> managerStarted s"
  shows "\<exists>b s'. drainPendingTask s = (Inr b, s') \<and> sinv {} 0 s'"
proof (cases "tasks s")
  case Nil
  with assms show ?thesis by (auto simp: drainPendingTask_def)
next
  case (Cons i rest)
  let ?s = "s\<lparr>tasks := rest\<rparr>"
  obtain c where c: "connections ?s i = Some c" "conn_ok c" "appState c = APP_WAIT_TASK" "sinv {i} 1 ?s"
    using sinv_unqueue [OF assms(1), of i rest ?s 0] Cons by auto
  obtain s' where s': "expireClose i ?s = (Inr (), s')" "sinv {} 0 s'"
    using forceClose_ok [OF c(4,1,2,3)] by blast
  have "drainPendingTask s = bindM (expireClose i) (\<lambda>_. returnM True) ?s"
    using Cons assms(2) by (auto simp: drainPendingTask_def expireClose_def bindM_assoc)
  with s' show ?thesis by (auto simp: bindM_def returnM_def)
qed

text \<open>A worker thread has the connection of its task in hand.\<close>

definition task_hand :: "nat \<Rightarrow> ('k, 'h) TNonblockingServer \<Rightarrow> bool" where
  "task_hand i s \<longleftrightarrow> sinv {i} 1 s \<and> (\<exists>c. connections s i = Some c \<and> conn_ok c \<and> appState c = APP_WAIT_TASK)"

lemma task_body_ok:
  assumes "sound_process env" and "task_hand i s" and "task_body env i s = (r, s')"
  shows "task_hand i s' \<and> (\<forall>e. r = Inl e \<longrightarrow> is_thrown e)"
proof -
  obtain c where c: "sinv {i} 1 s" "connections s i = Some c" "conn_ok c" "appState c = APP_WAIT_TASK"
    using assms(2) by (auto simp: task_hand_def)
  have "open_ok c" using c(3) by (simp add: conn_ok_def)
  from run_process_ok [OF assms(1) c(1,2) this] obtain r1 s1 inp out where
    r: "run_process env i s = (r1, s1)" "sinv {i} 1 s1"
    "connections s1 i = Some (c\<lparr>inputTransport := inp, outputTransport := out\<rparr>)"
    "open_ok (c\<lparr>inputTransport := inp, outputTransport := out\<rparr>)" "\<forall>e. r1 = Inl e \<longrightarrow> is_thrown e"
    by blast
  have "conn_ok (c\<lparr>inputTransport := inp, outputTransport := out\<rparr>)" using r(4) c(3,4) by (simp add: conn_ok_def)
  then have h: "task_hand i s1" using r(2,3) c(4) by (simp add: task_hand_def)
  have id: "s1\<lparr>connections := (connections s1)(i \<mapsto> c\<lparr>inputTransport := inp, outputTransport := out\<rparr>)\<rparr> = s1"
    using r(3) by (cases s1) (simp add: fun_upd_idem)
  show ?thesis
    using assms(3) r(1,3,5) h id
    by (cases r1) (auto simp: task_body_def bindM_def returnM_def onConn_def onInput_def liftM_def memory_peek_def
        getM_def split: if_splits)
qed

lemma run_task_ok:
  assumes "sound_process env" and "task_hand i s"
  shows "case run_task env i s of (Inr _, s') \<Rightarrow> sinv {} 0 s' | (Inl e, s') \<Rightarrow> e \<in> {NonTermination, BadAlloc}"
proof (cases "task_loop env i s")
  case None
  then show ?thesis by (simp add: run_task_def)
next
  case (Some x)
  let ?P = "\<lambda>(r, t). task_hand i t \<and> (\<forall>e. r = Inl e \<longrightarrow> is_thrown e)"
  have "?P x"
    by (rule while_option_rule [where P = ?P, OF _ Some [unfolded task_loop_def]])
      (use assms(2) task_body_ok [OF assms(1)] in \<open>auto split: prod.splits\<close>)
  moreover obtain r t where x: "x = (r, t)" by (cases x)
  ultimately obtain c where c: "sinv {i} 1 t" "connections t i = Some c" "conn_ok c" "appState c = APP_WAIT_TASK"
    "\<forall>e. r = Inl e \<longrightarrow> is_thrown e" by (auto simp: task_hand_def)
  obtain t' where "notifyIOThread i t = (Inr (), t')" "sinv {} 0 t'"
    using notifyIOThread_ok [of i c t] c(1-4) by (auto simp: pending_def)
  with Some x c(5) show ?thesis
    by (cases r) (auto simp: run_task_def)
qed

section \<open>New connections and the steps of the server\<close>

lemma init_connection_ok:
  assumes "buffers_ok c" and "\<not> eventAdded c"
  shows "\<exists>c'. init_connection sys fd k th c = (Inr (), c') \<and> conn_ok c' \<and> appState c' = APP_INIT
    \<and> ioThread c' = Some th \<and> kernel (tSocket c') = k \<and> socketFD (tSocket c') = Some fd"
  using assms
  by (auto simp: init_connection_def onSocket_def setSocketFD_def socket_close_def monad_simps
      conn_ok_def open_ok_def buffers_ok_def)

lemma newTConnection_ok:
  "conn_ok (newTConnection sys fd k th d) \<and> appState (newTConnection sys fd k th d) = APP_INIT
    \<and> ioThread (newTConnection sys fd k th d) = Some th"
proof -
  have "memory_inv (newTMemoryBuffer (u32 d))" "owner (newTMemoryBuffer (u32 d))"
    using memory_reachable_inv [OF memory_reachable.new, of "u32 d"]
    by (simp_all add: newTMemoryBuffer_def initCommon_def)
  then show ?thesis unfolding newTConnection_def
    by (auto simp: init_connection_def onSocket_def setSocketFD_def newTSocket_def monad_simps
      conn_ok_def open_ok_def buffers_ok_def)
qed

lemma createConnection_ok:
  assumes inv: "sinv {} 0 s" and free: "connections s a = None"
  shows "\<exists>i s' c. createConnection sys fd k a s = (Inr i, s') \<and> sinv {i} 0 s' \<and> connections s' i = Some c
    \<and> conn_ok c \<and> appState c = APP_INIT"
proof -
  let ?th = "nextIOThread s"
  have th: "?th < numIOThreads s" "(?th + 1) mod numIOThreads s < numIOThreads s"
    using inv by (auto simp: sinv_def lists_ok_def intro: mod_less_divisor)
  have mono: "sinv {i} 0 s'"
    if acts: "activeConnections s' = activeConnections s @ [i]" "tasks s' = tasks s" "notified s' = notified s"
      "numActiveProcessors s' = numActiveProcessors s" "lists_ok s'" "i \<notin> set (activeConnections s)"
      and same_manager: "managerStarted s' = managerStarted s"
      and same: "\<And>j. j \<noteq> i \<Longrightarrow> connections s' j = connections s j"
    for s' :: "('a, 'b) TNonblockingServer" and i
  proof -
    have old: "held s' j = held s j" "busy s' j = busy s j" if "j \<in> set (activeConnections s)" for j
    proof -
      have "connections s' j = connections s j" using acts(6) that by (intro same) auto
      then show "held s' j = held s j" "busy s' j = busy s j" using acts by (simp_all add: held_def busy_def waiting_def)
    qed
    have "\<forall>j\<in>set (activeConnections s). held s' j" using inv old(1) by (simp add: sinv_def)
    moreover have "{j \<in> set (activeConnections s') - {i}. busy s' j} = {j \<in> set (activeConnections s). busy s j}"
      using old(2) acts(1,6) by auto
    moreover have "waiting s' = waiting s" "counted n s' = counted n s" for n
      using acts same_manager by (simp_all add: waiting_def counted_def)
    ultimately show ?thesis using inv acts unfolding sinv_def by auto
  qed
  show ?thesis
  proof (cases "connectionStack s")
    case Nil
    let ?c = "newTConnection sys fd k ?th (writeBufferDefaultSize s)"
    let ?s' = "s\<lparr>nextIOThread := (?th + 1) mod numIOThreads s, connections := (connections s)(a \<mapsto> ?c),
      numTConnections := numTConnections s + 1, activeConnections := activeConnections s @ [a]\<rparr>"
    have a: "a \<notin> set (activeConnections s)" using inv free by (auto simp: sinv_def lists_ok_def)
    have "lists_ok ?s'" using inv a Nil th(2) by (auto simp: sinv_def lists_ok_def)
    then have "sinv {a} 0 ?s'" using a by (intro mono) auto
    moreover have "createConnection sys fd k a s = (Inr a, ?s')"
      using th(1) Nil by (simp add: createConnection_def monad_simps)
    ultimately show ?thesis using newTConnection_ok [of sys fd k ?th "writeBufferDefaultSize s"]
      by (intro exI [of _ a] exI [of _ ?s'] exI [of _ ?c]) simp
  next
    case (Cons i rest)
    then obtain c where c: "connections s i = Some c" "buffers_ok c" "\<not> eventAdded c"
      using inv by (auto simp: sinv_def lists_ok_def)
    obtain c' where c': "init_connection sys fd k ?th c = (Inr (), c')" "conn_ok c'" "appState c' = APP_INIT"
      using init_connection_ok [OF c(2,3)] by blast
    let ?s' = "s\<lparr>nextIOThread := (?th + 1) mod numIOThreads s, connectionStack := rest,
      connections := (connections s)(i \<mapsto> c'), activeConnections := activeConnections s @ [i]\<rparr>"
    have i: "i \<notin> set (activeConnections s)" "i \<notin> set rest" using inv Cons by (auto simp: sinv_def lists_ok_def)
    have "lists_ok ?s'" using inv i Cons th(2) unfolding sinv_def lists_ok_def by (auto split: if_splits)
    then have "sinv {i} 0 ?s'" using i by (intro mono) auto
    moreover have "createConnection sys fd k a s = (Inr i, ?s')"
      using th(1) Cons c(1) c'(1) by (simp add: createConnection_def monad_simps onConn_def)
    ultimately show ?thesis using c' by (intro exI [of _ i] exI [of _ ?s'] exI [of _ c']) simp
  qed
qed

lemma accept_ok:
  assumes "sinv {} 0 s" and "connections s a = None"
  shows "\<exists>s'. accept_connection env fd k a s = (Inr (), s') \<and> sinv {} 0 s'"
proof -
  obtain i s1 c where c: "createConnection (system_calls env) fd k a s = (Inr i, s1)" "sinv {i} 0 s1"
    "connections s1 i = Some c" "conn_ok c" "appState c = APP_INIT"
    using createConnection_ok [OF assms] by blast
  have id: "s1\<lparr>connections := (connections s1)(i \<mapsto> c)\<rparr> = s1" using c(3) by (cases s1) (simp add: fun_upd_idem)
  have go: "accept_connection env fd k a s = (if ioThread c = Some 0 then transition env i s1 else notifyIOThread i s1)"
    using c(1) id by (simp add: accept_connection_def bindM_def onConn_eq [OF c(3)] getM_def)
  obtain s' where "notifyIOThread i s1 = (Inr (), s')" "sinv {} 0 s'"
    using notifyIOThread_ok [of i c s1] c(2-5) by (auto simp: pending_def)
  with go transition_notified_ok [OF _ c(3,4), of env] c(2,5) show ?thesis
    by (auto simp: pending_def)
qed

text \<open>
  The steps of the server: libevent reports a watched socket, a worker runs the first task, a task
  expires or is drained, an IO thread reads its notification pipe, the thread manager is stopped (it
  then refuses new tasks), or a client connects (a new connection object, if one is needed, gets an
  unused address). Handlers are atomic: the server's mutex and
  the assignment of a connection to one IO thread keep them from interfering.
\<close>

inductive server_step :: "('k, 'h) environment \<Rightarrow> ('k, 'h) TNonblockingServer \<Rightarrow> ('k, 'h) TNonblockingServer \<Rightarrow> bool"
  for env where
  socket_event: "i \<in> set (activeConnections s) \<Longrightarrow> connections s i = Some c \<Longrightarrow> eventAdded c \<Longrightarrow>
     workSocket env i s = (Inr (), s') \<Longrightarrow> server_step env s s'"
| worker: "tasks s = i # rest \<Longrightarrow> run_task env i (s\<lparr>tasks := rest\<rparr>) = (Inr (), s') \<Longrightarrow> server_step env s s'"
| expire: "tasks s = i # rest \<Longrightarrow> expireClose i (s\<lparr>tasks := rest\<rparr>) = (Inr (), s') \<Longrightarrow> server_step env s s'"
| drain: "drainPendingTask s = (Inr b, s') \<Longrightarrow> server_step env s s'"
| notification: "notifyHandler env t rs s = (Inr (), s') \<Longrightarrow> server_step env s s'"
| stop: "server_step env s (s\<lparr>managerStarted := False\<rparr>)"
| accept: "connections s a = None \<Longrightarrow> accept_connection env socket k a s = (Inr (), s') \<Longrightarrow> server_step env s s'"

definition initial_server :: "('k, 'h) TNonblockingServer \<Rightarrow> bool" where
  "initial_server s \<longleftrightarrow> connections s = Map.empty \<and> activeConnections s = [] \<and> connectionStack s = []
     \<and> numTConnections s = 0 \<and> numActiveProcessors s = 0 \<and> nextIOThread s = 0 \<and> 0 < numIOThreads s
     \<and> maxFrameSize s \<le> 2 ^ 31 \<and> tasks s = [] \<and> managerStarted s \<and> notified s = []"

inductive reachable :: "('k, 'h) environment \<Rightarrow> ('k, 'h) TNonblockingServer \<Rightarrow> bool" for env where
  start: "initial_server s \<Longrightarrow> reachable env s"
| step: "reachable env s \<Longrightarrow> server_step env s s' \<Longrightarrow> reachable env s'"

lemma workSocket_empty_frame:
  assumes "connections s i = Some c" and "socketState c = SOCKET_RECV" and "readWant c = 0"
  shows "fst (workSocket env i s) = Inl AssertionFailure"
  using assms
  by (simp add: workSocket_unfold [OF assms(1)] work_connection_def work_recv_def bindM_def onConn_eq [OF assms(1)] assertM_def)

lemma server_step_inv:
  assumes "server_step env s s'" and "bounded_transfers (system_calls env)" and "sound_process env" and "sinv {} 0 s"
  shows "sinv {} 0 s'"
  using assms
proof (cases rule: server_step.cases)
  case (socket_event i c)
  show ?thesis
  proof (cases "appState c = APP_READ_REQUEST \<and> readWant c = 0")
    case False
    with workSocket_ok [OF assms(2-4) socket_event(1-3)] socket_event(4) show ?thesis by auto
  next
    case True
    then have "socketState c = SOCKET_RECV"
      using assms(4) socket_event(1,2) by (auto simp: sinv_def held_def conn_ok_def)
    with True workSocket_empty_frame [OF socket_event(2), of env] socket_event(4) show ?thesis by simp
  qed
next
  case (worker i rest)
  then have "task_hand i (s\<lparr>tasks := rest\<rparr>)"
    using sinv_unqueue [OF assms(4), of i rest "s\<lparr>tasks := rest\<rparr>" 0] by (auto simp: task_hand_def)
  with run_task_ok [OF assms(3), of i "s\<lparr>tasks := rest\<rparr>"] worker show ?thesis by simp
next
  case (expire i rest)
  obtain c where "connections (s\<lparr>tasks := rest\<rparr>) i = Some c" "conn_ok c" "appState c = APP_WAIT_TASK"
    "sinv {i} 1 (s\<lparr>tasks := rest\<rparr>)"
    using sinv_unqueue [OF assms(4), of i rest "s\<lparr>tasks := rest\<rparr>" 0] expire(1) by auto
  with forceClose_ok [of i "s\<lparr>tasks := rest\<rparr>" c] expire(2) show ?thesis by auto
next
  case (drain b)
  moreover from this have "threadPoolProcessing s \<longrightarrow> managerStarted s" by (auto simp: drainPendingTask_def split: if_splits)
  ultimately show ?thesis using drain_ok [OF assms(4)] by auto
next
  case (notification t rs)
  with notifyHandler_ok [OF assms(4), of env t rs s'] show ?thesis by simp
next
  case stop
  with assms(4) show ?thesis by (simp add: sinv_def held_def counted_def)
next
  case (accept a fd k)
  with accept_ok [OF assms(4), of a env fd k] show ?thesis by auto
qed

lemma initial_inv: "initial_server s \<Longrightarrow> sinv {} 0 s"
  by (simp add: initial_server_def sinv_def lists_ok_def counted_def waiting_def)

lemma reachable_inv:
  assumes "reachable env s" and "bounded_transfers (system_calls env)" and "sound_process env"
  shows "sinv {} 0 s"
  using assms
proof (induction rule: reachable.induct)
  case (start s)
  then show ?case by (simp add: initial_inv)
next
  case (step s s')
  then show ?case by (intro server_step_inv [of env s s']) simp_all
qed

lemma newTNonblockingServer_initial: "0 < threads \<Longrightarrow> initial_server (newTNonblockingServer threads pool h)"
  by (simp add: initial_server_def newTNonblockingServer_def)

text \<open>The first client of a new server with one IO thread.\<close>

lemma first_client:
  "\<exists>s c. accept_connection env fd k 0 (newTNonblockingServer 1 pool h) = (Inr (), s)
    \<and> activeConnections s = [0] \<and> connectionStack s = [] \<and> connections s 0 = Some c \<and> conn_ok c \<and> appState c = APP_READ_FRAME_SIZE
    \<and> readBufferPos c = 0 \<and> tSocket c = \<lparr>socketFD = Some fd, recvTimeout = 0, maxRecvRetries = 5, kernel = k\<rparr>
    \<and> maxFrameSize s = 256 * 1024 * 1024 \<and> threadPoolProcessing s = pool \<and> handler s = h
    \<and> numActiveProcessors s = 0 \<and> managerStarted s
    \<and> tasks s = [] \<and> notified s = [] \<and> ioThread c = Some 0"
proof -
  let ?s = "newTNonblockingServer 1 pool h :: ('a, 'b) TNonblockingServer"
  let ?c = "newTConnection (system_calls env) fd k 0 1024"
  let ?t = "?s\<lparr>numTConnections := 1, activeConnections := [0], connections := (connections ?s)(0 \<mapsto> ?c)\<rparr>"
  have new: "createConnection (system_calls env) fd k 0 ?s = (Inr 0, ?t)"
    by (simp add: createConnection_def monad_simps newTNonblockingServer_def)
  have c: "open_ok ?c" "ioThread ?c = Some 0" "appState ?c = APP_INIT"
    using newTConnection_ok [of "system_calls env" fd k 0 1024] by (simp_all add: conn_ok_def)
  obtain c' where c': "app_init ?c = (Inr (), c')" "conn_ok c'" "appState c' = APP_READ_FRAME_SIZE"
    "readBufferPos c' = 0" "tSocket c' = tSocket ?c" "ioThread c' = ioThread ?c"
    using app_init_ok [OF c(1)] by blast
  have sock: "tSocket ?c = \<lparr>socketFD = Some fd, recvTimeout = 0, maxRecvRetries = 5, kernel = k\<rparr>"
    by (simp add: newTConnection_def init_connection_def onSocket_def setSocketFD_def newTSocket_def monad_simps)
  let ?r = "?t\<lparr>connections := (connections ?t)(0 \<mapsto> c')\<rparr>"
  have id: "?t\<lparr>connections := (connections ?t)(0 \<mapsto> ?c)\<rparr> = ?t" by simp
  have "transition env 0 ?t = (Inr (), ?r)"
    using transition_app [of ?t 0 ?c env] c(2,3) onConn_eq [of ?t 0 ?c app_init "Inr ()" c'] c'(1) by simp
  then have "accept_connection env fd k 0 ?s = (Inr (), ?r)"
    using new c(2) id by (simp add: accept_connection_def bindM_def onConn_def getM_def)
  with c' c(2) sock show ?thesis
    by (intro exI [of _ ?r] exI [of _ c']) (simp add: newTNonblockingServer_def)
qed

section \<open>A rejected task\<close>

text \<open>
  When the thread manager does not take the task, the connection is closed but stays counted as
  an active processor; and if the stack of idle connections is full, \<open>close\<close> frees the connection,
  on which \<open>setIdle\<close> is then called.
\<close>

lemma rejected_task:
  assumes "connections s i = Some c" and "open_ok c" and "readBufferPos c \<le> readBufferSize c"
    and "threadPoolProcessing s" and "\<not> managerStarted s"
    and "connectionStackLimit s \<noteq> 0" and "connectionStackLimit s \<le> length (connectionStack s)"
  shows "\<exists>s'. app_read_request env i s = (Inl UndefinedBehaviour, s') \<and> connections s' i = None
    \<and> numActiveProcessors s' = numActiveProcessors s + 1"
proof -
  obtain inp out where "prepare_request c = (Inr (), c\<lparr>inputTransport := inp, outputTransport := out\<rparr>)"
    using prepare_request_ok [OF assms(2,3)] by blast
  with assms(1,4-7) show ?thesis
    by (simp add: app_read_request_def incrementActiveProcessors_def addTask_def catchM_def close_connection_def
        returnConnection_def onSocket_def socket_close_def monad_simps onConn_def)
qed

section \<open>Properties\<close>

text \<open>
  C8. In every reachable state of the server, its connection objects are exactly the active and the
  idle ones, each once; every active connection is well formed, and it waits for a task or a
  notification exactly if it is in the task queue or in a notification pipe, the one of its IO
  thread, where it occurs once; and the number of active processors is at least the number of
  connections whose request is being processed or given up. It is exactly that number as long as
  the thread manager has not been stopped: a task that a stopped manager refuses stays counted.
  Reachable states are those in which no handler has ended in a failed assertion or undefined
  behaviour (see \<open>nonblocking_event_outcome\<close>).
\<close>

theorem nonblocking_server_invariant:
  assumes "reachable env s" and "bounded_transfers (system_calls env)" and "sound_process env"
  shows "distinct (activeConnections s @ connectionStack s)
    \<and> dom (connections s) = set (activeConnections s @ connectionStack s)
    \<and> numTConnections s = length (activeConnections s @ connectionStack s)
    \<and> distinct (tasks s @ map snd (notified s))
    \<and> (\<forall>i\<in>set (activeConnections s). \<exists>c. connections s i = Some c \<and> conn_ok c
        \<and> (pending c \<longleftrightarrow> i \<in> set (tasks s @ map snd (notified s)))
        \<and> (\<forall>t. (t, i) \<in> set (notified s) \<longrightarrow> ioThread c = Some t))
    \<and> card {i \<in> set (activeConnections s). busy s i} \<le> numActiveProcessors s
    \<and> (managerStarted s \<longrightarrow> numActiveProcessors s = card {i \<in> set (activeConnections s). busy s i})"
  using reachable_inv [OF assms]
  by (simp only: sinv_def lists_ok_def held_def counted_def waiting_def Diff_empty add_0_right) blast


section \<open>An echo server\<close>

text \<open>A processor that answers a request with the request itself, refusing to write beyond 2 GiB.\<close>

definition echo_process :: "(unit \<times> TMemoryBuffer \<times> TMemoryBuffer, bool) M" where
  "echo_process = (\<lambda>(u, inp, out). case memory_read (wBase inp) inp of
     (Inl e, inp') \<Rightarrow> (Inl e, (u, inp', out))
   | (Inr bs, inp') \<Rightarrow> if wBase out + length bs > 2 ^ 31 then (Inl TException, (u, inp', out))
       else (case memory_write bs out of
         (Inl e, out') \<Rightarrow> (Inl e, (u, inp', out')) | (Inr _, out') \<Rightarrow> (Inr True, (u, inp', out'))))"

definition echo_env :: "(pipe, unit) environment" where
  "echo_env = \<lparr>system_calls = pipe_sys, process = echo_process\<rparr>"

lemma pipe_bounded: "bounded_transfers pipe_sys"
  unfolding bounded_transfers_def
proof (intro conjI allI impI)
  fix n k bs k'
  show "recv pipe_sys n k = (Inr bs, k') \<Longrightarrow> length bs \<le> n"
    by (auto simp: pipe_sys_def split: list.splits if_splits)
next
  fix bs k n k'
  show "send pipe_sys bs k = (Inr n, k') \<Longrightarrow> n \<le> length bs"
    by (auto simp: pipe_sys_def split: list.splits)
qed

lemma echo_bounded: "bounded_transfers (system_calls echo_env)"
  using pipe_bounded by (simp add: echo_env_def)

lemma memory_read_returns: "\<exists>bs s'. memory_read n s = (Inr bs, s')"
  by (simp add: memory_fast_paths Let_def memory_readSlow_def computeRead_def)

lemma echo_sound: "sound_process echo_env"
  unfolding sound_process_def
proof (intro allI impI)
  fix h inp out r h' inp' out'
  assume a: "memory_inv out" "owner out" and p: "process echo_env (h, inp, out) = (r, h', inp', out')"
  obtain bs inp1 where rd: "memory_read (wBase inp) inp = (Inr bs, inp1)" using memory_read_returns by blast
  show "memory_inv out' \<and> owner out' \<and> (\<forall>e. r = Inl e \<longrightarrow> is_thrown e)"
  proof (cases "wBase out + length bs > 2 ^ 31")
    case True
    with p rd a show ?thesis by (auto simp: echo_env_def echo_process_def)
  next
    case False
    with memory_write_queue [OF a, of bs] p rd show ?thesis by (auto simp: echo_env_def echo_process_def)
  qed
qed

theorem nonblocking_server_invariant_witness:
  "\<exists>s. accept_connection echo_env 3 \<lparr>arriving = [[0, 0]], accepts = [], delivered = [], closed = False\<rparr> 0
      (newTNonblockingServer 1 True ()) = (Inr (), s)
    \<and> dom (connections s) = {0} \<and> numActiveProcessors s = card {i \<in> {0}. busy s i}"
proof -
  let ?s = "newTNonblockingServer 1 True () :: (pipe, unit) TNonblockingServer"
  obtain s c where s: "accept_connection echo_env 3 \<lparr>arriving = [[0, 0]], accepts = [], delivered = [], closed = False\<rparr> 0 ?s
      = (Inr (), s)" "activeConnections s = [0]" "connectionStack s = []" "managerStarted s"
    using first_client [where env = echo_env and fd = 3 and pool = True and h = "()"
        and k = "\<lparr>arriving = [[0, 0]], accepts = [], delivered = [], closed = False\<rparr>"]
    by (elim exE conjE) (rule that)
  have "reachable echo_env ?s" by (rule reachable.start) (simp add: newTNonblockingServer_initial)
  moreover have "connections ?s 0 = None" by (simp add: newTNonblockingServer_def)
  ultimately have r: "reachable echo_env s" using server_step.accept [OF _ s(1)] by (blast intro: reachable.step)
  note inv = nonblocking_server_invariant [OF r echo_bounded echo_sound, unfolded s(2,3)]
  have "dom (connections s) = {0}" using inv by simp
  moreover have "numActiveProcessors s = card {i \<in> {0}. busy s i}" using inv s(4) by simp
  ultimately show ?thesis using s(1) by (intro exI [of _ s] conjI)
qed


end
