(* ===== verification/ServerLiveness.thy ===== *)
theory ServerLiveness
  imports ServerInvariant
begin

text \<open>
  A request is answered: over a connected stream socket, a frame that arrives in any pieces is
  collected, handed to the processor and its answer is sent, in any pieces, within a bounded number
  of events, after which the connection waits for the next frame. Without a thread manager the events
  are those of the socket; with one, a worker runs the task and the IO thread of the connection is
  notified. The locale
  \<open>connected\<close> is the contract with the operating system; it is interpreted for a server that echoes
  its requests over a pipe.
\<close>

section \<open>Sequences of socket events\<close>

lemma prefix_of_append:
  assumes "xs @ ys = bs @ zs" and "length bs \<le> length xs"
  shows "bs = take (length bs) xs" and "zs = drop (length bs) xs @ ys"
proof -
  show "bs = take (length bs) xs" using arg_cong [OF assms(1), of "take (length bs)"] assms(2) by simp
  show "zs = drop (length bs) xs @ ys" using arg_cong [OF assms(1), of "drop (length bs)"] assms(2) by simp
qed

lemma take_memcpy_extend:
  "p \<le> length m \<Longrightarrow> take (p + length bs) (memcpy m p bs) = take p m @ bs"
  by (simp add: memcpy_def)

text \<open>\<open>n\<close> events on the socket of connection \<open>i\<close>, one after the other.\<close>

primrec socket_events :: "('k, 'h) environment \<Rightarrow> nat \<Rightarrow> nat \<Rightarrow> (('k, 'h) TNonblockingServer, unit) M" where
  "socket_events env i 0 = returnM ()"
| "socket_events env i (Suc n) = bindM (workSocket env i) (\<lambda>_. socket_events env i n)"

text \<open>
  What drives the server: an event on the socket of connection \<open>i\<close>, a worker thread that takes the
  next task, or a notification for IO thread \<open>t\<close>, which reads one pointer from its pipe.
\<close>

datatype server_event = SocketEvent nat | Worker | Notification nat

fun handle_event :: "('k, 'h) environment \<Rightarrow> server_event \<Rightarrow> (('k, 'h) TNonblockingServer, unit) M" where
  "handle_event env (SocketEvent i) s = workSocket env i s"
| "handle_event env Worker s = (case tasks s of
     [] \<Rightarrow> (Inr (), s)
   | i # rest \<Rightarrow> run_task env i (s\<lparr>tasks := rest\<rparr>))"
| "handle_event env (Notification t) s = notifyHandler env t [POINTER, WOULD_BLOCK] s"

primrec handle_events :: "('k, 'h) environment \<Rightarrow> server_event list \<Rightarrow> (('k, 'h) TNonblockingServer, unit) M" where
  "handle_events env [] = returnM ()"
| "handle_events env (e # es) = bindM (handle_event env e) (\<lambda>_. handle_events env es)"

lemma handle_events_append:
  "handle_events env es s = (Inr (), t) \<Longrightarrow> handle_events env (es @ fs) s = handle_events env fs t"
  by (induction es arbitrary: s) (auto simp: returnM_def bindM_def split: sum.splits prod.splits)

lemma handle_socket_events: "handle_events env (replicate n (SocketEvent i)) = socket_events env i n"
proof (induction n)
  case (Suc n)
  have "handle_event env (SocketEvent i) = workSocket env i" by (rule ext) simp
  with Suc show ?case by simp
qed simp

text \<open>
  The processor answers \<open>req\<close> with \<open>resp\<close> (empty for a oneway call): whatever the buffers look like,
  it appends \<open>resp\<close> to the four bytes kept for the frame size. If \<open>whole\<close>, it reads all of the request
  (or declines to be called again, by returning false).
\<close>

definition answers :: "('k, 'h) environment \<Rightarrow> bool \<Rightarrow> 'h \<Rightarrow> byte list \<Rightarrow> byte list \<Rightarrow> bool" where
  "answers env whole h req resp \<longleftrightarrow> (\<forall>inp out. memory_inv inp \<longrightarrow> unread inp = req \<longrightarrow> memory_inv out \<longrightarrow> owner out
     \<longrightarrow> rBase out = 0 \<longrightarrow> length (unread out) = 4 \<longrightarrow>
     (\<exists>b h' inp' out'. process env (h, inp, out) = (Inr b, (h', inp', out')) \<and> memory_inv out' \<and> owner out'
        \<and> unread out' = unread out @ resp \<and> (whole \<longrightarrow> b \<longrightarrow> \<not> rBase inp' < wBase inp')))"

definition answer_frame :: "byte list \<Rightarrow> byte list" where
  "answer_frame resp = (if resp = [] then [] else frame_of resp)"

definition set_conn :: "nat \<Rightarrow> 'k TConnection \<Rightarrow> ('k, 'h) TNonblockingServer \<Rightarrow> ('k, 'h) TNonblockingServer" where
  "set_conn i c s = s\<lparr>connections := (connections s)(i \<mapsto> c)\<rparr>"

lemma set_conn_simps [simp]:
  "connections (set_conn i c s) i = Some c" "maxFrameSize (set_conn i c s) = maxFrameSize s"
  "threadPoolProcessing (set_conn i c s) = threadPoolProcessing s" "handler (set_conn i c s) = handler s"
  "numActiveProcessors (set_conn i c s) = numActiveProcessors s" "managerStarted (set_conn i c s) = managerStarted s"
  "tasks (set_conn i c s) = tasks s" "notified (set_conn i c s) = notified s"
  "set_conn i c (set_conn i d s) = set_conn i c s"
  by (simp_all add: set_conn_def)

lemma workSocket_work:
  assumes "connections s i = Some c" and "work_connection (system_calls env) (maxFrameSize s) c c = (Inr act, c')"
  shows "workSocket env i s = (case act of
       STOP \<Rightarrow> (Inr (), set_conn i c' s)
     | CLOSE \<Rightarrow> close_connection env i (set_conn i c' s)
     | TRANSITION \<Rightarrow> transition env i (set_conn i c' s))"
  using assms(2) onConn_eq [of s i c "work_connection (system_calls env) (maxFrameSize s) c", OF assms]
  by (cases act) (simp_all add: workSocket_unfold [OF assms(1)] bindM_def returnM_def set_conn_def)

text \<open>A connection whose request is complete, and one whose answer has been fetched.\<close>

definition collected :: "byte list \<Rightarrow> 'k TConnection \<Rightarrow> bool" where
  "collected req c \<longleftrightarrow> open_ok c \<and> appState c = APP_READ_REQUEST \<and> readBufferPos c = length req
     \<and> take (length req) (readBuffer c) = req \<and> length req \<le> readBufferSize c"

definition fetched :: "byte list \<Rightarrow> 'k TConnection \<Rightarrow> bool" where
  "fetched resp c \<longleftrightarrow> conn_ok c \<and> (if resp = [] then appState c = APP_READ_FRAME_SIZE \<and> readBufferPos c = 0
     else appState c = APP_SEND_RESULT \<and> writeBufferPos c = 0 \<and> writeBufferSize c = 4 + length resp
       \<and> mslice (buffer (outputTransport c)) (the (writeBuffer c)) (4 + length resp) = frame_of resp)"

text \<open>The result is fetched from an output buffer that holds four bytes and the answer.\<close>

lemma fetch_result_fetched:
  assumes "open_ok c" and "unread (outputTransport c) = header @ resp" and "length header = 4"
  shows "\<exists>c'. fetch_result c = (Inr (), c') \<and> fetched resp c' \<and> tSocket c' = tSocket c \<and> ioThread c' = ioThread c"
proof -
  obtain c' where c': "fetch_result c = (Inr (), c')" "conn_ok c'" "tSocket c' = tSocket c" "ioThread c' = ioThread c"
    "if length (unread (outputTransport c)) \<le> 4 then appState c' = APP_READ_FRAME_SIZE \<and> readBufferPos c' = 0
       else appState c' = APP_SEND_RESULT \<and> writeBufferPos c' = 0
         \<and> writeBufferSize c' = length (unread (outputTransport c))
         \<and> mslice (buffer (outputTransport c')) (the (writeBuffer c')) (writeBufferSize c')
             = be32 (word_of_nat (length (unread (outputTransport c)) - 4)) @ drop 4 (unread (outputTransport c))"
    using fetch_result_ok [OF assms(1)] by blast
  then have "fetched resp c'" using assms(2,3) by (auto simp: fetched_def frame_of_def)
  with c' show ?thesis by blast
qed

text \<open>The processor, run on a prepared connection.\<close>

lemma run_process_answers:
  assumes "answers env whole (handler s) req resp" and "connections s i = Some c" and "open_ok c"
    and "memory_inv (inputTransport c)" and "unread (inputTransport c) = req"
    and "rBase (outputTransport c) = 0" and "length (unread (outputTransport c)) = 4"
  shows "\<exists>b h inp out. run_process env i s = (Inr b, (set_conn i (c\<lparr>inputTransport := inp, outputTransport := out\<rparr>) s)\<lparr>handler := h\<rparr>)
    \<and> open_ok (c\<lparr>inputTransport := inp, outputTransport := out\<rparr>)
    \<and> unread out = unread (outputTransport c) @ resp \<and> (whole \<longrightarrow> b \<longrightarrow> \<not> rBase inp < wBase inp)"
proof -
  have o: "memory_inv (outputTransport c)" "owner (outputTransport c)" using assms(3) by (auto simp: open_ok_def buffers_ok_def)
  obtain b h inp out where p: "process env (handler s, inputTransport c, outputTransport c) = (Inr b, (h, inp, out))"
    "memory_inv out" "owner out" "unread out = unread (outputTransport c) @ resp" "whole \<longrightarrow> b \<longrightarrow> \<not> rBase inp < wBase inp"
    using assms(1,4-7) o unfolding answers_def by blast
  have "open_ok (c\<lparr>inputTransport := inp, outputTransport := out\<rparr>)" using assms(3) p(2,3) by (simp add: open_ok_def buffers_ok_def)
  moreover have "run_process env i s = (Inr b, (set_conn i (c\<lparr>inputTransport := inp, outputTransport := out\<rparr>) s)\<lparr>handler := h\<rparr>)"
    using assms(2) p(1) by (simp add: run_process_def set_conn_def)
  ultimately show ?thesis using p(4,5) by blast
qed

text \<open>A complete request is processed by the IO thread itself.\<close>

lemma request_processed:
  assumes "connections s i = Some c" and "collected req c" and "\<not> threadPoolProcessing s"
    and "answers env whole (handler s) req resp"
  shows "\<exists>h c'. transition env i s = (Inr (), (set_conn i c' s)\<lparr>handler := h\<rparr>) \<and> fetched resp c' \<and> tSocket c' = tSocket c"
proof -
  have o: "open_ok c" "ioThread c \<noteq> None" "appState c = APP_READ_REQUEST" "readBufferPos c \<le> readBufferSize c"
    using assms(2) by (auto simp: collected_def open_ok_def)
  obtain inp out where p: "prepare_request c = (Inr (), c\<lparr>inputTransport := inp, outputTransport := out\<rparr>)"
    "memory_inv inp" "unread inp = req" "memory_inv out" "owner out" "rBase out = 0" "length (unread out) = 4"
    using prepare_request_ok [OF o(1,4)] assms(2) by (auto simp: collected_def)
  let ?c = "c\<lparr>inputTransport := inp, outputTransport := out\<rparr>"
  let ?s = "(set_conn i ?c s)\<lparr>numActiveProcessors := numActiveProcessors s + 1\<rparr>"
  have o1: "open_ok ?c" using o(1) p(4,5) by (simp add: open_ok_def buffers_ok_def)
  obtain b h inp' out' where r: "run_process env i ?s = (Inr b, (set_conn i (c\<lparr>inputTransport := inp', outputTransport := out'\<rparr>) ?s)\<lparr>handler := h\<rparr>)"
    "open_ok (c\<lparr>inputTransport := inp', outputTransport := out'\<rparr>)" "unread out' = unread out @ resp"
    using run_process_answers [of env whole ?s req resp i ?c] assms(4) o1 p(2,3,6,7) by auto
  let ?d = "c\<lparr>inputTransport := inp', outputTransport := out'\<rparr>"
  obtain c' where c': "fetch_result ?d = (Inr (), c')" "fetched resp c'" "tSocket c' = tSocket c"
    using fetch_result_fetched [of ?d "unread out" resp] r(2,3) p(7) by auto
  have "transition env i s = app_read_request env i s"
    using transition_app [OF assms(1) o(2), of env] o(3) by simp
  also have "\<dots> = (Inr (), (set_conn i c' s)\<lparr>handler := h\<rparr>)"
    using assms(1,3) p(1) r(1) c'(1)
    by (simp add: app_read_request_def app_wait_task_def incrementActiveProcessors_def
        decrementActiveProcessors_def catchM_def monad_simps onConn_def set_conn_def)
  finally show ?thesis using c'(2,3) by blast
qed

text \<open>With a thread manager it becomes a task, and the connection waits for it.\<close>

lemma request_queued:
  assumes "connections s i = Some c" and "collected req c" and "threadPoolProcessing s" and "managerStarted s"
  shows "\<exists>c'. transition env i s = (Inr (), (set_conn i c' s)\<lparr>numActiveProcessors := numActiveProcessors s + 1, tasks := tasks s @ [i]\<rparr>)
    \<and> conn_ok c' \<and> appState c' = APP_WAIT_TASK \<and> tSocket c' = tSocket c \<and> ioThread c' = ioThread c
    \<and> memory_inv (inputTransport c') \<and> unread (inputTransport c') = req
    \<and> rBase (outputTransport c') = 0 \<and> length (unread (outputTransport c')) = 4"
proof -
  have o: "open_ok c" "ioThread c \<noteq> None" "appState c = APP_READ_REQUEST" "readBufferPos c \<le> readBufferSize c"
    using assms(2) by (auto simp: collected_def open_ok_def)
  obtain inp out where p: "prepare_request c = (Inr (), c\<lparr>inputTransport := inp, outputTransport := out\<rparr>)"
    "memory_inv inp" "unread inp = req" "memory_inv out" "owner out" "rBase out = 0" "length (unread out) = 4"
    using prepare_request_ok [OF o(1,4)] assms(2) by (auto simp: collected_def)
  let ?c = "c\<lparr>inputTransport := inp, outputTransport := out, appState := APP_WAIT_TASK\<rparr>"
  let ?d = "?c\<lparr>eventFlags := {}, eventAdded := False\<rparr>"
  have idle: "setIdle ?c = (Inr (), ?d)"
    using o(1) setFlags_eq [of ?c "{}"] by (simp add: setIdle_def open_ok_def)
  have "conn_ok ?d" using o(1) p(4,5) by (simp add: conn_ok_def open_ok_def buffers_ok_def)
  moreover have "transition env i s = app_read_request env i s"
    using transition_app [OF assms(1) o(2), of env] o(3) by simp
  then have "transition env i s
      = (Inr (), (set_conn i ?d s)\<lparr>numActiveProcessors := numActiveProcessors s + 1, tasks := tasks s @ [i]\<rparr>)"
    using assms(1,3,4) p(1) idle
    by (simp add: app_read_request_def incrementActiveProcessors_def addTask_def catchM_def monad_simps onConn_def set_conn_def)
  ultimately show ?thesis using p by (intro exI [of _ ?d]) simp
qed

text \<open>The worker processes the one request and puts the connection into the pipe of its IO thread.\<close>

lemma task_run:
  assumes "answers env True (handler s) req resp" and "connections s i = Some c" and "open_ok c"
    and "ioThread c = Some t"
    and "memory_inv (inputTransport c)" and "unread (inputTransport c) = req"
    and "rBase (outputTransport c) = 0" and "length (unread (outputTransport c)) = 4"
  shows "\<exists>h inp out. run_task env i s = (Inr (), (set_conn i (c\<lparr>inputTransport := inp, outputTransport := out\<rparr>) s)
        \<lparr>handler := h, notified := notified s @ [(t, i)]\<rparr>)
    \<and> open_ok (c\<lparr>inputTransport := inp, outputTransport := out\<rparr>) \<and> unread out = unread (outputTransport c) @ resp"
proof -
  obtain b h inp out where r: "run_process env i s = (Inr b, (set_conn i (c\<lparr>inputTransport := inp, outputTransport := out\<rparr>) s)\<lparr>handler := h\<rparr>)"
    "open_ok (c\<lparr>inputTransport := inp, outputTransport := out\<rparr>)" "unread out = unread (outputTransport c) @ resp"
    "b \<longrightarrow> \<not> rBase inp < wBase inp"
    using run_process_answers [OF assms(1-3,5-8)] by blast
  let ?t = "(set_conn i (c\<lparr>inputTransport := inp, outputTransport := out\<rparr>) s)\<lparr>handler := h\<rparr>"
  have "task_body env i s = (Inr False, ?t)"
    using r(1,4) by (cases b) (auto simp: task_body_def monad_simps onConn_def onInput_def liftM_def memory_peek_def set_conn_def)
  then have "task_loop env i s = Some (Inr False, ?t)"
    by (simp add: task_loop_def while_option_unfold [of _ _ "(Inr True, s)"] while_option_unfold [of _ _ "(Inr False, ?t)"])
  moreover have "notifyIOThread i ?t = (Inr (), ?t\<lparr>notified := notified s @ [(t, i)]\<rparr>)"
    using assms(4) by (simp add: notifyIOThread_def monad_simps onConn_def set_conn_def)
  ultimately show ?thesis using r(2,3) by (intro exI [of _ h] exI [of _ inp] exI [of _ out]) (simp add: run_task_def)
qed

text \<open>
  The two events that take a queued request to its answer.
\<close>

lemma find_new: "\<forall>j. (t, j) \<notin> set ps \<Longrightarrow> find (\<lambda>p. fst p = t) (ps @ [(t, i)]) = Some (t, i)"
  by (induction ps) auto

lemma remove1_new: "p \<notin> set ps \<Longrightarrow> remove1 p (ps @ [p]) = ps"
  by (simp add: remove1_append)

lemma task_answered:
  assumes "connections s i = Some c" and "conn_ok c" and "appState c = APP_WAIT_TASK" and "ioThread c = Some t"
    and "tasks s = [i]" and "\<And>j. (t, j) \<notin> set (notified s)" and "numActiveProcessors s = Suc n"
    and "answers env True (handler s) req resp"
    and "memory_inv (inputTransport c)" and "unread (inputTransport c) = req"
    and "rBase (outputTransport c) = 0" and "length (unread (outputTransport c)) = 4"
  shows "\<exists>h c'. handle_events env [Worker, Notification t] s
        = (Inr (), (set_conn i c' s)\<lparr>handler := h, numActiveProcessors := n, tasks := []\<rparr>)
    \<and> fetched resp c' \<and> tSocket c' = tSocket c"
proof -
  have o: "open_ok c" using assms(2) by (simp add: conn_ok_def)
  obtain h inp out where r: "run_task env i (s\<lparr>tasks := []\<rparr>)
        = (Inr (), (set_conn i (c\<lparr>inputTransport := inp, outputTransport := out\<rparr>) (s\<lparr>tasks := []\<rparr>))
            \<lparr>handler := h, notified := notified s @ [(t, i)]\<rparr>)"
    "open_ok (c\<lparr>inputTransport := inp, outputTransport := out\<rparr>)" "unread out = unread (outputTransport c) @ resp"
    using task_run [of env "s\<lparr>tasks := []\<rparr>" req resp i c t] assms(1,4,8-12) o by auto
  let ?d = "c\<lparr>inputTransport := inp, outputTransport := out\<rparr>"
  let ?u = "(set_conn i ?d (s\<lparr>tasks := []\<rparr>))\<lparr>handler := h, notified := notified s\<rparr>"
  obtain c' where c': "fetch_result ?d = (Inr (), c')" "fetched resp c'" "tSocket c' = tSocket c"
    using fetch_result_fetched [of ?d "unread (outputTransport c)" resp] r(2,3) assms(12) by auto
  have w: "handle_event env Worker s = (Inr (), ?u\<lparr>notified := notified s @ [(t, i)]\<rparr>)"
    using assms(5) r(1) by simp
  have "next_notification env t (?u\<lparr>notified := notified s @ [(t, i)]\<rparr>) = transition env i ?u"
    using assms(6) by (simp add: next_notification_def find_new remove1_new)
  also have "\<dots> = app_wait_task i ?u"
    using transition_app [of ?u i ?d env] assms(3,4) by (simp add: set_conn_def)
  also have "\<dots> = (Inr (), (set_conn i c' s)\<lparr>handler := h, numActiveProcessors := n, tasks := []\<rparr>)"
    using c'(1) assms(7) by (simp add: app_wait_task_def decrementActiveProcessors_def monad_simps onConn_def set_conn_def)
  finally show ?thesis using w c'(2,3) by (auto simp: bindM_def returnM_def)
qed

lemma socket_events_add:
  "socket_events env i n s = (Inr (), t) \<Longrightarrow> socket_events env i (n + m) s = socket_events env i m t"
  by (induction n arbitrary: s) (auto simp: returnM_def bindM_def split: sum.splits prod.splits)

text \<open>
  The contract with the operating system: a connected stream, whose calls transfer no more than asked.
\<close>

locale connected = kernel_stream "system_calls env" kinv incoming outgoing
  for env :: "('k, 'h) environment" and kinv incoming outgoing +
  assumes bounded: "bounded_transfers (system_calls env)"
begin

text \<open>A connection in one of its states whose socket is open.\<close>

definition live :: "'k TConnection \<Rightarrow> bool" where
  "live c \<longleftrightarrow> conn_ok c \<and> socketFD (tSocket c) \<noteq> None \<and> kinv (kernel (tSocket c))"

lemma live_socket: "live c \<Longrightarrow> socket_inv (tSocket c)"
  by (auto simp: live_def socket_inv_def conn_ok_def open_ok_def buffers_ok_def)

abbreviation "unreceived c \<equiv> incoming (kernel (tSocket c))"
abbreviation "transmitted c \<equiv> outgoing (kernel (tSocket c))"

text \<open>The frame size: four bytes in any pieces.\<close>

lemma frame_size_received:
  assumes "connections s i = Some c" and "live c" and "appState c = APP_READ_FRAME_SIZE"
    and "take (readBufferPos c) (mem32 (readWant c)) = take (readBufferPos c) (be32 w)"
    and "unreceived c = drop (readBufferPos c) (be32 w) @ rest" and "unat w \<le> maxFrameSize s"
    and "maxFrameSize s \<le> 2 ^ 31"
  shows "\<exists>n\<le>4 - readBufferPos c. \<exists>c'. socket_events env i n s = (Inr (), set_conn i c' s)
    \<and> live c' \<and> appState c' = APP_READ_REQUEST \<and> readBufferPos c' = 0 \<and> readWant c' = w
    \<and> unreceived c' = rest \<and> transmitted c' = transmitted c \<and> ioThread c' = ioThread c"
  using assms
proof (induction "4 - readBufferPos c" arbitrary: c s rule: less_induct)
  case less
  let ?p = "readBufferPos c"
  have ok: "conn_ok c" "?p < 4" "socketState c = SOCKET_RECV_FRAMING" "eventFlags c = {EV_READ, EV_PERSIST}" "open_ok c"
    using less.prems(2,3) by (auto simp: live_def conn_ok_def)
  obtain bs k where r: "socket_read (system_calls env) (4 - ?p) (tSocket c) = (Inr bs, (tSocket c)\<lparr>kernel := k\<rparr>)"
    "kinv k" "length bs \<le> 4 - ?p" "unreceived c = bs @ incoming k" "outgoing k = transmitted c"
    "bs = [] \<longleftrightarrow> 4 - ?p = 0 \<or> unreceived c = []"
    using socket_read_stream [OF live_socket [OF less.prems(2)], of "4 - ?p"] by blast
  have eq: "drop ?p (be32 w) @ rest = bs @ incoming k" using less.prems(5) r(4) by simp
  have len: "length bs \<le> length (drop ?p (be32 w))" using r(3) by simp
  note bs = prefix_of_append [OF eq len]
  have ne: "bs \<noteq> []" using r(6) ok(2) less.prems(5) by (auto simp flip: length_greater_0_conv)
  let ?p' = "?p + length bs" and ?m = "memcpy (mem32 (readWant c)) ?p bs"
  have p': "?p' \<le> 4" using r(3) ok(2) by simp
  have "take ?p' ?m = take ?p (mem32 (readWant c)) @ bs" by (rule take_memcpy_extend) (use p' in simp)
  also have "\<dots> = take ?p' (be32 w)" by (simp add: less.prems(4) take_add bs(1) [symmetric])
  finally have m: "length ?m = 4" "take ?p' ?m = take ?p' (be32 w)" using p' by simp_all
  define w' where "w' = load32 ?m"
  have inc: "incoming k = drop ?p' (be32 w) @ rest" using bs(2) by (simp add: add.commute)
  note step = workSocket_work [OF less.prems(1), of env, unfolded work_connection_def ok(3)]
    and frame = work_framing_step [OF r(1), of "maxFrameSize s"]
  show ?case
  proof (cases "?p' < 4")
    case True
    let ?c = "c\<lparr>tSocket := (tSocket c)\<lparr>kernel := k\<rparr>, readBufferPos := ?p', readWant := w'\<rparr>"
    have "live ?c" using less.prems(2,3) r(2) True by (simp add: live_def conn_ok_def open_ok_def buffers_ok_def)
    moreover have "take ?p' (mem32 w') = take ?p' (be32 w)" using m by (simp add: w'_def)
    moreover have "4 - ?p' < 4 - ?p" using ne ok(2) True by (cases bs) auto
    ultimately obtain n c' where n: "n \<le> 4 - ?p'" "socket_events env i n (set_conn i ?c s) = (Inr (), set_conn i c' s)"
      "live c'" "appState c' = APP_READ_REQUEST" "readBufferPos c' = 0" "readWant c' = w"
      "unreceived c' = rest" "transmitted c' = transmitted ?c" "ioThread c' = ioThread ?c"
      using less.hyps [of ?c "set_conn i ?c s"] less.prems(3,6,7) inc by auto
    have "workSocket env i s = (Inr (), set_conn i ?c s)"
      using step [of STOP ?c] frame ne True by (simp add: Let_def w'_def)
    with n have "socket_events env i (Suc n) s = (Inr (), set_conn i c' s)" by (simp add: bindM_def)
    moreover have "Suc n \<le> 4 - ?p" using n(1) ne True by (cases bs) auto
    ultimately show ?thesis using n r(5) by (intro exI [of _ "Suc n"] exI [of _ c'] conjI) simp_all
  next
    case False
    then have full: "?p' = 4" using p' by simp
    have "?m = be32 w" using m full by simp
    then have w: "htonl w' = w" by (simp add: w'_def)
    let ?c = "c\<lparr>tSocket := (tSocket c)\<lparr>kernel := k\<rparr>, readBufferPos := ?p', readWant := w\<rparr>"
    have o: "open_ok ?c" "eventFlags ?c = {EV_READ, EV_PERSIST}" "unat (readWant ?c) \<le> 2 ^ 31"
      using ok(4,5) order_trans [OF less.prems(6,7)] by (simp_all add: open_ok_def buffers_ok_def)
    from app_read_frame_size_ok [OF this] obtain c' where c': "app_read_frame_size ?c = (Inr (), c')" "conn_ok c'"
      "appState c' = APP_READ_REQUEST" "readBufferPos c' = 0" "readWant c' = w" "tSocket c' = tSocket ?c" "ioThread c' = ioThread ?c" by auto
    have "workSocket env i s = transition env i (set_conn i ?c s)"
      using step [of TRANSITION ?c] frame ne full less.prems(6) by (simp add: Let_def w'_def [symmetric] w)
    also have "\<dots> = (Inr (), set_conn i c' s)"
    proof -
      have "ioThread ?c \<noteq> None" using o(1) by (simp add: open_ok_def)
      from transition_app [of "set_conn i ?c s" i ?c env, OF _ this] less.prems(3) c'(1)
      show ?thesis by (simp add: onConn_def) (simp add: set_conn_def)
    qed
    finally have "socket_events env i 1 s = (Inr (), set_conn i c' s)" by (simp add: bindM_def returnM_def)
    moreover have "live c'" using c'(2,6) less.prems(2) r(2) by (simp add: live_def)
    ultimately show ?thesis using c' r(5) full inc ok(2) by (intro exI [of _ 1] exI [of _ c'] conjI) simp_all
  qed
qed

text \<open>
  A frame of length 0 is taken for a request of which nothing has arrived: the next event fails.
\<close>

lemma empty_frame_asserts:
  assumes "connections s i = Some c" and "live c" and "appState c = APP_READ_FRAME_SIZE" and "readBufferPos c = 0"
    and "unreceived c = frame_of [] @ rest" and "maxFrameSize s \<le> 2 ^ 31"
  shows "\<exists>n\<le>4. fst (socket_events env i (Suc n) s) = Inl AssertionFailure"
proof -
  obtain n c' where n: "n \<le> 4" "socket_events env i n s = (Inr (), set_conn i c' s)" "live c'"
    "appState c' = APP_READ_REQUEST" "readWant c' = 0"
    using frame_size_received [OF assms(1-3), of 0 rest] assms(4-6) by (auto simp: frame_of_def)
  have "socketState c' = SOCKET_RECV" using n(3,4) by (simp add: live_def conn_ok_def)
  with workSocket_empty_frame [of "set_conn i c' s" i c' env] n(5)
  have "fst (workSocket env i (set_conn i c' s)) = Inl AssertionFailure" by simp
  then have "fst (socket_events env i (n + 1) s) = Inl AssertionFailure"
    unfolding socket_events_add [OF n(2)] by (auto simp: bindM_def split: sum.splits prod.splits)
  with n(1) show ?thesis by auto
qed

text \<open>The request is collected in the read buffer; the last of the events makes the transition.\<close>

lemma request_received:
  assumes "connections s i = Some c" and "live c" and "appState c = APP_READ_REQUEST"
    and "readWant c = word_of_nat (length req)" and "length req < 2 ^ 31" and "readBufferPos c < length req"
    and "take (readBufferPos c) (readBuffer c) = take (readBufferPos c) req"
    and "unreceived c = drop (readBufferPos c) req @ rest"
  shows "\<exists>n\<le>length req - readBufferPos c. \<exists>c'. socket_events env i n s = transition env i (set_conn i c' s)
    \<and> collected req c' \<and> socketFD (tSocket c') \<noteq> None \<and> kinv (kernel (tSocket c')) \<and> unreceived c' = rest
    \<and> transmitted c' = transmitted c \<and> ioThread c' = ioThread c"
  using assms
proof (induction "length req - readBufferPos c" arbitrary: c s rule: less_induct)
  case less
  let ?p = "readBufferPos c"
  have want: "unat (readWant c) = length req" using less.prems(4,5) by (simp add: unat_of_nat)
  have ok: "conn_ok c" "socketState c = SOCKET_RECV" "eventFlags c = {EV_READ, EV_PERSIST}" "open_ok c"
    "length req \<le> readBufferSize c" "length (readBuffer c) = readBufferSize c"
    using less.prems(2,3) want by (auto simp: live_def conn_ok_def open_ok_def buffers_ok_def)
  obtain bs k where r: "socket_read (system_calls env) (length req - ?p) (tSocket c) = (Inr bs, (tSocket c)\<lparr>kernel := k\<rparr>)"
    "kinv k" "length bs \<le> length req - ?p" "unreceived c = bs @ incoming k" "outgoing k = transmitted c"
    "bs = [] \<longleftrightarrow> length req - ?p = 0 \<or> unreceived c = []"
    using socket_read_stream [OF live_socket [OF less.prems(2)], of "length req - ?p"] by blast
  have eq: "drop ?p req @ rest = bs @ incoming k" using less.prems(8) r(4) by simp
  have len: "length bs \<le> length (drop ?p req)" using r(3) by simp
  note bs = prefix_of_append [OF eq len]
  have ne: "bs \<noteq> []" using r(6) less.prems(6,8) by (auto simp flip: length_greater_0_conv)
  let ?p' = "?p + length bs" and ?m = "memcpy (readBuffer c) ?p bs"
  have p': "?p' \<le> length req" using r(3) less.prems(6) by simp
  have "take ?p' ?m = take ?p (readBuffer c) @ bs" by (rule take_memcpy_extend) (use p' ok(5,6) in simp)
  also have "\<dots> = take ?p' req" by (simp add: less.prems(7) take_add bs(1) [symmetric])
  finally have m: "length ?m = readBufferSize c" "take ?p' ?m = take ?p' req" using p' ok(5,6) by simp_all
  have inc: "incoming k = drop ?p' req @ rest" using bs(2) by (simp add: add.commute)
  have pos: "0 <s (word_of_nat (length bs) :: int32_t)"
    using ne r(3) less.prems(5) by (simp add: word_sless_alt sint_word_of_nat)
  let ?c = "c\<lparr>tSocket := (tSocket c)\<lparr>kernel := k\<rparr>, readBuffer := ?m, readBufferPos := ?p'\<rparr>"
  have work: "work_recv (system_calls env) c = (Inr (if ?p' = length req then TRANSITION else STOP), ?c)"
    using work_recv_step [of "system_calls env" c "Inr bs"] r(1,3) want less.prems(6) pos by (simp add: Let_def)
  note step = workSocket_work [OF less.prems(1), of env, unfolded work_connection_def ok(2), simplified, OF work]
  have o: "open_ok ?c" using ok(4) m(1) by (simp add: open_ok_def buffers_ok_def)
  show ?case
  proof (cases "?p' = length req")
    case False
    then have "live ?c" using o r(2) less.prems(2,3) ok want p' by (simp add: live_def conn_ok_def)
    moreover have "length req - ?p' < length req - ?p" using ne p' less.prems(6) by (cases bs) auto
    ultimately obtain n c' where n: "n \<le> length req - ?p'"
      "socket_events env i n (set_conn i ?c s) = transition env i (set_conn i c' s)" "collected req c'"
      "socketFD (tSocket c') \<noteq> None" "kinv (kernel (tSocket c'))" "unreceived c' = rest"
      "transmitted c' = transmitted ?c" "ioThread c' = ioThread ?c"
      using less.hyps [of ?c "set_conn i ?c s"] less.prems(3-5) inc m(2) False p' by auto
    have "socket_events env i (Suc n) s = transition env i (set_conn i c' s)"
      using step False n(2) by (simp add: bindM_def)
    moreover have "Suc n \<le> length req - ?p" using n(1) ne p' False by (cases bs) auto
    ultimately show ?thesis using n r(5)
      by (intro exI [of _ "Suc n"] exI [of _ c'] conjI) simp_all
  next
    case True
    have fd: "socketFD (tSocket ?c) \<noteq> None" "kinv (kernel (tSocket ?c))"
      using less.prems(2) r(2) by (simp_all add: live_def)
    have "collected req ?c" using m(2) True o less.prems(3) ok(5) by (simp add: collected_def)
    moreover have "socket_events env i 1 s = transition env i (set_conn i ?c s)"
      using step True by (auto simp: bindM_def returnM_def split: sum.splits prod.splits)
    ultimately show ?thesis using fd inc True r(5) less.prems(6)
      by (intro exI [of _ 1] exI [of _ ?c] conjI) simp_all
  qed
qed

text \<open>The answer: sent in any pieces.\<close>

lemma answer_sent:
  assumes "connections s i = Some c" and "live c" and "appState c = APP_SEND_RESULT"
    and "mslice (buffer (outputTransport c)) (the (writeBuffer c)) (writeBufferSize c) = frame"
  shows "\<exists>n\<le>writeBufferSize c - writeBufferPos c. \<exists>c'. socket_events env i n s = (Inr (), set_conn i c' s)
    \<and> live c' \<and> appState c' = APP_READ_FRAME_SIZE \<and> readBufferPos c' = 0
    \<and> unreceived c' = unreceived c \<and> transmitted c' = transmitted c @ drop (writeBufferPos c) frame"
  using assms
proof (induction "writeBufferSize c - writeBufferPos c" arbitrary: c s rule: less_induct)
  case less
  let ?p = "writeBufferPos c" and ?z = "writeBufferSize c"
  obtain b where ok: "conn_ok c" "socketState c = SOCKET_SEND" "eventFlags c = {EV_WRITE, EV_PERSIST}" "open_ok c"
    "?p < ?z" "writeBuffer c = Some b" "b + ?z \<le> length (buffer (outputTransport c))"
    using less.prems(2,3) by (auto simp: live_def conn_ok_def)
  have left: "mslice (buffer (outputTransport c)) (the (writeBuffer c) + ?p) (?z - ?p) = drop ?p frame"
    using less.prems(4) by auto
  have frame: "length frame = ?z" using less.prems(4) ok(6,7) by auto
  then have "drop ?p frame \<noteq> []" using ok(5) by simp
  from write_partial_stream [OF live_socket [OF less.prems(2)] this] obtain n k where
    w: "write_partial (system_calls env) (drop ?p frame) (tSocket c) = (Inr n, (tSocket c)\<lparr>kernel := k\<rparr>)" "kinv k"
      "0 < n" "n \<le> length (drop ?p frame)" "outgoing k = transmitted c @ take n (drop ?p frame)" "incoming k = unreceived c"
    by blast
  let ?c = "c\<lparr>tSocket := (tSocket c)\<lparr>kernel := k\<rparr>, writeBufferPos := ?p + n\<rparr>"
  have "work_send (system_calls env) c = (Inr (if ?p + n = ?z then TRANSITION else STOP), ?c)"
    using work_send_step [of "system_calls env" c "Inr n"] w(1,4) frame ok(5) left by simp
  note step = workSocket_work [OF less.prems(1), of env, unfolded work_connection_def ok(2), simplified, OF this]
  have o: "open_ok ?c" using ok(4) by (simp add: open_ok_def buffers_ok_def)
  show ?case
  proof (cases "?p + n = ?z")
    case False
    then have "live ?c" using o w(2,4) less.prems(2,3) ok frame by (simp add: live_def conn_ok_def)
    moreover have "?z - (?p + n) < ?z - ?p" using w(3) ok(5) by simp
    ultimately obtain m c' where m: "m \<le> ?z - (?p + n)" "socket_events env i m (set_conn i ?c s) = (Inr (), set_conn i c' s)"
      "live c'" "appState c' = APP_READ_FRAME_SIZE" "readBufferPos c' = 0" "unreceived c' = unreceived ?c"
      "transmitted c' = transmitted ?c @ drop (?p + n) frame"
      using less.hyps [of ?c "set_conn i ?c s"] less.prems(3,4) by auto
    have "socket_events env i (Suc m) s = (Inr (), set_conn i c' s)" using step False m(2) by (simp add: bindM_def)
    moreover have "Suc m \<le> ?z - ?p" using m(1) w(3) ok(5) False w(4) frame by simp
    moreover have "take n (drop ?p frame) @ drop (?p + n) frame = drop ?p frame"
      using append_take_drop_id [of n "drop ?p frame"] by (simp add: add.commute)
    ultimately show ?thesis using m w(5,6) by (intro exI [of _ "Suc m"] exI [of _ c'] conjI) simp_all
  next
    case True
    let ?m = "app_send_result (resizeBufferEveryN s) (writeBufferDefaultSize s) (idleReadBufferLimit s) (idleWriteBufferLimit s)"
    obtain c' where c': "?m ?c = (Inr (), c')" "conn_ok c'" "appState c' = APP_READ_FRAME_SIZE" "readBufferPos c' = 0"
      "tSocket c' = tSocket ?c"
      using app_send_result_ok [OF o, of "resizeBufferEveryN s" "writeBufferDefaultSize s" "idleReadBufferLimit s"
          "idleWriteBufferLimit s"] by blast
    have io: "ioThread ?c \<noteq> None" using o by (simp add: open_ok_def)
    have "socket_events env i 1 s = (Inr (), set_conn i c' s)"
      using step True c'(1) less.prems(3) transition_app [of "set_conn i ?c s" i ?c env, OF _ io]
      by (simp add: bindM_def returnM_def onConn_def set_conn_def)
    moreover have "live c'" using c'(2,5) less.prems(2) w(2) by (simp add: live_def)
    moreover have "take n (drop ?p frame) = drop ?p frame" using True frame by simp
    ultimately show ?thesis using c'(3-5) w(5,6) ok(5)
      by (intro exI [of _ 1] exI [of _ c'] conjI) simp_all
  qed
qed

text \<open>
  Once the answer has been fetched, it is sent; nothing is sent for a oneway call.
\<close>

lemma fetched_sent:
  assumes "connections s i = Some c" and "fetched resp c" and "socketFD (tSocket c) \<noteq> None" and "kinv (kernel (tSocket c))"
  shows "\<exists>n\<le>length (answer_frame resp). \<exists>c'. socket_events env i n s = (Inr (), set_conn i c' s)
    \<and> live c' \<and> appState c' = APP_READ_FRAME_SIZE \<and> readBufferPos c' = 0
    \<and> unreceived c' = unreceived c \<and> transmitted c' = transmitted c @ answer_frame resp"
proof (cases "resp = []")
  case True
  with assms have "live c" "appState c = APP_READ_FRAME_SIZE" "readBufferPos c = 0" by (simp_all add: fetched_def live_def)
  moreover have "set_conn i c s = s" using assms(1) by (cases s) (simp add: set_conn_def fun_upd_idem)
  ultimately show ?thesis using True by (intro exI [of _ 0] exI [of _ c] conjI) (simp_all add: answer_frame_def returnM_def)
next
  case False
  with assms have c: "live c" "appState c = APP_SEND_RESULT" "writeBufferPos c = 0" "writeBufferSize c = 4 + length resp"
    "mslice (buffer (outputTransport c)) (the (writeBuffer c)) (writeBufferSize c) = frame_of resp"
    by (simp_all add: fetched_def live_def)
  have "length (answer_frame resp) = 4 + length resp" using False by (simp add: answer_frame_def frame_of_def)
  with answer_sent [OF assms(1) c(1,2,5)] c(3,4) False show ?thesis by (simp add: answer_frame_def)
qed

text \<open>
  The whole exchange: the socket events that bring the request, the worker and the notification if
  there is a thread manager, and the socket events that take the answer.
\<close>

lemma request_answered:
  assumes "connections s i = Some c" and "live c" and "appState c = APP_READ_FRAME_SIZE" and "readBufferPos c = 0"
    and "unreceived c = frame_of req @ rest" and "req \<noteq> []" and "length req \<le> maxFrameSize s" and "maxFrameSize s < 2 ^ 31"
    and "threadPoolProcessing s \<longrightarrow> managerStarted s \<and> tasks s = [] \<and> (\<forall>j. (the (ioThread c), j) \<notin> set (notified s))"
    and "answers env (threadPoolProcessing s) (handler s) req resp"
  shows "\<exists>n m h c'. n \<le> length (frame_of req) \<and> m \<le> length (answer_frame resp)
    \<and> handle_events env (replicate n (SocketEvent i)
        @ (if threadPoolProcessing s then [Worker, Notification (the (ioThread c))] else [])
        @ replicate m (SocketEvent i)) s = (Inr (), (set_conn i c' s)\<lparr>handler := h\<rparr>)
    \<and> live c' \<and> appState c' = APP_READ_FRAME_SIZE \<and> readBufferPos c' = 0 \<and> unreceived c' = rest
    \<and> transmitted c' = transmitted c @ answer_frame resp"
proof -
  let ?w = "word_of_nat (length req) :: uint32_t"
  let ?pool = "if threadPoolProcessing s then [Worker, Notification (the (ioThread c))] else []"
  have w: "unat ?w = length req" using assms(7,8) by (simp add: unat_of_nat)
  obtain n1 c1 where 1: "n1 \<le> 4" "socket_events env i n1 s = (Inr (), set_conn i c1 s)" "live c1"
    "appState c1 = APP_READ_REQUEST" "readBufferPos c1 = 0" "readWant c1 = ?w" "unreceived c1 = req @ rest"
    "transmitted c1 = transmitted c" "ioThread c1 = ioThread c"
    using frame_size_received [OF assms(1-3), of ?w "req @ rest"] assms(4,5,7,8) w by (auto simp: frame_of_def)
  obtain n2 c2 where 2: "n2 \<le> length req" "socket_events env i n2 (set_conn i c1 s) = transition env i (set_conn i c2 s)"
    "collected req c2" "socketFD (tSocket c2) \<noteq> None" "kinv (kernel (tSocket c2))" "unreceived c2 = rest"
    "transmitted c2 = transmitted c1" "ioThread c2 = ioThread c1"
    using request_received [of "set_conn i c1 s" i c1 req rest] 1(3-7) assms(6-8) by auto
  have 12: "handle_events env (replicate (n1 + n2) (SocketEvent i)) s = transition env i (set_conn i c2 s)"
    using socket_events_add [OF 1(2), of n2] 2(2) by (simp add: handle_socket_events)
  have "\<exists>h c3. handle_events env (replicate (n1 + n2) (SocketEvent i) @ ?pool) s = (Inr (), (set_conn i c3 s)\<lparr>handler := h\<rparr>)
    \<and> fetched resp c3 \<and> tSocket c3 = tSocket c2"
  proof (cases "threadPoolProcessing s")
    case False
    with request_processed [of "set_conn i c2 s" i c2 req env "threadPoolProcessing s" resp] 2(3) assms(10) 12
    show ?thesis by auto
  next
    case True
    obtain d where d: "transition env i (set_conn i c2 s)
        = (Inr (), (set_conn i d s)\<lparr>numActiveProcessors := numActiveProcessors s + 1, tasks := [i]\<rparr>)"
      "conn_ok d" "appState d = APP_WAIT_TASK" "tSocket d = tSocket c2" "ioThread d = ioThread c2"
      "memory_inv (inputTransport d)" "unread (inputTransport d) = req"
      "rBase (outputTransport d) = 0" "length (unread (outputTransport d)) = 4"
      using request_queued [of "set_conn i c2 s" i c2 req env] 2(3) True assms(9) by auto
    let ?q = "(set_conn i d s)\<lparr>numActiveProcessors := numActiveProcessors s + 1, tasks := [i]\<rparr>"
    have "ioThread d = Some (the (ioThread c))" using d(2,5) 2(8) 1(9) by (auto simp: conn_ok_def open_ok_def)
    from task_answered [of ?q i d, OF _ d(2,3) this _ _ _ _ d(6-9), of "numActiveProcessors s" env resp]
      True assms(9,10) obtain h c3 where
      t: "handle_events env ?pool ?q = (Inr (), (set_conn i c3 ?q)\<lparr>handler := h, numActiveProcessors := numActiveProcessors s, tasks := []\<rparr>)"
        "fetched resp c3" "tSocket c3 = tSocket d" by (auto simp: set_conn_def)
    have "(set_conn i c3 ?q)\<lparr>handler := h, numActiveProcessors := numActiveProcessors s, tasks := []\<rparr> = (set_conn i c3 s)\<lparr>handler := h\<rparr>"
      using True assms(9) by (cases s) (simp add: set_conn_def)
    with t d(4) handle_events_append [OF 12 [unfolded d(1)], of ?pool] show ?thesis by auto
  qed
  then obtain h c3 where 3: "handle_events env (replicate (n1 + n2) (SocketEvent i) @ ?pool) s = (Inr (), (set_conn i c3 s)\<lparr>handler := h\<rparr>)"
    "fetched resp c3" "tSocket c3 = tSocket c2" by blast
  let ?t = "(set_conn i c3 s)\<lparr>handler := h\<rparr>"
  have upd: "set_conn i c4 ?t = (set_conn i c4 s)\<lparr>handler := h\<rparr>" for c4 by (simp add: set_conn_def)
  obtain m c4 where 4: "m \<le> length (answer_frame resp)" "socket_events env i m ?t = (Inr (), (set_conn i c4 s)\<lparr>handler := h\<rparr>)"
    "live c4" "appState c4 = APP_READ_FRAME_SIZE" "readBufferPos c4 = 0" "unreceived c4 = unreceived c3"
    "transmitted c4 = transmitted c3 @ answer_frame resp"
    using fetched_sent [of ?t i c3 resp] 3(2,3) 2(4,5) by (auto simp: upd)
  have "handle_events env (replicate (n1 + n2) (SocketEvent i) @ ?pool @ replicate m (SocketEvent i)) s
      = (Inr (), (set_conn i c4 s)\<lparr>handler := h\<rparr>)"
    using handle_events_append [OF 3(1), of "replicate m (SocketEvent i)"] 4(2) by (simp add: handle_socket_events)
  moreover have "n1 + n2 \<le> length (frame_of req)" using 1(1) 2(1) by (simp add: frame_of_def)
  ultimately show ?thesis using 4 3(3) 2(6,7) 1(8)
    by (intro exI [of _ "n1 + n2"] exI [of _ m] exI [of _ h] exI [of _ c4] conjI) simp_all
qed

end

section \<open>The echo server over a pipe\<close>

interpretation echo: connected echo_env pipe_inv "\<lambda>k. concat (arriving k)" delivered
  by (unfold_locales) (use pipe.recv_stream pipe.recv_end pipe.clock pipe.send_stream echo_bounded in \<open>simp_all add: echo_env_def\<close>)

lemma echo_answers:
  assumes "length req \<le> 2 ^ 30"
  shows "answers echo_env whole u req req"
  unfolding answers_def
proof (intro allI impI)
  fix inp out
  assume a: "memory_inv inp" "unread inp = req" "memory_inv out" "owner out" "rBase out = 0" "length (unread out) = 4"
  have len: "length req \<le> wBase inp" using a(1,2) by auto
  obtain inp' where r: "memory_read (wBase inp) inp = (Inr req, inp')" "memory_inv inp'" "unread inp' = []"
    using memory_read_queue [OF a(1), of "wBase inp"] a(2) len by auto
  have "wBase out = 4" using a(3,5,6) by simp
  then obtain out' where "memory_write req out = (Inr (), out')" "memory_inv out'" "owner out'" "unread out' = unread out @ req"
    using memory_write_queue [OF a(3,4), of req] assms by auto
  moreover have "\<not> wBase out + length req > 2 ^ 31" using \<open>wBase out = 4\<close> assms by simp
  moreover have "\<not> rBase inp' < wBase inp'" using r(2,3) by (auto simp flip: length_0_conv)
  ultimately show "\<exists>b h' inp' out'. process echo_env (u, inp, out) = (Inr b, (h', inp', out')) \<and> memory_inv out' \<and> owner out'
        \<and> unread out' = unread out @ req \<and> (whole \<longrightarrow> b \<longrightarrow> \<not> rBase inp' < wBase inp')"
    using r(1) by (intro exI [of _ True]) (simp add: echo_env_def echo_process_def)
qed

section \<open>Every request is answered\<close>

text \<open>
  C7. A connection that waits for a frame, on a stream on which a frame with the request \<open>req\<close> has
  been sent, delivers the request to the processor and sends the answer \<open>resp\<close> back as a frame
  (nothing for a oneway call), however the kernel cuts them up: within as many socket events as the
  request frame has bytes it is complete, and within as many as the answer frame has bytes it is
  sent. Without a thread manager nothing else is needed. With one, which is running, has no other
  task and owes the IO thread of the connection no other notification, a worker takes the task in
  between and the IO thread reads its notification. The connection then waits for the next
  frame, the bytes after the request are unread, and neither the other connections nor the queues
  nor the count of active processors have changed.
\<close>

theorem nonblocking_request_answered:
  assumes "connected env kinv incoming outgoing"
    and "connections s i = Some c" and "conn_ok c" and "appState c = APP_READ_FRAME_SIZE" and "readBufferPos c = 0"
    and "socketFD (tSocket c) \<noteq> None" and "kinv (kernel (tSocket c))"
    and "incoming (kernel (tSocket c)) = frame_of req @ rest" and "req \<noteq> []"
    and "length req \<le> maxFrameSize s" and "maxFrameSize s < 2 ^ 31" and "ioThread c = Some t"
    and "threadPoolProcessing s \<longrightarrow> managerStarted s \<and> tasks s = [] \<and> (\<forall>j. (t, j) \<notin> set (notified s))"
    and "answers env (threadPoolProcessing s) (handler s) req resp"
  shows "\<exists>n m s' c'. n \<le> length (frame_of req) \<and> m \<le> length (frame_of resp)
    \<and> handle_events env (replicate n (SocketEvent i) @ (if threadPoolProcessing s then [Worker, Notification t] else [])
        @ replicate m (SocketEvent i)) s = (Inr (), s')
    \<and> connections s' i = Some c' \<and> conn_ok c' \<and> appState c' = APP_READ_FRAME_SIZE \<and> readBufferPos c' = 0
    \<and> incoming (kernel (tSocket c')) = rest
    \<and> outgoing (kernel (tSocket c')) = outgoing (kernel (tSocket c)) @ (if resp = [] then [] else frame_of resp)
    \<and> (\<forall>j. j \<noteq> i \<longrightarrow> connections s' j = connections s j) \<and> numActiveProcessors s' = numActiveProcessors s
    \<and> tasks s' = tasks s \<and> notified s' = notified s"
proof -
  have "connected.live kinv c" using assms(3,6,7) by (simp add: connected.live_def [OF assms(1)])
  from connected.request_answered [OF assms(1,2) this assms(4,5,8-11) _ assms(14)] assms(12,13) obtain n m h c' where
    n: "n \<le> length (frame_of req)" "m \<le> length (answer_frame resp)"
      "handle_events env (replicate n (SocketEvent i) @ (if threadPoolProcessing s then [Worker, Notification t] else [])
        @ replicate m (SocketEvent i)) s = (Inr (), (set_conn i c' s)\<lparr>handler := h\<rparr>)"
      "connected.live kinv c'" "appState c' = APP_READ_FRAME_SIZE" "readBufferPos c' = 0"
      "incoming (kernel (tSocket c')) = rest"
      "outgoing (kernel (tSocket c')) = outgoing (kernel (tSocket c)) @ answer_frame resp"
    by (metis option.sel)
  moreover have "length (answer_frame resp) \<le> length (frame_of resp)" by (simp add: answer_frame_def)
  ultimately show ?thesis
    by (intro exI [of _ n] exI [of _ m] exI [of _ "(set_conn i c' s)\<lparr>handler := h\<rparr>"] exI [of _ c'] conjI)
      (simp_all add: connected.live_def [OF assms(1)] answer_frame_def set_conn_def)
qed

theorem nonblocking_request_answered_witness:
  "\<exists>s s' c' n m. accept_connection echo_env 3
      \<lparr>arriving = [[0, 0], [0, 2, 7], [8, 5]], accepts = [1, 3], delivered = [], closed = False\<rparr> 0
      (newTNonblockingServer 1 True ()) = (Inr (), s)
    \<and> n \<le> 6 \<and> m \<le> 6 \<and> handle_events echo_env (replicate n (SocketEvent 0) @ [Worker, Notification 0] @ replicate m (SocketEvent 0)) s
        = (Inr (), s') \<and> connections s' 0 = Some c'
    \<and> delivered (kernel (tSocket c')) = [0, 0, 0, 2, 7, 8] \<and> concat (arriving (kernel (tSocket c'))) = [5]"
proof -
  let ?k = "\<lparr>arriving = [[0, 0], [0, 2, 7], [8, 5]], accepts = [1, 3], delivered = [], closed = False\<rparr>"
  obtain s c where s: "accept_connection echo_env 3 ?k 0 (newTNonblockingServer 1 True ()) = (Inr (), s)"
    and c: "connections s 0 = Some c" "conn_ok c" "appState c = APP_READ_FRAME_SIZE" "readBufferPos c = 0"
    and k: "tSocket c = \<lparr>socketFD = Some 3, recvTimeout = 0, maxRecvRetries = 5, kernel = ?k\<rparr>" "ioThread c = Some 0"
    and set: "maxFrameSize s = 256 * 1024 * 1024" "threadPoolProcessing s = True" "managerStarted s" "tasks s = []" "notified s = []"
    using first_client [where env = echo_env and fd = 3 and pool = True and h = "()" and k = ?k]
    by (elim exE conjE) (rule that)
  have frame: "frame_of [7, 8] = [0, 0, 0, 2, 7, 8]" by (simp add: frame_of_def be32_def mem32_def)
  have "\<exists>n m s' c'. n \<le> length (frame_of [7, 8]) \<and> m \<le> length (frame_of [7, 8])
    \<and> handle_events echo_env (replicate n (SocketEvent 0) @ (if threadPoolProcessing s then [Worker, Notification 0] else [])
        @ replicate m (SocketEvent 0)) s = (Inr (), s')
    \<and> connections s' 0 = Some c' \<and> conn_ok c' \<and> appState c' = APP_READ_FRAME_SIZE \<and> readBufferPos c' = 0
    \<and> concat (arriving (kernel (tSocket c'))) = [5]
    \<and> delivered (kernel (tSocket c')) = delivered (kernel (tSocket c)) @ (if [7 :: byte, 8] = [] then [] else frame_of [7, 8])
    \<and> (\<forall>j. j \<noteq> 0 \<longrightarrow> connections s' j = connections s j) \<and> numActiveProcessors s' = numActiveProcessors s
    \<and> tasks s' = tasks s \<and> notified s' = notified s"
    by (rule nonblocking_request_answered [OF echo.connected_axioms c])
      (use echo_answers [of "[7, 8]"] in \<open>simp_all add: k set frame pipe_inv_def\<close>)
  then obtain n m s' c' where "n \<le> 6" "m \<le> 6"
    "handle_events echo_env (replicate n (SocketEvent 0) @ [Worker, Notification 0] @ replicate m (SocketEvent 0)) s = (Inr (), s')"
    "connections s' 0 = Some c'" "concat (arriving (kernel (tSocket c'))) = [5]" "delivered (kernel (tSocket c')) = [0, 0, 0, 2, 7, 8]"
    by (auto simp: frame k set eval_nat_numeral)
  with s show ?thesis by blast
qed

end
