(* ===== verification/Spec2Isabelle.thy ===== *)
theory Spec2Isabelle
  imports BinaryProtocol PipedTransport CompactProtocol NativeClientReading Base64 JSONRoundTrip ServerLiveness
begin

text \<open>
  This development verifies the C++ runtime of Apache Thrift 0.9.1 as this repository ships it, with
  the protocol for browser values that was added for Native Client. Paths are below
  \<^verbatim>\<open>src/src/thrift-0.9.1/lib/cpp/src/thrift/\<close> unless they start with \<^verbatim>\<open>src/\<close>.

  \<^bold>\<open>The program.\<close> The compiler generates, from a schema, C++ classes whose \<^verbatim>\<open>read\<close> and \<^verbatim>\<open>write\<close>
  methods call a protocol (\<^verbatim>\<open>protocol/\<close>). A protocol encodes the structure of values in one wire
  format, on a transport (\<^verbatim>\<open>transport/\<close>), which moves bytes; buffering and framing transports wrap
  other transports, down to memory buffers and sockets. A server (\<^verbatim>\<open>server/\<close>) collects requests from
  sockets and hands them to a processor. The protocol of the Native Client port has no transport: it
  builds trees of \<^verbatim>\<open>pp::Var\<close> objects.

  \<^bold>\<open>How it is modelled.\<close> An object is a record of its fields; a method is a function from the state to
  its outcome and the state it leaves (the monad \<open>M\<close> of Prelude: exceptions, failed assertions,
  undefined behaviour and endless loops are outcomes). Virtual methods are a record of operations
  over the state (\<open>TTransport\<close>, \<open>TProtocol\<close>), so a class composed of others is a function of their
  records. Integers are words of their width, lengths and offsets are natural numbers with the
  wrap-around of \<^verbatim>\<open>uint32_t\<close> written out (\<open>u32\<close>), memory is a list of bytes and a pointer an offset into
  it. Doubles are their bit patterns. Log output and the texts of exceptions are dropped.

  \<^bold>\<open>Theories.\<close>
  \<^item> Prelude: integers, exceptions, the monad, memory. ByteOrder: byte order and \<^verbatim>\<open>htonll\<close> (macros of
    \<^verbatim>\<open>protocol/TProtocol.h\<close>).
  \<^item> Transport: \<^verbatim>\<open>transport/TTransport.h\<close>, the fast paths of \<^verbatim>\<open>TBufferBase\<close>, and the contracts
    \<open>reader\<close>, \<open>byte_source\<close>, \<open>buffer_source\<close>, \<open>byte_sink\<close>, \<open>steady_sink\<close>.
  \<^item> MemoryBuffer, BufferedTransport, FramedTransport: the classes of \<^verbatim>\<open>transport/TBufferTransports.h\<close>
    and \<^verbatim>\<open>.cpp\<close>. Each proves the contracts for its operations, given the contract of the transport it
    wraps, and interprets them over memory buffers. The memory buffer refines a queue of bytes; the
    framed transport is specified by \<open>frame_of\<close> and \<open>deframe\<close>.
  \<^item> PipedTransport: \<^verbatim>\<open>TNullTransport\<close> and \<^verbatim>\<open>TPipedTransport\<close> of \<^verbatim>\<open>transport/TTransportUtils.h\<close> and \<^verbatim>\<open>.cpp\<close>, which
    is again a byte source and a byte sink (locales \<open>piped_between\<close>, \<open>piped_over_sink\<close>).
  \<^item> Socket: \<^verbatim>\<open>transport/TSocket.cpp\<close> over system calls as a parameter.
  \<^item> Protocol: type tags, the protocol interface and \<^verbatim>\<open>skip\<close> of \<^verbatim>\<open>protocol/TProtocol.h\<close>, the values
    \<open>tval\<close> and the abstract wire format \<open>wire\<close>, with the locales \<open>wire_writer\<close> and \<open>wire_reader\<close>: what
    the operations of a protocol must do for generated code to write and read values.
  \<^item> Generated: the calls made by the methods that \<^verbatim>\<open>src/src/thrift-0.9.1/compiler/cpp/src/generate/t_cpp_generator.cc\<close>
    emits (\<open>write_value\<close>, \<open>read_into\<close> and its use on a new object, \<open>read_type\<close>), schemas (\<open>t_type\<close>) and
    \<open>project\<close>, what a reader of another version of a schema makes of a value: unknown fields are
    left out, repeated ones are merged, and a struct without a required member is refused.
  \<^item> BinaryProtocol: \<^verbatim>\<open>protocol/TBinaryProtocol.h\<close> and \<^verbatim>\<open>.tcc\<close>. Varint and CompactProtocol:
    \<^verbatim>\<open>protocol/TCompactProtocol.h\<close> and \<^verbatim>\<open>.tcc\<close>. Both interpret the wire locales.
  \<^item> Base64: \<^verbatim>\<open>protocol/TBase64Utils.cpp\<close>, which the JSON protocol uses for binary data. Double: conversions between integers and doubles.
  \<^item> PPVar: the operations of \<^verbatim>\<open>pp::Var\<close> the repository calls, as the locale \<open>ppapi\<close>. NativeClient,
    NativeClientValues, NativeClientReading: \<^verbatim>\<open>protocol/TNativeClientProtocol.cpp\<close> and the look-up of
    fields by name that \<^verbatim>\<open>src/tools/thrift-compiler.patch\<close> adds to generated readers.
  \<^item> JSONProtocol: \<^verbatim>\<open>protocol/TJSONProtocol.cpp\<close>. JSONText: the text of a value by recursion, and that
    the context stack writes it. JSONReading: the reader. JSONRoundTrip: a concrete number conversion.
  \<^item> NonblockingServer: the connections, tasks, notification pipes (one per IO thread) and the thread
    manager, which may be stopped, of \<^verbatim>\<open>server/TNonblockingServer.cpp\<close>. ServerConnection: what a single
    operation does to a well-formed connection. ServerInvariant: the step relation of the server and
    its invariant. ServerLiveness: requests are answered, with and without a thread manager.
  \<^item> This theory: the protocols over framed transports over sockets, and over piped transports.

  \<^bold>\<open>What is shown.\<close> Values survive a round trip through each protocol and each transport, and a
  reader of another version of the schema sees what \<open>project\<close> says; the bytes, the JSON text and
  the tree of objects are exactly those of a specification by recursion on the value; unknown fields
  are skipped exactly; every transport delivers the bytes in order, however its neighbours cut them
  up; malformed lengths, versions, frames and numbers raise the documented exceptions; buffers grow
  and loops end below 2 GiB. Every step of the non-blocking server keeps its connection lists, queues
  and counters consistent, and every request is answered as long as its thread manager runs. Some properties
  state what the code does where it is wrong: a buffer request beyond 2 GiB never returns, a tiny framed
  transport fails an assertion, a piped transport of size 0 never returns from a write, number keys are lost in \<^verbatim>\<open>pp::Var\<close> dictionaries, integers just beyond
  the precise range of a double are rounded, negative field ids cannot be read back from JSON, a
  malformed JSON number throws a pointer, a oneway message of the compact protocol changes its
  type, an empty frame aborts the server, and a request that a stopped thread manager refuses stays
  counted and may be followed by a use of the freed connection.

  \<^bold>\<open>Parameters.\<close> Code outside the repository is an argument, with what is relied on as a hypothesis:
  the operations of \<^verbatim>\<open>pp::Var\<close> (\<open>ppapi\<close>, with the store of PPVar as an instance), \<^verbatim>\<open>boost::lexical_cast\<close>
  (\<open>json_lexical\<close>, with decimal numbers as an instance), the system calls on a socket
  (\<open>kernel_stream\<close>, with a pipe as an instance), the processor of the server (\<open>sound_process\<close> and
  \<open>answers\<close>, with an echo), and the contents of fresh memory in the base64 coder.

  \<^bold>\<open>Bounds and fuel.\<close> \<open>skip\<close> and \<open>read_into\<close> recurse over nested input with fuel; \<open>size v + 2\<close> is
  enough for a value \<open>v\<close>, and running out is the outcome \<open>NonTermination\<close>, so that every theorem
  that a reader returns says so. The JSON reader scans tokens with fuel beyond the length of a number
  (30) and of the strings of the value. Loops on \<^verbatim>\<open>uint32_t\<close> sizes use \<open>while_option\<close>, whose value
  \<open>None\<close> is divergence. Messages and buffers stay below 2 GiB where a theorem says so, since lengths are
  signed 32-bit integers on the wire and the doubling loops wrap around beyond.

  \<^bold>\<open>Not modelled.\<close> The host is little endian with IEEE doubles, and an allocation succeeds. Connection
  set-up, listening sockets, TLS, files and zlib are operating system and library calls. The HTTP
  transports parse headers with C string functions on NUL-terminated buffers. Threads, mutexes and
  timers wrap pthreads; handlers of the server are atomic steps, and its overload policy, event-handler
  callbacks and listening loop are left out, as is the dispatch by libevent (\<open>workSocket\<close> starts after
  the assertion of \<open>eventHandler\<close> that the event is on the connection's own descriptor). \<^verbatim>\<open>TDenseProtocol\<close> depends on reflection data of an option
  of the generator; \<^verbatim>\<open>TDebugProtocol\<close> only prints. Of the compiler, only the calls emitted for
  reading and writing values are modelled, not the text of the classes, services, the parser or the
  generators for other languages. The example programs are glue to the browser.
\<close>

section \<open>Protocol over framed transport over socket\<close>

text \<open>
  A connected socket is a byte source, so \<^verbatim>\<open>TFramedTransport\<close> and the protocols run over it: the
  contracts compose.
\<close>

sublocale kernel_stream \<subseteq> framed_socket: framed_over_source "socket_ops sys" socket_inv "\<lambda>s. incoming (kernel s)"
  by unfold_locales

sublocale kernel_stream \<subseteq> binary_socket: binary_over_source "framed_ops (socket_ops sys)"
  "framed_rinv socket_inv (\<lambda>s. incoming (kernel s))" "framed_inp (\<lambda>s. incoming (kernel s))" cfg for cfg
  by unfold_locales

context kernel_stream
begin

lemma framed_socket_start:
  assumes "socket_inv t" and "well_framed (incoming (kernel t))" and "4 < sz" and "sz < 2 ^ 32"
  shows "framed_rinv socket_inv (\<lambda>s. incoming (kernel s)) (snd (newTFramedTransport t sz))"
    and "framed_inp (\<lambda>s. incoming (kernel s)) (snd (newTFramedTransport t sz)) = deframe (incoming (kernel t))"
  using assms by (auto simp: newTFramedTransport_eq framed_rinv_def framed_inp_eq)

lemma binary_socket_reads:
  assumes "socket_inv t" and "incoming (kernel t) = frame_of (binary_bytes v) @ rest" and "well_framed rest"
    and "4 < sz" and "sz < 2 ^ 32" and "length (binary_bytes v) < 2 ^ 31" and "binary_bytes v \<noteq> []"
    and "trans s = snd (newTFramedTransport t sz)" and "string_buf_ok s"
    and "binary_wf s v" and "conforms ty v" and "size v + 2 \<le> fuel"
  shows "\<exists>s'. read_type fuel (binary_ops (framed_ops (socket_ops sys))) ty s
      = (Inr (v, word_of_nat (length (binary_bytes v))), s')
    \<and> framed_inp (\<lambda>s. incoming (kernel s)) (trans s') = deframe rest"
proof -
  have f: "well_framed (incoming (kernel t))" "deframe (incoming (kernel t)) = binary_bytes v @ deframe rest"
    using well_framed_append [of "frame_of (binary_bytes v)" rest] well_framed_frame_of [of "binary_bytes v"] assms(2,3,6,7)
    by auto
  note start = framed_socket_start [OF assms(1) f(1) assms(4,5)]
  have "parses (binary_reading (framed_rinv socket_inv (\<lambda>s. incoming (kernel s))) (framed_inp (\<lambda>s. incoming (kernel s)))
      (binary_config s)) () (read_type fuel (binary_ops (framed_ops (socket_ops sys))) ty) (binary_bytes v) v ()"
    using binary_socket.binary_reader.read_type_parses [where cur = None and v = v and c = "()" and cfg = "binary_config s" and ty = ty and fuel = fuel]
      conforms_project [OF assms(11)] assms(10,12) by (simp add: binary_config_def)
  from this [unfolded parses_def, rule_format, of s "deframe rest"] start f(2) assms(8,9) show ?thesis
    by (auto simp: binary_reading_def)
qed

end

text \<open>
  C6. A struct that arrives on a socket as one frame of the binary protocol is read back by the
  generated reader through \<open>TBinaryProtocol\<close>, \<open>TFramedTransport\<close> and \<open>TSocket\<close>, however the kernel
  cuts up the stream, and the reader stops at the end of the frame.
\<close>

theorem binary_struct_over_socket:
  assumes "kernel_stream sys kinv incoming outgoing"
    and "socketFD t \<noteq> None" and "recvTimeout t * 1000 < 2 ^ 31" and "kinv (kernel t)"
    and "incoming (kernel t) = frame_of (binary_bytes v) @ rest" and "well_framed rest"
    and "4 < sz" and "sz < 2 ^ 32" and "length (binary_bytes v) < 2 ^ 31" and "binary_bytes v \<noteq> []"
    and "wf_value (okString 0) (okContainer 0) v" and "conforms ty v" and "size v + 2 \<le> fuel"
  shows "\<exists>s'. read_type fuel (binary_ops (framed_ops (socket_ops sys))) ty
      (newTBinaryProtocol (snd (newTFramedTransport t sz)))
        = (Inr (v, word_of_nat (length (binary_bytes v))), s')
    \<and> framed_inp (\<lambda>s. incoming (kernel s)) (trans s') = deframe rest"
proof -
  let ?s = "newTBinaryProtocol (snd (newTFramedTransport t sz))"
  have "kernel_stream.socket_inv kinv t"
    using assms(2-4) by (simp add: kernel_stream.socket_inv_def [OF assms(1)])
  moreover have "string_buf_ok ?s" "trans ?s = snd (newTFramedTransport t sz)" "binary_wf ?s v"
    using assms(11) by (simp_all add: string_buf_ok_def newTBinaryProtocol_def newTBinaryProtocol_limits_def)
  ultimately show ?thesis
    using kernel_stream.binary_socket_reads [OF assms(1), where s = ?s] assms(5-10,12,13) by blast
qed

theorem binary_struct_over_socket_witness:
  "\<exists>s'. read_type 100 (binary_ops (framed_ops (socket_ops pipe_sys))) sample_type
      (newTBinaryProtocol (snd (newTFramedTransport
        \<lparr>socketFD = Some 3, recvTimeout = 0, maxRecvRetries = 5,
         kernel = \<lparr>arriving = map (\<lambda>b. [b]) (frame_of (binary_bytes sample)), accepts = [], delivered = [], closed = False\<rparr>\<rparr> 512)))
        = (Inr (sample, 27), s')"
proof -
  let ?t = "\<lparr>socketFD = Some 3, recvTimeout = 0, maxRecvRetries = 5,
    kernel = \<lparr>arriving = map (\<lambda>b. [b]) (frame_of (binary_bytes sample)), accepts = [], delivered = [], closed = False\<rparr>\<rparr>"
  have "pipe_inv (kernel ?t)" "concat (arriving (kernel ?t)) = frame_of (binary_bytes sample) @ []"
    by (auto simp: pipe_inv_def)
  moreover have "length (binary_bytes sample) = 27" "size sample + 2 \<le> 100"
    by (simp_all add: binary_bytes_sample) (simp add: sample_def)
  ultimately show ?thesis
    using binary_struct_over_socket [OF pipe.kernel_stream_axioms, of ?t sample "[]" 512 sample_type 100]
      binary_wf_sample sample_conforms by fastforce
qed

section \<open>Protocol over piped transport\<close>

sublocale piped_between \<subseteq> binary_piped: binary_over_source "piped_ops U V" "tee_inv W d p" "piped_inp uinp" cfg
  for W d p cfg
  by unfold_locales

context piped_between
begin

lemma binary_piped_reads:
  assumes "tee_inv W d p (trans s)" and "piped_inp uinp (trans s) = binary_bytes v @ rest" and "string_buf_ok s"
    and "binary_wf s v" and "conforms ty v" and "size v + 2 \<le> fuel"
  shows "\<exists>s'. read_type fuel (binary_ops (piped_ops U V)) ty s = (Inr (v, word_of_nat (length (binary_bytes v))), s')
    \<and> tee_inv W d p (trans s') \<and> piped_inp uinp (trans s') = rest"
proof -
  have "parses (binary_reading (tee_inv W d p) (piped_inp uinp) (binary_config s)) ()
      (read_type fuel (binary_ops (piped_ops U V)) ty) (binary_bytes v) v ()"
    using binary_piped.binary_reader.read_type_parses [where cur = None and v = v and c = "()" and cfg = "binary_config s" and ty = ty and fuel = fuel]
      conforms_project [OF assms(5)] assms(4,6) by (simp add: binary_config_def)
  from this [unfolded parses_def, rule_format, of s rest] assms(1-3) show ?thesis
    by (auto simp: binary_reading_def)
qed

end

text \<open>
  C12. A request that is read by generated code through \<open>TPipedTransport\<close> is read correctly, \<open>readEnd\<close> then
  sends exactly its bytes to the second transport, and whatever had been read ahead is still there
  for the next request. What follows must not be longer than the request: beyond that \<open>readEnd\<close>
  may copy overlapping memory (\<open>piped_readEnd_overlap\<close>).
\<close>

theorem piped_request_is_logged:
  assumes "piped_between U uinv uinp V dinv doutp droom" and "uinv u" and "dinv d"
    and "uinp u = binary_bytes v @ rest" and "length rest \<le> length (binary_bytes v)"
    and "length (binary_bytes v) + length rest < 2 ^ 31" and "length (binary_bytes v) \<le> droom d"
    and "wf_value (okString 0) (okContainer 0) v" and "conforms ty v" and "size v + 2 \<le> fuel"
  shows "\<exists>s' t. read_type fuel (binary_ops (piped_ops U V)) ty (newTBinaryProtocol (newTPipedTransport u d))
        = (Inr (v, word_of_nat (length (binary_bytes v))), s')
    \<and> readEnd_virt (piped_ops U V) (trans s') = (Inr (word_of_nat (length (binary_bytes v))), t)
    \<and> doutp (dstTrans t) = doutp d @ binary_bytes v \<and> piped_inp uinp t = rest"
proof -
  let ?s = "newTBinaryProtocol (newTPipedTransport u d)"
  have s: "string_buf_ok ?s" "trans ?s = newTPipedTransport u d" "binary_wf ?s v"
    using assms(8) by (simp_all add: string_buf_ok_def newTBinaryProtocol_def newTBinaryProtocol_limits_def)
  have "piped_between.tee_inv uinv uinp (uinp u) d (Some True) (trans ?s)"
    "piped_inp uinp (trans ?s) = binary_bytes v @ rest"
    using piped_between.piped_start [OF assms(1,2), of d] assms(4,6) s(2) by simp_all
  from piped_between.binary_piped_reads [OF assms(1) this s(1,3) assms(9,10)]
  obtain s' where r: "read_type fuel (binary_ops (piped_ops U V)) ty ?s
      = (Inr (v, word_of_nat (length (binary_bytes v))), s')"
    "piped_between.tee_inv uinv uinp (uinp u) d (Some True) (trans s')" "piped_inp uinp (trans s') = rest"
    by blast
  show ?thesis
    using piped_between.piped_readEnd_ok [OF assms(1) r(2) assms(3), of "binary_bytes v"] r(1,3) assms(4,5,7)
    by (simp add: piped_ops_def) blast
qed

theorem piped_request_is_logged_witness:
  "\<exists>s' t. read_type 100 (binary_ops (piped_ops memory_ops memory_ops)) sample_type
      (newTBinaryProtocol (newTPipedTransport (snd (memory_write (binary_bytes sample @ [1, 2]) (newTMemoryBuffer 64)))
        (newTMemoryBuffer 64))) = (Inr (sample, 27), s')
    \<and> readEnd_virt (piped_ops memory_ops memory_ops) (trans s') = (Inr 27, t)
    \<and> unread (dstTrans t) = binary_bytes sample \<and> piped_inp unread t = [1, 2]"
proof -
  let ?new = "newTMemoryBuffer 64"
  have new: "memory_inv ?new" "owner ?new" "unread ?new = []" "wBase ?new = 0"
    by (simp_all add: newTMemoryBuffer_def initCommon_def memory_inv_def unread_def)
  have len: "length (binary_bytes sample) = 27" "size sample + 2 \<le> 100"
    by (simp_all add: binary_bytes_sample) (simp add: sample_def)
  obtain u where "memory_write (binary_bytes sample @ [1, 2]) ?new = (Inr (), u)" "memory_inv u" "owner u"
    "unread u = binary_bytes sample @ [1, 2]"
    using memory_write_queue [OF new(1,2), of "binary_bytes sample @ [1, 2]"] new(3,4) len(1) by auto
  then show ?thesis
    using piped_request_is_logged [OF piped_memory.piped_between_axioms, of u ?new sample "[1, 2]" sample_type 100]
      new len binary_wf_sample sample_conforms by fastforce
qed

end
